(* ===== verification/Prelude.thy ===== *)
theory Prelude
  imports Main "HOL-Library.Word" "HOL-Library.Char_ord" "HOL-Library.Signed_Division"
begin

text \<open>
  Shared vocabulary of the development: names for the machine integers of the
  \<^verbatim>\<open>wasm32\<close> target, the result type of code that may abort, its
  sequencing operator, and the facts on words, bytes and lists that the
  component theories share.

  \<^item> \<open>u8\<close>, \<open>u32\<close>, \<open>u64\<close>, \<open>u128\<close> are the unsigned integers; a signed
    integer is the same word read with \<open>sint\<close>. \<^verbatim>\<open>size_t\<close> and pointers
    are 32 bits wide on the target.
  \<^item> A call of \<^verbatim>\<open>wasm::check\<close> whose predicate is false aborts the
    transaction; the abort is the value \<open>Inl f\<close> of a result. A construct that
    the C++ standard leaves undefined (a shift by the width or more, a signed
    overflow) is \<open>Inl (Undefined why)\<close>, so no theorem silently relies on it.
\<close>

unbundle bit_operations_syntax

section \<open>Types\<close>

type_synonym u8 = "8 word"
type_synonym u16 = "16 word"
type_synonym u32 = "32 word"
type_synonym u64 = "64 word"
type_synonym u128 = "128 word"
type_synonym byte = "8 word"

datatype fault =
    Assert string
  | Assert_code u64
  | Undefined string

type_synonym 'a res = "fault + 'a"

section \<open>Sequencing of results\<close>

definition bindr :: "'a res \<Rightarrow> ('a \<Rightarrow> 'b res) \<Rightarrow> 'b res" where
  "bindr m f = (case m of Inl e \<Rightarrow> Inl e | Inr x \<Rightarrow> f x)"

definition mapr :: "('a \<Rightarrow> 'b) \<Rightarrow> 'a res \<Rightarrow> 'b res" where
  "mapr f m = bindr m (\<lambda>x. Inr (f x))"

lemma bindr_simps [simp]:
  "bindr (Inl e) f = Inl e"
  "bindr (Inr x) f = f x"
  by (simp_all add: bindr_def)

lemma mapr_simps [simp]:
  "mapr f (Inl e) = Inl e"
  "mapr f (Inr x) = Inr (f x)"
  by (simp_all add: mapr_def)

lemma bindr_assoc: "bindr (bindr m f) g = bindr m (\<lambda>x. bindr (f x) g)"
  by (cases m) simp_all

lemma bindr_Inr_right [simp]: "bindr m Inr = m"
  by (cases m) simp_all

lemma bindr_eq_Inr: "bindr m f = Inr y \<longleftrightarrow> (\<exists>x. m = Inr x \<and> f x = Inr y)"
  by (cases m) auto

lemma bindr_eq_Inl: "bindr m f = Inl e \<longleftrightarrow> m = Inl e \<or> (\<exists>x. m = Inr x \<and> f x = Inl e)"
  by (cases m) auto

lemma mapr_eq_Inr: "mapr f m = Inr y \<longleftrightarrow> (\<exists>x. m = Inr x \<and> y = f x)"
  by (cases m) auto

lemma mapr_eq_Inl: "mapr f m = Inl e \<longleftrightarrow> m = Inl e"
  by (cases m) auto

lemma bindr_cong [fundef_cong]:
  "m = m' \<Longrightarrow> (\<And>x. m' = Inr x \<Longrightarrow> f x = g x) \<Longrightarrow> bindr m f = bindr m' g"
  by (cases m') auto

lemma mapr_mapr: "mapr f (mapr g m) = mapr (f \<circ> g) m"
  by (cases m) simp_all

lemma bindr_mapr: "bindr (mapr f m) g = bindr m (g \<circ> f)"
  by (cases m) simp_all

named_theorems res_simps \<open>elimination of results in hypotheses\<close>

lemmas [res_simps] = bindr_eq_Inr bindr_eq_Inl mapr_eq_Inr mapr_eq_Inl

section \<open>Characters and bytes\<close>

text \<open>
  C++ strings are Isabelle strings; \<open>byte_of_char\<close> and \<open>char_of_byte\<close> are the
  reinterpretation of a \<^verbatim>\<open>char\<close> as the byte it occupies in memory.
\<close>

definition byte_of_char :: "char \<Rightarrow> byte" where
  "byte_of_char c = of_nat (of_char c)"

definition char_of_byte :: "byte \<Rightarrow> char" where
  "char_of_byte b = char_of (unat b)"

lemma unat_byte_of_char [simp]: "unat (byte_of_char c) = of_char c"
  by (simp add: byte_of_char_def unat_of_nat take_bit_eq_mod)

lemma byte_less_256 [simp]: "unat (b::byte) < 256"
  using unsigned_less [of b] by simp

lemma char_of_byte_of_char [simp]: "char_of_byte (byte_of_char c) = c"
  by (simp add: char_of_byte_def)

lemma byte_of_char_of_byte [simp]: "byte_of_char (char_of_byte b) = b"
  by (simp add: char_of_byte_def byte_of_char_def of_char_of)

lemma map_char_of_byte_of_char [simp]: "map (char_of_byte \<circ> byte_of_char) s = s"
  by (induction s) simp_all

section \<open>Words\<close>

lemma unat_u32_less [simp]: "unat (w::u32) < 4294967296"
  using unsigned_less [of w] by simp

lemma unat_u64_less [simp]: "unat (w::u64) < 18446744073709551616"
  using unsigned_less [of w] by simp

lemma word_of_nat_unat: "of_nat (unat w) = (w::'a::len word)"
  by (simp add: ucast_id)

lemma word_eq_of_natI: "unat w = n \<Longrightarrow> w = of_nat n"
  using word_of_nat_unat [of w] by simp

lemma word_or_eq_plus:
  fixes a b :: "'a::len word"
  assumes "a AND b = 0"
  shows "a OR b = a + b"
  using assms by (simp add: word_plus_and_or [of a b, symmetric])

lemma unat_push_bit: "unat (push_bit n (w::'a::len word)) = unat w * 2 ^ n mod 2 ^ LENGTH('a)"
  by (subst unsigned_push_bit_eq) (simp add: take_bit_eq_mod push_bit_eq_mult)

lemma unat_push_bit_small:
  "unat (w::'a::len word) * 2 ^ n < 2 ^ LENGTH('a) \<Longrightarrow> unat (push_bit n w) = unat w * 2 ^ n"
  by (simp only: unat_push_bit mod_less)

lemma unat_drop_bit: "unat (drop_bit n (w::'a::len word)) = unat w div 2 ^ n"
  by (subst unsigned_drop_bit_eq) (simp add: drop_bit_eq_div take_bit_eq_mod)

lemma unat_take_bit: "unat (take_bit n (w::'a::len word)) = unat w mod 2 ^ n"
  by (subst unsigned_take_bit_eq) (simp add: take_bit_eq_mod)

lemma unat_and_mask: "unat (w AND mask n) = unat (w::'a::len word) mod 2 ^ n"
  by (simp only: unat_take_bit flip: take_bit_eq_mask)

lemma top_bit_iff: "bit w (LENGTH('a) - 1) \<longleftrightarrow> 2 ^ (LENGTH('a) - 1) \<le> unat w" for w :: "'a::len word"
proof -
  define n where "n = LENGTH('a) - 1"
  have L: "LENGTH('a) = Suc n" by (simp add: n_def)
  have "unat w div 2 ^ n < 2"
    using unsigned_less [of w] by (intro less_mult_imp_div_less) (simp add: L)
  then have "odd (unat w div 2 ^ n) \<longleftrightarrow> unat w div 2 ^ n \<noteq> 0"
    by (cases "unat w div 2 ^ n = 0") (auto simp: less_2_cases_iff)
  then have "odd (unat w div 2 ^ n) \<longleftrightarrow> 2 ^ n \<le> unat w"
    by (simp add: div_eq_0_iff not_less)
  moreover have "bit w n \<longleftrightarrow> bit (unat w) n"
    by (simp add: bit_unsigned_iff L)
  ultimately show ?thesis by (simp add: n_def bit_iff_odd)
qed

lemma sint_alt:
  "sint w = (if unat w < 2 ^ (LENGTH('a) - 1) then int (unat w) else int (unat w) - 2 ^ LENGTH('a))"
  for w :: "'a::len word"
proof -
  have "sint w = take_bit LENGTH('a) (uint w) - 2 ^ LENGTH('a) * of_bool (bit (uint w) (LENGTH('a) - 1))"
    by (simp add: sint_uint signed_take_bit_eq_take_bit_minus)
  also have "bit (uint w) (LENGTH('a) - 1) \<longleftrightarrow> \<not> unat w < 2 ^ (LENGTH('a) - 1)"
    using top_bit_iff [of w] by (simp add: bit_unsigned_iff not_less)
  also have "take_bit LENGTH('a) (uint w) = int (unat w)"
    by (simp add: take_bit_int_eq_self)
  finally show ?thesis by simp
qed

lemma unat_not: "unat (NOT w) = 2 ^ LENGTH('a) - 1 - unat w" for w :: "'a::len word"
proof -
  have "NOT w = of_nat (2 ^ LENGTH('a) - 1 - unat w)"
  proof -
    have "unat w \<le> 2 ^ LENGTH('a) - 1" by (metis Suc_pred' unsigned_less less_Suc_eq_le zero_less_power zero_less_numeral One_nat_def)
    then have "(of_nat (2 ^ LENGTH('a) - 1 - unat w) :: 'a word) = of_nat (2 ^ LENGTH('a) - 1) - of_nat (unat w)"
      by (rule of_nat_diff)
    also have "\<dots> = - 1 - w" by (simp add: of_nat_diff ucast_id)
    finally show ?thesis by (simp add: not_eq_complement)
  qed
  then show ?thesis by (simp add: unat_of_nat take_bit_eq_mod)
qed

lemma unat_uminus:
  fixes k :: "'a::len word"
  assumes "k \<noteq> 0"
  shows "unat (- k) = 2 ^ LENGTH('a) - unat k"
proof -
  have "- k = NOT (k - 1)" by (simp add: not_eq_complement)
  moreover have "unat k \<noteq> 0" using assms by (simp add: unsigned_eq_0_iff)
  ultimately show ?thesis
    using assms by (simp add: unat_not unat_minus_one)
qed

lemma sint_eq_unat:
  "unat w < 2 ^ (LENGTH('a) - 1) \<Longrightarrow> sint w = int (unat w)" for w :: "'a::len word"
  by (simp add: sint_alt)

lemma ucast_up_down [simp]: "LENGTH('a::len) \<le> LENGTH('b::len) \<Longrightarrow> ucast (ucast w :: 'b word) = (w :: 'a word)"
  by (rule bit_word_eqI) (simp add: bit_simps)

lemma unat_ucast_up:
  assumes "LENGTH('a::len) \<le> LENGTH('b::len)"
  shows "unat (ucast w :: 'b word) = unat (w :: 'a word)"
proof -
  have "unat w < 2 ^ LENGTH('a)" by simp
  also have "\<dots> \<le> (2::nat) ^ LENGTH('b)" using assms by (simp add: power_increasing)
  finally show ?thesis by (simp add: unsigned_ucast_eq take_bit_eq_mod)
qed

lemma sint_injectD: "sint a = sint b \<Longrightarrow> a = (b::'a::len word)"
  by (rule signed_word_eqI)

lemma unat_of_nat_small: "n < 2 ^ LENGTH('a) \<Longrightarrow> unat (of_nat n :: 'a::len word) = n"
  by (simp add: unat_of_nat take_bit_eq_mod)

lemma unat_of_nat_u32: "n < 2 ^ 32 \<Longrightarrow> unat (of_nat n :: u32) = n"
  by (simp add: unat_of_nat take_bit_eq_mod)

text \<open>
  Shifting left and or-ing in a chunk that fits in the vacated bits is an
  addition, which is how the encoders below pack characters into an integer.
\<close>

lemma push_bit_or_add:
  fixes v x :: "'a::len word"
  assumes "unat x < 2 ^ n"
  shows "push_bit n v OR x = push_bit n v + x"
proof (rule word_or_eq_plus)
  have "take_bit n x = x"
    using assms by (intro word_unat_eq_iff [THEN iffD2]) (simp add: unat_take_bit)
  then have "\<not> bit x k" if "n \<le> k" for k
    using that by (metis bit_take_bit_iff not_le)
  then show "push_bit n v AND x = 0"
    by (auto simp: bit_eq_iff bit_simps)
qed

section \<open>The object representation of integers\<close>

text \<open>
  The bytes of an integer in memory, least significant first, as \<^verbatim>\<open>wasm32\<close>
  stores them, and the integer read back from bytes.
\<close>

definition le_bytes :: "nat \<Rightarrow> 'a::len word \<Rightarrow> byte list" where
  "le_bytes n w = map (\<lambda>i. ucast (drop_bit (8 * i) w)) [0..<n]"

primrec le_word :: "byte list \<Rightarrow> 'a::len word" where
  "le_word [] = 0"
| "le_word (b # bs) = ucast b OR push_bit 8 (le_word bs)"

lemma length_le_bytes [simp]: "length (le_bytes n w) = n"
  by (simp add: le_bytes_def)

lemma nth_le_bytes [simp]: "i < n \<Longrightarrow> le_bytes n w ! i = ucast (drop_bit (8 * i) w)"
  by (simp add: le_bytes_def)

lemma bit_le_word:
  "bit (le_word bs :: 'a::len word) n \<longleftrightarrow>
     n < LENGTH('a) \<and> n div 8 < length bs \<and> bit (bs ! (n div 8)) (n mod 8)"
proof (induction bs arbitrary: n)
  case Nil
  then show ?case by simp
next
  case (Cons b bs)
  show ?case
  proof (cases "n < 8")
    case True
    then show ?thesis by (auto simp: bit_simps)
  next
    case False
    then have "n div 8 = Suc ((n - 8) div 8)" and "(n - 8) mod 8 = n mod 8"
      by (simp_all add: le_div_geq le_mod_geq)
    moreover from False have "\<not> bit b n"
      using bit_imp_le_length [of b n] by auto
    ultimately show ?thesis
      using False Cons.IH [of "n - 8"] by (auto simp: bit_simps)
  qed
qed

lemma le_word_le_bytes:
  fixes w :: "'a::len word"
  assumes "LENGTH('a) \<le> 8 * n"
  shows "le_word (le_bytes n w) = w"
proof (rule bit_word_eqI)
  fix k
  assume k: "k < LENGTH('a)"
  then have "k div 8 < n" and "8 * (k div 8) + k mod 8 = k"
    using assms by (auto simp: less_mult_imp_div_less mult.commute)
  then show "bit (le_word (le_bytes n w) :: 'a word) k = bit w k"
    using k by (simp add: bit_le_word bit_simps)
qed

lemma le_bytes_le_word:
  assumes "length bs = n" and "8 * n \<le> LENGTH('a)"
  shows "le_bytes n (le_word bs :: 'a::len word) = bs"
proof (rule nth_equalityI)
  fix i
  assume i: "i < length (le_bytes n (le_word bs :: 'a word))"
  show "le_bytes n (le_word bs :: 'a word) ! i = bs ! i"
  proof (rule bit_word_eqI)
    fix k
    assume "k < LENGTH(8)"
    then have k: "k < 8" by simp
    with i assms have "8 * i + k < LENGTH('a)" by simp
    with i k assms show "bit (le_bytes n (le_word bs :: 'a word) ! i) k = bit (bs ! i) k"
      by (auto simp: bit_le_word bit_simps)
  qed
qed (simp add: assms)

text \<open>Comparing numbers by their high parts first.\<close>

lemma halves_less:
  fixes h l h' l' :: nat
  assumes "l < M" "l' < M"
  shows "h * M + l < h' * M + l' \<longleftrightarrow> (if h = h' then l < l' else h < h')"
proof (cases h h' rule: linorder_cases)
  case less
  then have "Suc h * M \<le> h' * M" by (intro mult_right_mono) simp_all
  with less assms show ?thesis by simp
next
  case greater
  then have "Suc h' * M \<le> h * M" by (intro mult_right_mono) simp_all
  with greater assms show ?thesis by simp
qed simp

section \<open>Signed 64-bit arithmetic\<close>

definition int64_min :: int where
  "int64_min = - (2 ^ 63)"

definition fits64 :: "int \<Rightarrow> bool" where
  "fits64 i = (int64_min \<le> i \<and> i < 2 ^ 63)"

definition signed64 :: "int \<Rightarrow> u64 res" where
  "signed64 i = (if fits64 i then Inr (word_of_int i) else Inl (Undefined ''signed overflow''))"

lemma sint_of_fits64: "fits64 i \<Longrightarrow> sint (word_of_int i :: u64) = i"
  by (simp add: fits64_def int64_min_def signed_of_int signed_take_bit_int_eq_self)

lemma signed64_eq: "fits64 i \<Longrightarrow> signed64 i = Inr (word_of_int i)"
  by (simp add: signed64_def)

end
