(* ===== verification/Memory.thy ===== *)
theory Memory
  imports Prelude
begin

text \<open>
  The byte-addressed linear memory of a \<^verbatim>\<open>wasm32\<close> module and the four block
  operations of \<^verbatim>\<open>libraries/wasmlib/memory.cpp\<close>. An address is a 32-bit
  word, so address arithmetic wraps; that an address lies below the current
  memory size is not modelled (an access beyond it traps).

  The loops of the source run over an index from 0 upwards, one byte at a time.
  Reading and writing are therefore sequential, which matters when source and
  destination of \<open>memcpy\<close> overlap, and is what \<open>memmove\<close> avoids with its
  intermediate buffer.
\<close>

type_synonym mem = "u32 \<Rightarrow> byte"

section \<open>Blocks of memory\<close>

definition mem_read :: "mem \<Rightarrow> u32 \<Rightarrow> nat \<Rightarrow> byte list" where
  "mem_read m a n = map (\<lambda>i. m (a + of_nat i)) [0..<n]"

primrec mem_write :: "mem \<Rightarrow> u32 \<Rightarrow> byte list \<Rightarrow> mem" where
  "mem_write m a [] = m"
| "mem_write m a (b # bs) = mem_write (m(a := b)) (a + 1) bs"

lemma length_mem_read [simp]: "length (mem_read m a n) = n"
  by (simp add: mem_read_def)

lemma nth_mem_read [simp]: "i < n \<Longrightarrow> mem_read m a n ! i = m (a + of_nat i)"
  by (simp add: mem_read_def)

lemma mem_read_0 [simp]: "mem_read m a 0 = []"
  by (simp add: mem_read_def)

lemma mem_read_Suc: "mem_read m a (Suc n) = m a # mem_read m (a + 1) n"
  by (rule nth_equalityI) (auto simp: nth_Cons' add.assoc of_nat_diff split: nat.splits)

lemma mem_read_append:
  "mem_read m a (j + k) = mem_read m a j @ mem_read m (a + of_nat j) k"
proof (induction j arbitrary: a)
  case 0
  then show ?case by simp
next
  case (Suc j)
  then show ?case by (simp add: mem_read_Suc algebra_simps)
qed

lemma take_mem_read: "k \<le> n \<Longrightarrow> take k (mem_read m a n) = mem_read m a k"
  by (rule nth_equalityI) auto

lemma drop_mem_read: "drop k (mem_read m a n) = mem_read m (a + of_nat k) (n - k)"
  by (rule nth_equalityI) (auto simp: algebra_simps)

lemma of_nat_u32_eq_iff:
  "j < 2 ^ 32 \<Longrightarrow> k < 2 ^ 32 \<Longrightarrow> (of_nat j :: u32) = of_nat k \<longleftrightarrow> j = k"
  by (simp add: word_unat_eq_iff unat_of_nat take_bit_eq_mod)

text \<open>What a written block holds, and what it leaves alone.\<close>

lemma mem_write_outside:
  "(\<And>i. i < length bs \<Longrightarrow> x \<noteq> a + of_nat i) \<Longrightarrow> mem_write m a bs x = m x"
proof (induction bs arbitrary: m a)
  case Nil
  then show ?case by simp
next
  case (Cons b bs)
  have "x \<noteq> a + 1 + of_nat i" if "i < length bs" for i
    using Cons.prems [of "Suc i"] that by (simp add: algebra_simps)
  then have "mem_write (m(a := b)) (a + 1) bs x = (m(a := b)) x"
    by (rule Cons.IH)
  then show ?case
    using Cons.prems [of 0] by simp
qed

lemma mem_write_inside:
  "i < length bs \<Longrightarrow> length bs \<le> 2 ^ 32 \<Longrightarrow> mem_write m a bs (a + of_nat i) = bs ! i"
proof (induction bs arbitrary: m a i)
  case Nil
  then show ?case by simp
next
  case (Cons b bs)
  show ?case
  proof (cases i)
    case 0
    have "a \<noteq> a + 1 + of_nat j" if "j < length bs" for j
      using that Cons.prems of_nat_u32_eq_iff [of 0 "Suc j"]
      by (simp add: add.assoc flip: of_nat_Suc)
    then show ?thesis
      using 0 mem_write_outside [of bs a "a + 1" "m(a := b)"] by simp
  next
    case (Suc j)
    with Cons.prems have "mem_write (m(a := b)) (a + 1) bs (a + 1 + of_nat j) = bs ! j"
      by (intro Cons.IH) auto
    then show ?thesis
      using Suc by (simp add: add.assoc)
  qed
qed

lemma mem_write_local:
  "m x = m' x \<Longrightarrow> mem_write m a bs x = mem_write m' a bs x"
proof (induction bs arbitrary: m m' a)
  case Nil
  then show ?case by simp
next
  case (Cons b bs)
  then have "(m(a := b)) x = (m'(a := b)) x" by simp
  then have "mem_write (m(a := b)) (a + 1) bs x = mem_write (m'(a := b)) (a + 1) bs x"
    by (rule Cons.IH)
  then show ?case by simp
qed

lemma mem_read_write:
  "length bs \<le> 2 ^ 32 \<Longrightarrow> mem_read (mem_write m a bs) a (length bs) = bs"
  by (rule nth_equalityI) (auto simp: mem_write_inside)

lemma mem_write_append:
  "mem_write m a (bs @ cs) = mem_write (mem_write m a bs) (a + of_nat (length bs)) cs"
  by (induction bs arbitrary: m a) (simp_all add: algebra_simps)

lemma mem_read_write_before:
  assumes "n + length bs \<le> 2 ^ 32"
  shows "mem_read (mem_write m (a + of_nat n) bs) a n = mem_read m a n"
proof (rule nth_equalityI)
  fix i
  assume "i < length (mem_read (mem_write m (a + of_nat n) bs) a n)"
  then have i: "i < n" by simp
  have "a + of_nat i \<noteq> a + of_nat n + of_nat j" if "j < length bs" for j
    using that i assms of_nat_u32_eq_iff [of i "n + j"] by (simp add: add.assoc flip: of_nat_add)
  then show "mem_read (mem_write m (a + of_nat n) bs) a n ! i = mem_read m a n ! i"
    using i by (simp add: mem_write_outside)
qed simp

section \<open>memory.cpp\<close>

function memset_from :: "mem \<Rightarrow> u32 \<Rightarrow> byte \<Rightarrow> nat \<Rightarrow> nat \<Rightarrow> mem" where
  "memset_from m p c i n =
     (if i < n then memset_from (m(p + of_nat i := c)) p c (Suc i) n else m)"
  by pat_completeness auto
termination
  by (relation "measure (\<lambda>(m, p, c, i, n). n - i)") auto

definition memset :: "mem \<Rightarrow> u32 \<Rightarrow> u32 \<Rightarrow> u32 \<Rightarrow> mem" where
  "memset m ptr c n = memset_from m ptr (ucast c) 0 (unat n)"

function memcpy_from :: "mem \<Rightarrow> u32 \<Rightarrow> u32 \<Rightarrow> nat \<Rightarrow> nat \<Rightarrow> mem" where
  "memcpy_from m p1 p2 i n =
     (if i < n then memcpy_from (m(p1 + of_nat i := m (p2 + of_nat i))) p1 p2 (Suc i) n else m)"
  by pat_completeness auto
termination
  by (relation "measure (\<lambda>(m, p1, p2, i, n). n - i)") auto

definition memcpy :: "mem \<Rightarrow> u32 \<Rightarrow> u32 \<Rightarrow> u32 \<Rightarrow> mem" where
  "memcpy m ptr1 ptr2 n = memcpy_from m ptr1 ptr2 0 (unat n)"

text \<open>
  \<open>memmove\<close> copies through a buffer \<open>p3\<close> obtained from \<^verbatim>\<open>new uint8_t[n]\<close>;
  the address the allocator returns is an argument of the model.
\<close>

definition memmove :: "mem \<Rightarrow> u32 \<Rightarrow> u32 \<Rightarrow> u32 \<Rightarrow> u32 \<Rightarrow> mem" where
  "memmove m p3 ptr1 ptr2 n = memcpy (memcpy m p3 ptr2 n) ptr1 p3 n"

function memcmp_from :: "mem \<Rightarrow> u32 \<Rightarrow> u32 \<Rightarrow> nat \<Rightarrow> nat \<Rightarrow> int" where
  "memcmp_from m p1 p2 i n =
     (if i < n then
        (if m (p1 + of_nat i) < m (p2 + of_nat i) then - 1
         else if m (p1 + of_nat i) > m (p2 + of_nat i) then 1
         else memcmp_from m p1 p2 (Suc i) n)
      else 0)"
  by pat_completeness auto
termination
  by (relation "measure (\<lambda>(m, p1, p2, i, n). n - i)") auto

definition memcmp :: "mem \<Rightarrow> u32 \<Rightarrow> u32 \<Rightarrow> u32 \<Rightarrow> int" where
  "memcmp m ptr1 ptr2 n = memcmp_from m ptr1 ptr2 0 (unat n)"

declare memset_from.simps [simp del] memcpy_from.simps [simp del] memcmp_from.simps [simp del]

subsection \<open>Block copies\<close>

definition blocks_disjoint :: "u32 \<Rightarrow> nat \<Rightarrow> u32 \<Rightarrow> nat \<Rightarrow> bool" where
  "blocks_disjoint a n b k = (\<forall>i<n. \<forall>j<k. a + of_nat i \<noteq> b + of_nat j)"

lemma blocks_disjointD:
  "blocks_disjoint a n b k \<Longrightarrow> i < n \<Longrightarrow> j < k \<Longrightarrow> a + of_nat i \<noteq> b + of_nat j"
  by (simp add: blocks_disjoint_def)

lemma mem_read_cong:
  "(\<And>i. i < n \<Longrightarrow> m (a + of_nat i) = m' (a + of_nat i)) \<Longrightarrow> mem_read m a n = mem_read m' a n"
  by (rule nth_equalityI) auto

lemma mem_read_write_disjoint:
  "blocks_disjoint a n b (length bs) \<Longrightarrow> mem_read (mem_write m b bs) a n = mem_read m a n"
  by (rule mem_read_cong) (auto intro!: mem_write_outside dest: blocks_disjointD)

lemma memset_from_eq:
  "memset_from m p c i n = mem_write m (p + of_nat i) (replicate (n - i) c)"
proof (induction m p c i n rule: memset_from.induct)
  case (1 m p c i n)
  show ?case
  proof (cases "i < n")
    case True
    then have "n - i = Suc (n - Suc i)" by simp
    then show ?thesis
      using "1.IH" True by (simp add: memset_from.simps [of m p c i n] fun_upd_def algebra_simps)
  next
    case False
    then show ?thesis by (simp add: memset_from.simps)
  qed
qed

lemma memcpy_from_eq:
  assumes "blocks_disjoint p1 n p2 n"
  shows "memcpy_from m p1 p2 i n = mem_write m (p1 + of_nat i) (mem_read m (p2 + of_nat i) (n - i))"
  using assms
proof (induction m p1 p2 i n rule: memcpy_from.induct)
  case (1 m p1 p2 i n)
  show ?case
  proof (cases "i < n")
    case True
    let ?m = "m(p1 + of_nat i := m (p2 + of_nat i))"
    have n: "n - i = Suc (n - Suc i)" using True by simp
    have "mem_read ?m (p2 + of_nat i + 1) (n - Suc i) = mem_read m (p2 + of_nat i + 1) (n - Suc i)"
    proof (rule mem_read_cong)
      fix j
      assume "j < n - Suc i"
      then have "p1 + of_nat i \<noteq> p2 + of_nat (Suc (i + j))"
        using True "1.prems" by (intro blocks_disjointD) auto
      then show "?m (p2 + of_nat i + 1 + of_nat j) = m (p2 + of_nat i + 1 + of_nat j)"
        by (simp add: algebra_simps)
    qed
    then show ?thesis
      using "1.IH" "1.prems" True n
      by (simp add: memcpy_from.simps [of m p1 p2 i n] mem_read_Suc fun_upd_def algebra_simps)
  next
    case False
    then show ?thesis by (simp add: memcpy_from.simps)
  qed
qed

lemma memcpy_eq_write:
  "blocks_disjoint p1 (unat n) p2 (unat n) \<Longrightarrow> memcpy m p1 p2 n = mem_write m p1 (mem_read m p2 (unat n))"
  by (simp add: memcpy_def memcpy_from_eq)

lemma memset_eq_write: "memset m p c n = mem_write m p (replicate (unat n) (ucast c))"
  by (simp add: memset_def memset_from_eq)

subsection \<open>Properties\<close>

text \<open>
  C33. \<open>memmove\<close> has the effect its contract promises even when source and
  destination overlap: provided the buffer it allocates overlaps neither block,
  every address outside that buffer ends up as if the whole source block had
  been read first and then written to the destination.
\<close>

theorem memmove_correct:
  assumes "blocks_disjoint p3 (unat n) ptr2 (unat n)"
    and "blocks_disjoint ptr1 (unat n) p3 (unat n)"
    and "\<And>i. i < unat n \<Longrightarrow> x \<noteq> p3 + of_nat i"
  shows "memmove m p3 ptr1 ptr2 n x = mem_write m ptr1 (mem_read m ptr2 (unat n)) x"
proof -
  let ?bs = "mem_read m ptr2 (unat n)"
  let ?m = "mem_write m p3 ?bs"
  have "unat n \<le> 2 ^ 32"
    by (simp add: less_imp_le)
  then have "mem_read ?m p3 (unat n) = ?bs"
    using mem_read_write [of ?bs m p3] by simp
  then have "memmove m p3 ptr1 ptr2 n = mem_write ?m ptr1 ?bs"
    using assms(1,2) by (simp add: memmove_def memcpy_eq_write)
  moreover have "?m x = m x"
    using assms(3) by (intro mem_write_outside) simp
  ultimately show ?thesis
    by (metis mem_write_local)
qed

theorem memmove_correct_witness:
  "memmove (\<lambda>a. ucast a) 100 11 10 3 12 = 11"
proof -
  have n: "i < unat (3 :: u32) \<longleftrightarrow> i = 0 \<or> i = 1 \<or> i = 2" for i by auto
  have "blocks_disjoint 100 (unat (3 :: u32)) 10 (unat (3 :: u32))"
    unfolding blocks_disjoint_def n by auto
  moreover have "blocks_disjoint 11 (unat (3 :: u32)) 100 (unat (3 :: u32))"
    unfolding blocks_disjoint_def n by auto
  moreover have "i < unat (3 :: u32) \<Longrightarrow> 12 \<noteq> 100 + (of_nat i :: u32)" for i
    unfolding n by auto
  ultimately have "memmove (\<lambda>a. ucast a) 100 11 10 3 12 =
      mem_write (\<lambda>a. ucast a) 11 (mem_read (\<lambda>a. ucast a) 10 (unat (3 :: u32))) 12"
    by (rule memmove_correct)
  then show ?thesis by (simp add: mem_read_def upt_conv_Cons)
qed

lemma memcmp_from_eq:
  "memcmp_from m p1 p2 i n =
     (let xs = mem_read m (p1 + of_nat i) (n - i); ys = mem_read m (p2 + of_nat i) (n - i)
      in if xs = ys then 0 else if (xs, ys) \<in> lexord {(a, b). a < b} then - 1 else 1)"
proof (induction "n - i" arbitrary: i)
  case 0
  then show ?case by (simp add: memcmp_from.simps [of m p1 p2 i n])
next
  case (Suc k)
  then have i: "i < n" and k: "n - i = Suc k" "n - Suc i = k" by simp_all
  have "mem_read m (a + of_nat i) (n - i) =
      m (a + of_nat i) # mem_read m (a + of_nat (Suc i)) (n - Suc i)" for a
    by (simp add: k mem_read_Suc add.assoc add.commute [of 1])
  then show ?case
    using i Suc.hyps(1) [OF k(2) [symmetric]]
    by (auto simp: memcmp_from.simps [of m p1 p2 i n] Let_def)
qed

text \<open>
  \<open>memcmp\<close> is the sign of the lexicographic comparison of the two blocks as
  sequences of unsigned bytes.
\<close>

theorem memcmp_correct:
  "memcmp m ptr1 ptr2 n =
     (let xs = mem_read m ptr1 (unat n); ys = mem_read m ptr2 (unat n)
      in if xs = ys then 0 else if (xs, ys) \<in> lexord {(a, b). a < b} then - 1 else 1)"
  using memcmp_from_eq [of m ptr1 ptr2 0 "unat n"] by (simp add: memcmp_def)

end
