(* ===== verification/Wasm_Check.thy ===== *)
theory Wasm_Check
  imports Prelude
begin

text \<open>
  The assertion wrappers of \<^verbatim>\<open>libraries/wasmlib/core/check.hpp\<close>. They call
  host functions, always with \<^verbatim>\<open>false\<close>, and such a call does not return: it is
  the outcome \<open>Inl\<close> of a result, which records which host function was called and
  with what (\<open>Assert msg\<close> for \<^verbatim>\<open>wasm_assert(false, msg)\<close> and for
  \<^verbatim>\<open>wasm_assert_message\<close> with the first \<open>n\<close> characters, \<open>Assert_code code\<close> for
  \<^verbatim>\<open>wasm_assert_code\<close>). A passed check has no effect.
\<close>

definition check :: "bool \<Rightarrow> string \<Rightarrow> unit res" where
  "check pred msg = (if \<not> pred then Inl (Assert msg) else Inr ())"

definition check_n :: "bool \<Rightarrow> string \<Rightarrow> nat \<Rightarrow> unit res" where
  "check_n pred msg n = (if \<not> pred then Inl (Assert (take n msg)) else Inr ())"

definition check_code :: "bool \<Rightarrow> u64 \<Rightarrow> unit res" where
  "check_code pred code = (if \<not> pred then Inl (Assert_code code) else Inr ())"

lemma check_simps [simp]:
  "check True msg = Inr ()"
  "check False msg = Inl (Assert msg)"
  by (simp_all add: check_def)

lemma check_eq: "check p msg = (if p then Inr () else Inl (Assert msg))"
  by simp

lemma check_eq_Inr [res_simps]: "check p msg = Inr u \<longleftrightarrow> p"
  by (simp add: check_eq)

lemma check_eq_Inl [res_simps]: "check p msg = Inl e \<longleftrightarrow> \<not> p \<and> e = Assert msg"
  by (auto simp: check_eq)

lemma bindr_check: "bindr (check p msg) f = (if p then f () else Inl (Assert msg))"
  by (simp add: check_eq)

end
