(* ===== verification/Datastream.thy ===== *)
theory Datastream
  imports Memory Wasm_Check
begin

text \<open>
  The two stream classes of \<^verbatim>\<open>libraries/wasmlib/core/datastream.hpp\<close>:
  \<^verbatim>\<open>datastream<T>\<close> over a character pointer, and its specialisation
  \<^verbatim>\<open>datastream<size_t>\<close>, which only counts the bytes that would be written.

  A pointer stream is a record of the memory it points into and its three
  pointers. Pointer differences are computed in 32 bits as on the target, with
  exactly the conversions of the source: \<open>read\<close> compares unsigned, \<open>write\<close>
  compares signed. A stream is well formed (\<open>wf_ds\<close>) while its position lies
  between its start and its end and the buffer is shorter than \<open>2 ^ 31\<close> bytes.

  The serialisation operators are templates over the stream type. \<open>sink\<close> is the
  sum of the two classes that accept writes; reading is defined on the pointer
  stream only, as in the source.
\<close>

section \<open>The pointer stream\<close>

record datastream =
  ds_mem :: mem
  ds_start :: u32
  ds_pos :: u32
  ds_end :: u32

definition ds_make :: "mem \<Rightarrow> u32 \<Rightarrow> u32 \<Rightarrow> datastream" where
  "ds_make m start s = \<lparr>ds_mem = m, ds_start = start, ds_pos = start, ds_end = start + s\<rparr>"

definition ds_skip :: "u32 \<Rightarrow> datastream \<Rightarrow> datastream" where
  "ds_skip s ds = ds\<lparr>ds_pos := ds_pos ds + s\<rparr>"

definition ds_read :: "u32 \<Rightarrow> datastream \<Rightarrow> (byte list \<times> datastream) res" where
  "ds_read s ds =
     bindr (check (ds_end ds - ds_pos ds \<ge> s) ''read'')
       (\<lambda>_. Inr (mem_read (ds_mem ds) (ds_pos ds) (unat s), ds\<lparr>ds_pos := ds_pos ds + s\<rparr>))"

definition ds_write :: "byte list \<Rightarrow> datastream \<Rightarrow> datastream res" where
  "ds_write d ds =
     (let s = of_nat (length d) :: u32
      in bindr (check (sint (ds_end ds - ds_pos ds) \<ge> sint s) ''write'')
           (\<lambda>_. Inr (ds\<lparr>ds_mem := mem_write (ds_mem ds) (ds_pos ds) d, ds_pos := ds_pos ds + s\<rparr>)))"

definition ds_put :: "byte \<Rightarrow> datastream \<Rightarrow> datastream res" where
  "ds_put c ds =
     bindr (check (ds_pos ds < ds_end ds) ''put'')
       (\<lambda>_. Inr (ds\<lparr>ds_mem := (ds_mem ds)(ds_pos ds := c), ds_pos := ds_pos ds + 1\<rparr>))"

definition ds_get :: "datastream \<Rightarrow> (byte \<times> datastream) res" where
  "ds_get ds =
     bindr (check (ds_pos ds < ds_end ds) ''get'')
       (\<lambda>_. Inr (ds_mem ds (ds_pos ds), ds\<lparr>ds_pos := ds_pos ds + 1\<rparr>))"

definition ds_valid :: "datastream \<Rightarrow> bool" where
  "ds_valid ds = (ds_pos ds \<le> ds_end ds \<and> ds_pos ds \<ge> ds_start ds)"

definition ds_seekp :: "u32 \<Rightarrow> datastream \<Rightarrow> bool \<times> datastream" where
  "ds_seekp p ds =
     (let ds' = ds\<lparr>ds_pos := ds_start ds + p\<rparr> in (ds_pos ds' \<le> ds_end ds', ds'))"

definition ds_tellp :: "datastream \<Rightarrow> u32" where
  "ds_tellp ds = ds_pos ds - ds_start ds"

definition ds_remaining :: "datastream \<Rightarrow> u32" where
  "ds_remaining ds = ds_end ds - ds_pos ds"

section \<open>The counting stream\<close>

record size_stream =
  ss_size :: u32

definition ss_make :: "u32 \<Rightarrow> size_stream" where
  "ss_make init_size = \<lparr>ss_size = init_size\<rparr>"

definition ss_skip :: "u32 \<Rightarrow> size_stream \<Rightarrow> size_stream" where
  "ss_skip s ss = ss\<lparr>ss_size := ss_size ss + s\<rparr>"

definition ss_write :: "byte list \<Rightarrow> size_stream \<Rightarrow> size_stream" where
  "ss_write d ss = ss\<lparr>ss_size := ss_size ss + of_nat (length d)\<rparr>"

definition ss_put :: "byte \<Rightarrow> size_stream \<Rightarrow> size_stream" where
  "ss_put c ss = ss\<lparr>ss_size := ss_size ss + 1\<rparr>"

definition ss_valid :: "size_stream \<Rightarrow> bool" where
  "ss_valid ss = True"

definition ss_seekp :: "u32 \<Rightarrow> size_stream \<Rightarrow> bool \<times> size_stream" where
  "ss_seekp p ss = (True, ss\<lparr>ss_size := p\<rparr>)"

definition ss_tellp :: "size_stream \<Rightarrow> u32" where
  "ss_tellp ss = ss_size ss"

definition ss_remaining :: "size_stream \<Rightarrow> u32" where
  "ss_remaining ss = 0"

section \<open>Streams that accept writes\<close>

datatype sink = Buf datastream | Siz size_stream

fun sink_write :: "byte list \<Rightarrow> sink \<Rightarrow> sink res" where
  "sink_write d (Buf ds) = mapr Buf (ds_write d ds)"
| "sink_write d (Siz ss) = Inr (Siz (ss_write d ss))"

section \<open>Facts on streams\<close>

definition wf_ds :: "datastream \<Rightarrow> bool" where
  "wf_ds ds = (ds_start ds \<le> ds_pos ds \<and> ds_pos ds \<le> ds_end ds
     \<and> unat (ds_end ds) - unat (ds_start ds) < 2 ^ 31)"

definition ds_left :: "datastream \<Rightarrow> nat" where
  "ds_left ds = unat (ds_end ds - ds_pos ds)"

text \<open>The bytes not yet consumed, and the stream after consuming some of them.\<close>

definition ds_avail :: "datastream \<Rightarrow> byte list" where
  "ds_avail ds = mem_read (ds_mem ds) (ds_pos ds) (ds_left ds)"

definition ds_advance :: "nat \<Rightarrow> datastream \<Rightarrow> datastream" where
  "ds_advance n ds = ds\<lparr>ds_pos := ds_pos ds + of_nat n\<rparr>"

lemma ds_advance_simps [simp]:
  "ds_mem (ds_advance n ds) = ds_mem ds"
  "ds_start (ds_advance n ds) = ds_start ds"
  "ds_end (ds_advance n ds) = ds_end ds"
  "ds_pos (ds_advance n ds) = ds_pos ds + of_nat n"
  "ds_advance 0 ds = ds"
  by (simp_all add: ds_advance_def)

lemma ds_advance_advance [simp]: "ds_advance k (ds_advance j ds) = ds_advance (j + k) ds"
  by (simp add: ds_advance_def add.assoc)

lemma length_ds_avail [simp]: "length (ds_avail ds) = ds_left ds"
  by (simp add: ds_avail_def)

lemma ds_left_bound: "ds_left ds < 2 ^ 32"
  by (simp add: ds_left_def)

lemma wf_ds_left: "wf_ds ds \<Longrightarrow> ds_left ds = unat (ds_end ds) - unat (ds_pos ds)"
  by (simp add: wf_ds_def ds_left_def unat_sub)

lemma wf_ds_left_less: "wf_ds ds \<Longrightarrow> ds_left ds < 2 ^ 31"
  by (auto simp: wf_ds_left wf_ds_def word_le_nat_alt)

lemma ds_make_wf:
  assumes "unat a + unat n < 2 ^ 32" "unat n < 2 ^ 31"
  shows "wf_ds (ds_make m a n)"
proof -
  have "unat (a + n) = unat a + unat n"
    using assms(1) by (simp add: unat_word_ariths)
  then show ?thesis
    using assms by (simp add: wf_ds_def ds_make_def word_le_nat_alt)
qed

lemma unat_pos_advance:
  assumes "wf_ds ds" "n \<le> ds_left ds"
  shows "unat (ds_pos ds + of_nat n) = unat (ds_pos ds) + n"
proof -
  have "n \<le> unat (ds_end ds) - unat (ds_pos ds)" and "unat (ds_end ds) < 2 ^ 32"
    using assms by (simp_all add: wf_ds_left)
  moreover from assms(1) have "unat (ds_pos ds) \<le> unat (ds_end ds)"
    by (simp add: wf_ds_def word_le_nat_alt)
  ultimately have "unat (ds_pos ds) + n < 2 ^ 32" and "n < 2 ^ 32"
    by linarith+
  then show ?thesis
    by (simp add: unat_word_ariths unat_of_nat_u32)
qed

lemma wf_ds_advance:
  "wf_ds ds \<Longrightarrow> n \<le> ds_left ds \<Longrightarrow> wf_ds (ds_advance n ds)"
  using unat_pos_advance [of ds n] wf_ds_left [of ds]
  by (auto simp: wf_ds_def word_le_nat_alt)

lemma ds_left_advance:
  assumes "wf_ds ds" "n \<le> ds_left ds"
  shows "ds_left (ds_advance n ds) = ds_left ds - n"
  using wf_ds_left [OF wf_ds_advance [OF assms]] unat_pos_advance [OF assms]
    wf_ds_left [OF assms(1)] by simp

lemma ds_avail_advance:
  "wf_ds ds \<Longrightarrow> n \<le> ds_left ds \<Longrightarrow> ds_avail (ds_advance n ds) = drop n (ds_avail ds)"
  by (simp add: ds_avail_def ds_left_advance drop_mem_read)

lemma ds_read_eq:
  "ds_read s ds =
     (if unat s \<le> ds_left ds
      then Inr (take (unat s) (ds_avail ds), ds_advance (unat s) ds) else Inl (Assert ''read''))"
  by (simp add: ds_read_def bindr_check ds_left_def word_le_nat_alt ds_avail_def take_mem_read
      ds_advance_def)

lemma ds_get_eq:
  assumes "wf_ds ds"
  shows "ds_get ds =
     (case ds_avail ds of [] \<Rightarrow> Inl (Assert ''get'') | b # bs \<Rightarrow> Inr (b, ds_advance 1 ds))"
proof -
  have "ds_pos ds < ds_end ds \<longleftrightarrow> ds_left ds \<noteq> 0"
    using assms by (auto simp: wf_ds_left word_less_nat_alt)
  then show ?thesis
    by (cases "ds_left ds")
      (simp_all add: ds_get_def bindr_check ds_avail_def mem_read_Suc ds_advance_def)
qed

lemma ds_write_eq:
  assumes "wf_ds ds" "length d < 2 ^ 31"
  shows "ds_write d ds =
     (if length d \<le> ds_left ds
      then Inr ((ds_advance (length d) ds)\<lparr>ds_mem := mem_write (ds_mem ds) (ds_pos ds) d\<rparr>)
      else Inl (Assert ''write''))"
proof -
  have "unat (of_nat (length d) :: u32) = length d"
    using assms(2) by (intro unat_of_nat_u32) simp
  then have "sint (of_nat (length d) :: u32) = int (length d)"
    using assms(2) by (subst sint_eq_unat) simp_all
  moreover have "sint (ds_end ds - ds_pos ds) = int (ds_left ds)"
    using wf_ds_left_less [OF assms(1)] by (subst sint_eq_unat) (simp_all add: ds_left_def)
  ultimately show ?thesis
    by (simp add: ds_write_def bindr_check ds_advance_def Let_def)
qed

text \<open>
  \<open>ds_within ds ds'\<close>: \<open>ds'\<close> is \<open>ds\<close> with its position moved forward, at most
  to the end. Every deserialiser is shown to stay within its stream.
\<close>

definition ds_within :: "datastream \<Rightarrow> datastream \<Rightarrow> bool" where
  "ds_within ds ds' = (\<exists>n\<le>ds_left ds. ds' = ds_advance n ds)"

lemma ds_within_refl [simp]: "ds_within ds ds"
  by (auto simp: ds_within_def intro: exI [of _ 0])

lemma ds_within_advance: "n \<le> ds_left ds \<Longrightarrow> ds_within ds (ds_advance n ds)"
  by (auto simp: ds_within_def)

lemma ds_within_wf: "wf_ds ds \<Longrightarrow> ds_within ds ds' \<Longrightarrow> wf_ds ds'"
  by (auto simp: ds_within_def wf_ds_advance)

lemma ds_within_trans:
  assumes "wf_ds ds" "ds_within ds ds'" "ds_within ds' ds''"
  shows "ds_within ds ds''"
proof -
  obtain j k where "j \<le> ds_left ds" "ds' = ds_advance j ds"
    "k \<le> ds_left ds'" "ds'' = ds_advance k ds'"
    using assms(2,3) by (auto simp: ds_within_def)
  then show ?thesis
    using assms(1) by (auto simp: ds_left_advance intro!: ds_within_advance)
qed

lemma ds_within_ends:
  assumes "wf_ds ds" "ds_within ds ds'"
  shows "ds_mem ds' = ds_mem ds" "ds_start ds' = ds_start ds" "ds_end ds' = ds_end ds"
    "ds_pos ds \<le> ds_pos ds'" "ds_pos ds' \<le> ds_end ds"
  using assms unat_pos_advance [OF assms(1)] wf_ds_advance [OF assms(1)]
  by (auto simp: ds_within_def word_le_nat_alt wf_ds_def)

lemma ds_read_within: "ds_read s ds = Inr (bs, ds') \<Longrightarrow> ds_within ds ds'"
  by (auto simp: ds_read_eq split: if_splits intro: ds_within_advance)

text \<open>A write through either class: pieces written one after the other are one write.\<close>

fun wf_sink :: "sink \<Rightarrow> bool" where
  "wf_sink (Buf ds) = wf_ds ds"
| "wf_sink (Siz ss) = True"

lemma ds_write_wf:
  assumes "wf_ds ds" "length d < 2 ^ 31" "ds_write d ds = Inr ds'"
  shows "wf_ds ds'" "ds_left ds' = ds_left ds - length d" "length d \<le> ds_left ds"
proof -
  from assms have le: "length d \<le> ds_left ds"
    and ds': "ds' = (ds_advance (length d) ds)\<lparr>ds_mem := mem_write (ds_mem ds) (ds_pos ds) d\<rparr>"
    by (auto simp: ds_write_eq split: if_splits)
  show "length d \<le> ds_left ds" by (rule le)
  show "wf_ds ds'"
    using wf_ds_advance [OF assms(1) le] by (simp add: ds' wf_ds_def)
  show "ds_left ds' = ds_left ds - length d"
    using ds_left_advance [OF assms(1) le] by (simp add: ds' ds_left_def)
qed

lemma sink_write_wf:
  "wf_sink s \<Longrightarrow> length d < 2 ^ 31 \<Longrightarrow> sink_write d s = Inr s' \<Longrightarrow> wf_sink s'"
  by (cases s) (auto simp: res_simps dest: ds_write_wf)

lemma ds_write_append:
  assumes "wf_ds ds" "length (d @ e) < 2 ^ 31"
  shows "bindr (ds_write d ds) (ds_write e) = ds_write (d @ e) ds"
proof (cases "length d \<le> ds_left ds")
  case True
  let ?ds = "(ds_advance (length d) ds)\<lparr>ds_mem := mem_write (ds_mem ds) (ds_pos ds) d\<rparr>"
  have d: "ds_write d ds = Inr ?ds"
    using assms True by (simp add: ds_write_eq)
  note wf = ds_write_wf [OF assms(1) _ d]
  have "length d < 2 ^ 31" "length e < 2 ^ 31"
    using assms(2) by simp_all
  with wf d show ?thesis
    using assms True
    by (simp add: ds_write_eq mem_write_append ds_advance_def add.assoc) (simp add: le_diff_conv2)
next
  case False
  then show ?thesis
    using assms by (simp add: ds_write_eq)
qed

lemma sink_write_append:
  assumes "wf_sink s" "length (d @ e) < 2 ^ 31"
  shows "bindr (sink_write d s) (sink_write e) = sink_write (d @ e) s"
proof (cases s)
  case (Buf ds)
  have "bindr (mapr Buf (ds_write d ds)) (sink_write e) = mapr Buf (bindr (ds_write d ds) (ds_write e))"
    by (cases "ds_write d ds") simp_all
  then show ?thesis
    using assms Buf by (simp add: ds_write_append)
next
  case (Siz ss)
  then show ?thesis by (simp add: ss_write_def add.assoc)
qed

lemma sink_write_Nil: "wf_sink s \<Longrightarrow> sink_write [] s = Inr s"
  by (cases s) (simp_all add: ds_write_eq ss_write_def)

end
