(* ===== verification/Varint.thy ===== *)
theory Varint
  imports Datastream
begin

text \<open>
  The variable length integers of \<^verbatim>\<open>libraries/wasmlib/core/varint.hpp\<close>:
  base-128 chunks, least significant first, with the top bit of each byte set
  while more follow; signed values are zig-zag mapped to unsigned ones first.

  The two encoders and the two decoders of the source are the same loop at
  different widths, hence one polymorphic loop each. The decoders shift a
  \<^verbatim>\<open>uint32_t\<close> by \<open>0, 7, 14, 21, 28, 35, \<dots>\<close>; a shift by 35 is undefined in C++,
  and the model stops there. The left shift of a negative value in the zig-zag map is
  the two's complement shift of the target (which later standards prescribe). The shift counter, an 8-bit integer in one class and
  an \<^verbatim>\<open>int\<close> in the other, never passes 35 and is a natural number here.
\<close>

section \<open>Definitions\<close>

text \<open>
  The wrapper classes hold one integer; they are one-constructor datatypes rather
  than records so that the order their operators define can be an instance of the
  library's order classes.
\<close>

datatype unsigned_int = Unsigned_int (uint_value: u32)

datatype signed_int = Signed_int (sint_value: u32)

function varint_write_loop :: "'a::len word \<Rightarrow> sink \<Rightarrow> sink res" where
  "varint_write_loop val ds =
     (let b = (ucast val :: u8) AND 0x7f;
          val' = drop_bit 7 val;
          b' = b OR push_bit 7 (of_bool (val' > 0))
      in bindr (sink_write [b'] ds)
           (\<lambda>ds'. if val' \<noteq> 0 then varint_write_loop val' ds' else Inr ds'))"
  by pat_completeness auto
termination
proof (relation "measure (\<lambda>(val, ds). unat val)")
  fix val x b' ds ds'
  fix val' :: "'a word"
  assume "val' = drop_bit 7 val" "val' \<noteq> 0"
  moreover from this(2) have "0 < unat val'"
    using unsigned_eq_0_iff by blast
  ultimately have "unat val' = unat val div 128" "0 < unat val'"
    by (simp_all add: unat_drop_bit)
  then show "((val', ds'), val, ds) \<in> measure (\<lambda>(val, ds). unat val)"
    by (simp add: div_less_dividend)
qed simp

definition ser_unsigned_int :: "unsigned_int \<Rightarrow> sink \<Rightarrow> sink res" where
  "ser_unsigned_int v ds = varint_write_loop (ucast (uint_value v) :: u64) ds"

definition ser_signed_int :: "signed_int \<Rightarrow> sink \<Rightarrow> sink res" where
  "ser_signed_int v ds =
     varint_write_loop (push_bit 1 (sint_value v) XOR signed_drop_bit 31 (sint_value v)) ds"

function varint_read_loop :: "'a::len word \<Rightarrow> nat \<Rightarrow> datastream \<Rightarrow> ('a word \<times> datastream) res" where
  "varint_read_loop v by ds =
     bindr (ds_get ds) (\<lambda>(b, ds').
       if by \<ge> 32 then Inl (Undefined ''shift of a 32-bit integer by 32 or more'')
       else let v' = v OR ucast (push_bit by (ucast (b AND 0x7f) :: u32));
                by' = by + 7
            in if b AND 0x80 \<noteq> 0 then varint_read_loop v' by' ds' else Inr (v', ds'))"
  by pat_completeness auto
termination
  by (relation "measure (\<lambda>(v, by, ds). 32 - by)") auto

definition deser_unsigned_int :: "unsigned_int \<Rightarrow> datastream \<Rightarrow> (unsigned_int \<times> datastream) res" where
  "deser_unsigned_int vi ds =
     bindr (varint_read_loop (0 :: u64) 0 ds) (\<lambda>(v, ds'). Inr (Unsigned_int (ucast v), ds'))"

definition deser_signed_int :: "signed_int \<Rightarrow> datastream \<Rightarrow> (signed_int \<times> datastream) res" where
  "deser_signed_int vi ds =
     bindr (varint_read_loop (0 :: u32) 0 ds) (\<lambda>(v, ds').
       Inr (Signed_int
              (ucast ((ucast (drop_bit 1 v) :: u64) XOR ((ucast (NOT (v AND 1)) :: u64) + 1))), ds'))"

text \<open>
  Comparisons. Each operator exists for two objects and for an object and a plain
  integer on either side; \<open>signed_int\<close> compares as \<^verbatim>\<open>int32_t\<close>. Incrementing a
  \<open>signed_int\<close> at its maximum is a signed overflow.
\<close>

definition uint_eq_raw :: "unsigned_int \<Rightarrow> u32 \<Rightarrow> bool" where
  "uint_eq_raw i v = (uint_value i = v)"

definition raw_eq_uint :: "u32 \<Rightarrow> unsigned_int \<Rightarrow> bool" where
  "raw_eq_uint i v = (i = uint_value v)"

definition uint_eq :: "unsigned_int \<Rightarrow> unsigned_int \<Rightarrow> bool" where
  "uint_eq i v = (uint_value i = uint_value v)"

definition uint_neq_raw :: "unsigned_int \<Rightarrow> u32 \<Rightarrow> bool" where
  "uint_neq_raw i v = (uint_value i \<noteq> v)"

definition raw_neq_uint :: "u32 \<Rightarrow> unsigned_int \<Rightarrow> bool" where
  "raw_neq_uint i v = (i \<noteq> uint_value v)"

definition uint_neq :: "unsigned_int \<Rightarrow> unsigned_int \<Rightarrow> bool" where
  "uint_neq i v = (uint_value i \<noteq> uint_value v)"

definition uint_less_raw :: "unsigned_int \<Rightarrow> u32 \<Rightarrow> bool" where
  "uint_less_raw i v = (uint_value i < v)"

definition raw_less_uint :: "u32 \<Rightarrow> unsigned_int \<Rightarrow> bool" where
  "raw_less_uint i v = (i < uint_value v)"

definition uint_less :: "unsigned_int \<Rightarrow> unsigned_int \<Rightarrow> bool" where
  "uint_less i v = (uint_value i < uint_value v)"

definition uint_geq_raw :: "unsigned_int \<Rightarrow> u32 \<Rightarrow> bool" where
  "uint_geq_raw i v = (uint_value i \<ge> v)"

definition raw_geq_uint :: "u32 \<Rightarrow> unsigned_int \<Rightarrow> bool" where
  "raw_geq_uint i v = (i \<ge> uint_value v)"

definition uint_geq :: "unsigned_int \<Rightarrow> unsigned_int \<Rightarrow> bool" where
  "uint_geq i v = (uint_value i \<ge> uint_value v)"

definition sint_incr :: "signed_int \<Rightarrow> signed_int res" where
  "sint_incr i = (if sint (sint_value i) = 2 ^ 31 - 1 then Inl (Undefined ''signed overflow'')
     else Inr (Signed_int (sint_value i + 1)))"

definition sint_post_incr :: "signed_int \<Rightarrow> (signed_int \<times> signed_int) res" where
  "sint_post_incr i = mapr (\<lambda>i'. (i, i')) (sint_incr i)"

definition sint_eq_raw :: "signed_int \<Rightarrow> u32 \<Rightarrow> bool" where
  "sint_eq_raw i v = (sint_value i = v)"

definition raw_eq_sint :: "u32 \<Rightarrow> signed_int \<Rightarrow> bool" where
  "raw_eq_sint i v = (i = sint_value v)"

definition sint_eq :: "signed_int \<Rightarrow> signed_int \<Rightarrow> bool" where
  "sint_eq i v = (sint_value i = sint_value v)"

definition sint_neq_raw :: "signed_int \<Rightarrow> u32 \<Rightarrow> bool" where
  "sint_neq_raw i v = (sint_value i \<noteq> v)"

definition raw_neq_sint :: "u32 \<Rightarrow> signed_int \<Rightarrow> bool" where
  "raw_neq_sint i v = (i \<noteq> sint_value v)"

definition sint_neq :: "signed_int \<Rightarrow> signed_int \<Rightarrow> bool" where
  "sint_neq i v = (sint_value i \<noteq> sint_value v)"

definition sint_less_raw :: "signed_int \<Rightarrow> u32 \<Rightarrow> bool" where
  "sint_less_raw i v = (sint (sint_value i) < sint v)"

definition raw_less_sint :: "u32 \<Rightarrow> signed_int \<Rightarrow> bool" where
  "raw_less_sint i v = (sint i < sint (sint_value v))"

definition sint_less :: "signed_int \<Rightarrow> signed_int \<Rightarrow> bool" where
  "sint_less i v = (sint (sint_value i) < sint (sint_value v))"

definition sint_geq_raw :: "signed_int \<Rightarrow> u32 \<Rightarrow> bool" where
  "sint_geq_raw i v = (sint (sint_value i) \<ge> sint v)"

definition raw_geq_sint :: "u32 \<Rightarrow> signed_int \<Rightarrow> bool" where
  "raw_geq_sint i v = (sint i \<ge> sint (sint_value v))"

definition sint_geq :: "signed_int \<Rightarrow> signed_int \<Rightarrow> bool" where
  "sint_geq i v = (sint (sint_value i) \<ge> sint (sint_value v))"

instantiation unsigned_int :: linorder
begin

definition less_unsigned_int :: "unsigned_int \<Rightarrow> unsigned_int \<Rightarrow> bool" where
  "less_unsigned_int i v = uint_less i v"

definition less_eq_unsigned_int :: "unsigned_int \<Rightarrow> unsigned_int \<Rightarrow> bool" where
  "less_eq_unsigned_int i v = uint_geq v i"

instance
  by standard (auto simp: less_unsigned_int_def less_eq_unsigned_int_def uint_less_def uint_geq_def
      intro: unsigned_int.expand)

end

instantiation signed_int :: linorder
begin

definition less_signed_int :: "signed_int \<Rightarrow> signed_int \<Rightarrow> bool" where
  "less_signed_int i v = sint_less i v"

definition less_eq_signed_int :: "signed_int \<Rightarrow> signed_int \<Rightarrow> bool" where
  "less_eq_signed_int i v = sint_geq v i"

instance
  by standard (auto simp: less_signed_int_def less_eq_signed_int_def sint_less_def sint_geq_def
      intro!: signed_int.expand dest!: sint_injectD)

end

declare varint_write_loop.simps [simp del] varint_read_loop.simps [simp del]

section \<open>The wire format\<close>

fun varuint_bytes :: "nat \<Rightarrow> byte list" where
  "varuint_bytes n =
     (if n < 128 then [of_nat n] else of_nat (n mod 128 + 128) # varuint_bytes (n div 128))"

declare varuint_bytes.simps [simp del]

lemma varuint_bytes_simps:
  "n < 128 \<Longrightarrow> varuint_bytes n = [of_nat n]"
  "128 \<le> n \<Longrightarrow> varuint_bytes n = of_nat (n mod 128 + 128) # varuint_bytes (n div 128)"
  by (simp_all add: varuint_bytes.simps [of n])

lemma varuint_bytes_not_Nil [simp]: "varuint_bytes n \<noteq> []"
  by (cases "n < 128") (simp_all add: varuint_bytes_simps)

lemma length_varuint_bytes: "length (varuint_bytes n) \<le> Suc k \<longleftrightarrow> n < 128 ^ Suc k"
proof (induction k arbitrary: n)
  case 0
  show ?case by (cases "n < 128") (simp_all add: varuint_bytes_simps)
next
  case (Suc k)
  show ?case
  proof (cases "n < 128")
    case True
    then have "n < 128 ^ Suc (Suc k)"
      by (rule order.strict_trans2) (simp add: one_le_mult_iff)
    with True show ?thesis by (simp add: varuint_bytes_simps)
  next
    case False
    then have "length (varuint_bytes n) \<le> Suc (Suc k) \<longleftrightarrow> n div 128 < 128 ^ Suc k"
      by (simp add: varuint_bytes_simps Suc.IH)
    then show ?thesis by (simp add: div_less_iff_less_mult mult.commute)
  qed
qed

lemma length_varuint_u32: "length (varuint_bytes (unat (w::u32))) \<le> 5"
  using length_varuint_bytes [of "unat w" 4] unat_u32_less [of w] by (simp del: unat_u32_less)

subsection \<open>Encoding\<close>

lemma varint_low_byte:
  fixes val :: "'a::len word"
  shows "unat ((ucast val :: u8) AND 0x7f) = unat val mod 128"
proof -
  have "(ucast val :: u8) AND 0x7f = (ucast val :: u8) AND mask 7"
    by (simp add: mask_eq_exp_minus_1)
  then have "unat ((ucast val :: u8) AND 0x7f) = unat (ucast val :: u8) mod 128"
    by (simp only: unat_and_mask) simp
  also have "\<dots> = unat val mod 256 mod 128"
    by (simp add: unsigned_ucast_eq take_bit_eq_mod)
  also have "\<dots> = unat val mod 128"
    by (simp add: mod_mod_cancel)
  finally show ?thesis .
qed

lemma varint_out_byte:
  fixes val :: "'a::len word"
  shows "((ucast val :: u8) AND 0x7f) OR push_bit 7 (of_bool (drop_bit 7 val > 0)) =
     of_nat (if unat val < 128 then unat val else unat val mod 128 + 128)"
proof -
  have gt: "drop_bit 7 val > 0 \<longleftrightarrow> \<not> unat val < 128"
    by (simp add: word_less_nat_alt unat_drop_bit div_greater_zero_iff not_less)
  have low: "(ucast val :: u8) AND 0x7f = of_nat (unat val mod 128)"
    by (intro word_eq_of_natI varint_low_byte)
  have "push_bit 7 1 OR (of_nat (unat val mod 128) :: u8) = push_bit 7 1 + of_nat (unat val mod 128)"
    by (intro push_bit_or_add) (simp add: unat_of_nat take_bit_eq_mod)
  then show ?thesis
    by (simp add: gt low or.commute [of "of_nat _"])
qed

lemma varint_write_loop_eq:
  fixes val :: "'a::len word"
  assumes "wf_sink ds" "length (varuint_bytes (unat val)) < 2 ^ 31"
  shows "varint_write_loop val ds = sink_write (varuint_bytes (unat val)) ds"
  using assms
proof (induction val ds rule: varint_write_loop.induct)
  case (1 val ds)
  note unfold = varint_write_loop.simps [of val ds, unfolded Let_def varint_out_byte]
  have nz: "drop_bit 7 val \<noteq> 0 \<longleftrightarrow> \<not> unat val < 128"
    by (simp add: word_unat_eq_iff unat_drop_bit) linarith
  show ?case
  proof (cases "unat val < 128")
    case True
    then show ?thesis using nz by (simp add: unfold varuint_bytes_simps)
  next
    case False
    let ?b = "of_nat (unat val mod 128 + 128) :: byte"
    have bytes: "varuint_bytes (unat val) = [?b] @ varuint_bytes (unat (drop_bit 7 val))"
      using False by (simp add: varuint_bytes_simps unat_drop_bit)
    with "1.prems" have len: "length (varuint_bytes (unat (drop_bit 7 val))) < 2 ^ 31"
      and all: "length ([?b] @ varuint_bytes (unat (drop_bit 7 val))) < 2 ^ 31"
      by simp_all
    have "bindr (sink_write [?b] ds) (\<lambda>ds'. varint_write_loop (drop_bit 7 val) ds') =
        bindr (sink_write [?b] ds) (sink_write (varuint_bytes (unat (drop_bit 7 val))))"
    proof (rule bindr_cong [OF refl])
      fix ds'
      assume ds': "sink_write [?b] ds = Inr ds'"
      then have "wf_sink ds'"
        using "1.prems"(1) by (rule sink_write_wf [rotated 2]) simp
      then show "varint_write_loop (drop_bit 7 val) ds'
          = sink_write (varuint_bytes (unat (drop_bit 7 val))) ds'"
        using "1.IH" [OF refl refl refl] ds' False nz len varint_out_byte [of val] by simp
    qed
    also have "\<dots> = sink_write (varuint_bytes (unat val)) ds"
      using sink_write_append [OF "1.prems"(1) all] bytes by simp
    finally show ?thesis using False nz by (simp add: unfold)
  qed
qed

subsection \<open>Decoding\<close>

lemma varint_more_iff: "(b::u8) AND 0x80 \<noteq> 0 \<longleftrightarrow> 128 \<le> unat b"
proof -
  have "b AND 0x80 \<noteq> 0 \<longleftrightarrow> bit b 7"
    using and_exp_eq_0_iff_not_bit [of b 7] by simp
  also have "\<dots> \<longleftrightarrow> bit (unat b) 7"
    by (simp add: bit_unsigned_iff)
  also have "\<dots> \<longleftrightarrow> odd (unat b div 128)"
    by (simp add: bit_iff_odd)
  also have "\<dots> \<longleftrightarrow> 128 \<le> unat b"
  proof (cases "128 \<le> unat b")
    case True
    then have "unat b div 128 = 1" by (intro div_nat_eqI) simp_all
    with True show ?thesis by simp
  qed simp
  finally show ?thesis .
qed

lemma varint_chunk:
  fixes b :: u8
  assumes "(unat b mod 128) * 2 ^ by < 2 ^ 32" "by < 32"
  shows "unat (push_bit by (ucast (b AND 0x7f) :: u32)) = (unat b mod 128) * 2 ^ by"
proof -
  have "unat (ucast (b AND 0x7f) :: u32) = unat b mod 128"
    using varint_low_byte [of b] by (simp add: unsigned_ucast_eq take_bit_eq_mod)
  then show ?thesis
    using assms by (simp add: unat_push_bit_small)
qed

lemma varint_accumulate:
  fixes v :: "'a::len word" and x :: u32
  assumes "unat v < 2 ^ by" "unat x = c * 2 ^ by" "32 \<le> LENGTH('a)"
  shows "v OR ucast x = of_nat (unat v + c * 2 ^ by)"
proof -
  have "(2::nat) ^ 32 \<le> 2 ^ LENGTH('a)"
    using assms(3) by (rule power_increasing) simp
  then have "unat x < 2 ^ LENGTH('a)"
    by (intro order.strict_trans2 [OF unat_u32_less]) simp
  then have "unat (ucast x :: 'a word) = c * 2 ^ by"
    using assms(2) by (simp add: unsigned_ucast_eq take_bit_eq_mod)
  then have x: "(ucast x :: 'a word) = push_bit by (of_nat c)"
    using word_eq_of_natI [of "ucast x :: 'a word"] by (simp add: push_bit_eq_mult)
  have "v OR ucast x = push_bit by (of_nat c) + v"
    using push_bit_or_add [OF assms(1)] by (simp add: x or.commute)
  then show ?thesis
    by (simp add: push_bit_eq_mult add.commute word_of_nat_unat)
qed

lemma varint_read_loop_eq:
  fixes v :: "'a::len word"
  assumes "wf_ds ds" "ds_avail ds = varuint_bytes n @ rest"
    and "n * 2 ^ by < 2 ^ 32" "by < 32" "unat v < 2 ^ by" "32 \<le> LENGTH('a)"
  shows "varint_read_loop v by ds =
    Inr (of_nat (unat v + n * 2 ^ by), ds_advance (length (varuint_bytes n)) ds)"
  using assms
proof (induction n arbitrary: v "by" ds rule: varuint_bytes.induct)
  case (1 n)
  define b :: byte where "b = hd (varuint_bytes n)"
  have b: "unat b = (if n < 128 then n else n mod 128 + 128)"
    by (cases "n < 128")
       (simp_all add: b_def varuint_bytes_simps unat_of_nat take_bit_eq_mod del: of_nat_add)
  let ?v = "v OR ucast (push_bit by (ucast (b AND 0x7f) :: u32))"
  have "(n mod 128) * 2 ^ by \<le> n * 2 ^ by" by simp
  with "1.prems"(3) have small: "(n mod 128) * 2 ^ by < 2 ^ 32" by (rule le_less_trans [rotated])
  with b "1.prems" have v: "?v = of_nat (unat v + (n mod 128) * 2 ^ by)"
    by (intro varint_accumulate varint_chunk [of b "by", THEN trans]) (auto split: if_splits)
  obtain bs where bs: "ds_avail ds = b # bs"
    using "1.prems"(2) by (cases "varuint_bytes n") (auto simp: b_def)
  have step: "varint_read_loop v by ds =
      (if 128 \<le> n then varint_read_loop ?v (by + 7) (ds_advance 1 ds) else Inr (?v, ds_advance 1 ds))"
    using "1.prems"(1,4) bs b
    by (simp add: varint_read_loop.simps [of v "by" ds] ds_get_eq varint_more_iff Let_def)
  show ?case
  proof (cases "n < 128")
    case True
    then show ?thesis using step v by (simp add: varuint_bytes_simps)
  next
    case False
    have left: "1 \<le> ds_left ds" using bs by (metis One_nat_def Suc_leI length_ds_avail length_greater_0_conv list.discI)
    have avail: "ds_avail (ds_advance 1 ds) = varuint_bytes (n div 128) @ rest"
      using "1.prems"(1,2) False left by (simp add: ds_avail_advance varuint_bytes_simps)
    have "(2::nat) ^ (by + 7) \<le> n * 2 ^ by" using False by (simp add: power_add)
    with "1.prems"(3) have "(2::nat) ^ (by + 7) < 2 ^ 32" by (rule le_less_trans [rotated])
    then have by': "by + 7 < 32" by (simp only: power_strict_increasing_iff)
    have shift: "n div 128 * 2 ^ (by + 7) = 128 * (n div 128) * 2 ^ by"
      by (simp add: power_add)
    have "128 * (n div 128) * 2 ^ by \<le> n * 2 ^ by" by (intro mult_right_mono) simp_all
    with "1.prems"(3) have div: "n div 128 * 2 ^ (by + 7) < 2 ^ 32"
      unfolding shift by (rule le_less_trans [rotated])
    have "(n mod 128) * 2 ^ by \<le> 127 * 2 ^ by" by (intro mult_right_mono) simp_all
    moreover have "(2::nat) ^ (by + 7) = 128 * 2 ^ by" by (simp add: power_add)
    ultimately have sum: "unat v + (n mod 128) * 2 ^ by < 2 ^ (by + 7)"
      using "1.prems"(5) by linarith
    have "(2::nat) ^ (by + 7) \<le> 2 ^ LENGTH('a)"
      using by' "1.prems"(6) by (intro power_increasing) simp_all
    with sum have unat_v: "unat ?v = unat v + (n mod 128) * 2 ^ by"
      unfolding v by (intro unat_of_nat_small) (rule less_le_trans)
    have "varint_read_loop ?v (by + 7) (ds_advance 1 ds) =
        Inr (of_nat (unat ?v + n div 128 * 2 ^ (by + 7)),
             ds_advance (length (varuint_bytes (n div 128))) (ds_advance 1 ds))"
      using False left avail div by' sum "1.prems"(1,6) unat_v
      by (intro "1.IH") (simp_all add: wf_ds_advance)
    moreover have "n mod 128 * 2 ^ by + 128 * (n div 128) * 2 ^ by = n * 2 ^ by"
      by (simp flip: distrib_right)
    then have "unat ?v + n div 128 * 2 ^ (by + 7) = unat v + n * 2 ^ by"
      unfolding unat_v shift by simp
    ultimately show ?thesis
      using step False by (simp add: varuint_bytes_simps)
  qed
qed

lemma varint_read_loop_within:
  "wf_ds ds \<Longrightarrow> varint_read_loop v by ds = Inr (w, ds') \<Longrightarrow> ds_within ds ds'"
proof (induction v "by" ds rule: varint_read_loop.induct)
  case (1 v "by" ds)
  obtain b bs where av: "ds_avail ds = b # bs"
    using "1.prems" by (cases "ds_avail ds")
      (auto simp: varint_read_loop.simps [of v "by" ds] ds_get_eq)
  then have get: "ds_get ds = Inr (b, ds_advance 1 ds)" and left: "1 \<le> ds_left ds"
    using "1.prems"(1) length_ds_avail [of ds] by (simp_all add: ds_get_eq)
  then have within: "ds_within ds (ds_advance 1 ds)" by (simp add: ds_within_advance)
  let ?v = "v OR ucast (push_bit by (ucast (b AND 0x7f) :: u32))"
  consider "ds' = ds_advance 1 ds"
    | "\<not> 32 \<le> by" "b AND 0x80 \<noteq> 0" "varint_read_loop ?v (by + 7) (ds_advance 1 ds) = Inr (w, ds')"
    using "1.prems"(2) get
    by (auto simp: varint_read_loop.simps [of v "by" ds] Let_def split: if_splits)
  then show ?case
  proof cases
    case 1
    with within show ?thesis by simp
  next
    case 2
    then have "ds_within (ds_advance 1 ds) ds'"
      using "1.IH" [OF get refl] within "1.prems"(1) by (auto intro: ds_within_wf)
    with "1.prems"(1) within show ?thesis by (rule ds_within_trans)
  qed
qed

lemma varint_more_nth: "128 \<le> unat b \<Longrightarrow> b AND 0x80 \<noteq> 0" for b :: byte
  by (simp add: varint_more_iff)

lemma varint_read_loop_overlong:
  fixes v :: "'a::len word"
  assumes "wf_ds ds" "ds_avail ds = bs @ b # rest" "\<forall>b\<in>set bs. 128 \<le> unat b"
    and "by + 7 * length bs \<ge> 32"
  shows "varint_read_loop v by ds = Inl (Undefined ''shift of a 32-bit integer by 32 or more'')"
  using assms
proof (induction bs arbitrary: v "by" ds)
  case Nil
  then show ?case by (simp add: varint_read_loop.simps [of v "by" ds] ds_get_eq)
next
  case (Cons c bs)
  have left: "1 \<le> ds_left ds"
    using Cons.prems(2) length_ds_avail [of ds] by simp
  show ?case
  proof (cases "by < 32")
    case True
    then have "varint_read_loop v by ds =
        varint_read_loop (v OR ucast (push_bit by (ucast (c AND 0x7f) :: u32))) (by + 7) (ds_advance 1 ds)"
      using Cons.prems by (simp add: varint_read_loop.simps [of v "by" ds] ds_get_eq varint_more_nth Let_def)
    then show ?thesis
      using Cons.IH [of "ds_advance 1 ds" "by + 7"] Cons.prems left
      by (simp add: wf_ds_advance ds_avail_advance)
  next
    case False
    then show ?thesis
      using Cons.prems by (simp add: varint_read_loop.simps [of v "by" ds] ds_get_eq)
  qed
qed

subsection \<open>The zig-zag map\<close>

lemma zigzag_inverse:
  fixes v :: u32
  defines "z \<equiv> push_bit 1 v XOR signed_drop_bit 31 v"
  shows "ucast ((ucast (drop_bit 1 z) :: u64) XOR ((ucast (NOT (z AND 1)) :: u64) + 1)) = v"
proof -
  have sgn: "signed_drop_bit 31 v = (if bit v 31 then - 1 else 0)"
    by (rule bit_word_eqI) (auto simp: bit_signed_drop_bit_iff not_less_eq_eq)
  have bz: "bit z n \<longleftrightarrow> n < 32 \<and> ((1 \<le> n \<and> bit v (n - 1)) \<noteq> bit v 31)" for n
    unfolding z_def sgn by (simp only: bit_xor_iff bit_push_bit_iff)
      (auto simp: bit_simps dest: bit_imp_le_length)
  have low: "z AND 1 = of_bool (bit v 31)"
    by (rule bit_word_eqI) (auto simp: bz bit_simps)
  have ext: "(ucast (NOT (z AND 1)) :: u64) + 1 = (if bit v 31 then mask 32 else 2 ^ 32)"
    by (simp add: low mask_eq_exp_minus_1 unsigned_minus_1_eq_mask)
  have bd: "bit (drop_bit 1 z) n \<longleftrightarrow> bit z (n + 1)" for n
    by (simp only: bit_drop_bit_eq o_def add.commute)
  have num: "(4294967295 :: u32) = - 1" "(4294967296 :: u32) = 0" by simp_all
  have cut: "ucast ((ucast d :: u64) XOR (if c then mask 32 else 2 ^ 32)) =
      d XOR (if c then - 1 else 0)" for d :: u32 and c
    by (cases c) (simp_all add: unsigned_xor_eq unsigned_ucast_eq mask_eq_exp_minus_1
        take_bit_word_eq_self ucast_id num)
  have "drop_bit 1 z XOR (if bit v 31 then - 1 else 0) = v"
  proof (rule bit_word_eqI)
    fix n
    assume "n < LENGTH(32)"
    then have "n < 31 \<or> n = 31" by auto
    then show "bit (drop_bit 1 z XOR (if bit v 31 then - 1 else 0)) n = bit v n"
      by (auto simp: bz bd [unfolded One_nat_def] bit_simps simp del: bit_drop_bit_eq)
  qed
  then show ?thesis unfolding ext cut .
qed

end
