(* ===== verification/Codec.thy ===== *)
theory Codec
  imports Varint
begin

text \<open>
  The contract every pair of stream operators \<^verbatim>\<open><<\<close> and \<^verbatim>\<open>>>\<close> of
  \<^verbatim>\<open>libraries/wasmlib/core/datastream.hpp\<close> keeps, as a locale, and the
  functions \<open>pack\<close>, \<open>pack_size\<close> and \<open>unpack\<close> of that file, whose correctness
  is proved once from the contract.

  A codec has a wire format \<open>enc\<close>, a domain \<open>ok\<close>, the two operators and the
  value a default-constructed object holds before \<^verbatim>\<open>>>\<close> assigns to it. The
  laws: \<open>ser\<close> writes exactly the wire format, whichever stream class it is given
  and however it splits the writes; \<open>deser\<close> recovers the value and consumes exactly
  its bytes, whatever follows; and on arbitrary input \<open>deser\<close> leaves the stream
  within its buffer or aborts.
\<close>

section \<open>Packing and unpacking\<close>

fun sink_tellp :: "sink \<Rightarrow> u32" where
  "sink_tellp (Buf ds) = ds_tellp ds"
| "sink_tellp (Siz ss) = ss_tellp ss"

definition pack_size :: "('a \<Rightarrow> sink \<Rightarrow> sink res) \<Rightarrow> 'a \<Rightarrow> u32 res" where
  "pack_size ser value = mapr sink_tellp (ser value (Siz (ss_make 0)))"

text \<open>
  \<open>pack\<close> resizes a fresh vector to the computed size, which zeroes it, writes
  through a stream over it and returns its bytes. The address \<open>a\<close> of the vector's
  storage and the memory around it are arguments.
\<close>

definition pack :: "mem \<Rightarrow> u32 \<Rightarrow> ('a \<Rightarrow> sink \<Rightarrow> sink res) \<Rightarrow> 'a \<Rightarrow> byte list res" where
  "pack m a ser value =
     bindr (pack_size ser value) (\<lambda>n.
       bindr (ser value (Buf (ds_make (mem_write m a (replicate (unat n) 0)) a n))) (\<lambda>s.
         case s of Buf ds \<Rightarrow> Inr (mem_read (ds_mem ds) a (unat n))
         | Siz ss \<Rightarrow> Inl (Undefined ''not a pointer stream'')))"

definition unpack ::
  "('a \<Rightarrow> datastream \<Rightarrow> ('a \<times> datastream) res) \<Rightarrow> 'a \<Rightarrow> mem \<Rightarrow> u32 \<Rightarrow> u32 \<Rightarrow> 'a res" where
  "unpack deser result m buffer len = mapr fst (deser result (ds_make m buffer len))"

text \<open>Unpacking a vector of bytes, whose storage is at address \<open>a\<close>.\<close>

definition unpack_bytes ::
  "('a \<Rightarrow> datastream \<Rightarrow> ('a \<times> datastream) res) \<Rightarrow> 'a \<Rightarrow> mem \<Rightarrow> u32 \<Rightarrow> byte list \<Rightarrow> 'a res" where
  "unpack_bytes deser result m a bytes =
     unpack deser result (mem_write m a bytes) a (of_nat (length bytes))"

section \<open>The contract\<close>

lemma ds_make_avail:
  assumes "length bs < 2 ^ 31" "unat a + length bs < 2 ^ 32"
  shows "ds_avail (ds_make (mem_write m a bs) a (of_nat (length bs))) = bs"
proof -
  have "unat (of_nat (length bs) :: u32) = length bs"
    using assms(1) by (intro unat_of_nat_u32) simp
  then show ?thesis
    using mem_read_write [of bs m a] assms(1) by (simp add: ds_avail_def ds_left_def ds_make_def)
qed

locale codec =
  fixes enc :: "'a \<Rightarrow> byte list"
    and ok :: "'a \<Rightarrow> bool"
    and ser :: "'a \<Rightarrow> sink \<Rightarrow> sink res"
    and deser :: "'a \<Rightarrow> datastream \<Rightarrow> ('a \<times> datastream) res"
    and dflt :: 'a
  assumes ser_enc:
      "wf_sink s \<Longrightarrow> ok v \<Longrightarrow> length (enc v) < 2 ^ 31 \<Longrightarrow> ser v s = sink_write (enc v) s"
    and deser_enc:
      "wf_ds ds \<Longrightarrow> ok v \<Longrightarrow> ds_avail ds = enc v @ rest \<Longrightarrow>
         deser dflt ds = Inr (v, ds_advance (length (enc v)) ds)"
    and deser_within: "wf_ds ds \<Longrightarrow> deser w ds = Inr (v, ds') \<Longrightarrow> ds_within ds ds'"
begin

text \<open>\<open>pack_size\<close> is the length of the wire format; \<open>pack\<close> never overruns and yields it.\<close>

lemma pack_size_enc:
  "ok v \<Longrightarrow> length (enc v) < 2 ^ 31 \<Longrightarrow> pack_size ser v = Inr (of_nat (length (enc v)))"
  by (simp add: pack_size_def ser_enc ss_write_def ss_make_def ss_tellp_def)

lemma pack_enc:
  assumes "ok v" "length (enc v) < 2 ^ 31" "unat a + length (enc v) < 2 ^ 32"
  shows "pack m a ser v = Inr (enc v)"
proof -
  let ?n = "of_nat (length (enc v)) :: u32"
  let ?ds = "ds_make (mem_write m a (replicate (length (enc v)) 0)) a ?n"
  have n: "unat ?n = length (enc v)"
    using assms(2) by (intro unat_of_nat_u32) simp
  have wf: "wf_ds ?ds" and left: "ds_left ?ds = length (enc v)"
    using ds_make_wf [of a ?n] assms n by (simp_all add: ds_left_def ds_make_def)
  have "ser v (Buf ?ds) = mapr Buf (ds_write (enc v) ?ds)"
    using wf assms by (simp add: ser_enc)
  then show ?thesis
    using assms n wf left
    by (simp add: pack_def pack_size_enc ds_write_eq mem_read_write ds_make_def)
qed

lemma unpack_enc:
  assumes "ok v" "length (enc v) < 2 ^ 31" "unat a + length (enc v) < 2 ^ 32"
  shows "unpack_bytes deser dflt m a (enc v) = Inr v"
proof -
  let ?n = "of_nat (length (enc v)) :: u32"
  let ?ds = "ds_make (mem_write m a (enc v)) a ?n"
  have n: "unat ?n = length (enc v)"
    using assms(2) by (intro unat_of_nat_u32) simp
  then have "wf_ds ?ds"
    using assms by (intro ds_make_wf) simp_all
  moreover have "ds_avail ?ds = enc v @ []"
    using assms by (simp add: ds_make_avail)
  ultimately show ?thesis
    using assms by (simp add: unpack_bytes_def unpack_def deser_enc)
qed

lemma pack_unpack:
  assumes "ok v" "length (enc v) < 2 ^ 31" "unat a + length (enc v) < 2 ^ 32" "unat b + length (enc v) < 2 ^ 32"
  shows "pack m a ser v = Inr (enc v) \<and> unpack_bytes deser dflt m' b (enc v) = Inr v"
  using assms pack_enc unpack_enc by simp

text \<open>Prefix freeness: no wire format is a proper prefix of another.\<close>

lemma enc_prefix_free:
  assumes "ok v" "ok w" "enc v @ bs = enc w @ cs" "length (enc v @ bs) < 2 ^ 31"
  shows "v = w \<and> bs = cs"
proof -
  let ?xs = "enc v @ bs"
  let ?ds = "ds_make (mem_write (\<lambda>_. 0) 0 ?xs) 0 (of_nat (length ?xs))"
  have n: "unat (of_nat (length ?xs) :: u32) = length ?xs"
    using assms(4) by (intro unat_of_nat_u32) simp
  have wf: "wf_ds ?ds"
    using n assms(4) by (intro ds_make_wf) simp_all
  have avail: "ds_avail ?ds = ?xs"
    using assms(4) by (intro ds_make_avail) simp_all
  then have "deser dflt ?ds = Inr (v, ds_advance (length (enc v)) ?ds)"
    by (rule deser_enc [OF wf assms(1)])
  moreover have "deser dflt ?ds = Inr (w, ds_advance (length (enc w)) ?ds)"
    using avail by (intro deser_enc [OF wf assms(2)]) (simp only: assms(3))
  ultimately show ?thesis
    using assms(3) by simp
qed

end

section \<open>The variable length integers are codecs\<close>

definition unsigned_int_enc :: "unsigned_int \<Rightarrow> byte list" where
  "unsigned_int_enc v = varuint_bytes (unat (uint_value v))"

definition zigzag :: "u32 \<Rightarrow> u32" where
  "zigzag v = push_bit 1 v XOR signed_drop_bit 31 v"

definition signed_int_enc :: "signed_int \<Rightarrow> byte list" where
  "signed_int_enc v = varuint_bytes (unat (zigzag (sint_value v)))"

lemma zigzag_sint:
  "int (unat (zigzag v)) = (if sint v < 0 then - 2 * sint v - 1 else 2 * sint v)"
proof (cases "unat v < 2 ^ 31")
  case True
  then have "\<not> bit v 31" using top_bit_iff [of v] by simp
  then have "signed_drop_bit 31 v = 0"
    by (intro bit_word_eqI) (auto simp: bit_signed_drop_bit_iff not_less_eq_eq)
  then have "zigzag v = push_bit 1 v" by (simp only: zigzag_def) simp
  moreover have "unat (push_bit 1 v) = unat v * 2"
    using True by (subst unat_push_bit_small) simp_all
  ultimately show ?thesis
    using True by (simp add: sint_alt)
next
  case False
  then have "bit v 31" using top_bit_iff [of v] by simp
  then have "signed_drop_bit 31 v = - 1"
    by (intro bit_word_eqI) (auto simp: bit_signed_drop_bit_iff not_less_eq_eq)
  then have "zigzag v = NOT (push_bit 1 v)" by (simp only: zigzag_def) simp
  moreover have "unat (push_bit 1 v) = unat v * 2 - 2 ^ 32"
    using False unat_u32_less [of v] unfolding unat_push_bit
    by (simp add: mod_if del: unat_u32_less)
  moreover have "uint v < 2 ^ 32" using uint_lt2p [of v] by simp
  ultimately show ?thesis
    using False unat_u32_less [of v] by (simp add: sint_alt unat_not of_nat_diff del: unat_u32_less)
qed

interpretation unsigned_int: codec unsigned_int_enc "\<lambda>_. True"
  ser_unsigned_int deser_unsigned_int "Unsigned_int 0"
proof
  fix s v
  assume "wf_sink s"
  moreover have "unat (ucast (uint_value v) :: u64) = unat (uint_value v)"
    by (simp add: unat_ucast_up)
  ultimately show "ser_unsigned_int v s = sink_write (unsigned_int_enc v) s"
    using varint_write_loop_eq [of s "ucast (uint_value v) :: u64"] length_varuint_u32 [of "uint_value v"]
    by (simp add: ser_unsigned_int_def unsigned_int_enc_def)
next
  fix ds v rest
  assume "wf_ds ds" "ds_avail ds = unsigned_int_enc v @ rest"
  then show "deser_unsigned_int (Unsigned_int 0) ds =
      Inr (v, ds_advance (length (unsigned_int_enc v)) ds)"
    using varint_read_loop_eq [of ds "unat (uint_value v)" rest 0 "0::u64"]
    by (simp add: deser_unsigned_int_def unsigned_int_enc_def ucast_id)
next
  fix ds w v ds'
  assume "wf_ds ds" "deser_unsigned_int w ds = Inr (v, ds')"
  then show "ds_within ds ds'"
    by (auto simp: deser_unsigned_int_def res_simps split: prod.splits dest: varint_read_loop_within)
qed

interpretation signed_int: codec signed_int_enc "\<lambda>_. True"
  ser_signed_int deser_signed_int "Signed_int 0"
proof
  fix s v
  assume "wf_sink s"
  then show "ser_signed_int v s = sink_write (signed_int_enc v) s"
    using varint_write_loop_eq [of s "zigzag (sint_value v)"] length_varuint_u32 [of "zigzag (sint_value v)"]
    unfolding ser_signed_int_def signed_int_enc_def zigzag_def [symmetric] by simp
next
  fix ds v rest
  assume "wf_ds ds" "ds_avail ds = signed_int_enc v @ rest"
  then show "deser_signed_int (Signed_int 0) ds =
      Inr (v, ds_advance (length (signed_int_enc v)) ds)"
    using varint_read_loop_eq [of ds "unat (zigzag (sint_value v))" rest 0 "0::u32"]
      zigzag_inverse [of "sint_value v"]
    by (simp add: deser_signed_int_def signed_int_enc_def ucast_id zigzag_def)
next
  fix ds w v ds'
  assume "wf_ds ds" "deser_signed_int w ds = Inr (v, ds')"
  then show "ds_within ds ds'"
    by (auto simp: deser_signed_int_def res_simps split: prod.splits dest: varint_read_loop_within)
qed

end
