(* ===== verification/Containers.thy ===== *)
theory Containers
  imports Codec "HOL-Library.Mapping"
begin

text \<open>
  The stream operators of \<^verbatim>\<open>libraries/wasmlib/core/datastream.hpp\<close> for
  primitive types, \<^verbatim>\<open>bool\<close>, \<^verbatim>\<open>std::string\<close>, the sequence
  containers, C arrays, \<^verbatim>\<open>std::set\<close>, \<^verbatim>\<open>std::map\<close>, \<^verbatim>\<open>std::pair\<close>,
  \<^verbatim>\<open>std::tuple\<close>, classes, \<^verbatim>\<open>std::optional\<close> and \<^verbatim>\<open>std::variant\<close>.

  A template over the element type takes the element's operators as arguments; a
  deserialiser also takes the element's default value where the source declares a
  fresh object, and always takes the old value of its destination, because
  \<^verbatim>\<open>>>\<close> assigns in place. Each section ends by showing that the operators keep
  the contract of \<open>codec\<close> when the element's operators do.
\<close>

section \<open>Shared facts on sequencing\<close>

lemma sink_seq:
  assumes "wf_sink s" "length (d @ e) < 2 ^ 31"
    and "\<And>s'. wf_sink s' \<Longrightarrow> f s' = sink_write e s'"
  shows "bindr (sink_write d s) f = sink_write (d @ e) s"
proof -
  have "length d < 2 ^ 31" using assms(2) by simp
  note wf = sink_write_wf [OF assms(1) this]
  then have "bindr (sink_write d s) f = bindr (sink_write d s) (sink_write e)"
    using assms(3) by (intro bindr_cong) blast+
  with assms show ?thesis by (simp only: sink_write_append)
qed

lemma ds_split:
  assumes "wf_ds ds" "ds_avail ds = d @ rest"
  shows "wf_ds (ds_advance (length d) ds)" "ds_avail (ds_advance (length d) ds) = rest"
    "length d \<le> ds_left ds"
proof -
  show le: "length d \<le> ds_left ds"
    using assms(2) length_ds_avail [of ds] by simp
  show "wf_ds (ds_advance (length d) ds)" "ds_avail (ds_advance (length d) ds) = rest"
    using le assms by (simp_all add: wf_ds_advance ds_avail_advance)
qed

lemma ds_read_split:
  "ds_avail ds = d @ rest \<Longrightarrow> unat s = length d \<Longrightarrow> ds_read s ds = Inr (d, ds_advance (length d) ds)"
  using length_ds_avail [of ds] by (simp add: ds_read_eq)

lemma within_step:
  "wf_ds ds \<Longrightarrow> ds_within ds ds' \<Longrightarrow> (wf_ds ds' \<Longrightarrow> ds_within ds' ds'') \<Longrightarrow> ds_within ds ds''"
  using ds_within_trans ds_within_wf by blast

section \<open>Primitive types\<close>

definition ser_primitive :: "'a::len word \<Rightarrow> sink \<Rightarrow> sink res" where
  "ser_primitive v ds = sink_write (le_bytes (LENGTH('a) div 8) v) ds"

definition deser_primitive :: "'a::len word \<Rightarrow> datastream \<Rightarrow> ('a word \<times> datastream) res" where
  "deser_primitive v ds =
     bindr (ds_read (of_nat (LENGTH('a) div 8)) ds) (\<lambda>(bs, ds'). Inr (le_word bs, ds'))"

definition ser_bool :: "bool \<Rightarrow> sink \<Rightarrow> sink res" where
  "ser_bool d ds = ser_primitive (of_bool d :: u8) ds"

definition deser_bool :: "bool \<Rightarrow> datastream \<Rightarrow> (bool \<times> datastream) res" where
  "deser_bool d ds = bindr (deser_primitive (0 :: u8) ds) (\<lambda>(t, ds'). Inr (t \<noteq> 0, ds'))"

definition prim_enc :: "'a::len word \<Rightarrow> byte list" where
  "prim_enc w = le_bytes (LENGTH('a) div 8) w"

lemma length_prim_enc [simp]: "length (prim_enc (w::'a::len word)) = LENGTH('a) div 8"
  by (simp add: prim_enc_def)

lemma codec_primitive:
  assumes "8 dvd LENGTH('a::len)" "LENGTH('a) div 8 < 2 ^ 31"
  shows "codec prim_enc (\<lambda>_. True) ser_primitive deser_primitive (w::'a word)"
proof
  fix s and v :: "'a word"
  show "ser_primitive v s = sink_write (prim_enc v) s"
    by (simp add: ser_primitive_def prim_enc_def)
next
  fix ds rest and v :: "'a word"
  assume "wf_ds ds" "ds_avail ds = prim_enc v @ rest"
  moreover have "unat (of_nat (LENGTH('a) div 8) :: u32) = LENGTH('a) div 8"
    using assms(2) by (intro unat_of_nat_u32) simp
  moreover have "le_word (prim_enc v) = v"
    using assms(1) by (simp add: prim_enc_def le_word_le_bytes)
  ultimately show "deser_primitive w ds = Inr (v, ds_advance (length (prim_enc v)) ds)"
    by (simp add: deser_primitive_def ds_read_split)
next
  fix ds ds' and v w :: "'a word"
  assume "wf_ds ds" "deser_primitive w ds = Inr (v, ds')"
  then show "ds_within ds ds'"
    by (auto simp: deser_primitive_def res_simps dest: ds_read_within split: prod.splits)
qed

interpretation prim8: codec prim_enc "\<lambda>_. True" ser_primitive deser_primitive "0 :: u8"
  by (rule codec_primitive) simp_all

interpretation prim16: codec prim_enc "\<lambda>_. True" ser_primitive deser_primitive "0 :: u16"
  by (rule codec_primitive) simp_all

interpretation prim32: codec prim_enc "\<lambda>_. True" ser_primitive deser_primitive "0 :: u32"
  by (rule codec_primitive) simp_all

interpretation prim64: codec prim_enc "\<lambda>_. True" ser_primitive deser_primitive "0 :: u64"
  by (rule codec_primitive) simp_all

interpretation prim128: codec prim_enc "\<lambda>_. True" ser_primitive deser_primitive "0 :: u128"
  by (rule codec_primitive) simp_all

interpretation bool_codec: codec "\<lambda>d. prim_enc (of_bool d :: u8)" "\<lambda>_. True"
  ser_bool deser_bool False
proof
  fix s d
  assume "wf_sink s"
  then show "ser_bool d s = sink_write (prim_enc (of_bool d :: u8)) s"
    by (simp add: ser_bool_def prim8.ser_enc)
next
  fix ds d rest
  assume "wf_ds ds" "ds_avail ds = prim_enc (of_bool d :: u8) @ rest"
  then show "deser_bool False ds = Inr (d, ds_advance (length (prim_enc (of_bool d :: u8))) ds)"
    using prim8.deser_enc [of ds "of_bool d" rest] by (simp add: deser_bool_def)
next
  fix ds w d ds'
  assume "wf_ds ds" "deser_bool w ds = Inr (d, ds')"
  then show "ds_within ds ds'"
    by (auto simp: deser_bool_def res_simps dest: prim8.deser_within split: prod.splits)
qed

section \<open>Sequence containers\<close>

text \<open>The two range-based loops, over the elements to write and over the elements to assign.\<close>

primrec ser_each :: "('a \<Rightarrow> sink \<Rightarrow> sink res) \<Rightarrow> 'a list \<Rightarrow> sink \<Rightarrow> sink res" where
  "ser_each ser [] ds = Inr ds"
| "ser_each ser (x # xs) ds = bindr (ser x ds) (ser_each ser xs)"

primrec deser_each ::
  "('a \<Rightarrow> datastream \<Rightarrow> ('a \<times> datastream) res) \<Rightarrow> 'a list \<Rightarrow> datastream \<Rightarrow> ('a list \<times> datastream) res" where
  "deser_each deser [] ds = Inr ([], ds)"
| "deser_each deser (x # xs) ds =
     bindr (deser x ds) (\<lambda>(y, ds'). bindr (deser_each deser xs ds') (\<lambda>(ys, ds''). Inr (y # ys, ds'')))"

text \<open>\<^verbatim>\<open>resize\<close> of the standard containers: truncate, or pad with a default value.\<close>

definition resize :: "nat \<Rightarrow> 'a \<Rightarrow> 'a list \<Rightarrow> 'a list" where
  "resize n d xs = take n xs @ replicate (n - length xs) d"

definition ser_list :: "('a \<Rightarrow> sink \<Rightarrow> sink res) \<Rightarrow> 'a list \<Rightarrow> sink \<Rightarrow> sink res" where
  "ser_list ser l ds =
     bindr (ser_unsigned_int (Unsigned_int (of_nat (length l))) ds) (ser_each ser l)"

definition deser_list ::
  "('a \<Rightarrow> datastream \<Rightarrow> ('a \<times> datastream) res) \<Rightarrow> 'a \<Rightarrow> 'a list \<Rightarrow> datastream \<Rightarrow> ('a list \<times> datastream) res" where
  "deser_list deser d l ds =
     bindr (deser_unsigned_int (Unsigned_int 0) ds) (\<lambda>(s, ds').
       deser_each deser (resize (unat (uint_value s)) d l) ds')"

definition ser_deque :: "('a \<Rightarrow> sink \<Rightarrow> sink res) \<Rightarrow> 'a list \<Rightarrow> sink \<Rightarrow> sink res" where
  "ser_deque ser q ds =
     bindr (ser_unsigned_int (Unsigned_int (of_nat (length q))) ds) (ser_each ser q)"

definition deser_deque ::
  "('a \<Rightarrow> datastream \<Rightarrow> ('a \<times> datastream) res) \<Rightarrow> 'a \<Rightarrow> 'a list \<Rightarrow> datastream \<Rightarrow> ('a list \<times> datastream) res" where
  "deser_deque deser d q ds =
     bindr (deser_unsigned_int (Unsigned_int 0) ds) (\<lambda>(s, ds').
       deser_each deser (resize (unat (uint_value s)) d q) ds')"

definition ser_vector :: "('a \<Rightarrow> sink \<Rightarrow> sink res) \<Rightarrow> 'a list \<Rightarrow> sink \<Rightarrow> sink res" where
  "ser_vector ser v ds =
     bindr (ser_unsigned_int (Unsigned_int (of_nat (length v))) ds) (ser_each ser v)"

definition deser_vector ::
  "('a \<Rightarrow> datastream \<Rightarrow> ('a \<times> datastream) res) \<Rightarrow> 'a \<Rightarrow> 'a list \<Rightarrow> datastream \<Rightarrow> ('a list \<times> datastream) res" where
  "deser_vector deser d v ds =
     bindr (deser_unsigned_int (Unsigned_int 0) ds) (\<lambda>(s, ds').
       deser_each deser (resize (unat (uint_value s)) d v) ds')"

text \<open>\<^verbatim>\<open>std::vector<char>\<close> and \<^verbatim>\<open>std::string\<close> move their bytes in one call.\<close>

definition ser_bytes :: "byte list \<Rightarrow> sink \<Rightarrow> sink res" where
  "ser_bytes v ds =
     bindr (ser_unsigned_int (Unsigned_int (of_nat (length v))) ds) (sink_write v)"

definition deser_bytes :: "byte list \<Rightarrow> datastream \<Rightarrow> (byte list \<times> datastream) res" where
  "deser_bytes v ds =
     bindr (deser_unsigned_int (Unsigned_int 0) ds) (\<lambda>(s, ds').
       let v' = resize (unat (uint_value s)) 0 v in ds_read (of_nat (length v')) ds')"

definition ser_string :: "string \<Rightarrow> sink \<Rightarrow> sink res" where
  "ser_string v ds =
     bindr (ser_unsigned_int (Unsigned_int (of_nat (length v))) ds) (\<lambda>ds'.
       if length v \<noteq> 0 then sink_write (map byte_of_char v) ds' else Inr ds')"

definition deser_string :: "string \<Rightarrow> datastream \<Rightarrow> (string \<times> datastream) res" where
  "deser_string v ds =
     bindr (deser_unsigned_int (Unsigned_int 0) ds) (\<lambda>(s, ds').
       let v' = resize (unat (uint_value s)) (CHR ''0'') v
       in bindr (ds_read (of_nat (length v')) ds') (\<lambda>(bs, ds''). Inr (map char_of_byte bs, ds'')))"

text \<open>\<^verbatim>\<open>std::array\<close> has no size prefix.\<close>

definition ser_array :: "('a \<Rightarrow> sink \<Rightarrow> sink res) \<Rightarrow> 'a list \<Rightarrow> sink \<Rightarrow> sink res" where
  "ser_array ser v ds = ser_each ser v ds"

definition deser_array ::
  "('a \<Rightarrow> datastream \<Rightarrow> ('a \<times> datastream) res) \<Rightarrow> 'a list \<Rightarrow> datastream \<Rightarrow> ('a list \<times> datastream) res" where
  "deser_array deser v ds = deser_each deser v ds"

text \<open>C arrays of \<open>N\<close> elements, of class type and of primitive type.\<close>

definition ser_c_array :: "nat \<Rightarrow> ('a \<Rightarrow> sink \<Rightarrow> sink res) \<Rightarrow> 'a list \<Rightarrow> sink \<Rightarrow> sink res" where
  "ser_c_array N ser v ds =
     bindr (ser_unsigned_int (Unsigned_int (of_nat N)) ds) (ser_each ser (take N v))"

definition deser_c_array ::
  "nat \<Rightarrow> ('a \<Rightarrow> datastream \<Rightarrow> ('a \<times> datastream) res) \<Rightarrow> 'a list \<Rightarrow> datastream \<Rightarrow> ('a list \<times> datastream) res" where
  "deser_c_array N deser v ds =
     bindr (deser_unsigned_int (Unsigned_int 0) ds) (\<lambda>(s, ds').
       bindr (check (N = unat (uint_value s)) ''T[] size and unpacked size don't match'') (\<lambda>_.
         deser_each deser (take N v) ds'))"

primrec words_of :: "nat \<Rightarrow> byte list \<Rightarrow> 'a::len word list" where
  "words_of 0 bs = []"
| "words_of (Suc n) bs =
     le_word (take (LENGTH('a) div 8) bs) # words_of n (drop (LENGTH('a) div 8) bs)"

definition ser_c_array_primitive :: "nat \<Rightarrow> 'a::len word list \<Rightarrow> sink \<Rightarrow> sink res" where
  "ser_c_array_primitive N v ds =
     bindr (ser_unsigned_int (Unsigned_int (of_nat N)) ds)
       (sink_write (concat (map (le_bytes (LENGTH('a) div 8)) (take N v))))"

definition deser_c_array_primitive ::
  "nat \<Rightarrow> 'a::len word list \<Rightarrow> datastream \<Rightarrow> ('a word list \<times> datastream) res" where
  "deser_c_array_primitive N v ds =
     bindr (deser_unsigned_int (Unsigned_int 0) ds) (\<lambda>(s, ds').
       bindr (check (N = unat (uint_value s)) ''T[] size and unpacked size don't match'') (\<lambda>_.
         bindr (ds_read (of_nat (N * (LENGTH('a) div 8))) ds') (\<lambda>(bs, ds'').
           Inr (words_of N bs, ds''))))"

subsection \<open>Element loops\<close>

lemma length_resize [simp]: "length (resize n d xs) = n"
  by (simp add: resize_def)

lemma resize_Nil [simp]: "resize n d [] = replicate n d"
  by (simp add: resize_def)

lemma ser_each_write:
  assumes "wf_sink s" "length (concat (map enc xs)) < 2 ^ 31"
    and "\<And>x s. x \<in> set xs \<Longrightarrow> wf_sink s \<Longrightarrow> length (enc x) < 2 ^ 31 \<Longrightarrow> ser x s = sink_write (enc x) s"
  shows "ser_each ser xs s = sink_write (concat (map enc xs)) s"
  using assms
proof (induction xs arbitrary: s)
  case Nil
  then show ?case by (simp add: sink_write_Nil)
next
  case (Cons x xs)
  from Cons.prems(1,2) have "ser x s = sink_write (enc x) s"
    by (intro Cons.prems(3)) simp_all
  moreover have "bindr (sink_write (enc x) s) (ser_each ser xs) =
      sink_write (enc x @ concat (map enc xs)) s"
    using Cons.prems by (intro sink_seq Cons.IH) simp_all
  ultimately show ?case by simp
qed

context codec
begin

text \<open>The three steps from which every compound operator's contract follows.\<close>

lemma ser_then:
  assumes "wf_sink s" "ok v" "length (enc v @ e) < 2 ^ 31"
    and "\<And>s'. wf_sink s' \<Longrightarrow> f s' = sink_write e s'"
  shows "bindr (ser v s) f = sink_write (enc v @ e) s"
  using assms sink_seq [of s "enc v" e f] by (simp add: ser_enc)

lemma deser_then:
  assumes "wf_ds ds" "ok v" "ds_avail ds = enc v @ rest"
  shows "bindr (deser dflt ds) f = f (v, ds_advance (length (enc v)) ds)"
  using assms by (simp add: deser_enc)

lemma within_then:
  assumes "wf_ds ds" "bindr (deser w ds) f = Inr (v, ds')"
    and "\<And>x ds1. wf_ds ds1 \<Longrightarrow> f (x, ds1) = Inr (v, ds') \<Longrightarrow> ds_within ds1 ds'"
  shows "ds_within ds ds'"
proof -
  obtain x ds1 where "deser w ds = Inr (x, ds1)" "f (x, ds1) = Inr (v, ds')"
    using assms(2) by (auto simp: res_simps)
  then show ?thesis
    using within_step [OF assms(1) deser_within] assms(1,3) by blast
qed

lemma ser_each_enc:
  assumes "wf_sink s" "\<forall>x\<in>set xs. ok x" "length (concat (map enc xs)) < 2 ^ 31"
  shows "ser_each ser xs s = sink_write (concat (map enc xs)) s"
  using assms by (intro ser_each_write ser_enc) auto

lemma deser_each_enc:
  assumes "wf_ds ds" "\<forall>x\<in>set xs. ok x" "ds_avail ds = concat (map enc xs) @ rest"
  shows "deser_each deser (replicate (length xs) dflt) ds =
    Inr (xs, ds_advance (length (concat (map enc xs))) ds)"
  using assms
proof (induction xs arbitrary: ds)
  case Nil
  then show ?case by simp
next
  case (Cons x xs)
  then have av: "ds_avail ds = enc x @ concat (map enc xs) @ rest" by simp
  have "deser dflt ds = Inr (x, ds_advance (length (enc x)) ds)"
    using Cons.prems av by (intro deser_enc) simp_all
  moreover note ds_split [OF Cons.prems(1) av]
  ultimately show ?case
    using Cons.IH [of "ds_advance (length (enc x)) ds"] Cons.prems(2) by simp
qed

lemma deser_each_within:
  "wf_ds ds \<Longrightarrow> deser_each deser ws ds = Inr (vs, ds') \<Longrightarrow> ds_within ds ds'"
proof (induction ws arbitrary: ds vs)
  case Nil
  then show ?case by simp
next
  case (Cons w ws)
  then obtain y ds1 ys where "deser w ds = Inr (y, ds1)" "deser_each deser ws ds1 = Inr (ys, ds')"
    by (auto simp: res_simps split: prod.splits)
  with Cons show ?case
    by (meson deser_within within_step)
qed

end

subsection \<open>Wire formats\<close>

definition size_enc :: "nat \<Rightarrow> byte list" where
  "size_enc n = unsigned_int_enc (Unsigned_int (of_nat n))"

definition seq_enc :: "('a \<Rightarrow> byte list) \<Rightarrow> 'a list \<Rightarrow> byte list" where
  "seq_enc enc xs = size_enc (length xs) @ concat (map enc xs)"

definition seq_ok :: "('a \<Rightarrow> bool) \<Rightarrow> 'a list \<Rightarrow> bool" where
  "seq_ok ok xs = (length xs < 2 ^ 32 \<and> (\<forall>x\<in>set xs. ok x))"

definition arr_ok :: "nat \<Rightarrow> ('a \<Rightarrow> bool) \<Rightarrow> 'a list \<Rightarrow> bool" where
  "arr_ok N ok xs = (length xs = N \<and> (\<forall>x\<in>set xs. ok x))"

lemmas ser_size = unsigned_int.ser_then [of _ "Unsigned_int (of_nat n)" for n, folded size_enc_def]
lemmas deser_size = unsigned_int.deser_then [of _ "Unsigned_int (of_nat n)" for n, folded size_enc_def]

lemma size_value: "n < 2 ^ 32 \<Longrightarrow> unat (uint_value (Unsigned_int (of_nat n))) = n"
  by (simp add: unat_of_nat_u32)

lemma codec_bytes: "codec (seq_enc (\<lambda>b. [b])) (seq_ok (\<lambda>_. True)) ser_bytes deser_bytes []"
proof
  fix s v
  assume "wf_sink s" "length (seq_enc (\<lambda>b. [b]) v) < 2 ^ 31"
  then show "ser_bytes v s = sink_write (seq_enc (\<lambda>b. [b]) v) s"
    unfolding ser_bytes_def seq_enc_def by (intro ser_size) simp_all
next
  fix ds v rest
  assume wf: "wf_ds ds" and v: "seq_ok (\<lambda>_. True) v" and av: "ds_avail ds = seq_enc (\<lambda>b. [b]) v @ rest"
  from av have av: "ds_avail ds = size_enc (length v) @ v @ rest" by (simp add: seq_enc_def)
  from v have "length v < 2 ^ 32" by (simp add: seq_ok_def)
  then show "deser_bytes [] ds = Inr (v, ds_advance (length (seq_enc (\<lambda>b. [b]) v)) ds)"
    using wf v av ds_split [OF wf av]
    by (simp add: deser_bytes_def deser_size seq_enc_def unat_of_nat_u32 ds_read_split)
next
  fix ds w v ds'
  assume "wf_ds ds" "deser_bytes w ds = Inr (v, ds')"
  then show "ds_within ds ds'"
    unfolding deser_bytes_def by (rule unsigned_int.within_then) (auto simp: Let_def dest: ds_read_within)
qed

definition string_enc :: "string \<Rightarrow> byte list" where
  "string_enc = seq_enc (\<lambda>c. [byte_of_char c])"

lemma codec_string: "codec string_enc (seq_ok (\<lambda>_. True)) ser_string deser_string []"
proof
  fix s v
  assume "wf_sink s" "length (string_enc v) < 2 ^ 31"
  then show "ser_string v s = sink_write (string_enc v) s"
    unfolding ser_string_def string_enc_def seq_enc_def
    by (intro ser_size) (simp_all add: sink_write_Nil)
next
  fix ds v rest
  assume wf: "wf_ds ds" and v: "seq_ok (\<lambda>_. True) v" and av: "ds_avail ds = string_enc v @ rest"
  from av have av: "ds_avail ds = size_enc (length v) @ map byte_of_char v @ rest"
    by (simp add: string_enc_def seq_enc_def)
  from v have "length v < 2 ^ 32" by (simp add: seq_ok_def)
  then show "deser_string [] ds = Inr (v, ds_advance (length (string_enc v)) ds)"
    using wf v av ds_split [OF wf av]
    by (simp add: deser_string_def deser_size string_enc_def seq_enc_def unat_of_nat_u32 ds_read_split)
next
  fix ds w v ds'
  assume "wf_ds ds" "deser_string w ds = Inr (v, ds')"
  then show "ds_within ds ds'"
    unfolding deser_string_def by (rule unsigned_int.within_then)
      (auto simp: Let_def res_simps dest: ds_read_within split: prod.splits)
qed

lemma sequence_alike:
  "ser_list = ser_vector" "ser_deque = ser_vector"
  "deser_list = deser_vector" "deser_deque = deser_vector"
  by (simp_all add: fun_eq_iff ser_list_def ser_deque_def ser_vector_def
      deser_list_def deser_deque_def deser_vector_def)

context codec
begin

lemma codec_vector: "codec (seq_enc enc) (seq_ok ok) (ser_vector ser) (deser_vector deser dflt) []"
proof
  fix s v
  assume "wf_sink s" "seq_ok ok v" "length (seq_enc enc v) < 2 ^ 31"
  then show "ser_vector ser v s = sink_write (seq_enc enc v) s"
    unfolding ser_vector_def seq_enc_def seq_ok_def by (intro ser_size ser_each_enc) simp_all
next
  fix ds v rest
  assume wf: "wf_ds ds" and v: "seq_ok ok v" and av: "ds_avail ds = seq_enc enc v @ rest"
  from av have av: "ds_avail ds = size_enc (length v) @ concat (map enc v) @ rest"
    by (simp add: seq_enc_def)
  from v have "length v < 2 ^ 32" "\<forall>x\<in>set v. ok x" by (simp_all add: seq_ok_def)
  then show "deser_vector deser dflt [] ds = Inr (v, ds_advance (length (seq_enc enc v)) ds)"
    using wf v av ds_split [OF wf av] deser_each_enc [of "ds_advance (length (size_enc (length v))) ds" v rest]
    by (simp add: deser_vector_def deser_size seq_enc_def unat_of_nat_u32)
next
  fix ds w v ds'
  assume "wf_ds ds" "deser_vector deser dflt w ds = Inr (v, ds')"
  then show "ds_within ds ds'"
    unfolding deser_vector_def by (rule unsigned_int.within_then) (auto dest: deser_each_within)
qed

lemma codec_list: "codec (seq_enc enc) (seq_ok ok) (ser_list ser) (deser_list deser dflt) []"
  unfolding sequence_alike by (rule codec_vector)

lemma codec_deque: "codec (seq_enc enc) (seq_ok ok) (ser_deque ser) (deser_deque deser dflt) []"
  unfolding sequence_alike by (rule codec_vector)

lemma codec_array:
  "codec (\<lambda>xs. concat (map enc xs)) (arr_ok N ok) (ser_array ser) (deser_array deser) (replicate N dflt)"
proof
  fix s v
  assume "wf_sink s" "arr_ok N ok v" "length (concat (map enc v)) < 2 ^ 31"
  then show "ser_array ser v s = sink_write (concat (map enc v)) s"
    unfolding ser_array_def arr_ok_def by (intro ser_each_enc) simp_all
next
  fix ds v rest
  assume "wf_ds ds" "arr_ok N ok v" "ds_avail ds = concat (map enc v) @ rest"
  then show "deser_array deser (replicate N dflt) ds = Inr (v, ds_advance (length (concat (map enc v))) ds)"
    unfolding deser_array_def arr_ok_def using deser_each_enc [of ds v rest] by auto
next
  fix ds w v ds'
  assume "wf_ds ds" "deser_array deser w ds = Inr (v, ds')"
  then show "ds_within ds ds'"
    unfolding deser_array_def by (rule deser_each_within)
qed

lemma codec_c_array:
  assumes "N < 2 ^ 32"
  shows "codec (seq_enc enc) (arr_ok N ok) (ser_c_array N ser) (deser_c_array N deser) (replicate N dflt)"
proof
  fix s v
  assume "wf_sink s" "arr_ok N ok v" "length (seq_enc enc v) < 2 ^ 31"
  then show "ser_c_array N ser v s = sink_write (seq_enc enc v) s"
    unfolding ser_c_array_def seq_enc_def arr_ok_def by (auto intro!: ser_size ser_each_enc)
next
  fix ds v rest
  assume wf: "wf_ds ds" and v: "arr_ok N ok v" and av: "ds_avail ds = seq_enc enc v @ rest"
  from v have v: "length v = N" "\<forall>x\<in>set v. ok x" by (simp_all add: arr_ok_def)
  from av v have av: "ds_avail ds = size_enc N @ concat (map enc v) @ rest"
    by (simp add: seq_enc_def)
  show "deser_c_array N deser (replicate N dflt) ds = Inr (v, ds_advance (length (seq_enc enc v)) ds)"
    using wf v av assms ds_split [OF wf av] deser_each_enc [of "ds_advance (length (size_enc N)) ds" v rest]
    by (simp add: deser_c_array_def deser_size seq_enc_def unat_of_nat_u32 bindr_check)
next
  fix ds w v ds'
  assume "wf_ds ds" "deser_c_array N deser w ds = Inr (v, ds')"
  then show "ds_within ds ds'"
    unfolding deser_c_array_def by (rule unsigned_int.within_then)
      (auto simp: bindr_check split: if_splits dest: deser_each_within)
qed

end

end
