(* ===== verification/Composites.thy ===== *)
theory Composites
  imports Containers
begin

text \<open>
  The remaining stream operators of \<^verbatim>\<open>libraries/wasmlib/core/datastream.hpp\<close>:
  arrays of primitive type, sets, maps, pairs, tuples, classes, optionals and
  variants.

  A \<^verbatim>\<open>std::set\<close> is a finite set of a linearly ordered type and is iterated in
  that order; a \<^verbatim>\<open>std::map\<close> is a \<open>mapping\<close>, iterated by ascending key, whose
  \<^verbatim>\<open>emplace\<close> keeps the entry already present. A parameter pack is a nested
  pair that ends in the unit value. A variant is the index of its alternative with
  the value, the alternatives being embedded in one type.
\<close>

section \<open>Arrays of primitive type\<close>

lemma words_of_concat:
  assumes "8 dvd LENGTH('a::len)"
  shows "words_of (length v) (concat (map prim_enc v)) = (v :: 'a word list)"
proof (induction v)
  case (Cons w v)
  moreover have "le_word (prim_enc w) = w"
    using assms by (simp add: prim_enc_def le_word_le_bytes)
  ultimately show ?case by simp
qed simp

lemma length_concat_prim:
  "length (concat (map prim_enc v)) = length v * (LENGTH('a) div 8)" for v :: "'a::len word list"
  by (induction v) simp_all

lemma codec_c_array_primitive:
  assumes "8 dvd LENGTH('a::len)" "N < 2 ^ 32"
  shows "codec (seq_enc prim_enc) (arr_ok N (\<lambda>_. True)) (ser_c_array_primitive N)
     (deser_c_array_primitive N) (w :: 'a word list)"
proof
  fix s and v :: "'a word list"
  assume "wf_sink s" "arr_ok N (\<lambda>_. True) v" "length (seq_enc prim_enc v) < 2 ^ 31"
  then show "ser_c_array_primitive N v s = sink_write (seq_enc prim_enc v) s"
    unfolding ser_c_array_primitive_def seq_enc_def arr_ok_def
    by (auto simp: prim_enc_def cong: map_cong intro!: ser_size)
next
  fix ds rest and v :: "'a word list"
  assume wf: "wf_ds ds" and v: "arr_ok N (\<lambda>_. True) v" and av: "ds_avail ds = seq_enc prim_enc v @ rest"
  from v have v: "length v = N" by (simp add: arr_ok_def)
  from av v have av: "ds_avail ds = size_enc N @ concat (map prim_enc v) @ rest"
    by (simp add: seq_enc_def)
  let ?ds = "ds_advance (length (size_enc N)) ds"
  note split = ds_split [OF wf av]
  have "length (concat (map prim_enc v)) \<le> ds_left ?ds"
    by (rule ds_split(3) [OF split(1,2)])
  moreover have "ds_left ?ds < 2 ^ 32" by (rule ds_left_bound)
  ultimately have "unat (of_nat (N * (LENGTH('a) div 8)) :: u32) = length (concat (map prim_enc v))"
    by (simp only: length_concat_prim v) (intro unat_of_nat_u32, simp)
  then have "ds_read (of_nat (N * (LENGTH('a) div 8))) ?ds =
      Inr (concat (map prim_enc v), ds_advance (length (concat (map prim_enc v))) ?ds)"
    using split(2) by (intro ds_read_split)
  then show "deser_c_array_primitive N w ds = Inr (v, ds_advance (length (seq_enc prim_enc v)) ds)"
    using wf v av assms(2) words_of_concat [OF assms(1), of v]
    by (simp add: deser_c_array_primitive_def deser_size seq_enc_def unat_of_nat_u32 bindr_check)
next
  fix ds w ds' and v :: "'a word list"
  assume "wf_ds ds" "deser_c_array_primitive N w ds = Inr (v, ds')"
  then show "ds_within ds ds'"
    unfolding deser_c_array_primitive_def by (rule unsigned_int.within_then)
      (auto simp: bindr_check res_simps split: if_splits prod.splits dest: ds_read_within)
qed

section \<open>Sets\<close>

definition ser_set :: "('a::linorder \<Rightarrow> sink \<Rightarrow> sink res) \<Rightarrow> 'a set \<Rightarrow> sink \<Rightarrow> sink res" where
  "ser_set ser s ds =
     bindr (ser_unsigned_int (Unsigned_int (of_nat (card s))) ds) (ser_each ser (sorted_list_of_set s))"

primrec deser_set_loop ::
  "('a \<Rightarrow> datastream \<Rightarrow> ('a \<times> datastream) res) \<Rightarrow> 'a \<Rightarrow> nat \<Rightarrow> 'a set \<Rightarrow> datastream \<Rightarrow> ('a set \<times> datastream) res" where
  "deser_set_loop deser d 0 s ds = Inr (s, ds)"
| "deser_set_loop deser d (Suc n) s ds =
     bindr (deser d ds) (\<lambda>(v, ds'). deser_set_loop deser d n (insert v s) ds')"

definition deser_set ::
  "('a \<Rightarrow> datastream \<Rightarrow> ('a \<times> datastream) res) \<Rightarrow> 'a \<Rightarrow> 'a set \<Rightarrow> datastream \<Rightarrow> ('a set \<times> datastream) res" where
  "deser_set deser d s ds =
     bindr (deser_unsigned_int (Unsigned_int 0) ds) (\<lambda>(sz, ds').
       deser_set_loop deser d (unat (uint_value sz)) {} ds')"

definition set_ok :: "('a \<Rightarrow> bool) \<Rightarrow> 'a set \<Rightarrow> bool" where
  "set_ok ok s = (finite s \<and> card s < 2 ^ 32 \<and> (\<forall>x\<in>s. ok x))"

context codec
begin

lemma deser_set_loop_enc:
  assumes "wf_ds ds" "\<forall>x\<in>set xs. ok x" "ds_avail ds = concat (map enc xs) @ rest"
  shows "deser_set_loop deser dflt (length xs) s ds =
    Inr (s \<union> set xs, ds_advance (length (concat (map enc xs))) ds)"
  using assms
proof (induction xs arbitrary: ds s)
  case (Cons x xs)
  then have av: "ds_avail ds = enc x @ concat (map enc xs) @ rest" by simp
  with Cons show ?case
    using ds_split [OF Cons.prems(1) av] Cons.IH [of "ds_advance (length (enc x)) ds" "insert x s"]
    by (simp add: deser_then [OF Cons.prems(1) _ av])
qed simp

lemma deser_set_loop_within:
  "wf_ds ds \<Longrightarrow> deser_set_loop deser d n s ds = Inr (v, ds') \<Longrightarrow> ds_within ds ds'"
proof (induction n arbitrary: s ds)
  case (Suc n)
  from Suc.prems show ?case
    unfolding deser_set_loop.simps by (rule within_then) (auto intro: Suc.IH)
qed simp

end

lemma codec_set:
  fixes enc :: "'a::linorder \<Rightarrow> byte list"
  assumes "codec enc ok ser deser dflt"
  shows "codec (\<lambda>s. seq_enc enc (sorted_list_of_set s)) (set_ok ok) (ser_set ser) (deser_set deser dflt) w"
proof
  fix s and v :: "'a set"
  assume "wf_sink s" "set_ok ok v" "length (seq_enc enc (sorted_list_of_set v)) < 2 ^ 31"
  then show "ser_set ser v s = sink_write (seq_enc enc (sorted_list_of_set v)) s"
    unfolding ser_set_def seq_enc_def set_ok_def
    by (auto intro!: ser_size codec.ser_each_enc [OF assms])
next
  fix ds rest and v :: "'a set"
  assume wf: "wf_ds ds" and v: "set_ok ok v" and av: "ds_avail ds = seq_enc enc (sorted_list_of_set v) @ rest"
  from v have v: "finite v" "card v < 2 ^ 32" "\<forall>x\<in>v. ok x" by (simp_all add: set_ok_def)
  from av v have av: "ds_avail ds = size_enc (card v) @ concat (map enc (sorted_list_of_set v)) @ rest"
    by (simp add: seq_enc_def)
  show "deser_set deser dflt w ds = Inr (v, ds_advance (length (seq_enc enc (sorted_list_of_set v))) ds)"
    using wf v av ds_split [OF wf av]
      codec.deser_set_loop_enc [OF assms, of "ds_advance (length (size_enc (card v))) ds"
        "sorted_list_of_set v" rest "{}"]
    by (simp add: deser_set_def deser_size seq_enc_def unat_of_nat_u32)
next
  fix ds w ds' and v :: "'a set"
  assume "wf_ds ds" "deser_set deser dflt w ds = Inr (v, ds')"
  then show "ds_within ds ds'"
    unfolding deser_set_def by (rule unsigned_int.within_then)
      (auto dest: codec.deser_set_loop_within [OF assms])
qed

section \<open>Pairs and maps\<close>

definition ser_pair ::
  "('a \<Rightarrow> sink \<Rightarrow> sink res) \<Rightarrow> ('b \<Rightarrow> sink \<Rightarrow> sink res) \<Rightarrow> 'a \<times> 'b \<Rightarrow> sink \<Rightarrow> sink res" where
  "ser_pair ser1 ser2 t ds = bindr (ser1 (fst t) ds) (ser2 (snd t))"

definition deser_pair ::
  "('a \<Rightarrow> datastream \<Rightarrow> ('a \<times> datastream) res) \<Rightarrow> 'a \<Rightarrow>
   ('b \<Rightarrow> datastream \<Rightarrow> ('b \<times> datastream) res) \<Rightarrow> 'b \<Rightarrow>
   'a \<times> 'b \<Rightarrow> datastream \<Rightarrow> (('a \<times> 'b) \<times> datastream) res" where
  "deser_pair deser1 d1 deser2 d2 t ds =
     bindr (deser1 d1 ds) (\<lambda>(t1, ds'). bindr (deser2 d2 ds') (\<lambda>(t2, ds''). Inr ((t1, t2), ds'')))"

definition map_entries :: "('k::linorder, 'v) mapping \<Rightarrow> ('k \<times> 'v) list" where
  "map_entries m = map (\<lambda>k. (k, the (Mapping.lookup m k))) (Mapping.ordered_keys m)"

definition ser_map ::
  "('k::linorder \<Rightarrow> sink \<Rightarrow> sink res) \<Rightarrow> ('v \<Rightarrow> sink \<Rightarrow> sink res) \<Rightarrow>
   ('k, 'v) mapping \<Rightarrow> sink \<Rightarrow> sink res" where
  "ser_map serk serv m ds =
     bindr (ser_unsigned_int (Unsigned_int (of_nat (Mapping.size m))) ds)
       (ser_each (\<lambda>i ds'. bindr (serk (fst i) ds') (serv (snd i))) (map_entries m))"

primrec deser_map_loop ::
  "('k \<Rightarrow> datastream \<Rightarrow> ('k \<times> datastream) res) \<Rightarrow> 'k \<Rightarrow>
   ('v \<Rightarrow> datastream \<Rightarrow> ('v \<times> datastream) res) \<Rightarrow> 'v \<Rightarrow>
   nat \<Rightarrow> ('k, 'v) mapping \<Rightarrow> datastream \<Rightarrow> (('k, 'v) mapping \<times> datastream) res" where
  "deser_map_loop deserk dk deserv dv 0 m ds = Inr (m, ds)"
| "deser_map_loop deserk dk deserv dv (Suc n) m ds =
     bindr (deserk dk ds) (\<lambda>(k, ds'). bindr (deserv dv ds') (\<lambda>(v, ds'').
       deser_map_loop deserk dk deserv dv n (Mapping.default k v m) ds''))"

definition deser_map ::
  "('k \<Rightarrow> datastream \<Rightarrow> ('k \<times> datastream) res) \<Rightarrow> 'k \<Rightarrow>
   ('v \<Rightarrow> datastream \<Rightarrow> ('v \<times> datastream) res) \<Rightarrow> 'v \<Rightarrow>
   ('k, 'v) mapping \<Rightarrow> datastream \<Rightarrow> (('k, 'v) mapping \<times> datastream) res" where
  "deser_map deserk dk deserv dv m ds =
     bindr (deser_unsigned_int (Unsigned_int 0) ds) (\<lambda>(s, ds').
       deser_map_loop deserk dk deserv dv (unat (uint_value s)) Mapping.empty ds')"

text \<open>A parameter pack, one field at a time, and a class by its fields.\<close>

definition ser_tuple_nil :: "unit \<Rightarrow> sink \<Rightarrow> sink res" where
  "ser_tuple_nil t ds = Inr ds"

definition ser_tuple ::
  "('a \<Rightarrow> sink \<Rightarrow> sink res) \<Rightarrow> ('b \<Rightarrow> sink \<Rightarrow> sink res) \<Rightarrow> 'a \<times> 'b \<Rightarrow> sink \<Rightarrow> sink res" where
  "ser_tuple ser sers t ds = bindr (ser (fst t) ds) (sers (snd t))"

definition deser_tuple_nil :: "unit \<Rightarrow> datastream \<Rightarrow> (unit \<times> datastream) res" where
  "deser_tuple_nil t ds = Inr ((), ds)"

definition deser_tuple ::
  "('a \<Rightarrow> datastream \<Rightarrow> ('a \<times> datastream) res) \<Rightarrow> ('b \<Rightarrow> datastream \<Rightarrow> ('b \<times> datastream) res) \<Rightarrow>
   'a \<times> 'b \<Rightarrow> datastream \<Rightarrow> (('a \<times> 'b) \<times> datastream) res" where
  "deser_tuple deser desers t ds =
     bindr (deser (fst t) ds) (\<lambda>(i, ds'). bindr (desers (snd t) ds') (\<lambda>(js, ds''). Inr ((i, js), ds'')))"

definition ser_class :: "('c \<Rightarrow> 't) \<Rightarrow> ('t \<Rightarrow> sink \<Rightarrow> sink res) \<Rightarrow> 'c \<Rightarrow> sink \<Rightarrow> sink res" where
  "ser_class get ser v ds = ser (get v) ds"

definition deser_class ::
  "('c \<Rightarrow> 't) \<Rightarrow> ('t \<Rightarrow> 'c) \<Rightarrow> ('t \<Rightarrow> datastream \<Rightarrow> ('t \<times> datastream) res) \<Rightarrow>
   'c \<Rightarrow> datastream \<Rightarrow> ('c \<times> datastream) res" where
  "deser_class get mk deser v ds =
     bindr (deser (get v) ds) (\<lambda>(t, ds'). Inr (mk t, ds'))"

interpretation tuple_nil: codec "\<lambda>_. []" "\<lambda>_. True" ser_tuple_nil deser_tuple_nil "()"
  by standard (simp_all add: ser_tuple_nil_def deser_tuple_nil_def sink_write_Nil)

subsection \<open>Two codecs in sequence\<close>

definition pair_enc :: "('a \<Rightarrow> byte list) \<Rightarrow> ('b \<Rightarrow> byte list) \<Rightarrow> 'a \<times> 'b \<Rightarrow> byte list" where
  "pair_enc enc1 enc2 t = enc1 (fst t) @ enc2 (snd t)"

definition pair_ok :: "('a \<Rightarrow> bool) \<Rightarrow> ('b \<Rightarrow> bool) \<Rightarrow> 'a \<times> 'b \<Rightarrow> bool" where
  "pair_ok ok1 ok2 t = (ok1 (fst t) \<and> ok2 (snd t))"

locale codec2 = one: codec enc1 ok1 ser1 deser1 dflt1 + two: codec enc2 ok2 ser2 deser2 dflt2
  for enc1 :: "'a \<Rightarrow> byte list" and ok1 ser1 deser1 dflt1
    and enc2 :: "'b \<Rightarrow> byte list" and ok2 ser2 deser2 dflt2
begin

lemma ser_both:
  assumes "wf_sink s" "ok1 x" "ok2 y" "length (enc1 x @ enc2 y) < 2 ^ 31"
  shows "bindr (ser1 x s) (ser2 y) = sink_write (enc1 x @ enc2 y) s"
  using assms by (intro one.ser_then two.ser_enc) simp_all

lemma deser_both:
  assumes "wf_ds ds" "ok1 x" "ok2 y" "ds_avail ds = enc1 x @ enc2 y @ rest"
  shows "bindr (deser1 dflt1 ds) (\<lambda>(a, ds1). bindr (deser2 dflt2 ds1) (\<lambda>(b, ds2). f a b ds2)) =
     f x y (ds_advance (length (enc1 x @ enc2 y)) ds)"
  using one.deser_enc [OF assms(1,2,4)] ds_split [OF assms(1,4)]
    two.deser_enc [OF _ assms(3), of "ds_advance (length (enc1 x)) ds" rest]
  by simp

lemma within_both:
  assumes "wf_ds ds"
    and "bindr (deser1 w1 ds) (\<lambda>(a, ds1). bindr (deser2 w2 ds1) (\<lambda>(b, ds2). f a b ds2)) = Inr (v, ds')"
    and "\<And>a b ds2. wf_ds ds2 \<Longrightarrow> f a b ds2 = Inr (v, ds') \<Longrightarrow> ds_within ds2 ds'"
  shows "ds_within ds ds'"
  using assms(1,2)
  by (rule one.within_then) (auto intro: two.within_then assms(3))

lemma codec_pair:
  "codec (pair_enc enc1 enc2) (pair_ok ok1 ok2) (ser_pair ser1 ser2) (deser_pair deser1 dflt1 deser2 dflt2) w"
proof
  fix s v
  assume "wf_sink s" "pair_ok ok1 ok2 v" "length (pair_enc enc1 enc2 v) < 2 ^ 31"
  then show "ser_pair ser1 ser2 v s = sink_write (pair_enc enc1 enc2 v) s"
    by (simp add: ser_pair_def pair_enc_def pair_ok_def ser_both)
next
  fix ds v rest
  assume "wf_ds ds" "pair_ok ok1 ok2 v" "ds_avail ds = pair_enc enc1 enc2 v @ rest"
  then show "deser_pair deser1 dflt1 deser2 dflt2 w ds = Inr (v, ds_advance (length (pair_enc enc1 enc2 v)) ds)"
    using deser_both [of ds "fst v" "snd v" rest "\<lambda>x y ds'. Inr ((x, y), ds')"] by (simp add: deser_pair_def pair_enc_def pair_ok_def)
next
  fix ds w v ds'
  assume "wf_ds ds" "deser_pair deser1 dflt1 deser2 dflt2 w ds = Inr (v, ds')"
  then show "ds_within ds ds'"
    unfolding deser_pair_def by (rule within_both) simp
qed

lemma codec_tuple: "codec (pair_enc enc1 enc2) (pair_ok ok1 ok2) (ser_tuple ser1 ser2) (deser_tuple deser1 deser2) (dflt1, dflt2)"
proof
  fix s v
  assume "wf_sink s" "pair_ok ok1 ok2 v" "length (pair_enc enc1 enc2 v) < 2 ^ 31"
  then show "ser_tuple ser1 ser2 v s = sink_write (pair_enc enc1 enc2 v) s"
    by (simp add: ser_tuple_def pair_enc_def pair_ok_def ser_both)
next
  fix ds v rest
  assume "wf_ds ds" "pair_ok ok1 ok2 v" "ds_avail ds = pair_enc enc1 enc2 v @ rest"
  then show "deser_tuple deser1 deser2 (dflt1, dflt2) ds = Inr (v, ds_advance (length (pair_enc enc1 enc2 v)) ds)"
    using deser_both [of ds "fst v" "snd v" rest "\<lambda>x y ds'. Inr ((x, y), ds')"] by (simp add: deser_tuple_def pair_enc_def pair_ok_def)
next
  fix ds w v ds'
  assume "wf_ds ds" "deser_tuple deser1 deser2 w ds = Inr (v, ds')"
  then show "ds_within ds ds'"
    unfolding deser_tuple_def by (rule within_both) simp
qed

lemma deser_map_loop_enc:
  assumes "wf_ds ds" "\<forall>e\<in>set es. pair_ok ok1 ok2 e"
    and "ds_avail ds = concat (map (pair_enc enc1 enc2) es) @ rest"
  shows "deser_map_loop deser1 dflt1 deser2 dflt2 (length es) m ds =
    Inr (fold (\<lambda>(k, v). Mapping.default k v) es m,
         ds_advance (length (concat (map (pair_enc enc1 enc2) es))) ds)"
  using assms
proof (induction es arbitrary: ds m)
  case (Cons e es)
  obtain k v where [simp]: "e = (k, v)" by fastforce
  let ?rest = "concat (map (pair_enc enc1 enc2) es) @ rest"
  let ?ds = "ds_advance (length (enc1 k @ enc2 v)) ds"
  from Cons.prems(3) have av: "ds_avail ds = (enc1 k @ enc2 v) @ ?rest"
    by (simp add: pair_enc_def [of _ _ "(k, v)"])
  then have "deser_map_loop deser1 dflt1 deser2 dflt2 (length (e # es)) m ds =
      deser_map_loop deser1 dflt1 deser2 dflt2 (length es) (Mapping.default k v m) ?ds"
    using deser_both [of ds k v ?rest
        "\<lambda>k v. deser_map_loop deser1 dflt1 deser2 dflt2 (length es) (Mapping.default k v m)"] Cons.prems
    by (simp add: pair_ok_def)
  then show ?case
    using Cons.IH [of ?ds "Mapping.default k v m"] ds_split [OF Cons.prems(1) av] Cons.prems(2)
    by (simp add: add.assoc pair_enc_def [of _ _ "(k, v)"])
qed simp

lemma deser_map_loop_within:
  "wf_ds ds \<Longrightarrow> deser_map_loop deser1 dk deser2 dv n m ds = Inr (v, ds') \<Longrightarrow> ds_within ds ds'"
proof (induction n arbitrary: m ds)
  case (Suc n)
  from Suc.prems show ?case
    unfolding deser_map_loop.simps by (rule within_both) (auto intro: Suc.IH)
qed simp

end

definition map_enc ::
  "('k::linorder \<Rightarrow> byte list) \<Rightarrow> ('v \<Rightarrow> byte list) \<Rightarrow> ('k, 'v) mapping \<Rightarrow> byte list" where
  "map_enc enc1 enc2 m = seq_enc (pair_enc enc1 enc2) (map_entries m)"

definition map_ok :: "('k::linorder \<Rightarrow> bool) \<Rightarrow> ('v \<Rightarrow> bool) \<Rightarrow> ('k, 'v) mapping \<Rightarrow> bool" where
  "map_ok ok1 ok2 m = (finite (Mapping.keys m) \<and> seq_ok (pair_ok ok1 ok2) (map_entries m))"

lemma lookup_fold_default:
  "Mapping.lookup (fold (\<lambda>(k, v). Mapping.default k v) es m) k =
     (case Mapping.lookup m k of Some v \<Rightarrow> Some v | None \<Rightarrow> map_of es k)"
  by (induction es arbitrary: m)
    (auto simp: lookup_default' Mapping.lookup_default_def split: option.splits)

lemma map_of_entries:
  assumes "finite (Mapping.keys m)"
  shows "map_of (map_entries m) = Mapping.lookup m"
  using assms unfolding map_entries_def
  by (auto simp: fun_eq_iff map_of_map_restrict [unfolded o_def] restrict_map_def keys_dom_lookup intro: sym)

lemma fold_default_entries:
  assumes "finite (Mapping.keys m)"
  shows "fold (\<lambda>(k, v). Mapping.default k v) (map_entries m) Mapping.empty = m"
  using assms by (intro mapping_eqI) (simp add: lookup_fold_default Mapping.lookup_empty map_of_entries)

lemma length_map_entries: "length (map_entries m) = Mapping.size m"
  by (cases "finite (Mapping.keys m)")
    (simp_all add: map_entries_def Mapping.ordered_keys_def Mapping.size_def)

text \<open>Decoding any sequence of entries: the first entry of a key wins, as with \<^verbatim>\<open>emplace\<close>.\<close>

lemma deser_map_entries:
  assumes "codec2 enc1 ok1 ser1 deser1 dflt1 enc2 ok2 ser2 deser2 dflt2"
    and "wf_ds ds" "seq_ok (pair_ok ok1 ok2) es"
    and "ds_avail ds = seq_enc (pair_enc enc1 enc2) es @ rest"
  shows "deser_map deser1 dflt1 deser2 dflt2 w ds =
    Inr (fold (\<lambda>(k, v). Mapping.default k v) es Mapping.empty,
         ds_advance (length (seq_enc (pair_enc enc1 enc2) es)) ds)"
proof -
  let ?bs = "concat (map (pair_enc enc1 enc2) es)"
  have av: "ds_avail ds = size_enc (length es) @ ?bs @ rest"
    using assms(4) by (simp add: seq_enc_def)
  have es: "length es < 2 ^ 32" "\<forall>e\<in>set es. pair_ok ok1 ok2 e"
    using assms(3) by (simp_all add: seq_ok_def)
  show ?thesis
    using codec2.deser_map_loop_enc [OF assms(1) _ es(2), of "ds_advance (length (size_enc (length es))) ds"
        rest Mapping.empty] ds_split [OF assms(2) av] es(1)
    by (simp add: deser_map_def deser_size [OF assms(2) TrueI av] seq_enc_def unat_of_nat_u32)
qed

lemma codec_map:
  fixes enc1 :: "'k::linorder \<Rightarrow> byte list" and enc2 :: "'b \<Rightarrow> byte list"
  assumes "codec2 enc1 ok1 ser1 deser1 dflt1 enc2 ok2 ser2 deser2 dflt2"
  shows "codec (map_enc enc1 enc2) (map_ok ok1 ok2) (ser_map ser1 ser2)
     (deser_map deser1 dflt1 deser2 dflt2) w"
proof
  fix s and v :: "('k, 'b) mapping"
  assume wf: "wf_sink s" and v: "map_ok ok1 ok2 v" and len: "length (map_enc enc1 enc2 v) < 2 ^ 31"
  have "bindr (ser1 (fst i) s) (ser2 (snd i)) = sink_write (pair_enc enc1 enc2 i) s"
    if "i \<in> set (map_entries v)" "wf_sink s" "length (pair_enc enc1 enc2 i) < 2 ^ 31" for i s
    using that v unfolding pair_enc_def
    by (intro codec2.ser_both [OF assms]) (auto simp: map_ok_def seq_ok_def pair_ok_def)
  then show "ser_map ser1 ser2 v s = sink_write (map_enc enc1 enc2 v) s"
    using wf len unfolding ser_map_def map_enc_def seq_enc_def length_map_entries
    by (intro ser_size ser_each_write) simp_all
next
  fix ds rest and v :: "('k, 'b) mapping"
  assume "wf_ds ds" "map_ok ok1 ok2 v" "ds_avail ds = map_enc enc1 enc2 v @ rest"
  then show "deser_map deser1 dflt1 deser2 dflt2 w ds = Inr (v, ds_advance (length (map_enc enc1 enc2 v)) ds)"
    using deser_map_entries [OF assms, of ds "map_entries v" rest w] fold_default_entries [of v]
    by (simp add: map_enc_def map_ok_def)
next
  fix ds w ds' and v :: "('k, 'b) mapping"
  assume "wf_ds ds" "deser_map deser1 dflt1 deser2 dflt2 w ds = Inr (v, ds')"
  then show "ds_within ds ds'"
    unfolding deser_map_def by (rule unsigned_int.within_then)
      (auto dest: codec2.deser_map_loop_within [OF assms])
qed

section \<open>Classes, optionals and variants\<close>

definition ser_optional :: "('a \<Rightarrow> sink \<Rightarrow> sink res) \<Rightarrow> 'a option \<Rightarrow> sink \<Rightarrow> sink res" where
  "ser_optional ser opt ds =
     (let valid = of_bool (opt \<noteq> None) :: u8
      in bindr (ser_primitive valid ds) (\<lambda>ds'.
           if valid \<noteq> 0 then ser (the opt) ds' else Inr ds'))"

definition deser_optional ::
  "('a \<Rightarrow> datastream \<Rightarrow> ('a \<times> datastream) res) \<Rightarrow> 'a \<Rightarrow> 'a option \<Rightarrow> datastream \<Rightarrow> ('a option \<times> datastream) res" where
  "deser_optional deser d opt ds =
     bindr (deser_primitive (0 :: u8) ds) (\<lambda>(valid, ds').
       if valid \<noteq> 0 then bindr (deser d ds') (\<lambda>(val, ds''). Inr (Some val, ds''))
       else Inr (opt, ds'))"

definition ser_variant :: "('a \<Rightarrow> sink \<Rightarrow> sink res) list \<Rightarrow> nat \<times> 'a \<Rightarrow> sink \<Rightarrow> sink res" where
  "ser_variant sers var ds =
     (if fst var < length sers
      then bindr (ser_unsigned_int (Unsigned_int (of_nat (fst var))) ds) ((sers ! fst var) (snd var))
      else Inl (Undefined ''variant without a value''))"

text \<open>
  \<open>variant_deserialize I alts i\<close> is \<^verbatim>\<open>deserialize<I>\<close> with the alternatives from
  index \<open>I\<close> on; each comes with the value of its default-constructed temporary.
\<close>

fun variant_deserialize ::
  "nat \<Rightarrow> (('a \<Rightarrow> datastream \<Rightarrow> ('a \<times> datastream) res) \<times> 'a) list \<Rightarrow> u32 \<Rightarrow> nat \<times> 'a \<Rightarrow> datastream \<Rightarrow>
   ((nat \<times> 'a) \<times> datastream) res" where
  "variant_deserialize I [] i var ds =
     bindr (check False ''invalid variant index'') (\<lambda>_. Inr (var, ds))"
| "variant_deserialize I ((deser, tmp) # alts) i var ds =
     (if sint i = int I then bindr (deser tmp ds) (\<lambda>(tmp', ds'). Inr ((I, tmp'), ds'))
      else variant_deserialize (Suc I) alts i var ds)"

definition deser_variant ::
  "(('a \<Rightarrow> datastream \<Rightarrow> ('a \<times> datastream) res) \<times> 'a) list \<Rightarrow> nat \<times> 'a \<Rightarrow> datastream \<Rightarrow>
   ((nat \<times> 'a) \<times> datastream) res" where
  "deser_variant alts var ds =
     bindr (deser_unsigned_int (Unsigned_int 0) ds) (\<lambda>(index, ds').
       variant_deserialize 0 alts (uint_value index) var ds')"

definition optional_enc :: "('a \<Rightarrow> byte list) \<Rightarrow> 'a option \<Rightarrow> byte list" where
  "optional_enc enc opt = (case opt of None \<Rightarrow> [0] | Some x \<Rightarrow> 1 # enc x)"

definition variant_enc :: "('a \<Rightarrow> byte list) list \<Rightarrow> nat \<times> 'a \<Rightarrow> byte list" where
  "variant_enc encs var = size_enc (fst var) @ (encs ! fst var) (snd var)"

definition variant_ok :: "('a \<Rightarrow> bool) list \<Rightarrow> nat \<times> 'a \<Rightarrow> bool" where
  "variant_ok oks var = (fst var < length oks \<and> (oks ! fst var) (snd var))"

lemma prim_enc_byte: "prim_enc (b :: u8) = [b]"
  by (simp add: prim_enc_def le_bytes_def)

lemma codec_class:
  assumes "codec enc ok ser deser dflt" "\<And>v. mk (get v) = v" "get d = dflt"
  shows "codec (enc \<circ> get) (ok \<circ> get) (ser_class get ser) (deser_class get mk deser) d"
proof
  fix s v
  assume "wf_sink s" "(ok \<circ> get) v" "length ((enc \<circ> get) v) < 2 ^ 31"
  then show "ser_class get ser v s = sink_write ((enc \<circ> get) v) s"
    by (simp add: ser_class_def codec.ser_enc [OF assms(1)])
next
  fix ds v rest
  assume "wf_ds ds" "(ok \<circ> get) v" "ds_avail ds = (enc \<circ> get) v @ rest"
  then show "deser_class get mk deser d ds = Inr (v, ds_advance (length ((enc \<circ> get) v)) ds)"
    using codec.deser_enc [OF assms(1), of ds "get v" rest] assms(2,3) by (simp add: deser_class_def)
next
  fix ds w v ds'
  assume "wf_ds ds" "deser_class get mk deser w ds = Inr (v, ds')"
  then show "ds_within ds ds'"
    unfolding deser_class_def by (rule codec.within_then [OF assms(1)]) simp
qed

context codec
begin

lemma codec_optional:
  "codec (optional_enc enc) (pred_option ok) (ser_optional ser) (deser_optional deser dflt) None"
proof
  fix s v
  assume "wf_sink s" "pred_option ok v" "length (optional_enc enc v) < 2 ^ 31"
  then show "ser_optional ser v s = sink_write (optional_enc enc v) s"
    using prim8.ser_then [of s 1 "enc (the v)" "ser (the v)"] prim8.ser_then [of s 0 "[]" Inr]
    by (cases v) (simp_all add: prim_enc_byte ser_optional_def optional_enc_def ser_enc sink_write_Nil)
next
  fix ds v rest
  assume wf: "wf_ds ds" and v: "pred_option ok v" and av: "ds_avail ds = optional_enc enc v @ rest"
  define e where "e = (case v of None \<Rightarrow> [] | Some x \<Rightarrow> enc x)"
  have av: "ds_avail ds = prim_enc (of_bool (v \<noteq> None) :: u8) @ e @ rest"
    using av by (cases v) (simp_all add: optional_enc_def e_def prim_enc_byte)
  show "deser_optional deser dflt None ds = Inr (v, ds_advance (length (optional_enc enc v)) ds)"
    using prim8.deser_enc [OF wf _ av] ds_split [OF wf av] v
      deser_enc [of "ds_advance 1 ds" "the v" rest]
    by (cases v) (simp_all add: deser_optional_def optional_enc_def e_def)
next
  fix ds w v ds'
  assume "wf_ds ds" "deser_optional deser dflt w ds = Inr (v, ds')"
  then show "ds_within ds ds'"
    unfolding deser_optional_def by (rule prim8.within_then)
      (auto split: if_splits elim: within_then)
qed

end

lemma variant_deserialize_eq:
  assumes "i < length alts" "I + length alts \<le> 2 ^ 31"
  shows "variant_deserialize I alts (of_nat (I + i)) var ds =
    bindr (fst (alts ! i) (snd (alts ! i)) ds) (\<lambda>(tmp, ds'). Inr ((I + i, tmp), ds'))"
  using assms
proof (induction I alts "of_nat (I + i) :: u32" var ds arbitrary: i rule: variant_deserialize.induct)
  case (2 I deser tmp alts var ds)
  have "unat (of_nat (I + i) :: u32) = I + i"
    using 2 by (intro unat_of_nat_u32) simp
  then have sint: "sint (of_nat (I + i) :: u32) = int (I + i)"
    using 2 by (subst sint_eq_unat) simp_all
  show ?case
  proof (cases i)
    case 0
    then show ?thesis using sint by simp
  next
    case (Suc j)
    then show ?thesis using 2 sint by simp
  qed
qed simp

lemma variant_deserialize_within:
  assumes "\<And>deser tmp v. (deser, tmp) \<in> set alts \<Longrightarrow> deser tmp ds = Inr (v, ds') \<Longrightarrow> ds_within ds ds'"
    and "variant_deserialize I alts i var ds = Inr (v, ds')"
  shows "ds_within ds ds'"
  using assms
  by (induction I alts i var ds rule: variant_deserialize.induct)
    (auto simp: res_simps split: if_splits)

lemma variant_deserialize_invalid:
  assumes "I + length alts \<le> k" "k < 2 ^ 32" "I + length alts \<le> 2 ^ 31"
  shows "variant_deserialize I alts (of_nat k) var ds = Inl (Assert ''invalid variant index'')"
  using assms
proof (induction I alts "of_nat k :: u32" var ds rule: variant_deserialize.induct)
  case (2 I deser tmp alts var ds)
  have "unat (of_nat k :: u32) = k" using 2 by (simp add: unat_of_nat_u32)
  then have "sint (of_nat k :: u32) \<noteq> int I" using 2 by (auto simp: sint_alt)
  with 2 show ?case by simp
qed simp

lemma codec_variant:
  assumes "length encs = length alts" "length oks = length alts" "length sers = length alts"
    and "length alts \<le> 2 ^ 31"
    and alt: "\<And>j. j < length alts \<Longrightarrow> codec (encs ! j) (oks ! j) (sers ! j) (fst (alts ! j)) (snd (alts ! j))"
  shows "codec (variant_enc encs) (variant_ok oks) (ser_variant sers) (deser_variant alts) w"
proof
  fix s v
  assume "wf_sink s" "variant_ok oks v" "length (variant_enc encs v) < 2 ^ 31"
  then show "ser_variant sers v s = sink_write (variant_enc encs v) s"
    unfolding ser_variant_def variant_enc_def variant_ok_def
    using assms(1-3) by (auto intro!: ser_size codec.ser_enc [OF alt])
next
  fix ds v rest
  assume wf: "wf_ds ds" and v: "variant_ok oks v" and av: "ds_avail ds = variant_enc encs v @ rest"
  obtain i x where [simp]: "v = (i, x)" by fastforce
  from v assms(2) have i: "i < length alts" and x: "(oks ! i) x" by (simp_all add: variant_ok_def)
  from av have av: "ds_avail ds = size_enc i @ (encs ! i) x @ rest" by (simp add: variant_enc_def)
  note split = ds_split [OF wf av]
  show "deser_variant alts w ds = Inr (v, ds_advance (length (variant_enc encs v)) ds)"
    using codec.deser_enc [OF alt [OF i] split(1) x split(2)]
      variant_deserialize_eq [of i alts 0 w] i assms(4)
    by (simp add: deser_variant_def variant_enc_def deser_size [OF wf TrueI av])
next
  fix ds w v ds'
  assume "wf_ds ds" "deser_variant alts w ds = Inr (v, ds')"
  then show "ds_within ds ds'"
    unfolding deser_variant_def
  proof (rule unsigned_int.within_then)
    fix index ds1
    assume wf: "wf_ds ds1" and run: "(case (index, ds1) of (index, ds') \<Rightarrow>
        variant_deserialize 0 alts (uint_value index) w ds') = Inr (v, ds')"
    have "ds_within ds1 ds'" if mem: "(deser, tmp) \<in> set alts" and res: "deser tmp ds1 = Inr (x, ds')" for deser tmp x
    proof -
      obtain j where "j < length alts" "alts ! j = (deser, tmp)"
        using mem by (auto simp: in_set_conv_nth)
      then show ?thesis
        using codec.deser_within [OF alt wf, of j tmp x ds'] res by simp
    qed
    from this run [unfolded prod.case] show "ds_within ds1 ds'"
      by (rule variant_deserialize_within)
  qed
qed

text \<open>A struct of two fields, serialised one after the other.\<close>

lemma codec_of_two_fields:
  assumes "codec enc1 ok1 ser1 deser1 d1" "codec enc2 ok2 ser2 deser2 d2"
    and "\<And>v. mk (g1 v) (g2 v) = v" "g1 d = d1" "g2 d = d2"
    and "\<And>v s. ser v s = bindr (ser1 (g1 v) s) (ser2 (g2 v))"
    and "\<And>w ds. deser w ds = bindr (deser1 (g1 w) ds) (\<lambda>(a, ds'). bindr (deser2 (g2 w) ds') (\<lambda>(b, ds''). Inr (mk a b, ds'')))"
  shows "codec (\<lambda>v. enc1 (g1 v) @ enc2 (g2 v)) (\<lambda>v. ok1 (g1 v) \<and> ok2 (g2 v)) ser deser d"
proof -
  have c2: "codec2 enc1 ok1 ser1 deser1 d1 enc2 ok2 ser2 deser2 d2"
    by (intro codec2.intro assms)
  show ?thesis
  proof
    fix s v
    assume "wf_sink s" "ok1 (g1 v) \<and> ok2 (g2 v)" "length (enc1 (g1 v) @ enc2 (g2 v)) < 2 ^ 31"
    then show "ser v s = sink_write (enc1 (g1 v) @ enc2 (g2 v)) s"
      by (simp only: assms(6) codec2.ser_both [OF c2])
  next
    fix ds v rest
    assume "wf_ds ds" "ok1 (g1 v) \<and> ok2 (g2 v)" "ds_avail ds = (enc1 (g1 v) @ enc2 (g2 v)) @ rest"
    then show "deser d ds = Inr (v, ds_advance (length (enc1 (g1 v) @ enc2 (g2 v))) ds)"
      using codec2.deser_both [OF c2, of ds "g1 v" "g2 v" rest "\<lambda>x y ds'. Inr (mk x y, ds')"] assms(3,4,5)
      by (simp add: assms(7))
  next
    fix ds w v ds'
    assume "wf_ds ds" "deser w ds = Inr (v, ds')"
    then show "ds_within ds ds'"
      unfolding assms(7) by (rule codec2.within_both [OF c2]) simp
  qed
qed

end
