(* ===== verification/Serialization.thy ===== *)
theory Serialization
  imports Composites
begin

text \<open>
  What the serialisation library promises its users: \<open>pack\<close> followed by
  \<open>unpack\<close> is the identity for every type the stream operators support, at
  whatever addresses the two buffers lie; no deserialiser leaves its buffer
  whatever the bytes; and the error branches. The contract \<open>codec\<close> is
  interpreted here on instances of the container operators.
\<close>

section \<open>Interpretations\<close>

interpretation bytes_codec: codec "seq_enc (\<lambda>b. [b])" "seq_ok (\<lambda>_. True)" ser_bytes deser_bytes "[]"
  by (rule codec_bytes)

interpretation string_codec: codec string_enc "seq_ok (\<lambda>_. True)" ser_string deser_string "[]"
  by (rule codec_string)

interpretation strings_codec: codec "seq_enc string_enc" "seq_ok (seq_ok (\<lambda>_. True))"
  "ser_vector ser_string" "deser_vector deser_string []" "[]"
  by (rule string_codec.codec_vector)

interpretation u64_string: codec2 prim_enc "\<lambda>_. True" ser_primitive deser_primitive "0 :: u64"
  string_enc "seq_ok (\<lambda>_. True)" ser_string deser_string "[]"
  by (rule codec2.intro) unfold_locales

interpretation u64_string_map: codec "map_enc (prim_enc :: u64 \<Rightarrow> _) string_enc"
  "map_ok (\<lambda>_. True) (seq_ok (\<lambda>_. True))" "ser_map ser_primitive ser_string"
  "deser_map deser_primitive 0 deser_string []" Mapping.empty
  by (rule codec_map) (rule u64_string.codec2_axioms)

section \<open>Round trips\<close>

lemma concat_singletons: "concat (map ((\<lambda>b. [b]) \<circ> f) xs) = map f xs"
  by (induction xs) simp_all


text \<open>
  C2. Sequences. Given an element type whose operators keep the codec contract,
  packing a vector, list or deque yields the size prefix and the elements' bytes in
  order, and unpacking those bytes anywhere in memory gives the sequence back.
\<close>

theorem sequence_roundtrip:
  assumes "codec enc ok ser deser dflt" "seq_ok ok v" "length (seq_enc enc v) < 2 ^ 31"
    and "unat a + length (seq_enc enc v) < 2 ^ 32" "unat b + length (seq_enc enc v) < 2 ^ 32"
  shows "pack m a (ser_vector ser) v = Inr (seq_enc enc v)
    \<and> unpack_bytes (deser_vector deser dflt) [] m' b (seq_enc enc v) = Inr v
    \<and> pack m a (ser_list ser) v = Inr (seq_enc enc v)
    \<and> unpack_bytes (deser_list deser dflt) [] m' b (seq_enc enc v) = Inr v
    \<and> pack m a (ser_deque ser) v = Inr (seq_enc enc v)
    \<and> unpack_bytes (deser_deque deser dflt) [] m' b (seq_enc enc v) = Inr v"
  unfolding sequence_alike
  using assms(2-) codec.pack_unpack [OF codec.codec_vector [OF assms(1)]] by blast

lemmas wire_eval = seq_ok_def seq_enc_def size_enc_def unsigned_int_enc_def varuint_bytes_simps
  prim_enc_def le_bytes_def string_enc_def upt_conv_Cons

theorem sequence_roundtrip_witness:
  "pack (\<lambda>_. 0) 64 (ser_vector ser_primitive) [1, 3 :: u16] = Inr [2, 1, 0, 3, 0]
   \<and> unpack_bytes (deser_vector deser_primitive (0 :: u16)) [] (\<lambda>_. 0) 9 [2, 1, 0, 3, 0] = Inr [1, 3]"
  using sequence_roundtrip [OF prim16.codec_axioms, of "[1, 3]" 64 9 "\<lambda>_. 0" "\<lambda>_. 0"]
  by (simp add: wire_eval)

text \<open>
  Strings and byte vectors survive packing and unpacking; the packed form is the
  varint of the length followed by the characters.
\<close>

theorem string_roundtrip:
  assumes "length s < 2 ^ 31 - 5" "unat a + length s + 5 < 2 ^ 32" "unat b + length s + 5 < 2 ^ 32"
  shows "\<exists>bs. pack m a ser_string s = Inr (bs @ map byte_of_char s)
    \<and> bs = varuint_bytes (length s)
    \<and> unpack_bytes deser_string [] m' b (bs @ map byte_of_char s) = Inr s
    \<and> pack m a ser_bytes (map byte_of_char s) = Inr (bs @ map byte_of_char s)
    \<and> unpack_bytes deser_bytes [] m' b (bs @ map byte_of_char s) = Inr (map byte_of_char s)"
proof -
  let ?bs = "varuint_bytes (length s)"
  have len: "unat (of_nat (length s) :: u32) = length s"
    using assms(1) by (intro unat_of_nat_u32) simp
  then have enc: "string_enc s = ?bs @ map byte_of_char s"
      "seq_enc (\<lambda>b. [b]) (map byte_of_char s) = ?bs @ map byte_of_char s"
    by (simp_all add: string_enc_def seq_enc_def size_enc_def unsigned_int_enc_def concat_singletons)
  have "length ?bs \<le> 5" using length_varuint_u32 [of "of_nat (length s)"] len by simp
  then have room: "length (?bs @ map byte_of_char s) < 2 ^ 31"
      "unat a + length (?bs @ map byte_of_char s) < 2 ^ 32"
      "unat b + length (?bs @ map byte_of_char s) < 2 ^ 32"
    using assms by simp_all
  have ok: "seq_ok (\<lambda>_. True) s" "seq_ok (\<lambda>_. True) (map byte_of_char s)"
    using assms(1) by (simp_all add: seq_ok_def)
  show ?thesis
    using string_codec.pack_unpack [of s, unfolded enc, OF ok(1) room]
      bytes_codec.pack_unpack [of "map byte_of_char s", unfolded enc, OF ok(2) room]
    by blast
qed

theorem string_roundtrip_witness:
  "\<exists>bs. pack (\<lambda>_. 0) 64 ser_string ''wicc'' = Inr (bs @ [119, 105, 99, 99])
     \<and> bs = [4] \<and> unpack_bytes deser_string [] (\<lambda>_. 7) 0 (bs @ [119, 105, 99, 99]) = Inr ''wicc''"
  using string_roundtrip [of "''wicc''" 64 0 "\<lambda>_. 0" "\<lambda>_. 7"]
  by (simp add: varuint_bytes_simps byte_of_char_def)

text \<open>
  C25. Variable length integers. Every \<open>unsigned_int\<close> and every \<open>signed_int\<close> packs
  into as many bytes as its value (zig-zag mapped when signed) has base-128 digits,
  at most five, and unpacks to itself.
\<close>

theorem varint_roundtrip:
  assumes "unat a + 5 < 2 ^ 32" "unat b + 5 < 2 ^ 32"
  shows "\<exists>us ss. pack m a ser_unsigned_int u = Inr us
    \<and> unpack_bytes deser_unsigned_int (Unsigned_int 0) m' b us = Inr u
    \<and> (\<forall>k. length us \<le> Suc k \<longleftrightarrow> unat (uint_value u) < 128 ^ Suc k) \<and> length us \<le> 5
    \<and> pack m a ser_signed_int i = Inr ss
    \<and> unpack_bytes deser_signed_int (Signed_int 0) m' b ss = Inr i
    \<and> (\<forall>k. length ss \<le> Suc k \<longleftrightarrow>
          (if sint (sint_value i) < 0 then - 2 * sint (sint_value i) - 1 else 2 * sint (sint_value i))
            < 128 ^ Suc k) \<and> length ss \<le> 5"
proof -
  have u: "length (unsigned_int_enc u) \<le> 5" and i: "length (signed_int_enc i) \<le> 5"
    by (simp_all add: unsigned_int_enc_def signed_int_enc_def length_varuint_u32)
  have "pack m a ser_unsigned_int u = Inr (unsigned_int_enc u)"
      "unpack_bytes deser_unsigned_int (Unsigned_int 0) m' b (unsigned_int_enc u) = Inr u"
    using u assms by (simp_all add: unsigned_int.pack_enc unsigned_int.unpack_enc)
  moreover have "pack m a ser_signed_int i = Inr (signed_int_enc i)"
      "unpack_bytes deser_signed_int (Signed_int 0) m' b (signed_int_enc i) = Inr i"
    using i assms by (simp_all add: signed_int.pack_enc signed_int.unpack_enc)
  moreover have "unat (zigzag (sint_value i)) < 128 ^ Suc k \<longleftrightarrow>
      (if sint (sint_value i) < 0 then - 2 * sint (sint_value i) - 1 else 2 * sint (sint_value i))
        < 128 ^ Suc k" for k
    using of_nat_less_iff [where 'a = int, of "unat (zigzag (sint_value i))" "128 ^ Suc k"]
    by (simp only: zigzag_sint of_nat_power of_nat_numeral)
  ultimately show ?thesis
    using u i unfolding unsigned_int_enc_def signed_int_enc_def
    by (intro exI conjI allI) (assumption | simp only: length_varuint_bytes)+
qed

theorem varint_roundtrip_witness:
  "\<exists>us ss. pack (\<lambda>_. 0) 16 ser_unsigned_int (Unsigned_int 300) = Inr us
    \<and> unpack_bytes deser_unsigned_int (Unsigned_int 0) (\<lambda>_. 1) 0 us = Inr (Unsigned_int 300)
    \<and> pack (\<lambda>_. 0) 16 ser_signed_int (Signed_int (- 1)) = Inr ss
    \<and> unpack_bytes deser_signed_int (Signed_int 0) (\<lambda>_. 1) 0 ss = Inr (Signed_int (- 1))"
proof -
  have "unat (16 :: u32) + 5 < 2 ^ 32" "unat (0 :: u32) + 5 < 2 ^ 32" by simp_all
  from varint_roundtrip [OF this, of "\<lambda>_. 0" "Unsigned_int 300" "\<lambda>_. 1" "Signed_int (- 1)"]
  show ?thesis by blast
qed

text \<open>
  C3. Maps. Whatever sequence of entries is on the wire, repeated keys included,
  unpacking gives the map in which the first entry of each key is kept; and
  packing a map and unpacking the bytes gives the map back.
\<close>

theorem map_roundtrip:
  fixes es :: "('k::linorder \<times> 'v) list"
  assumes "codec2 enc1 ok1 ser1 deser1 dflt1 enc2 ok2 ser2 deser2 dflt2"
    and "seq_ok (pair_ok ok1 ok2) es" "length (seq_enc (pair_enc enc1 enc2) es) < 2 ^ 31"
    and "unat b + length (seq_enc (pair_enc enc1 enc2) es) < 2 ^ 32"
    and "map_ok ok1 ok2 v" "length (map_enc enc1 enc2 v) < 2 ^ 31"
    and "unat a + length (map_enc enc1 enc2 v) < 2 ^ 32" "unat b + length (map_enc enc1 enc2 v) < 2 ^ 32"
  shows "(\<exists>w. unpack_bytes (deser_map deser1 dflt1 deser2 dflt2) w0 m' b (seq_enc (pair_enc enc1 enc2) es) = Inr w
       \<and> Mapping.lookup w = map_of es)
    \<and> pack m a (ser_map ser1 ser2) v = Inr (map_enc enc1 enc2 v)
    \<and> unpack_bytes (deser_map deser1 dflt1 deser2 dflt2) w0 m' b (map_enc enc1 enc2 v) = Inr v"
proof -
  let ?bs = "seq_enc (pair_enc enc1 enc2) es"
  let ?ds = "ds_make (mem_write m' b ?bs) b (of_nat (length ?bs))"
  have n: "unat (of_nat (length ?bs) :: u32) = length ?bs"
    using assms(3) by (intro unat_of_nat_u32) simp
  have "wf_ds ?ds" "ds_avail ?ds = ?bs @ []"
    using ds_make_wf [of b "of_nat (length ?bs)"] ds_make_avail [of ?bs b m'] n assms(3,4) by simp_all
  from deser_map_entries [OF assms(1) this(1) assms(2) this(2)]
  have "unpack_bytes (deser_map deser1 dflt1 deser2 dflt2) w0 m' b ?bs =
      Inr (fold (\<lambda>(k, v). Mapping.default k v) es Mapping.empty)"
    by (simp add: unpack_bytes_def unpack_def)
  moreover have "Mapping.lookup (fold (\<lambda>(k, v). Mapping.default k v) es Mapping.empty) = map_of es"
    by (simp add: fun_eq_iff lookup_fold_default Mapping.lookup_empty)
  ultimately show ?thesis
    using codec.pack_unpack [OF codec_map [OF assms(1)] assms(5-8)] by blast
qed

theorem map_roundtrip_witness:
  "\<exists>w. unpack_bytes (deser_map deser_primitive (0 :: u64) deser_string []) Mapping.empty (\<lambda>_. 0) 32
      (seq_enc (pair_enc (prim_enc :: u64 \<Rightarrow> _) string_enc) [(7, ''a''), (7, ''b'')]) = Inr w
     \<and> Mapping.lookup w 7 = Some ''a''"
proof -
  have "seq_ok (pair_ok (\<lambda>_. True) (seq_ok (\<lambda>_. True))) [(7 :: u64, ''a''), (7, ''b'')]"
    by (simp add: seq_ok_def pair_ok_def)
  moreover have "length (seq_enc (pair_enc prim_enc string_enc) [(7 :: u64, ''a''), (7, ''b'')]) = 21"
    by (simp add: pair_enc_def wire_eval)
  moreover have "map_ok (\<lambda>_. True) (seq_ok (\<lambda>_. True)) (Mapping.empty :: (u64, string) mapping)"
    "length (map_enc prim_enc string_enc (Mapping.empty :: (u64, string) mapping)) = 1"
    by (simp_all add: map_ok_def map_enc_def map_entries_def wire_eval Mapping.ordered_keys_def)
  ultimately show ?thesis
    using map_roundtrip [THEN conjunct1, OF u64_string.codec2_axioms, of "[(7, ''a''), (7, ''b'')]" 32 Mapping.empty 0
        Mapping.empty "\<lambda>_. 0"] by auto
qed

text \<open>
  C4. Variants. Unpacking the bytes of a variant restores the alternative and its
  value; an index past the last alternative aborts with the library's message,
  whatever follows.
\<close>

theorem variant_roundtrip:
  assumes "length encs = length alts" "length oks = length alts" "length sers = length alts"
    and "length alts \<le> 2 ^ 31"
    and "\<And>j. j < length alts \<Longrightarrow> codec (encs ! j) (oks ! j) (sers ! j) (fst (alts ! j)) (snd (alts ! j))"
    and "variant_ok oks v" "length (variant_enc encs v) < 2 ^ 31"
    and "unat a + length (variant_enc encs v) < 2 ^ 32" "unat b + length (variant_enc encs v) < 2 ^ 32"
    and "wf_ds ds" "length alts \<le> k" "k < 2 ^ 32" "ds_avail ds = size_enc k @ rest"
  shows "pack m a (ser_variant sers) v = Inr (variant_enc encs v)
    \<and> unpack_bytes (deser_variant alts) w m' b (variant_enc encs v) = Inr v
    \<and> deser_variant alts w ds = Inl (Assert ''invalid variant index'')"
proof -
  have "deser_variant alts w ds = Inl (Assert ''invalid variant index'')"
    using assms(4,11,12) by (simp add: deser_variant_def deser_size [OF assms(10) TrueI assms(13)]
        variant_deserialize_invalid)
  then show ?thesis
    using codec.pack_unpack [OF codec_variant [OF assms(1-5)] assms(6-9)] by simp
qed

theorem variant_roundtrip_witness:
  "pack (\<lambda>_. 0) 0 (ser_variant [ser_primitive, ser_primitive]) (1, 9 :: u8) = Inr [1, 9]
   \<and> unpack_bytes (deser_variant [(deser_primitive, 0), (deser_primitive, 0)]) (0, 0 :: u8) (\<lambda>_. 0) 4 [1, 9]
       = Inr (1, 9)
   \<and> deser_variant [(deser_primitive, 0), (deser_primitive, 0)] (0, 0 :: u8) (ds_make (\<lambda>_. 2) 0 1)
       = Inl (Assert ''invalid variant index'')"
proof -
  have alts: "codec ([prim_enc, prim_enc] ! j) ([\<lambda>_. True, \<lambda>_. True] ! j) ([ser_primitive, ser_primitive] ! j)
      (fst ([(deser_primitive, 0), (deser_primitive, 0)] ! j))
      (snd ([(deser_primitive, 0), (deser_primitive, 0 :: u8)] ! j))"
    if "j < length [(deser_primitive, 0), (deser_primitive, 0 :: u8)]" for j
    using that prim8.codec_axioms by (cases "j = 0") (simp_all add: less_Suc_eq)
  have enc: "variant_enc [prim_enc, prim_enc] (1, 9 :: u8) = [1, 9]"
    by (simp add: variant_enc_def wire_eval)
  have "wf_ds (ds_make (\<lambda>_. 2) 0 1)" by (rule ds_make_wf) simp_all
  moreover have "ds_avail (ds_make (\<lambda>_. 2) 0 1) = size_enc 2 @ []"
    by (simp add: wire_eval ds_avail_def ds_left_def ds_make_def mem_read_def)
  ultimately show ?thesis
    using variant_roundtrip [OF _ _ _ _ alts, of "(1, 9)" 0 4
        "ds_make (\<lambda>_. 2) 0 1" 2 "[]" "\<lambda>_. 0" "(0, 0)" "\<lambda>_. 0"] enc
    by (simp add: variant_ok_def)
qed

text \<open>
  C5. Sets, optionals, pairs and fixed arrays survive packing and unpacking, wherever the
  two buffers lie; a set is written in ascending order, a standard array without size
  prefix, and a C array only unpacks from a stream that announces its own size.
\<close>

theorem composite_roundtrip:
  fixes s :: "'a::linorder set"
  assumes "codec2 enc ok ser deser dflt enc2 ok2 ser2 deser2 dflt2"
    and "set_ok ok s" "pred_option ok opt" "pair_ok ok ok2 pr" "arr_ok N ok xs" "N < 2 ^ 32"
    and "\<forall>n\<in>{length (seq_enc enc (sorted_list_of_set s)), length (optional_enc enc opt), length (pair_enc enc enc2 pr), length (seq_enc enc xs)}.
      n < 2 ^ 31 \<and> unat a + n < 2 ^ 32 \<and> unat b + n < 2 ^ 32"
    and "wf_ds ds" "k \<noteq> N" "k < 2 ^ 32" "ds_avail ds = size_enc k @ rest"
  shows "pack m a (ser_set ser) s = Inr (seq_enc enc (sorted_list_of_set s))
    \<and> unpack_bytes (deser_set deser dflt) s0 m' b (seq_enc enc (sorted_list_of_set s)) = Inr s
    \<and> pack m a (ser_optional ser) opt = Inr (optional_enc enc opt)
    \<and> unpack_bytes (deser_optional deser dflt) None m' b (optional_enc enc opt) = Inr opt
    \<and> pack m a (ser_pair ser ser2) pr = Inr (pair_enc enc enc2 pr)
    \<and> unpack_bytes (deser_pair deser dflt deser2 dflt2) pr0 m' b (pair_enc enc enc2 pr) = Inr pr
    \<and> pack m a (ser_array ser) xs = Inr (concat (map enc xs))
    \<and> unpack_bytes (deser_array deser) (replicate N dflt) m' b (concat (map enc xs)) = Inr xs
    \<and> pack m a (ser_c_array N ser) xs = Inr (seq_enc enc xs)
    \<and> unpack_bytes (deser_c_array N deser) (replicate N dflt) m' b (seq_enc enc xs) = Inr xs
    \<and> deser_c_array N deser ys ds = Inl (Assert ''T[] size and unpacked size don't match'')"
proof -
  have c: "codec enc ok ser deser dflt" using assms(1) by (simp add: codec2_def)
  have "deser_c_array N deser ys ds = Inl (Assert ''T[] size and unpacked size don't match'')"
    using assms(9,10) by (simp add: deser_c_array_def deser_size [OF assms(8) TrueI assms(11)]
        unat_of_nat_u32 bindr_check)
  moreover have "length (concat (map enc xs)) \<le> length (seq_enc enc xs)" by (simp add: seq_enc_def)
  then have "length (concat (map enc xs)) < 2 ^ 31" "unat a + length (concat (map enc xs)) < 2 ^ 32"
      "unat b + length (concat (map enc xs)) < 2 ^ 32"
    using assms(7) by auto
  note codec.pack_unpack [OF codec.codec_array [OF c] assms(5) this]
  moreover have "length (seq_enc enc (sorted_list_of_set s)) < 2 ^ 31" "unat a + length (seq_enc enc (sorted_list_of_set s)) < 2 ^ 32"
      "unat b + length (seq_enc enc (sorted_list_of_set s)) < 2 ^ 32"
    using assms(7) by simp_all
  note codec.pack_unpack [OF codec_set [OF c] assms(2) this]
  moreover have "length (optional_enc enc opt) < 2 ^ 31" "unat a + length (optional_enc enc opt) < 2 ^ 32"
      "unat b + length (optional_enc enc opt) < 2 ^ 32"
    using assms(7) by simp_all
  note codec.pack_unpack [OF codec.codec_optional [OF c] assms(3) this]
  moreover have "length (pair_enc enc enc2 pr) < 2 ^ 31" "unat a + length (pair_enc enc enc2 pr) < 2 ^ 32"
      "unat b + length (pair_enc enc enc2 pr) < 2 ^ 32"
    using assms(7) by simp_all
  note codec.pack_unpack [OF codec2.codec_pair [OF assms(1)] assms(4) this]
  moreover have "length (seq_enc enc xs) < 2 ^ 31" "unat a + length (seq_enc enc xs) < 2 ^ 32" "unat b + length (seq_enc enc xs) < 2 ^ 32"
    using assms(7) by simp_all
  note codec.pack_unpack [OF codec.codec_c_array [OF c assms(6)] assms(5) this]
  ultimately show ?thesis by blast
qed

theorem composite_roundtrip_witness:
  "pack (\<lambda>_. 0) 64 (ser_set ser_primitive) {5, 3 :: u8} = Inr [2, 3, 5]
   \<and> unpack_bytes (deser_set deser_primitive 0) {9 :: u8} (\<lambda>_. 0) 9 [2, 3, 5] = Inr {5, 3}
   \<and> unpack_bytes (deser_pair deser_primitive (0 :: u8) deser_primitive (0 :: u8)) (0, 0) (\<lambda>_. 0) 9 [1, 2] = Inr (1, 2)
   \<and> deser_c_array 1 deser_primitive [7 :: u8] (ds_make (\<lambda>_. 2) 0 1)
       = Inl (Assert ''T[] size and unpacked size don't match'')"
proof -
  have "wf_ds (ds_make (\<lambda>_. 2) 0 1)" by (rule ds_make_wf) simp_all
  moreover have "ds_avail (ds_make (\<lambda>_. 2) 0 1) = size_enc 2 @ []"
    by (simp add: wire_eval ds_avail_def ds_left_def ds_make_def mem_read_def)
  moreover have "seq_enc prim_enc (sorted_list_of_set {5, 3 :: u8}) = [2, 3, 5]" "pair_enc prim_enc prim_enc (1 :: u8, 2 :: u8) = [1, 2]"
    by (simp_all add: wire_eval pair_enc_def)
  ultimately show ?thesis
    using composite_roundtrip [OF codec2.intro [OF prim8.codec_axioms prim8.codec_axioms], of "{5, 3}" None "(1, 2)" 1 "[7]" 64 9
        "ds_make (\<lambda>_. 2) 0 1" 2 "[]" "\<lambda>_. 0" "{9}" "\<lambda>_. 0" "(0, 0)" "[7]"]
    by (auto simp: set_ok_def arr_ok_def optional_enc_def pair_ok_def wire_eval)
qed

section \<open>Safety and errors\<close>

text \<open>
  A deserialiser stays within its stream if, whatever bytes a well-formed stream holds, it
  only moves the position forward when it returns, and not past the end.
\<close>

definition stays_within :: "('a \<Rightarrow> datastream \<Rightarrow> ('a \<times> datastream) res) \<Rightarrow> bool" where
  "stays_within deser \<longleftrightarrow> (\<forall>w ds v ds'. wf_ds ds \<longrightarrow> deser w ds = Inr (v, ds') \<longrightarrow>
     ds_pos ds \<le> ds_pos ds' \<and> ds_pos ds' \<le> ds_end ds \<and> ds_mem ds' = ds_mem ds \<and> ds_start ds' = ds_start ds \<and> ds_end ds' = ds_end ds)"

lemma stays_withinI: "(\<And>w ds v ds'. wf_ds ds \<Longrightarrow> deser w ds = Inr (v, ds') \<Longrightarrow> ds_within ds ds') \<Longrightarrow> stays_within deser"
  unfolding stays_within_def using ds_within_ends by blast

lemma codec_stays_within: "codec enc ok ser deser dflt \<Longrightarrow> stays_within deser"
  by (rule stays_withinI) (rule codec.deser_within)

lemma ends_within:
  assumes "wf_ds ds" "ds_mem ds' = ds_mem ds" "ds_start ds' = ds_start ds" "ds_end ds' = ds_end ds" "ds_pos ds \<le> ds_pos ds'" "ds_pos ds' \<le> ds_end ds"
  shows "ds_within ds ds'"
proof -
  let ?n = "unat (ds_pos ds') - unat (ds_pos ds)"
  have "unat (ds_pos ds' - ds_pos ds) = ?n" using assms(5) by (simp add: unat_sub)
  then have "(of_nat ?n :: u32) = ds_pos ds' - ds_pos ds" by (metis word_of_nat_unat)
  then have "ds' = ds_advance ?n ds" using assms(2-4) by (simp add: ds_advance_def)
  moreover have "?n \<le> ds_left ds" using assms(5,6) by (simp add: ds_left_def unat_sub word_le_nat_alt)
  ultimately show ?thesis by (metis ds_within_advance)
qed

text \<open>An operator that stays within its stream keeps the contract for no value.\<close>

lemma stays_within_codec: "stays_within deser \<Longrightarrow> codec (\<lambda>_. []) (\<lambda>_. False) (\<lambda>_ s. Inr s) deser dflt"
  unfolding stays_within_def by unfold_locales (simp_all add: ends_within)

lemma stays_within_class: "stays_within deser \<Longrightarrow> stays_within (deser_class get mk deser)"
  unfolding stays_within_def deser_class_def bindr_eq_Inr by (auto simp: split_def)

text \<open>
  C6. Memory safety. Whatever the bytes, the deserialisers of primitives, booleans, varints,
  strings and byte vectors stay within their stream, and so do those of sequences, arrays,
  sets, maps, pairs, tuples, classes, optionals and variants over any element types whose
  deserialisers do.
\<close>

theorem deserialize_within_buffer:
  fixes deser1 :: "'k::linorder \<Rightarrow> datastream \<Rightarrow> ('k \<times> datastream) res"
  assumes "stays_within deser1" "stays_within deser2" "\<forall>alt\<in>set alts. stays_within (fst alt)" "length alts \<le> 2 ^ 31" "N < 2 ^ 32"
    and "8 dvd LENGTH('p::len)" "LENGTH('p) div 8 < 2 ^ 31"
  shows "stays_within (deser_primitive :: 'p word \<Rightarrow> _) \<and> stays_within deser_bool
    \<and> stays_within deser_unsigned_int \<and> stays_within deser_signed_int \<and> stays_within deser_string \<and> stays_within deser_bytes
    \<and> stays_within (deser_vector deser2 dflt2) \<and> stays_within (deser_list deser2 dflt2) \<and> stays_within (deser_deque deser2 dflt2)
    \<and> stays_within (deser_array deser2) \<and> stays_within (deser_c_array N deser2) \<and> stays_within (deser_c_array_primitive N :: 'p word list \<Rightarrow> _)
    \<and> stays_within (deser_set deser1 dflt1) \<and> stays_within (deser_map deser1 dflt1 deser2 dflt2)
    \<and> stays_within (deser_pair deser1 dflt1 deser2 dflt2) \<and> stays_within deser_tuple_nil \<and> stays_within (deser_tuple deser1 deser2)
    \<and> stays_within (deser_class get mk deser2) \<and> stays_within (deser_optional deser2 dflt2) \<and> stays_within (deser_variant alts)"
proof -
  note one = stays_within_codec [OF assms(1)] and two = stays_within_codec [OF assms(2)]
  note both = codec2.intro [OF one two]
  have variant: "codec (variant_enc (replicate (length alts) (\<lambda>_. []))) (variant_ok (replicate (length alts) (\<lambda>_. False)))
      (ser_variant (replicate (length alts) (\<lambda>_ s. Inr s))) (deser_variant alts) w" for w
    using assms(3,4) by (intro codec_variant) (auto intro: stays_within_codec)
  have prim: "codec (seq_enc prim_enc) (arr_ok N (\<lambda>_. True)) (ser_c_array_primitive N) (deser_c_array_primitive N) ([] :: 'p word list)"
    by (rule codec_c_array_primitive [OF assms(6,5)])
  show ?thesis
    by (intro conjI codec_stays_within [OF codec_primitive [OF assms(6,7)]]
        codec_stays_within [OF bool_codec.codec_axioms] codec_stays_within [OF unsigned_int.codec_axioms]
        codec_stays_within [OF signed_int.codec_axioms] codec_stays_within [OF codec_string] codec_stays_within [OF codec_bytes]
        codec_stays_within [OF codec.codec_vector [OF two]] codec_stays_within [OF codec.codec_list [OF two]]
        codec_stays_within [OF codec.codec_deque [OF two]] codec_stays_within [OF codec.codec_array [OF two]]
        codec_stays_within [OF codec.codec_c_array [OF two assms(5)]] codec_stays_within [OF prim]
        codec_stays_within [OF codec_set [OF one]] codec_stays_within [OF codec_map [OF both]]
        codec_stays_within [OF codec2.codec_pair [OF both]] codec_stays_within [OF tuple_nil.codec_axioms]
        codec_stays_within [OF codec2.codec_tuple [OF both]] stays_within_class [OF assms(2)]
        codec_stays_within [OF codec.codec_optional [OF two]] codec_stays_within [OF variant])
qed

theorem deserialize_within_buffer_witness:
  "\<exists>v ds'. deser_vector deser_string [] [] (ds_make (\<lambda>_. 1) 0 9) = Inr (v, ds') \<and> ds_pos ds' \<le> ds_end (ds_make (\<lambda>_. 1) 0 9)"
proof -
  let ?ds = "ds_make (\<lambda>_. 1) 0 9"
  have wf: "wf_ds ?ds" by (rule ds_make_wf) simp_all
  have "\<exists>n rest. ds_avail ?ds = seq_enc string_enc [[char_of_byte 1]] @ rest"
    by (simp add: wire_eval ds_avail_def ds_left_def ds_make_def mem_read_def)
  then obtain ds' where r: "deser_vector deser_string [] [] ?ds = Inr ([[char_of_byte 1]], ds')"
    using strings_codec.deser_enc [OF wf, of "[[char_of_byte 1]]"] by (fastforce simp: seq_ok_def)
  have "stays_within deser_string" by (rule codec_stays_within [OF codec_string])
  moreover have "stays_within (deser_primitive :: u64 \<Rightarrow> _)" by (rule codec_stays_within [OF prim64.codec_axioms])
  ultimately have "stays_within (deser_vector deser_string [])"
    using deserialize_within_buffer [where 'p = 64, of "deser_primitive :: u64 \<Rightarrow> _" deser_string "[] :: ((u8 \<Rightarrow> datastream \<Rightarrow> (u8 \<times> datastream) res) \<times> u8) list" 0 "[]" 0 "id :: string \<Rightarrow> string" id] by simp
  then show ?thesis using r wf unfolding stays_within_def by blast
qed

text \<open>
  Overlong integers. A stream whose first five bytes all announce a further byte
  makes both decoders shift a 32-bit value by 35 places, which C++ leaves undefined:
  the length of the encoding is never checked.
\<close>

theorem varint_overlong_undefined:
  assumes "wf_ds ds" "ds_avail ds = b0 # b1 # b2 # b3 # b4 # b5 # rest"
    and "\<forall>b\<in>{b0, b1, b2, b3, b4}. 128 \<le> unat b"
  shows "deser_unsigned_int u ds = Inl (Undefined ''shift of a 32-bit integer by 32 or more'')
    \<and> deser_signed_int i ds = Inl (Undefined ''shift of a 32-bit integer by 32 or more'')"
proof -
  note loop = varint_read_loop_overlong [of ds "[b0, b1, b2, b3, b4]" b5 rest 0]
  have "varint_read_loop (0 :: u64) 0 ds = Inl (Undefined ''shift of a 32-bit integer by 32 or more'')"
    by (rule loop) (use assms in simp_all)
  moreover have "varint_read_loop (0 :: u32) 0 ds = Inl (Undefined ''shift of a 32-bit integer by 32 or more'')"
    by (rule loop) (use assms in simp_all)
  ultimately show ?thesis
    by (simp add: deser_unsigned_int_def deser_signed_int_def)
qed

theorem varint_overlong_undefined_witness:
  "deser_unsigned_int (Unsigned_int 0) (ds_make (\<lambda>_. 128) 0 6)
     = Inl (Undefined ''shift of a 32-bit integer by 32 or more'')"
proof -
  have "wf_ds (ds_make (\<lambda>_. 128) 0 6)" by (rule ds_make_wf) simp_all
  moreover have "ds_avail (ds_make (\<lambda>_. 128) 0 6) = [128, 128, 128, 128, 128, 128]"
    by (simp add: ds_avail_def ds_left_def ds_make_def mem_read_def upt_conv_Cons)
  ultimately show ?thesis
    using varint_overlong_undefined [of "ds_make (\<lambda>_. 128) 0 6" 128 128 128 128 128 128 "[]"]
    by simp
qed

text \<open>
  C26. The bounds checks of the pointer stream. On a well-formed stream \<open>read\<close> and
  \<open>write\<close> abort exactly when fewer bytes are left than asked for and otherwise move
  exactly the requested bytes; but after \<open>skip\<close> has passed the end by \<open>k\<close> bytes the
  unsigned comparison in \<open>read\<close> accepts every size up to \<open>2 ^ 32 - k\<close>.
\<close>

theorem stream_bounds:
  assumes "wf_ds ds" "length d < 2 ^ 31" "0 < unat k"
  shows "ds_read s ds = (if unat s \<le> ds_left ds
      then Inr (take (unat s) (ds_avail ds), ds_advance (unat s) ds) else Inl (Assert ''read''))
    \<and> ds_write d ds = (if length d \<le> ds_left ds
      then Inr ((ds_advance (length d) ds)\<lparr>ds_mem := mem_write (ds_mem ds) (ds_pos ds) d\<rparr>)
      else Inl (Assert ''write''))
    \<and> (unat s \<le> 2 ^ 32 - unat k \<longleftrightarrow>
         (\<exists>r. ds_read s (ds_skip (ds_end ds - ds_pos ds + k) ds) = Inr r))"
proof -
  let ?ds = "ds_skip (ds_end ds - ds_pos ds + k) ds"
  have "ds_end ?ds - ds_pos ?ds = - k" by (simp add: ds_skip_def)
  moreover have "unat (- k) = 2 ^ 32 - unat k" using assms(3) by (subst unat_uminus) auto
  ultimately have "ds_left ?ds = 2 ^ 32 - unat k" by (simp add: ds_left_def)
  then show ?thesis
    using assms(1,2) by (auto simp: ds_read_eq ds_write_eq)
qed

theorem stream_bounds_witness:
  "\<exists>r. ds_read 4294967292 (ds_skip (ds_end (ds_make (\<lambda>_. 0) 0 6) - ds_pos (ds_make (\<lambda>_. 0) 0 6) + 4)
     (ds_make (\<lambda>_. 0) 0 6)) = Inr r"
proof -
  have "wf_ds (ds_make (\<lambda>_. 0) 0 6)" by (rule ds_make_wf) simp_all
  then show ?thesis
    using stream_bounds [of "ds_make (\<lambda>_. 0) 0 6" "[]" 4 4294967292] by simp
qed

text \<open>
  An absent optional does not reset its destination: unpacking the byte 0 into an
  optional leaves whatever value it held, so only a fresh optional is decoded
  faithfully; a destination that held a value keeps it.
\<close>

theorem optional_keeps_stale_value:
  assumes "wf_ds ds" "ds_avail ds = optional_enc enc None @ rest"
  shows "deser_optional deser d opt ds = Inr (opt, ds_advance 1 ds)"
proof -
  have "ds_avail ds = prim_enc (0 :: u8) @ rest"
    using assms(2) by (simp add: optional_enc_def prim_enc_byte)
  from prim8.deser_enc [OF assms(1) _ this] show ?thesis
    by (simp add: deser_optional_def)
qed

theorem optional_keeps_stale_value_witness:
  "deser_optional deser_string [] (Some ''old'') (ds_make (\<lambda>_. 0) 0 1) =
     Inr (Some ''old'', ds_advance 1 (ds_make (\<lambda>_. 0) 0 1))"
proof -
  have "wf_ds (ds_make (\<lambda>_. 0) 0 1)" by (rule ds_make_wf) simp_all
  moreover have "ds_avail (ds_make (\<lambda>_. 0) 0 1) = optional_enc string_enc None @ []"
    by (simp add: optional_enc_def ds_avail_def ds_left_def ds_make_def mem_read_def)
  ultimately show ?thesis by (rule optional_keeps_stale_value)
qed

end
