(* ===== verification/Strings.thy ===== *)
theory Strings
  imports Wasm_Check
begin

text \<open>
  The string helpers of \<^verbatim>\<open>libraries/wasmlib/core/strings.hpp\<close>, and the parts of
  the C library they and their callers use: \<^verbatim>\<open>atoi\<close>, the decimal conversion of
  \<^verbatim>\<open>snprintf\<close> and \<^verbatim>\<open>std::to_string\<close>, and reading a string as a C string.
\<close>

section \<open>The C library\<close>

definition is_digit :: "char \<Rightarrow> bool" where
  "is_digit c = (CHR ''0'' \<le> c \<and> c \<le> CHR ''9'')"

definition digit_val :: "char \<Rightarrow> nat" where
  "digit_val c = of_char c - of_char (CHR ''0'')"

definition digit_char :: "nat \<Rightarrow> char" where
  "digit_char d = char_of (of_char (CHR ''0'') + d)"

definition dec_val :: "string \<Rightarrow> nat" where
  "dec_val s = foldl (\<lambda>n c. 10 * n + digit_val c) 0 s"

fun show_nat :: "nat \<Rightarrow> string" where
  "show_nat n = (if n < 10 then [digit_char n] else show_nat (n div 10) @ [digit_char (n mod 10)])"

declare show_nat.simps [simp del]

definition show_int :: "int \<Rightarrow> string" where
  "show_int i = (if i < 0 then CHR ''-'' # show_nat (nat (- i)) else show_nat (nat i))"

definition is_space :: "char \<Rightarrow> bool" where
  "is_space c = (c = CHR '' '' \<or> (CHR 0x09 \<le> c \<and> c \<le> CHR 0x0D))"

text \<open>
  \<^verbatim>\<open>atoi\<close>: white space, an optional sign, the longest run of digits; 0 without
  digits; undefined when the value does not fit in an \<^verbatim>\<open>int\<close>.
\<close>

definition atoi :: "string \<Rightarrow> int res" where
  "atoi s =
     (let s1 = dropWhile is_space s;
          neg = (s1 \<noteq> [] \<and> hd s1 = CHR ''-'');
          s2 = (if s1 \<noteq> [] \<and> (hd s1 = CHR ''-'' \<or> hd s1 = CHR ''+'') then tl s1 else s1);
          v = int (dec_val (takeWhile is_digit s2));
          r = (if neg then - v else v)
      in if - (2 ^ 31) \<le> r \<and> r < 2 ^ 31 then Inr r else Inl (Undefined ''atoi out of range''))"

definition c_str :: "string \<Rightarrow> string" where
  "c_str s = takeWhile (\<lambda>c. c \<noteq> CHR 0x00) s"

text \<open>\<^verbatim>\<open>find\<close> of a character: its first position, \<open>None\<close> for \<^verbatim>\<open>npos\<close>.\<close>

definition find_char :: "char \<Rightarrow> string \<Rightarrow> nat option" where
  "find_char c s = (let p = length (takeWhile (\<lambda>x. x \<noteq> c) s) in if p < length s then Some p else None)"

section \<open>The helpers\<close>

fun ltrim_loop :: "string \<Rightarrow> nat \<Rightarrow> nat \<Rightarrow> nat" where
  "ltrim_loop str h 0 = h"
| "ltrim_loop str h (Suc k) =
     (if str ! h = CHR '' '' \<or> str ! h = CHR 0x09 then ltrim_loop str (h + 1) k else h)"

definition ltrim :: "string \<Rightarrow> string" where
  "ltrim str = (let t = length str; h = ltrim_loop str 0 t in take (t - h) (drop h str))"

fun rtrim_loop :: "string \<Rightarrow> nat \<Rightarrow> nat" where
  "rtrim_loop str 0 = 0"
| "rtrim_loop str (Suc t) =
     (if str ! t = CHR '' '' \<or> str ! t = CHR 0x09 then rtrim_loop str t else Suc t)"

definition rtrim :: "string \<Rightarrow> string" where
  "rtrim str = (let t = rtrim_loop str (length str) in take t str)"

text \<open>\<open>trim\<close> computes the trimmed string, drops it and returns its copy of the argument.\<close>

definition trim :: "string \<Rightarrow> string" where
  "trim s = (let str = s; discarded = ltrim (rtrim str) in str)"

function string_split :: "string \<Rightarrow> char \<Rightarrow> string list" where
  "string_split str delimiter =
     (if str = [] then []
      else case find_char delimiter str of
        None \<Rightarrow> [str]
      | Some ind \<Rightarrow> take ind str # string_split (take (length str - ind - 1) (drop (ind + 1) str)) delimiter)"
  by pat_completeness auto
termination
  by (relation "measure (\<lambda>(str, _). length str)") auto

declare string_split.simps [simp del]

definition hex_value :: "char \<Rightarrow> u8" where
  "hex_value c =
     (if CHR ''0'' \<le> c \<and> c \<le> CHR ''9'' then byte_of_char c - byte_of_char (CHR ''0'')
      else if CHR ''a'' \<le> c \<and> c \<le> CHR ''f'' then byte_of_char c - byte_of_char (CHR ''a'') + 10
      else 0)"

text \<open>A string may be read at its length, where it holds the terminator; a vector may not.\<close>

fun from_hex_string :: "string \<Rightarrow> byte list" where
  "from_hex_string [] = []"
| "from_hex_string [c] = [hex_value (CHR 0x00) OR push_bit 4 (hex_value c)]"
| "from_hex_string (c # d # cs) = (hex_value d OR push_bit 4 (hex_value c)) # from_hex_string cs"

fun from_hex_vector :: "string \<Rightarrow> byte list res" where
  "from_hex_vector [] = Inr []"
| "from_hex_vector [c] = Inl (Undefined ''read past the end of a vector'')"
| "from_hex_vector (c # d # cs) =
     bindr (from_hex_vector cs) (\<lambda>v. Inr ((hex_value d OR push_bit 4 (hex_value c)) # v))"

text \<open>
  The formatting overload of \<open>to_string\<close>: each percent sign takes the next argument,
  already converted to a string; the last overload copies the rest.
\<close>

fun format_string :: "string \<Rightarrow> string list \<Rightarrow> string" where
  "format_string s [] = s"
| "format_string [] (val # rest) = []"
| "format_string (c # s) (val # rest) =
     (if c = CHR ''%'' then val @ format_string s rest else c # format_string s (val # rest))"

section \<open>Decimal conversion\<close>

lemma digit_val_char [simp]: "d < 10 \<Longrightarrow> digit_val (digit_char d) = d"
  by (simp add: digit_val_def digit_char_def of_char_of)

lemma is_digit_char [simp]: "d < 10 \<Longrightarrow> is_digit (digit_char d)"
  by (simp add: is_digit_def digit_char_def less_eq_char_def of_char_of)

lemma dec_val_snoc [simp]: "dec_val (s @ [c]) = 10 * dec_val s + digit_val c"
  by (simp add: dec_val_def)

lemma dec_val_Nil [simp]: "dec_val [] = 0"
  by (simp add: dec_val_def)

lemma show_nat_digits: "show_nat n \<noteq> [] \<and> (\<forall>c\<in>set (show_nat n). is_digit c) \<and> dec_val (show_nat n) = n"
proof (induction n rule: show_nat.induct)
  case (1 n)
  then show ?case
    by (subst (1 2 3) show_nat.simps) (auto simp: dec_val_def)
qed

lemma length_show_nat: "n < 10 ^ Suc k \<Longrightarrow> length (show_nat n) \<le> Suc k"
proof (induction k arbitrary: n)
  case 0
  then show ?case by (simp add: show_nat.simps)
next
  case (Suc k)
  then have "n div 10 < 10 ^ Suc k" by simp
  from Suc.IH [OF this] show ?case by (subst show_nat.simps) simp
qed

lemma takeWhile_digits: "(\<forall>c\<in>set s. is_digit c) \<Longrightarrow> takeWhile is_digit s = s"
  by (simp add: takeWhile_eq_all_conv)

lemma digit_not_special:
  "is_digit c \<Longrightarrow> c \<noteq> CHR ''-'' \<and> c \<noteq> CHR ''+'' \<and> \<not> is_space c \<and> c \<noteq> CHR ''.'' \<and> c \<noteq> CHR '' ''"
  by (auto simp: is_digit_def is_space_def less_eq_char_def)

lemma atoi_digits:
  assumes "\<forall>c\<in>set s. is_digit c" "dec_val s < 2 ^ 31"
  shows "atoi s = Inr (int (dec_val s))"
proof (cases s)
  case (Cons c cs)
  then have "dropWhile is_space s = s" "hd s \<noteq> CHR ''-''" "hd s \<noteq> CHR ''+''"
    using assms(1) digit_not_special [of c] by simp_all
  then show ?thesis
    using assms by (simp add: atoi_def Let_def takeWhile_digits)
qed (simp add: atoi_def)

lemma atoi_negative:
  assumes "\<forall>c\<in>set s. is_digit c" "dec_val s \<le> 2 ^ 31"
  shows "atoi (CHR ''-'' # s) = Inr (- int (dec_val s))"
  using assms by (simp add: atoi_def Let_def takeWhile_digits is_space_def less_eq_char_def)

lemma atoi_show_int:
  assumes "- (2 ^ 31) \<le> i" "i < 2 ^ 31"
  shows "atoi (show_int i) = Inr i"
  using assms show_nat_digits [of "nat i"] show_nat_digits [of "nat (- i)"]
    atoi_digits [of "show_nat (nat i)"] atoi_negative [of "show_nat (nat (- i))"]
  by (auto simp: show_int_def)

section \<open>Trimming and splitting\<close>

lemma ltrim_loop_eq:
  "h + k = length str \<Longrightarrow>
     ltrim_loop str h k = h + length (takeWhile (\<lambda>c. c = CHR '' '' \<or> c = CHR 0x09) (drop h str))"
  by (induction str h k rule: ltrim_loop.induct) (auto simp: Cons_nth_drop_Suc [symmetric])

lemma ltrim_eq: "ltrim str = dropWhile (\<lambda>c. c = CHR '' '' \<or> c = CHR 0x09) str"
  by (simp add: ltrim_def ltrim_loop_eq Let_def dropWhile_eq_drop)

lemma rtrim_loop_eq:
  "t \<le> length str \<Longrightarrow>
     take (rtrim_loop str t) str = rev (dropWhile (\<lambda>c. c = CHR '' '' \<or> c = CHR 0x09) (rev (take t str)))"
  by (induction str t rule: rtrim_loop.induct) (auto simp: take_Suc_conv_app_nth)

lemma rtrim_eq: "rtrim str = rev (dropWhile (\<lambda>c. c = CHR '' '' \<or> c = CHR 0x09) (rev str))"
  by (simp add: rtrim_def rtrim_loop_eq Let_def)

lemma trim_eq [simp]: "trim s = s"
  by (simp add: trim_def)

text \<open>
  \<open>trim\<close> returns its argument unchanged, although \<open>ltrim\<close> and \<open>rtrim\<close>, which it
  calls, do remove the blanks and tabs at the two ends.
\<close>

theorem trim_does_not_trim:
  "trim s = s
   \<and> ltrim (rtrim s) = dropWhile (\<lambda>c. c = CHR '' '' \<or> c = CHR 0x09)
       (rev (dropWhile (\<lambda>c. c = CHR '' '' \<or> c = CHR 0x09) (rev s)))"
  by (simp add: ltrim_eq rtrim_eq)

lemma find_char_Some:
  "find_char c s = Some p \<longleftrightarrow> p < length s \<and> s ! p = c \<and> c \<notin> set (take p s)"
proof -
  let ?q = "length (takeWhile (\<lambda>x. x \<noteq> c) s)"
  show ?thesis
  proof
    assume "find_char c s = Some p"
    then have "p = ?q" "?q < length s" by (auto simp: find_char_def Let_def split: if_splits)
    then show "p < length s \<and> s ! p = c \<and> c \<notin> set (take p s)"
      using nth_length_takeWhile [of "\<lambda>x. x \<noteq> c" s]
      by (auto simp: takeWhile_eq_take [symmetric] dest: set_takeWhileD)
  next
    assume p: "p < length s \<and> s ! p = c \<and> c \<notin> set (take p s)"
    then have "takeWhile (\<lambda>x. x \<noteq> c) s = take p s"
      by (intro takeWhile_eq_take_P_nth) (auto simp: in_set_conv_nth)
    with p show "find_char c s = Some p" by (simp add: find_char_def)
  qed
qed

lemma find_char_None: "find_char c s = None \<longleftrightarrow> c \<notin> set s"
proof -
  have "length (takeWhile (\<lambda>x. x \<noteq> c) s) < length s \<longleftrightarrow> c \<in> set s"
    by (induction s) auto
  then show ?thesis by (auto simp: find_char_def Let_def)
qed

lemma find_char_split: "find_char c (s @ c # t) = Some (length s) \<longleftrightarrow> c \<notin> set s"
  by (simp add: find_char_Some nth_append)

text \<open>
  \<open>string_split\<close> returns the pieces between delimiters: none contains the
  delimiter, and joining them with the delimiter gives the string back, up to one
  trailing delimiter, after which no empty piece is produced.
\<close>

theorem string_split_spec:
  "(\<forall>piece\<in>set (string_split str d). d \<notin> set piece)
   \<and> concat (map (\<lambda>piece. piece @ [d]) (string_split str d)) =
       (if str = [] \<or> last str = d then str else str @ [d])"
proof (induction str d rule: string_split.induct)
  case (1 str d)
  show ?case
  proof (cases "find_char d str")
    case None
    then have "d \<notin> set str" by (simp add: find_char_None)
    then show ?thesis
      using None by (cases "str = []") (auto simp: string_split.simps [of str d] string_split.simps [of "[]" d])
  next
    case (Some ind)
    let ?rest = "drop (ind + 1) str"
    have ind: "ind < length str" "str ! ind = d" "d \<notin> set (take ind str)"
      using Some by (simp_all add: find_char_Some)
    then have str: "str = take ind str @ d # ?rest" using id_take_nth_drop [OF ind(1)] by simp
    have split: "string_split str d = take ind str # string_split ?rest d"
      using Some ind(1) by (cases "str = []") (simp_all add: string_split.simps [of str d])
    have last: "last str = d \<longleftrightarrow> ?rest = [] \<or> last ?rest = d"
      by (subst str) (simp add: last_append)
    have ne: "str \<noteq> []" using ind(1) by auto
    have IH: "(\<forall>piece\<in>set (string_split ?rest d). d \<notin> set piece)
        \<and> concat (map (\<lambda>piece. piece @ [d]) (string_split ?rest d)) =
          (if ?rest = [] \<or> last ?rest = d then ?rest else ?rest @ [d])"
    proof -
      have e: "take (length str - ind - 1) ?rest = ?rest" by simp
      show ?thesis by (rule "1.IH" [OF ne Some, unfolded e])
    qed
    have join: "take ind str @ d # ?rest = str" "take ind str @ d # ?rest @ [d] = str @ [d]"
      using str by (metis, metis append.assoc append_Cons)
    have "concat (map (\<lambda>piece. piece @ [d]) (string_split str d)) =
        take ind str @ d # (if ?rest = [] \<or> last ?rest = d then ?rest else ?rest @ [d])"
      using IH by (simp add: split)
    also have "\<dots> = (if str = [] \<or> last str = d then str else str @ [d])"
      using ne by (cases "last str = d") (simp_all only: last [symmetric] join if_True if_False simp_thms)
    finally show ?thesis
      using IH ind(3) by (simp add: split)
  qed
qed

theorem string_split_spec_witness:
  "concat (map (\<lambda>piece. piece @ [CHR '','']) (string_split ''8,,WICC'' (CHR '',''))) = ''8,,WICC,''"
  using string_split_spec [of "''8,,WICC''" "CHR '',''"] by simp

end
