(* ===== verification/Uint128.thy ===== *)
theory Uint128
  imports Strings "HOL-Library.While_Combinator"
begin

text \<open>
  The 128-bit unsigned integer of \<^verbatim>\<open>libraries/wasmlib/core/uint128.hpp\<close>: two 64-bit
  halves with hand-written carries. Its contract is the arithmetic of \<open>128 word\<close>:
  \<open>to_u128\<close> is the conversion to the compiler's 128-bit type, and every operator is
  shown to commute with it, except \<^verbatim>\<open>operator|\<close>, which returns its right operand.
\<close>

section \<open>The class\<close>

record uint128 =
  hi :: u64
  lo :: u64

definition u128_make :: "u64 \<Rightarrow> u64 \<Rightarrow> uint128" where
  "u128_make h l = \<lparr>hi = h, lo = l\<rparr>"

definition u128_default :: uint128 where
  "u128_default = u128_make 0 0"

definition u128_of_uint32 :: "u32 \<Rightarrow> uint128" where
  "u128_of_uint32 l = u128_make 0 (ucast l)"

definition u128_of_int32 :: "u32 \<Rightarrow> uint128" where
  "u128_of_int32 l = u128_make (- (if sint l < 0 then 1 else 0)) (scast l)"

definition u128_of_int64 :: "u64 \<Rightarrow> uint128" where
  "u128_of_int64 l = u128_make (- (if sint l < 0 then 1 else 0)) l"

definition u128_of_uint64 :: "u64 \<Rightarrow> uint128" where
  "u128_of_uint64 l = u128_make 0 l"

definition u128_of_int128 :: "u128 \<Rightarrow> uint128" where
  "u128_of_int128 i = u128_make (ucast (drop_bit 64 i)) (ucast i)"

definition to_u128 :: "uint128 \<Rightarrow> u128" where
  "to_u128 a = (let result = push_bit 64 (ucast (hi a) :: u128) in result OR ucast (lo a))"

definition u128_eq :: "uint128 \<Rightarrow> uint128 \<Rightarrow> bool" where
  "u128_eq a b = (hi a = hi b \<and> lo a = lo b)"

definition u128_neq :: "uint128 \<Rightarrow> uint128 \<Rightarrow> bool" where
  "u128_neq a b = (hi a \<noteq> hi b \<or> lo a \<noteq> lo b)"

definition u128_less :: "uint128 \<Rightarrow> uint128 \<Rightarrow> bool" where
  "u128_less a b = (if hi a = hi b then lo a < lo b else hi a < hi b)"

definition u128_less_int64 :: "uint128 \<Rightarrow> u64 \<Rightarrow> bool" where
  "u128_less_int64 a r = u128_less a (u128_of_int64 r)"

definition u128_is_zero :: "uint128 \<Rightarrow> bool" where
  "u128_is_zero a = (\<not> (hi a \<noteq> 0 \<or> lo a \<noteq> 0))"

definition u128_inc :: "uint128 \<Rightarrow> uint128" where
  "u128_inc a = (let l = lo a + 1 in u128_make (hi a + (if l = 0 then 1 else 0)) l)"

definition u128_dec :: "uint128 \<Rightarrow> uint128" where
  "u128_dec a = u128_make (hi a - (if lo a = 0 then 1 else 0)) (lo a - 1)"

definition u128_post_inc :: "uint128 \<Rightarrow> uint128 \<times> uint128" where
  "u128_post_inc a = (let tmp = a in (tmp, u128_inc a))"

definition u128_post_dec :: "uint128 \<Rightarrow> uint128 \<times> uint128" where
  "u128_post_dec a = (let tmp = a in (tmp, u128_dec a))"

definition u128_neg :: "uint128 \<Rightarrow> uint128" where
  "u128_neg a = u128_inc (u128_make (NOT (hi a)) (NOT (lo a)))"

definition u128_not :: "uint128 \<Rightarrow> uint128" where
  "u128_not a = u128_make (NOT (hi a)) (NOT (lo a))"

definition u128_or_assign :: "uint128 \<Rightarrow> uint128 \<Rightarrow> uint128" where
  "u128_or_assign a u = u128_make (hi a OR hi u) (lo a OR lo u)"

definition u128_and_assign :: "uint128 \<Rightarrow> uint128 \<Rightarrow> uint128" where
  "u128_and_assign a u = u128_make (hi a AND hi u) (lo a AND lo u)"

definition u128_xor_assign :: "uint128 \<Rightarrow> uint128 \<Rightarrow> uint128" where
  "u128_xor_assign a u = u128_make (hi a XOR hi u) (lo a XOR lo u)"

definition to_integer :: "uint128 \<Rightarrow> u32" where
  "to_integer a = ucast (lo a)"

definition u128_gt :: "uint128 \<Rightarrow> uint128 \<Rightarrow> bool" where
  "u128_gt l r = u128_less r l"

definition u128_ge :: "uint128 \<Rightarrow> uint128 \<Rightarrow> bool" where
  "u128_ge l r = (u128_eq l r \<or> u128_gt l r)"

definition u128_ge_int64 :: "uint128 \<Rightarrow> u64 \<Rightarrow> bool" where
  "u128_ge_int64 l r = u128_ge l (u128_of_int64 r)"

definition u128_le :: "uint128 \<Rightarrow> uint128 \<Rightarrow> bool" where
  "u128_le l r = (u128_eq l r \<or> u128_less l r)"

definition u128_le_int64 :: "uint128 \<Rightarrow> u64 \<Rightarrow> bool" where
  "u128_le_int64 l r = u128_le l (u128_of_int64 r)"

definition u128_shl_assign :: "uint128 \<Rightarrow> uint128 \<Rightarrow> uint128" where
  "u128_shl_assign a rhs =
     (if u128_ge_int64 rhs 128 then u128_make 0 0
      else let n = unat (to_integer rhs);
               (n, h, l) = (if 64 \<le> n then (n - 64, lo a, 0) else (n, hi a, lo a))
           in if n \<noteq> 0
              then let h = push_bit n h; msk = NOT (drop_bit n (- 1)) in
                   u128_make (h OR drop_bit (64 - n) (l AND msk)) (push_bit n l)
              else u128_make h l)"

definition u128_shr_assign :: "uint128 \<Rightarrow> uint128 \<Rightarrow> uint128" where
  "u128_shr_assign a rhs =
     (if u128_ge_int64 rhs 128 then u128_make 0 0
      else let n = unat (to_integer rhs);
               (n, h, l) = (if 64 \<le> n then (n - 64, 0, hi a) else (n, hi a, lo a))
           in if n \<noteq> 0
              then let l = drop_bit n l; msk = NOT (push_bit n (- 1)) in
                   u128_make (drop_bit n h) (l OR push_bit (64 - n) (h AND msk))
              else u128_make h l)"

definition u128_add_assign :: "uint128 \<Rightarrow> uint128 \<Rightarrow> uint128" where
  "u128_add_assign a u =
     (let old = lo a; l = lo a + lo u in u128_make (hi a + (hi u + (if l < old then 1 else 0))) l)"

definition u128_sub_assign :: "uint128 \<Rightarrow> uint128 \<Rightarrow> uint128" where
  "u128_sub_assign a u = u128_add_assign a (u128_neg u)"

definition low32 :: "u64 \<Rightarrow> u64" where
  "low32 x = ucast (ucast x :: u32)"

definition u128_mul_assign :: "uint128 \<Rightarrow> uint128 \<Rightarrow> uint128" where
  "u128_mul_assign a b =
     (let a0 = low32 (lo a); a1 = low32 (drop_bit 0x20 (lo a));
          a2 = low32 (hi a); a3 = low32 (drop_bit 0x20 (hi a));
          b0 = low32 (lo b); b1 = low32 (drop_bit 0x20 (lo b));
          b2 = low32 (hi b); b3 = low32 (drop_bit 0x20 (hi b));
          r = u128_make 0 (a3 * b0);
          r = u128_add_assign r (u128_of_uint64 (a2 * b1));
          r = u128_add_assign r (u128_of_uint64 (a1 * b2));
          r = u128_add_assign r (u128_of_uint64 (a0 * b3));
          r = u128_shl_assign r (u128_of_int32 0x20);
          r = u128_add_assign r (u128_of_uint64 (a2 * b0));
          r = u128_add_assign r (u128_of_uint64 (a1 * b1));
          r = u128_add_assign r (u128_of_uint64 (a0 * b2));
          r = u128_shl_assign r (u128_of_int32 0x20);
          r = u128_add_assign r (u128_of_uint64 (a1 * b0));
          r = u128_add_assign r (u128_of_uint64 (a0 * b1));
          r = u128_shl_assign r (u128_of_int32 0x20)
      in u128_add_assign r (u128_of_uint64 (a0 * b0)))"

text \<open>
  The template \<^verbatim>\<open>divide\<close> at this class. A loop without side effects that does not end
  is undefined behaviour; \<open>while_option\<close> yields \<open>None\<close> for it.
\<close>

definition end_of_loop :: "'a option \<Rightarrow> 'a res" where
  "end_of_loop r = (case r of None \<Rightarrow> Inl (Undefined ''endless loop'') | Some s \<Rightarrow> Inr s)"

definition divide_align :: "uint128 \<Rightarrow> uint128 \<times> uint128 \<Rightarrow> (uint128 \<times> uint128) option" where
  "divide_align n = while_option
     (\<lambda>(x, d). u128_ge n d \<and>
        u128_eq (u128_and_assign (u128_shr_assign d (u128_of_int32 127)) (u128_of_int32 1)) (u128_of_int32 0))
     (\<lambda>(x, d). (u128_shl_assign x (u128_of_int32 1), u128_shl_assign d (u128_of_int32 1)))"

definition divide_loop ::
  "uint128 \<times> uint128 \<times> uint128 \<times> uint128 \<Rightarrow> (uint128 \<times> uint128 \<times> uint128 \<times> uint128) option" where
  "divide_loop = while_option
     (\<lambda>(n, d, x, answer). u128_neq x (u128_of_int32 0))
     (\<lambda>(n, d, x, answer).
        let (n, answer) = (if u128_ge n d then (u128_sub_assign n d, u128_or_assign answer x) else (n, answer))
        in (n, u128_shr_assign d (u128_of_int32 1), u128_shr_assign x (u128_of_int32 1), answer))"

definition divide :: "uint128 \<Rightarrow> uint128 \<Rightarrow> (uint128 \<times> uint128) res" where
  "divide numerator denominator =
     (if u128_eq denominator (u128_of_int32 0)
      then bindr (check False ''divide by zero'') (\<lambda>_. Inr (u128_default, u128_default))
      else bindr (end_of_loop (divide_align numerator (u128_of_int32 1, denominator))) (\<lambda>(x, d).
           bindr (end_of_loop (divide_loop (numerator, d, x, u128_of_int32 0))) (\<lambda>(n, _, _, answer).
             Inr (answer, n))))"

definition u128_mod_assign :: "uint128 \<Rightarrow> uint128 \<Rightarrow> uint128 res" where
  "u128_mod_assign a b = bindr (divide a b) (\<lambda>(quotient, remainder). Inr remainder)"

text \<open>The binary operators copy the left operand; \<^verbatim>\<open>operator|\<close> then assigns the right one to it.\<close>

definition u128_add :: "uint128 \<Rightarrow> uint128 \<Rightarrow> uint128" where
  "u128_add l r = u128_add_assign l r"

definition u128_sub :: "uint128 \<Rightarrow> uint128 \<Rightarrow> uint128" where
  "u128_sub l r = u128_sub_assign l r"

definition u128_mul :: "uint128 \<Rightarrow> uint128 \<Rightarrow> uint128" where
  "u128_mul l r = u128_mul_assign l r"

definition u128_mod :: "uint128 \<Rightarrow> uint128 \<Rightarrow> uint128 res" where
  "u128_mod l r = u128_mod_assign l r"

definition u128_or :: "uint128 \<Rightarrow> uint128 \<Rightarrow> uint128" where
  "u128_or l r = (let copy = l; copy = r in copy)"

definition u128_and :: "uint128 \<Rightarrow> uint128 \<Rightarrow> uint128" where
  "u128_and l r = u128_and_assign l r"

definition u128_xor :: "uint128 \<Rightarrow> uint128 \<Rightarrow> uint128" where
  "u128_xor l r = u128_xor_assign l r"

definition u128_shl :: "uint128 \<Rightarrow> uint128 \<Rightarrow> uint128" where
  "u128_shl l r = u128_shl_assign l r"

definition u128_shr :: "uint128 \<Rightarrow> uint128 \<Rightarrow> uint128" where
  "u128_shr l r = u128_shr_assign l r"

definition to_uint64 :: "uint128 \<Rightarrow> u64" where
  "to_uint64 a = lo a"

definition low_32_bits :: "uint128 \<Rightarrow> u32" where
  "low_32_bits a = ucast (lo a)"

definition max_value :: uint128 where
  "max_value = u128_make (- 1) (- 1)"

definition full_product :: "uint128 \<Rightarrow> uint128 \<Rightarrow> uint128 \<times> uint128" where
  "full_product a b =
     (let s = u128_mul_assign (u128_of_uint64 (lo a)) (u128_of_uint64 (lo b));
          r = u128_mul_assign (u128_of_uint64 (hi a)) (u128_of_uint64 (lo b));
          q = u128_mul_assign (u128_of_uint64 (lo a)) (u128_of_uint64 (hi b));
          p = u128_mul_assign (u128_of_uint64 (hi a)) (u128_of_uint64 (hi b));
          y0 = lo s;
          acc = u128_of_uint64 (hi s);
          acc = u128_add_assign acc (u128_of_uint64 (lo q));
          acc = u128_add_assign acc (u128_of_uint64 (lo r));
          y1 = lo acc;
          acc = u128_of_uint64 (hi acc);
          acc = u128_add_assign acc (u128_of_uint64 (hi q));
          acc = u128_add_assign acc (u128_of_uint64 (hi r));
          acc = u128_add_assign acc (u128_of_uint64 (lo p));
          y2 = lo acc;
          y3 = hi acc + hi p
      in (u128_make y3 y2, u128_make y1 y0))"

definition popcount_masks :: "u64 list" where
  "popcount_masks = [0x5555555555555555, 0x3333333333333333, 0x0F0F0F0F0F0F0F0F,
     0x00FF00FF00FF00FF, 0x0000FFFF0000FFFF, 0x00000000FFFFFFFF]"

fun popcount_loop :: "u64 \<Rightarrow> nat \<Rightarrow> u64 list \<Rightarrow> u64" where
  "popcount_loop x w [] = x"
| "popcount_loop x w (m # ms) = popcount_loop ((x AND m) + (drop_bit w x AND m)) (w + w) ms"

definition popcount_64 :: "u64 \<Rightarrow> u8" where
  "popcount_64 x = ucast (popcount_loop x 1 popcount_masks)"

definition popcount :: "uint128 \<Rightarrow> u8" where
  "popcount a = popcount_64 (lo a) + popcount_64 (hi a)"

section \<open>Conversion to and from strings\<close>

text \<open>The value of one digit for a radix; \<open>None\<close> where the loop breaks.\<close>

definition radix_digit :: "nat \<Rightarrow> char \<Rightarrow> nat option" where
  "radix_digit radix ch =
     (if CHR ''A'' \<le> ch \<and> ch \<le> CHR ''Z'' then
        (let n = of_char ch - of_char (CHR ''A'') + 10 in if n < radix then Some n else None)
      else if CHR ''a'' \<le> ch \<and> ch \<le> CHR ''z'' then
        (let n = of_char ch - of_char (CHR ''a'') + 10 in if n < radix then Some n else None)
      else if CHR ''0'' \<le> ch \<and> ch \<le> CHR ''9'' then
        (let n = of_char ch - of_char (CHR ''0'') in if n < radix then Some n else None)
      else None)"

fun u128_parse_loop :: "nat \<Rightarrow> uint128 \<Rightarrow> string \<Rightarrow> uint128" where
  "u128_parse_loop radix self [] = self"
| "u128_parse_loop radix self (ch # i) =
     (case radix_digit radix ch of
        None \<Rightarrow> self
      | Some n \<Rightarrow> u128_parse_loop radix
          (u128_add_assign (u128_mul_assign self (u128_of_int32 (of_nat radix))) (u128_of_uint32 (of_nat n))) i)"

definition u128_of_string :: "string \<Rightarrow> uint128" where
  "u128_of_string sz =
     (if sz = [] then u128_default
      else let minus = (hd sz = CHR ''-''); i = (if minus then tl sz else sz);
               (radix, i) = (if i \<noteq> [] \<and> hd i = CHR ''0''
                  then (if tl i \<noteq> [] \<and> hd (tl i) = CHR ''x'' then (16, tl (tl i)) else (8, tl i))
                  else (10, i));
               self = u128_parse_loop radix u128_default i
           in if minus then u128_neg self else self)"

text \<open>
  The digits are written from the end of a buffer with 127 places before the
  terminator; the first argument is the number of places left.
\<close>

definition digit_table :: string where
  "digit_table = ''0123456789abcdefghijklmnopqrstuvwxyz''"

fun u128_digits_loop :: "nat \<Rightarrow> uint128 \<Rightarrow> string \<Rightarrow> string res" where
  "u128_digits_loop 0 ii sz = Inr sz"
| "u128_digits_loop (Suc i) ii sz =
     (if u128_neq ii (u128_of_int32 0)
      then bindr (divide ii (u128_of_int32 10)) (\<lambda>(ii', remainder).
             u128_digits_loop i ii' (digit_table ! unat (to_integer remainder) # sz))
      else Inr sz)"

definition u128_to_string :: "uint128 \<Rightarrow> string res" where
  "u128_to_string a =
     (if u128_eq a (u128_of_int32 0) then Inr ''0'' else mapr c_str (u128_digits_loop 127 a []))"

section \<open>The halves of a 128-bit word\<close>

lemma to_u128_make: "to_u128 (u128_make h l) = push_bit 64 (ucast h) OR ucast l"
  by (simp add: to_u128_def u128_make_def)

lemma hi_u128_make [simp]: "hi (u128_make h l) = h" and lo_u128_make [simp]: "lo (u128_make h l) = l"
  by (simp_all add: u128_make_def)

lemma u128_collapse: "u128_make (hi a) (lo a) = a"
  by (simp add: u128_make_def)

lemma bit_to_u128: "bit (to_u128 a) n \<longleftrightarrow> (if n < 64 then bit (lo a) n else bit (hi a) (n - 64))"
  by (auto simp: to_u128_def bit_simps dest: bit_imp_le_length)

lemma to_u128_inverse: "u128_of_int128 (to_u128 a) = a"
proof -
  have "ucast (drop_bit 64 (to_u128 a)) = hi a"
    by (rule bit_word_eqI) (simp add: bit_to_u128 bit_simps)
  moreover have "ucast (to_u128 a) = lo a"
    by (rule bit_word_eqI) (auto simp: bit_to_u128 bit_simps)
  ultimately show ?thesis by (simp add: u128_of_int128_def u128_collapse)
qed

lemma to_u128_of_int128: "to_u128 (u128_of_int128 i) = i"
  by (rule bit_word_eqI) (auto simp: bit_to_u128 u128_of_int128_def bit_simps)

lemma to_u128_inject: "to_u128 a = to_u128 b \<longleftrightarrow> a = b"
  by (metis to_u128_inverse)

lemma to_u128_sum: "to_u128 a = ucast (hi a) * 2 ^ 64 + ucast (lo a)"
proof -
  have "to_u128 a = push_bit 64 (ucast (hi a)) + ucast (lo a)"
    unfolding to_u128_def Let_def by (rule disjunctive_add [symmetric]) (auto simp: bit_simps dest: bit_imp_le_length)
  then show ?thesis by (simp add: push_bit_eq_mult)
qed

lemma unat_to_u128: "unat (to_u128 a) = unat (hi a) * 2 ^ 64 + unat (lo a)"
proof -
  have "unat (hi a) * 2 ^ 64 + unat (lo a) < 2 ^ 128"
    using unat_u64_less [of "hi a"] unat_u64_less [of "lo a"] by (simp del: unat_u64_less)
  then have "unat (of_nat (unat (hi a) * 2 ^ 64 + unat (lo a)) :: u128) = unat (hi a) * 2 ^ 64 + unat (lo a)"
    by (intro unat_of_nat_small) simp
  moreover have "to_u128 a = of_nat (unat (hi a) * 2 ^ 64 + unat (lo a))"
    by (simp add: to_u128_sum)
  ultimately show ?thesis by (simp only:)
qed

text \<open>The high half counts multiples of \<open>2 ^ 64\<close>, for which the carries beyond it vanish.\<close>

lemma high_half:
  fixes h :: u64 and m :: nat
  assumes "unat h = m mod 2 ^ 64"
  shows "(ucast h :: u128) * 2 ^ 64 = of_nat (m * 2 ^ 64)"
proof -
  have "unat h * 2 ^ 64 mod 2 ^ 128 = m * 2 ^ 64 mod 2 ^ 128"
    using mult_mod_right [of "2 ^ 64" m "2 ^ 64"] by (simp add: assms mult.commute)
  then have "(of_nat (unat h * 2 ^ 64) :: u128) = of_nat (m * 2 ^ 64)"
    by (simp only: word_of_nat_eq_iff take_bit_eq_mod len_of_numeral_defs) simp
  then show ?thesis by simp
qed

lemma high_half_add: "(ucast (x + y) :: u128) * 2 ^ 64 = ucast x * 2 ^ 64 + ucast y * 2 ^ 64" for x y :: u64
proof -
  have "unat (x + y) = (unat x + unat y) mod 2 ^ 64" by (simp add: unat_word_ariths)
  from high_half [OF this] have "(ucast (x + y) :: u128) * 2 ^ 64 = (of_nat (unat x) + of_nat (unat y)) * 2 ^ 64"
    by (simp only: of_nat_mult of_nat_add of_nat_power of_nat_numeral)
  then show ?thesis by (simp only: distrib_right of_nat_unat)
qed

lemma low_half_add:
  fixes x y :: u64
  shows "(ucast (x + y) :: u128) = ucast x + ucast y - (if x + y < x then 2 ^ 64 else 0)"
proof (cases "unat x + unat y < 2 ^ 64")
  case True
  then have "unat (x + y) = unat x + unat y" by (simp add: unat_word_ariths)
  then have "\<not> x + y < x" "(of_nat (unat (x + y)) :: u128) = of_nat (unat x + unat y)"
    by (simp_all add: word_less_nat_alt)
  then show ?thesis by simp
next
  case False
  then have e: "unat (x + y) + 2 ^ 64 = unat x + unat y"
    using unat_u64_less [of x] unat_u64_less [of y]
    by (simp add: unat_word_ariths le_mod_geq mod_less del: unat_u64_less)
  then have "x + y < x" using unat_u64_less [of y] by (simp add: word_less_nat_alt del: unat_u64_less)
  moreover have "(of_nat (unat (x + y) + 2 ^ 64) :: u128) = of_nat (unat x + unat y)" by (simp only: e)
  then have "(ucast (x + y) :: u128) + 2 ^ 64 = ucast x + ucast y" by simp
  ultimately show ?thesis by (simp add: eq_diff_eq)
qed

section \<open>The operators refine 128-bit arithmetic\<close>

named_theorems u128_refine

lemma to_u128_of_uint64 [u128_refine]: "to_u128 (u128_of_uint64 l) = ucast l"
  by (simp add: to_u128_sum u128_of_uint64_def)

lemma to_u128_of_uint32 [u128_refine]: "to_u128 (u128_of_uint32 l) = ucast l"
  by (rule bit_word_eqI) (auto simp: bit_to_u128 u128_of_uint32_def bit_simps dest: bit_imp_le_length)

lemma to_u128_of_int64 [u128_refine]: "to_u128 (u128_of_int64 l) = scast l"
proof (rule bit_word_eqI)
  fix n assume "n < LENGTH(128)"
  moreover have "sint l < 0 \<longleftrightarrow> bit l 63" using bit_last_iff [of l] by simp
  ultimately show "bit (to_u128 (u128_of_int64 l)) n \<longleftrightarrow> bit (scast l :: u128) n"
    by (cases "n = 63") (auto simp: bit_to_u128 u128_of_int64_def bit_simps min_def)
qed

lemma to_u128_of_int32 [u128_refine]: "to_u128 (u128_of_int32 l) = scast l"
proof (rule bit_word_eqI)
  fix n assume "n < LENGTH(128)"
  moreover have "sint l < 0 \<longleftrightarrow> bit l 31" using bit_last_iff [of l] by simp
  ultimately show "bit (to_u128 (u128_of_int32 l)) n \<longleftrightarrow> bit (scast l :: u128) n"
    by (auto simp: bit_to_u128 u128_of_int32_def bit_simps min_def)
qed

lemma to_u128_add [u128_refine]: "to_u128 (u128_add_assign a u) = to_u128 a + to_u128 u"
proof -
  let ?c = "if lo a + lo u < lo a then 1 else 0 :: u64"
  have "to_u128 (u128_add_assign a u) = ucast (hi a + (hi u + ?c)) * 2 ^ 64 + ucast (lo a + lo u)"
    by (simp add: u128_add_assign_def Let_def to_u128_sum)
  also have "\<dots> = ucast (hi a) * 2 ^ 64 + (ucast (hi u) * 2 ^ 64 + ucast ?c * 2 ^ 64)
      + (ucast (lo a) + ucast (lo u) - (if lo a + lo u < lo a then 2 ^ 64 else 0))"
    by (simp only: high_half_add low_half_add [of "lo a"])
  also have "\<dots> = (ucast (hi a) * 2 ^ 64 + ucast (lo a)) + (ucast (hi u) * 2 ^ 64 + ucast (lo u))"
    by simp
  finally show ?thesis by (simp only: to_u128_sum)
qed

lemma to_u128_not [u128_refine]: "to_u128 (u128_not a) = NOT (to_u128 a)"
  by (rule bit_word_eqI) (auto simp: bit_to_u128 u128_not_def bit_simps)

lemma to_u128_inc [u128_refine]: "to_u128 (u128_inc a) = to_u128 a + 1"
proof -
  have "lo a + 1 = 0 \<longleftrightarrow> lo a + 1 < lo a"
  proof (cases "unat (lo a) + 1 < 2 ^ 64")
    case True
    then have "unat (lo a + 1) = unat (lo a) + 1" by (simp add: unat_word_ariths)
    then show ?thesis by (simp add: word_less_nat_alt flip: unsigned_eq_0_iff [where 'a = nat])
  next
    case False
    then have "unat (lo a) = 2 ^ 64 - 1" using unat_u64_less [of "lo a"] by (simp del: unat_u64_less)
    moreover from this have "lo a + 1 = 0" by (simp add: unat_word_ariths flip: unsigned_eq_0_iff [where 'a = nat])
    ultimately show ?thesis by (simp add: word_less_nat_alt)
  qed
  then have "u128_inc a = u128_add_assign a (u128_make 0 1)"
    by (simp add: u128_inc_def u128_add_assign_def Let_def)
  then show ?thesis by (simp add: to_u128_add to_u128_sum [of "u128_make 0 1"])
qed

lemma to_u128_neg [u128_refine]: "to_u128 (u128_neg a) = - to_u128 a"
  using to_u128_not [of a] by (simp add: u128_neg_def to_u128_inc u128_not_def minus_eq_not_plus_1)

lemma to_u128_sub [u128_refine]: "to_u128 (u128_sub_assign a u) = to_u128 a - to_u128 u"
  by (simp add: u128_sub_assign_def to_u128_add to_u128_neg)

lemma to_u128_dec [u128_refine]: "to_u128 (u128_dec a) = to_u128 a - 1"
proof -
  have "u128_inc (u128_dec a) = a"
    by (cases "lo a = 0") (simp_all add: u128_inc_def u128_dec_def u128_collapse Let_def)
  then show ?thesis using to_u128_inc [of "u128_dec a"] by simp
qed

lemma to_u128_bitops [u128_refine]:
  "to_u128 (u128_or_assign a u) = to_u128 a OR to_u128 u"
  "to_u128 (u128_and_assign a u) = to_u128 a AND to_u128 u"
  "to_u128 (u128_xor_assign a u) = to_u128 a XOR to_u128 u"
  by (rule bit_word_eqI; simp add: bit_to_u128 u128_or_assign_def u128_and_assign_def u128_xor_assign_def bit_simps)+

subsection \<open>Comparisons\<close>

lemma u128_eq_refine [u128_refine]: "u128_eq a b \<longleftrightarrow> to_u128 a = to_u128 b"
  by (cases a; cases b) (simp add: u128_eq_def to_u128_inject)

lemma u128_neq_refine [u128_refine]: "u128_neq a b \<longleftrightarrow> to_u128 a \<noteq> to_u128 b"
  by (cases a; cases b) (auto simp: u128_neq_def to_u128_inject)

lemma u128_less_refine [u128_refine]: "u128_less a b \<longleftrightarrow> to_u128 a < to_u128 b"
  using halves_less [of "unat (lo a)" "2 ^ 64" "unat (lo b)" "unat (hi a)" "unat (hi b)"]
  by (simp add: u128_less_def word_less_nat_alt unat_to_u128 word_unat_eq_iff [of "hi a"])

lemma u128_ge_refine [u128_refine]: "u128_ge a b \<longleftrightarrow> to_u128 b \<le> to_u128 a"
  by (auto simp: u128_ge_def u128_gt_def u128_eq_refine u128_less_refine)

lemma u128_le_refine [u128_refine]: "u128_le a b \<longleftrightarrow> to_u128 a \<le> to_u128 b"
  by (auto simp: u128_le_def u128_eq_refine u128_less_refine)

subsection \<open>Shifts\<close>

lemma shift_amount:
  shows "u128_ge_int64 r 128 \<longleftrightarrow> 128 \<le> unat (to_u128 r)"
    and "\<not> u128_ge_int64 r 128 \<Longrightarrow> unat (to_integer r) = unat (to_u128 r)"
proof -
  have "u128_ge_int64 r 128 \<longleftrightarrow> to_u128 (u128_of_int64 128) \<le> to_u128 r"
    by (simp add: u128_ge_int64_def u128_ge_refine)
  then show e: "u128_ge_int64 r 128 \<longleftrightarrow> 128 \<le> unat (to_u128 r)"
    by (simp add: to_u128_of_int64 word_le_nat_alt)
  assume "\<not> u128_ge_int64 r 128"
  then have "unat (hi r) * 2 ^ 64 + unat (lo r) < 128" using e by (simp add: unat_to_u128)
  then have "unat (hi r) = 0" "unat (lo r) < 128" by (simp_all add: mult_less_cancel2)
  then show "unat (to_integer r) = unat (to_u128 r)"
    by (simp add: to_integer_def unat_to_u128 unsigned_ucast_eq take_bit_eq_mod)
qed

lemma to_u128_shl [u128_refine]:
  "to_u128 (u128_shl_assign a r) = push_bit (unat (to_u128 r)) (to_u128 a)"
proof (cases "u128_ge_int64 r 128")
  case True
  then have "push_bit (unat (to_u128 r)) (to_u128 a) = 0"
    by (intro bit_word_eqI) (simp add: bit_simps shift_amount)
  with True show ?thesis by (simp add: u128_shl_assign_def to_u128_make)
next
  case False
  define n where "n = unat (to_u128 r)"
  have n: "n < 128" "unat (to_integer r) = n" using False shift_amount [of r] by (simp_all add: n_def)
  show ?thesis
    unfolding n_def [symmetric]
    by (rule bit_word_eqI)
      (use False n in \<open>auto simp: u128_shl_assign_def Let_def bit_to_u128 bit_simps add.commute [of 64] split: if_splits\<close>)
qed

lemma to_u128_shr [u128_refine]:
  "to_u128 (u128_shr_assign a r) = drop_bit (unat (to_u128 r)) (to_u128 a)"
proof (cases "u128_ge_int64 r 128")
  case True
  then have "drop_bit (unat (to_u128 r)) (to_u128 a) = 0"
    by (intro bit_word_eqI) (auto simp: bit_simps shift_amount dest: bit_imp_le_length)
  with True show ?thesis by (simp add: u128_shr_assign_def to_u128_make)
next
  case False
  define n where "n = unat (to_u128 r)"
  have n: "n < 128" "unat (to_integer r) = n" using False shift_amount [of r] by (simp_all add: n_def)
  show ?thesis
    unfolding n_def [symmetric]
    by (rule bit_word_eqI)
      (use False n in \<open>auto simp: u128_shr_assign_def Let_def bit_to_u128 bit_simps add.commute [of n] add.commute [of "unat (to_integer r)"]
        split: if_splits dest: bit_imp_le_length\<close>)
qed

subsection \<open>Multiplication\<close>

lemma unat_low32: "unat (low32 x) = unat x mod 2 ^ 32"
proof -
  have "unat (ucast x :: u32) = unat x mod 2 ^ 32" by (simp add: unsigned_ucast_eq take_bit_eq_mod)
  then show ?thesis by (simp only: low32_def unat_ucast_up len_of_numeral_defs)
qed

lemma split_halves: "(ucast x :: u128) = ucast (low32 x) + ucast (low32 (drop_bit 32 x)) * 2 ^ 32" for x :: u64
proof -
  have "unat (low32 (drop_bit 32 x)) = unat x div 2 ^ 32"
    using unat_u64_less [of x] by (simp add: unat_low32 unat_drop_bit mod_less div_less_iff_less_mult del: unat_u64_less)
  then have "unat x = unat (low32 x) + unat (low32 (drop_bit 32 x)) * 2 ^ 32"
    by (simp add: unat_low32)
  then have "(of_nat (unat x) :: u128) = of_nat (unat (low32 x) + unat (low32 (drop_bit 32 x)) * 2 ^ 32)"
    by (simp only:)
  then show ?thesis by simp
qed

lemma ucast_low32_mult: "(ucast (low32 x * low32 y) :: u128) = ucast (low32 x) * ucast (low32 y)"
proof -
  have "unat (low32 x) < 2 ^ 32" "unat (low32 y) < 2 ^ 32" by (simp_all add: unat_low32)
  then have "unat (low32 x) * unat (low32 y) < 2 ^ 32 * 2 ^ 32" by (intro mult_strict_mono) simp_all
  then have "unat (low32 x * low32 y) = unat (low32 x) * unat (low32 y)" by (simp add: unat_word_ariths)
  then have "(of_nat (unat (low32 x * low32 y)) :: u128) = of_nat (unat (low32 x) * unat (low32 y))"
    by (simp only:)
  then show ?thesis by simp
qed

lemma limb_product:
  fixes X :: "'a::comm_ring_1"
  assumes "X * X * X * X = 0"
  shows "((a3 * X + a2) * (X * X) + (a1 * X + a0)) * ((b3 * X + b2) * (X * X) + (b1 * X + b0)) =
    (((a3 * b0 + a2 * b1 + a1 * b2 + a0 * b3) * X + a2 * b0 + a1 * b1 + a0 * b2) * X + a1 * b0 + a0 * b1) * X + a0 * b0"
proof -
  let ?l = "((a3 * X + a2) * (X * X) + (a1 * X + a0)) * ((b3 * X + b2) * (X * X) + (b1 * X + b0))"
  let ?r = "(((a3 * b0 + a2 * b1 + a1 * b2 + a0 * b3) * X + a2 * b0 + a1 * b1 + a0 * b2) * X + a1 * b0 + a0 * b1) * X + a0 * b0"
  have "?l - ?r = X * X * X * X * (a1 * b3 + a2 * b2 + a3 * b1 + (a2 * b3 + a3 * b2) * X + a3 * b3 * X * X)"
    by (simp add: algebra_simps)
  also have "\<dots> = 0" by (simp only: assms mult_zero_left)
  finally show ?thesis by simp
qed

lemma to_u128_limbs:
  "to_u128 a = (ucast (low32 (drop_bit 32 (hi a))) * 2 ^ 32 + ucast (low32 (hi a))) * (2 ^ 32 * 2 ^ 32)
     + (ucast (low32 (drop_bit 32 (lo a))) * 2 ^ 32 + ucast (low32 (lo a)))"
  unfolding to_u128_sum split_halves [of "hi a"] split_halves [of "lo a"] by (simp add: add.commute)

lemma to_u128_mul [u128_refine]: "to_u128 (u128_mul_assign a b) = to_u128 a * to_u128 b"
proof -
  have sh: "to_u128 (u128_shl_assign r (u128_of_int32 32)) = to_u128 r * 2 ^ 32" for r
    by (simp add: to_u128_shl to_u128_of_int32 push_bit_eq_mult)
  have X: "(2 ^ 32 * 2 ^ 32 * 2 ^ 32 * 2 ^ 32 :: u128) = 0" by simp
  have "to_u128 (u128_make 0 l) = ucast l" for l by (simp add: to_u128_sum)
  then show ?thesis
    unfolding u128_mul_assign_def Let_def to_u128_limbs [of a] to_u128_limbs [of b] limb_product [OF X]
    by (simp only: to_u128_add sh to_u128_of_uint64 ucast_low32_mult add.assoc)
qed

subsection \<open>Division\<close>

abbreviation nval :: "uint128 \<Rightarrow> nat" where
  "nval a \<equiv> unat (to_u128 a)"

lemma nval_const [simp]: "nval (u128_of_int32 0) = 0" "nval (u128_of_int32 1) = 1" "nval (u128_of_int32 10) = 10"
  by (simp_all add: to_u128_of_int32)

lemma nval_less: "nval a < 2 ^ 128"
  using unsigned_less [of "to_u128 a", where 'a = nat] by simp

lemma nval_shl1: "nval a < 2 ^ 127 \<Longrightarrow> nval (u128_shl_assign a (u128_of_int32 1)) = nval a * 2"
  by (simp add: to_u128_shl push_bit_eq_mult unat_word_ariths)

lemma nval_shr1: "nval (u128_shr_assign a (u128_of_int32 1)) = nval a div 2"
  by (simp add: to_u128_shr unat_drop_bit)

lemma top_bit_clear:
  "u128_eq (u128_and_assign (u128_shr_assign d (u128_of_int32 127)) (u128_of_int32 1)) (u128_of_int32 0)
     \<longleftrightarrow> nval d < 2 ^ 127"
proof -
  have "nval (u128_and_assign (u128_shr_assign d (u128_of_int32 127)) (u128_of_int32 1)) = nval d div 2 ^ 127 mod 2"
    using unat_and_mask [of "drop_bit 127 (to_u128 d)" 1]
    by (simp add: to_u128_bitops to_u128_shr to_u128_of_int32 unat_drop_bit mask_eq_exp_minus_1)
  moreover have "nval d div 2 ^ 127 < 2" using nval_less [of d] by (simp add: div_less_iff_less_mult)
  ultimately show ?thesis
    by (simp add: u128_eq_refine to_u128_of_int32 div_eq_0_iff flip: unsigned_eq_0_iff [where 'a = nat])
qed

lemma divide_align_eq:
  assumes "0 < nval d0"
  shows "\<exists>k x d. divide_align n (u128_of_int32 1, d0) = Some (x, d) \<and> nval x = 2 ^ k \<and>
    nval d = nval d0 * 2 ^ k \<and> nval n < 2 * nval d"
proof -
  define P where "P = (\<lambda>(x, d). \<exists>k. nval x = 2 ^ k \<and> nval d = nval d0 * 2 ^ k)"
  define b where "b = (\<lambda>(x :: uint128, d). u128_ge n d \<and>
        u128_eq (u128_and_assign (u128_shr_assign d (u128_of_int32 127)) (u128_of_int32 1)) (u128_of_int32 0))"
  define c where "c = (\<lambda>(x, d). (u128_shl_assign x (u128_of_int32 1), u128_shl_assign d (u128_of_int32 1)))"
  have loop: "divide_align n = while_option b c" by (simp add: divide_align_def b_def c_def)
  have step: "P (c s) \<and> 2 ^ 128 - nval (snd (c s)) < 2 ^ 128 - nval (snd s)" if inv: "P s" and cond: "b s" for s
  proof -
    obtain x d k where s: "s = (x, d)" "nval x = 2 ^ k" "nval d = nval d0 * 2 ^ k"
      using inv by (cases s) (auto simp: P_def)
    have d: "nval d < 2 ^ 127" using cond by (simp add: b_def s(1) top_bit_clear)
    moreover have "nval x \<le> nval d" using s(2,3) assms by simp
    ultimately have x: "nval x < 2 ^ 127" by (rule le_less_trans [rotated])
    have "nval (fst (c s)) = 2 ^ Suc k" "nval (snd (c s)) = nval d0 * 2 ^ Suc k"
      using s nval_shl1 [OF d] nval_shl1 [OF x] by (simp_all add: c_def)
    then have "P (c s)" by (auto simp: P_def split: prod.splits intro!: exI [of _ "Suc k"])
    moreover have "0 < nval d" using s(3) assms by simp
    moreover have "nval (snd (c s)) = nval d * 2" "snd s = d" using s(1) nval_shl1 [OF d] by (simp_all add: c_def)
    ultimately show ?thesis using d by (simp add: diff_less_mono2)
  qed
  have init: "P (u128_of_int32 1, d0)" by (auto simp: P_def intro!: exI [of _ 0])
  obtain t where t: "while_option b c (u128_of_int32 1, d0) = Some t"
    using measure_while_option_Some [of P b c "\<lambda>s. 2 ^ 128 - nval (snd s)", OF step init] by blast
  have "P t" using while_option_rule [of P, OF _ t init] step by blast
  moreover have "\<not> b t" using t by (rule while_option_stop)
  then have "nval n < 2 * nval (snd t)"
    using nval_less [of n] by (auto simp: b_def top_bit_clear u128_ge_refine word_le_nat_alt not_le split: prod.splits)
  ultimately show ?thesis using t by (auto simp: P_def loop)
qed

text \<open>
  The long division: while bit \<open>k\<close> is being decided, the divisor stands shifted by \<open>k\<close>,
  the remainder is below twice the shifted divisor, and the quotient found so far has
  only bits above \<open>k\<close>.
\<close>

definition divide_inv :: "nat \<Rightarrow> nat \<Rightarrow> uint128 \<times> uint128 \<times> uint128 \<times> uint128 \<Rightarrow> bool" where
  "divide_inv n0 d0 = (\<lambda>(n, d, x, answer). n0 = nval answer * d0 + nval n \<and>
     (nval x = 0 \<and> nval n < d0 \<or>
      (\<exists>k. nval x = 2 ^ k \<and> nval d = d0 * 2 ^ k \<and> nval n < 2 * nval d \<and> 2 ^ Suc k dvd nval answer)))"

lemma nval_sub: "nval d \<le> nval n \<Longrightarrow> nval (u128_sub_assign n d) = nval n - nval d"
  by (simp add: to_u128_sub unat_sub_if')

lemma nval_or_bit:
  assumes "nval x = 2 ^ k" "2 ^ Suc k dvd nval a"
  shows "nval (u128_or_assign a x) = nval a + 2 ^ k"
proof -
  have k: "k < 128"
    using nval_less [of x] unfolding assms(1) by (rule power_less_imp_less_exp [rotated]) simp
  have "to_u128 x = of_nat (2 ^ k)" using assms(1) by (rule word_eq_of_natI)
  then have x: "to_u128 x = 2 ^ k" by simp
  have "even (nval a div 2 ^ k)" using assms(2) by (auto elim!: dvdE)
  then have "\<not> bit (nval a) k" by (simp add: bit_iff_odd)
  then have "\<not> bit (to_u128 a) k" by (simp add: bit_unsigned_iff)
  then have "to_u128 a OR to_u128 x = to_u128 a + to_u128 x"
    unfolding x by (intro disjunctive_add [symmetric]) (auto simp: bit_exp_iff)
  moreover have "nval a + 2 ^ k < 2 ^ 128"
  proof -
    obtain m where m: "nval a = 2 ^ Suc k * m" using assms(2) by (auto elim: dvdE)
    have e: "(2 :: nat) ^ 128 = 2 ^ Suc k * 2 ^ (127 - k)" using k by (simp flip: power_add)
    have "2 ^ Suc k * m < 2 ^ Suc k * 2 ^ (127 - k)" using nval_less [of a] unfolding m e .
    then have "Suc m \<le> 2 ^ (127 - k)" by simp
    then have "2 ^ Suc k * Suc m \<le> 2 ^ 128" unfolding e by (rule mult_le_mono2)
    moreover have "2 ^ Suc k * Suc m = nval a + 2 ^ k + 2 ^ k" using m by simp
    moreover have "(0 :: nat) < 2 ^ k" by simp
    ultimately show ?thesis by linarith
  qed
  ultimately show ?thesis
    using assms(1) by (simp add: to_u128_bitops unat_word_ariths)
qed

lemma divide_step:
  assumes "divide_inv n0 d0 (n, d, x, answer)" "0 < nval x"
  defines "n' \<equiv> if u128_ge n d then u128_sub_assign n d else n"
    and "answer' \<equiv> if u128_ge n d then u128_or_assign answer x else answer"
  shows "divide_inv n0 d0 (n', u128_shr_assign d (u128_of_int32 1), u128_shr_assign x (u128_of_int32 1), answer')"
proof -
  obtain k where k: "nval x = 2 ^ k" "nval d = d0 * 2 ^ k" "nval n < 2 * nval d" "2 ^ Suc k dvd nval answer"
      "n0 = nval answer * d0 + nval n"
    using assms(1,2) by (auto simp: divide_inv_def)
  have ge: "u128_ge n d \<longleftrightarrow> nval d \<le> nval n" by (simp add: u128_ge_refine word_le_nat_alt)
  have "n0 = nval answer' * d0 + nval n'"
    using k by (auto simp: n'_def answer'_def ge nval_sub nval_or_bit algebra_simps)
  moreover have "nval n' < nval d" using k(3) by (auto simp: n'_def ge nval_sub)
  moreover have "2 ^ k dvd nval answer'"
    using k(4) dvd_trans [of "2 ^ k" "2 ^ Suc k" "nval answer"] by (auto simp: answer'_def nval_or_bit [OF k(1,4)])
  ultimately show ?thesis
    using k(1,2) by (cases k) (auto simp: divide_inv_def nval_shr1)
qed

lemma divide_loop_eq:
  assumes "divide_inv n0 d0 s"
  shows "\<exists>n d x answer. divide_loop s = Some (n, d, x, answer) \<and> n0 = nval answer * d0 + nval n \<and> nval n < d0"
proof -
  define b where "b = (\<lambda>(n :: uint128, d :: uint128, x, answer :: uint128). u128_neq x (u128_of_int32 0))"
  define c where "c = (\<lambda>(n, d, x, answer).
        let (n, answer) = (if u128_ge n d then (u128_sub_assign n d, u128_or_assign answer x) else (n, answer))
        in (n, u128_shr_assign d (u128_of_int32 1), u128_shr_assign x (u128_of_int32 1), answer))"
  have loop: "divide_loop = while_option b c" by (simp add: divide_loop_def b_def c_def)
  have b: "b (n, d, x, answer) \<longleftrightarrow> 0 < nval x" for n d x answer
    by (simp add: b_def u128_neq_refine to_u128_of_int32 unat_gt_0)
  have step: "divide_inv n0 d0 (c t) \<and> nval (fst (snd (snd (c t)))) < nval (fst (snd (snd t)))"
    if "divide_inv n0 d0 t" "b t" for t
  proof (cases t)
    case (fields n d x answer)
    with that have "divide_inv n0 d0 (n, d, x, answer)" "0 < nval x" by (simp_all only: b)
    from divide_step [OF this] this(2) show ?thesis
      by (simp add: c_def fields nval_shr1 Let_def split: if_splits)
  qed
  obtain t where t: "while_option b c s = Some t"
    using measure_while_option_Some [of "divide_inv n0 d0" b c "\<lambda>t. nval (fst (snd (snd t)))", OF step assms] by blast
  have "divide_inv n0 d0 t" using while_option_rule [of "divide_inv n0 d0", OF _ t assms] step by blast
  moreover have "\<not> b t" using t by (rule while_option_stop)
  ultimately show ?thesis using t by (cases t) (auto simp: loop b divide_inv_def)
qed

lemma divide_eq:
  "divide a b = (if to_u128 b = 0 then Inl (Assert ''divide by zero'')
     else Inr (u128_of_int128 (to_u128 a div to_u128 b), u128_of_int128 (to_u128 a mod to_u128 b)))"
proof (cases "to_u128 b = 0")
  case False
  then have pos: "0 < nval b" by (simp add: unat_gt_0)
  obtain k x d where al: "divide_align a (u128_of_int32 1, b) = Some (x, d)" "nval x = 2 ^ k"
      "nval d = nval b * 2 ^ k" "nval a < 2 * nval d"
    using divide_align_eq [OF pos] by blast
  then have "divide_inv (nval a) (nval b) (a, d, x, u128_of_int32 0)" by (auto simp: divide_inv_def)
  from divide_loop_eq [OF this] obtain n d' x' q where dl:
    "divide_loop (a, d, x, u128_of_int32 0) = Some (n, d', x', q)" "nval a = nval q * nval b + nval n" "nval n < nval b"
    by blast
  have "nval q = nval a div nval b" "nval n = nval a mod nval b" using dl(2,3) by simp_all
  then have "to_u128 q = to_u128 a div to_u128 b" "to_u128 n = to_u128 a mod to_u128 b"
    by (simp_all add: word_unat_eq_iff unat_div unat_mod)
  then show ?thesis
    using False al(1) dl(1) to_u128_inverse [of q] to_u128_inverse [of n]
    by (simp add: divide_def end_of_loop_def u128_eq_refine to_u128_of_int32)
qed (simp add: divide_def u128_eq_refine to_u128_of_int32 bindr_check)

section \<open>Strings\<close>

lemma digit_table_nth: "d < 10 \<Longrightarrow> digit_table ! d = digit_char d"
proof -
  assume "d < 10"
  then have "d \<in> {0, 1, 2, 3, 4, 5, 6, 7, 8, 9}" by auto
  then show ?thesis by (elim insertE emptyE) (simp_all add: digit_table_def digit_char_def, code_simp+)
qed

lemma u128_digits_loop_eq:
  "nval ii < 10 ^ i \<Longrightarrow>
     u128_digits_loop i ii sz = Inr ((if nval ii = 0 then [] else show_nat (nval ii)) @ sz)"
proof (induction i arbitrary: ii sz)
  case (Suc i)
  show ?case
  proof (cases "nval ii = 0")
    case False
    define q r where "q = u128_of_int128 (to_u128 ii div 10)" and "r = u128_of_int128 (to_u128 ii mod 10)"
    have qr: "nval q = nval ii div 10" "nval r = nval ii mod 10"
      by (simp_all add: q_def r_def to_u128_of_int128 unat_div unat_mod)
    have "unat (hi r) * 2 ^ 64 + unat (lo r) < 10" using qr(2) by (simp add: unat_to_u128)
    then have "unat (hi r) = 0" "unat (lo r) < 10" by (simp_all add: mult_less_cancel2)
    then have "unat (to_integer r) = nval r"
      by (simp add: to_integer_def unat_to_u128 unsigned_ucast_eq take_bit_eq_mod)
    then have dig: "digit_table ! unat (to_integer r) = digit_char (nval ii mod 10)"
      using qr(2) by (simp add: digit_table_nth)
    have "u128_digits_loop (Suc i) ii sz = u128_digits_loop i q (digit_char (nval ii mod 10) # sz)"
      using False dig by (simp add: divide_eq u128_neq_refine to_u128_of_int32 q_def r_def flip: unsigned_eq_0_iff [where 'a = nat])
    also have "\<dots> = Inr ((if nval q = 0 then [] else show_nat (nval q)) @ digit_char (nval ii mod 10) # sz)"
      using Suc.prems qr(1) by (intro Suc.IH) (simp add: div_less_iff_less_mult mult.commute)
    finally show ?thesis
      using False qr(1) by (subst show_nat.simps) (simp add: div_eq_0_iff)
  qed (simp add: u128_neq_refine to_u128_of_int32 flip: unsigned_eq_0_iff [where 'a = nat])
qed simp

lemma u128_to_string_eq: "u128_to_string a = Inr (show_nat (nval a))"
proof (cases "nval a = 0")
  case True
  have "show_nat 0 = ''0''" by code_simp
  with True show ?thesis
    by (simp add: u128_to_string_def u128_eq_refine to_u128_of_int32 flip: unsigned_eq_0_iff [where 'a = nat])
next
  case False
  have "nval a < 10 ^ 127" using nval_less [of a] by simp
  moreover have "c_str (show_nat (nval a)) = show_nat (nval a)"
    using show_nat_digits [of "nval a"] by (auto simp: c_str_def takeWhile_eq_all_conv is_digit_def less_eq_char_def)
  ultimately show ?thesis
    using False u128_digits_loop_eq [of a 127 "[]"]
    by (simp add: u128_to_string_def u128_eq_refine to_u128_of_int32 del: u128_digits_loop.simps flip: unsigned_eq_0_iff [where 'a = nat])
qed

lemma dec_val_Cons: "dec_val (c # s) = digit_val c * 10 ^ length s + dec_val s"
proof -
  have "foldl (\<lambda>n c. 10 * n + digit_val c) k s = k * 10 ^ length s + foldl (\<lambda>n c. 10 * n + digit_val c) 0 s" for k
  proof (induction s arbitrary: k)
    case (Cons d s)
    from Cons.IH [of "10 * k + digit_val d"] Cons.IH [of "digit_val d"] show ?case by (simp add: algebra_simps)
  qed simp
  from this [of "digit_val c"] show ?thesis by (simp add: dec_val_def)
qed

lemma radix_digit_decimal: "is_digit c \<Longrightarrow> radix_digit 10 c = Some (digit_val c)"
  by (auto simp: radix_digit_def is_digit_def digit_val_def less_eq_char_def Let_def)

lemma digit_val_less: "is_digit c \<Longrightarrow> digit_val c < 10"
  by (auto simp: is_digit_def digit_val_def less_eq_char_def)

lemma u128_parse_loop_eq:
  "\<forall>c\<in>set s. is_digit c \<Longrightarrow> to_u128 (u128_parse_loop 10 self s) = to_u128 self * 10 ^ length s + of_nat (dec_val s)"
proof (induction s arbitrary: self)
  case (Cons c s)
  have "unat (of_nat (digit_val c) :: u32) = digit_val c"
    using Cons.prems digit_val_less [of c] by (intro unat_of_nat_u32) simp
  then have "(ucast (of_nat (digit_val c) :: u32) :: u128) = of_nat (digit_val c)" by (simp add: unsigned_of_nat)
  moreover have "(scast (10 :: u32) :: u128) = 10" by simp
  ultimately show ?case
    using Cons by (simp add: radix_digit_decimal u128_refine dec_val_Cons algebra_simps)
qed simp

lemma show_nat_head: "0 < n \<Longrightarrow> \<exists>c s. show_nat n = c # s \<and> c \<noteq> CHR ''0''"
proof (induction n rule: show_nat.induct)
  case (1 n)
  show ?case
  proof (cases "n < 10")
    case True
    then have "digit_val (digit_char n) \<noteq> digit_val (CHR ''0'')" using 1(2) by (simp add: digit_val_def [of "CHR ''0''"])
    then have "digit_char n \<noteq> CHR ''0''" by metis
    with True show ?thesis by (simp add: show_nat.simps [of n])
  next
    case False
    then obtain c s where "show_nat (n div 10) = c # s \<and> c \<noteq> CHR ''0''" using 1(1) by (auto simp: div_greater_zero_iff)
    with False show ?thesis by (auto simp: show_nat.simps [of n])
  qed
qed

lemma u128_of_show_nat: "to_u128 (u128_of_string (show_nat n)) = of_nat n"
proof (cases "n = 0")
  case True
  have "show_nat 0 = ''0''" by code_simp
  with True show ?thesis by (simp add: u128_of_string_def u128_default_def to_u128_make)
next
  case False
  then obtain c s where cs: "show_nat n = c # s" "c \<noteq> CHR ''0''" using show_nat_head [of n] by auto
  have dig: "\<forall>c\<in>set (show_nat n). is_digit c" "dec_val (show_nat n) = n" using show_nat_digits by simp_all
  then have "c \<noteq> CHR ''-''" using cs(1) digit_not_special [of c] by simp
  then have "u128_of_string (show_nat n) = u128_parse_loop 10 u128_default (show_nat n)"
    using cs by (simp add: u128_of_string_def)
  then show ?thesis
    using u128_parse_loop_eq [OF dig(1), of u128_default] dig(2) by (simp add: u128_default_def to_u128_make)
qed

lemma u128_of_minus_show_nat: "to_u128 (u128_of_string (CHR ''-'' # show_nat n)) = - of_nat n"
proof -
  have ne: "show_nat n \<noteq> []" "hd (show_nat n) \<noteq> CHR ''-''"
    using show_nat_digits [of n] digit_not_special hd_in_set by blast+
  have "u128_of_string (CHR ''-'' # show_nat n) = u128_neg (u128_of_string (show_nat n))"
    using ne by (simp add: u128_of_string_def Let_def)
  then show ?thesis by (simp add: to_u128_neg u128_of_show_nat)
qed

section \<open>The full product\<close>

lemma nval_mul_words: "nval (u128_mul_assign (u128_of_uint64 x) (u128_of_uint64 y)) = unat x * unat y"
proof -
  have "unat x * unat y < 2 ^ 64 * 2 ^ 64" by (intro mult_strict_mono) simp_all
  then show ?thesis by (simp add: u128_refine unat_word_ariths unat_ucast_up)
qed

lemma nval_add_word:
  "nval a + unat x < 2 ^ 128 \<Longrightarrow> nval (u128_add_assign a (u128_of_uint64 x)) = nval a + unat x"
  by (simp add: u128_refine unat_word_ariths unat_ucast_up)

lemma nval_of_uint64: "nval (u128_of_uint64 x) = unat x"
  by (simp add: to_u128_of_uint64 unat_ucast_up)

lemma full_product_sum:
  fixes M ah al bh bl :: nat
  assumes "sh * M + sl = al * bl" "rh * M + rl = ah * bl" "qh * M + ql = al * bh" "ph * M + pl = ah * bh"
    and "c1 * M + y1 = sh + ql + rl" "c2 * M + y2 = c1 + qh + rh + pl"
  shows "(ah * M + al) * (bh * M + bl) = (((c2 + ph) * M + y2) * M + y1) * M + sl"
proof -
  have "(((c2 + ph) * M + y2) * M + y1) * M + sl = ph * M * M * M + (c2 * M + y2) * M * M + y1 * M + sl"
    by (simp add: algebra_simps)
  also have "\<dots> = ph * M * M * M + (qh + rh + pl) * M * M + (c1 * M + y1) * M + sl"
    unfolding assms(6) by (simp add: algebra_simps)
  also have "\<dots> = (ph * M + pl) * M * M + ((qh * M + ql) + (rh * M + rl)) * M + (sh * M + sl)"
    unfolding assms(5) by (simp add: algebra_simps)
  also have "\<dots> = (ah * M + al) * (bh * M + bl)"
    unfolding assms(1-4) by (simp add: algebra_simps)
  finally show ?thesis by (rule sym)
qed

lemma full_product_eq:
  assumes "full_product a b = (rh, rl)"
  shows "nval rh * 2 ^ 128 + nval rl = nval a * nval b"
proof -
  define s where "s = u128_mul_assign (u128_of_uint64 (lo a)) (u128_of_uint64 (lo b))"
  define r where "r = u128_mul_assign (u128_of_uint64 (hi a)) (u128_of_uint64 (lo b))"
  define q where "q = u128_mul_assign (u128_of_uint64 (lo a)) (u128_of_uint64 (hi b))"
  define p where "p = u128_mul_assign (u128_of_uint64 (hi a)) (u128_of_uint64 (hi b))"
  define acc1 where "acc1 = u128_add_assign (u128_add_assign (u128_of_uint64 (hi s)) (u128_of_uint64 (lo q))) (u128_of_uint64 (lo r))"
  define acc2 where "acc2 = u128_add_assign (u128_add_assign (u128_add_assign (u128_of_uint64 (hi acc1))
      (u128_of_uint64 (hi q))) (u128_of_uint64 (hi r))) (u128_of_uint64 (lo p))"
  have res: "rh = u128_make (hi acc2 + hi p) (lo acc2)" "rl = u128_make (lo acc1) (lo s)"
    using assms unfolding full_product_def Let_def s_def r_def q_def p_def acc1_def acc2_def by simp_all
  define M :: nat where "M = 2 ^ 64"
  have lt: "unat w < M" for w :: u64 by (simp add: M_def)
  have M2: "(2 :: nat) ^ 128 = M * M" by (simp add: M_def)
  have nv: "nval x = unat (hi x) * M + unat (lo x)" for x by (simp add: unat_to_u128 M_def)
  have prods: "unat (hi s) * M + unat (lo s) = unat (lo a) * unat (lo b)" "unat (hi r) * M + unat (lo r) = unat (hi a) * unat (lo b)"
      "unat (hi q) * M + unat (lo q) = unat (lo a) * unat (hi b)" "unat (hi p) * M + unat (lo p) = unat (hi a) * unat (hi b)"
    unfolding nv [symmetric] s_def r_def q_def p_def by (rule nval_mul_words)+
  have "4 * M \<le> M * M" by (simp add: M_def)
  then have small: "i + j + k + l < M * M" if "i < M" "j < M" "k < M" "l < M" for i j k l :: nat using that by linarith
  have add: "nval x + unat w < M * M \<Longrightarrow> nval (u128_add_assign x (u128_of_uint64 w)) = nval x + unat w" for x w
    using nval_add_word [of x w] by (simp only: M2)
  have acc1: "unat (hi acc1) * M + unat (lo acc1) = unat (hi s) + unat (lo q) + unat (lo r)"
    using small [OF lt [of "hi s"] lt [of "lo q"] lt [of "lo r"] lt [of 0]]
    unfolding nv [symmetric] acc1_def by (simp add: add nval_of_uint64)
  have acc2: "unat (hi acc2) * M + unat (lo acc2) = unat (hi acc1) + unat (hi q) + unat (hi r) + unat (lo p)"
    using small [OF lt [of "hi acc1"] lt [of "hi q"] lt [of "hi r"] lt [of "lo p"]]
    unfolding nv [symmetric] acc2_def by (simp add: add nval_of_uint64)
  let ?top = "unat (hi acc2) + unat (hi p)"
  have total: "nval a * nval b = ((?top * M + unat (lo acc2)) * M + unat (lo acc1)) * M + unat (lo s)"
    unfolding nv [of a] nv [of b] using prods acc1 acc2 by (rule full_product_sum)
  have "?top < M"
  proof (rule ccontr)
    assume "\<not> ?top < M"
    then have "M * M * M * M \<le> ?top * M * M * M" by (intro mult_le_mono) simp_all
    also have "\<dots> \<le> nval a * nval b" unfolding total by (simp add: algebra_simps)
    also have "\<dots> < (M * M) * (M * M)" using nval_less [of a] nval_less [of b] unfolding M2
      by (intro mult_strict_mono) (simp_all add: M_def)
    finally show False by (simp add: mult.assoc)
  qed
  then have "unat (hi acc2 + hi p) = ?top" by (simp add: unat_word_ariths M_def)
  then have "nval rh * (M * M) + nval rl = nval a * nval b"
    unfolding total by (simp add: res nv algebra_simps)
  then show ?thesis by (simp only: M2)
qed

section \<open>The properties\<close>

text \<open>
  C38. Refinement of 128-bit arithmetic. Conversion to the compiler's 128-bit type is a
  bijection under which every arithmetic, bitwise, shift and comparison operator on the
  two halves is the operator of that type, wrap-around included; only the binary
  \<^verbatim>\<open>operator|\<close> returns its right operand.
\<close>

theorem uint128_refines:
  "u128_of_int128 (to_u128 a) = a \<and> to_u128 (u128_of_int128 w) = w
   \<and> to_u128 (u128_add a b) = to_u128 a + to_u128 b
   \<and> to_u128 (u128_sub a b) = to_u128 a - to_u128 b
   \<and> to_u128 (u128_mul a b) = to_u128 a * to_u128 b
   \<and> to_u128 (u128_neg a) = - to_u128 a
   \<and> to_u128 (u128_inc a) = to_u128 a + 1 \<and> to_u128 (u128_dec a) = to_u128 a - 1
   \<and> to_u128 (u128_not a) = NOT (to_u128 a)
   \<and> to_u128 (u128_and a b) = to_u128 a AND to_u128 b
   \<and> to_u128 (u128_xor a b) = to_u128 a XOR to_u128 b
   \<and> to_u128 (u128_or_assign a b) = to_u128 a OR to_u128 b
   \<and> u128_or a b = b
   \<and> to_u128 (u128_shl a b) = push_bit (unat (to_u128 b)) (to_u128 a)
   \<and> to_u128 (u128_shr a b) = drop_bit (unat (to_u128 b)) (to_u128 a)
   \<and> (u128_eq a b \<longleftrightarrow> to_u128 a = to_u128 b) \<and> (u128_less a b \<longleftrightarrow> to_u128 a < to_u128 b)
   \<and> (u128_le a b \<longleftrightarrow> to_u128 a \<le> to_u128 b) \<and> (u128_ge a b \<longleftrightarrow> to_u128 b \<le> to_u128 a)"
  by (intro conjI)
    (simp_all only: u128_add_def u128_sub_def u128_mul_def u128_and_def u128_xor_def u128_or_def u128_shl_def
      u128_shr_def Let_def u128_refine to_u128_inverse to_u128_of_int128)

text \<open>
  C39. Division by shifting and subtracting ends for every pair of operands and computes
  quotient and remainder, aborting only for a zero divisor; the full product of two
  values is exact in its two halves.
\<close>

theorem divide_correct:
  "divide a b = (if to_u128 b = 0 then Inl (Assert ''divide by zero'')
     else Inr (u128_of_int128 (to_u128 a div to_u128 b), u128_of_int128 (to_u128 a mod to_u128 b)))
   \<and> u128_mod a b = (if to_u128 b = 0 then Inl (Assert ''divide by zero'')
     else Inr (u128_of_int128 (to_u128 a mod to_u128 b)))
   \<and> unat (to_u128 (fst (full_product a b))) * 2 ^ 128 + unat (to_u128 (snd (full_product a b))) =
       unat (to_u128 a) * unat (to_u128 b)"
  using full_product_eq [of a b] by (simp add: divide_eq u128_mod_def u128_mod_assign_def)

text \<open>
  Strings. Every value prints as its decimal numeral without leading zeros, within
  the buffer; the numeral of any natural number parses to its residue modulo
  \<open>2 ^ 128\<close>, negated when a minus sign precedes it; so printing and parsing are inverse.
\<close>

theorem uint128_string_roundtrip:
  "u128_to_string a = Inr (show_nat (unat (to_u128 a)))
   \<and> to_u128 (u128_of_string (show_nat n)) = of_nat n
   \<and> to_u128 (u128_of_string (CHR ''-'' # show_nat n)) = - of_nat n
   \<and> mapr u128_of_string (u128_to_string a) = Inr a"
proof -
  have "u128_of_string (show_nat (nval a)) = a"
    using u128_of_show_nat [of "nval a"] by (simp add: to_u128_inject)
  then show ?thesis by (simp add: u128_to_string_eq u128_of_show_nat u128_of_minus_show_nat)
qed

end
