(* ===== verification/Fixed_Bytes.thy ===== *)
theory Fixed_Bytes
  imports Containers
begin

text \<open>
  Fixed size byte arrays packed into 128-bit words, most significant byte first:
  \<^verbatim>\<open>libraries/wasmlib/core/fixed_bytes.hpp\<close>. The template parameter \<^verbatim>\<open>Size\<close> is the
  argument \<open>Size\<close> of the operations, the size of the template parameter \<^verbatim>\<open>Word\<close> in
  bytes the argument \<open>ws\<close>, and the words of a sequence are given already widened. The
  constructors leave the words they do not write as they were, so the previous
  contents of the object are an argument too.
\<close>

section \<open>The class\<close>

datatype fixed_bytes = Fixed_bytes (fb_data: "u128 list")

definition num_words :: "nat \<Rightarrow> nat" where
  "num_words Size = (Size + 16 - 1) div 16"

definition padded_bytes :: "nat \<Rightarrow> nat" where
  "padded_bytes Size = num_words Size * 16 - Size"

definition store_word :: "u128 list \<Rightarrow> nat \<Rightarrow> u128 \<Rightarrow> u128 list res" where
  "store_word data itr w =
     (if itr < length data then Inr (data[itr := w]) else Inl (Undefined ''write past the end of an array''))"

fun word_sequence_loop ::
  "nat \<Rightarrow> u128 list \<Rightarrow> nat \<Rightarrow> u128 \<Rightarrow> nat \<Rightarrow> u128 list \<Rightarrow> (nat \<times> u128 \<times> nat \<times> u128 list) res" where
  "word_sequence_loop ws [] itr temp_word sub_words_left data = Inr (itr, temp_word, sub_words_left, data)"
| "word_sequence_loop ws (w # rest) itr temp_word sub_words_left data =
     (if 1 < sub_words_left
      then word_sequence_loop ws rest itr (push_bit (8 * ws) (temp_word OR w)) (sub_words_left - 1) data
      else bindr (check (sub_words_left = 1) ''unexpected error in fixed_bytes constructor'') (\<lambda>_.
           bindr (store_word data itr (temp_word OR w)) (\<lambda>data'.
             word_sequence_loop ws rest (itr + 1) 0 (16 div ws) data')))"

definition word_sequence_end :: "nat \<Rightarrow> nat \<times> u128 \<times> nat \<times> u128 list \<Rightarrow> u128 list res" where
  "word_sequence_end ws = (\<lambda>(itr, temp_word, sub_words_left, data).
     if sub_words_left \<noteq> 16 div ws
     then store_word data itr (if 1 < sub_words_left then push_bit (8 * (sub_words_left - 1)) temp_word else temp_word)
     else Inr data)"

definition set_from_word_sequence :: "nat \<Rightarrow> u128 list \<Rightarrow> u128 list \<Rightarrow> u128 list res" where
  "set_from_word_sequence ws arr data =
     bindr (word_sequence_loop ws arr 0 0 (16 div ws) data) (word_sequence_end ws)"

definition fixed_bytes_default :: "nat \<Rightarrow> fixed_bytes" where
  "fixed_bytes_default Size = Fixed_bytes (replicate (num_words Size) 0)"

definition fixed_bytes_of_words :: "u128 list \<Rightarrow> fixed_bytes" where
  "fixed_bytes_of_words arr = Fixed_bytes arr"

definition fixed_bytes_of_array :: "fixed_bytes \<Rightarrow> byte list \<Rightarrow> fixed_bytes res" where
  "fixed_bytes_of_array self arr = mapr Fixed_bytes (set_from_word_sequence 1 (map ucast arr) (fb_data self))"

definition make_from_word_sequence :: "nat \<Rightarrow> nat \<Rightarrow> u128 list \<Rightarrow> fixed_bytes res" where
  "make_from_word_sequence Size ws words =
     mapr Fixed_bytes (set_from_word_sequence ws words (fb_data (fixed_bytes_default Size)))"

text \<open>The bytes of one word, written from the last to the first.\<close>

fun sub_words_loop :: "nat \<Rightarrow> u128 \<Rightarrow> byte list \<Rightarrow> byte list" where
  "sub_words_loop 0 temp_word arr = arr"
| "sub_words_loop (Suc left) temp_word arr =
     sub_words_loop left (drop_bit 8 temp_word) (ucast (temp_word AND 0xFF) # arr)"

fun extract_loop :: "nat \<Rightarrow> u128 list \<Rightarrow> byte list" where
  "extract_loop Size [] = []"
| "extract_loop Size (w # data) =
     (if data = [] then sub_words_loop (16 - padded_bytes Size) (drop_bit (8 * padded_bytes Size) w) []
      else sub_words_loop 16 w [] @ extract_loop Size data)"

definition extract_as_byte_array :: "nat \<Rightarrow> fixed_bytes \<Rightarrow> byte list" where
  "extract_as_byte_array Size d = extract_loop Size (fb_data d)"

text \<open>\<^verbatim>\<open>std::lexicographical_compare\<close>.\<close>

fun lex_less :: "'a::linorder list \<Rightarrow> 'a list \<Rightarrow> bool" where
  "lex_less xs [] = False"
| "lex_less [] (y # ys) = True"
| "lex_less (x # xs) (y # ys) = (if x < y then True else if y < x then False else lex_less xs ys)"

definition fb_eq :: "fixed_bytes \<Rightarrow> fixed_bytes \<Rightarrow> bool" where
  "fb_eq c1 c2 = (fb_data c1 = fb_data c2)"

definition fb_neq :: "fixed_bytes \<Rightarrow> fixed_bytes \<Rightarrow> bool" where
  "fb_neq c1 c2 = (fb_data c1 \<noteq> fb_data c2)"

definition fb_greater :: "fixed_bytes \<Rightarrow> fixed_bytes \<Rightarrow> bool" where
  "fb_greater c1 c2 = lex_less (fb_data c2) (fb_data c1)"

definition fb_less :: "fixed_bytes \<Rightarrow> fixed_bytes \<Rightarrow> bool" where
  "fb_less c1 c2 = lex_less (fb_data c1) (fb_data c2)"

definition fb_geq :: "fixed_bytes \<Rightarrow> fixed_bytes \<Rightarrow> bool" where
  "fb_geq c1 c2 = (\<not> lex_less (fb_data c1) (fb_data c2))"

definition fb_leq :: "fixed_bytes \<Rightarrow> fixed_bytes \<Rightarrow> bool" where
  "fb_leq c1 c2 = (\<not> lex_less (fb_data c2) (fb_data c1))"

definition ser_fixed_bytes :: "nat \<Rightarrow> fixed_bytes \<Rightarrow> sink \<Rightarrow> sink res" where
  "ser_fixed_bytes Size d ds = sink_write (extract_as_byte_array Size d) ds"

definition deser_fixed_bytes :: "nat \<Rightarrow> fixed_bytes \<Rightarrow> datastream \<Rightarrow> (fixed_bytes \<times> datastream) res" where
  "deser_fixed_bytes Size d ds =
     bindr (ds_read (of_nat Size) ds) (\<lambda>(arr, ds'). bindr (fixed_bytes_of_array d arr) (\<lambda>d'. Inr (d', ds')))"

section \<open>Big-endian words\<close>

fun be_val :: "byte list \<Rightarrow> nat" where
  "be_val [] = 0"
| "be_val (b # bs) = unat b * 256 ^ length bs + be_val bs"

definition be_word :: "byte list \<Rightarrow> u128" where
  "be_word bs = of_nat (be_val bs)"

lemma be_val_less: "be_val bs < 256 ^ length bs"
proof (induction bs)
  case (Cons b bs)
  have "unat b * 256 ^ length bs + be_val bs < (unat b + 1) * 256 ^ length bs" using Cons by simp
  also have "unat b + 1 \<le> 256" using byte_less_256 [of b] by linarith
  then have "(unat b + 1) * 256 ^ length bs \<le> 256 * 256 ^ length bs" by (rule mult_right_mono) simp
  finally show ?case by simp
qed simp

lemma be_val_snoc: "be_val (bs @ [b]) = be_val bs * 256 + unat b"
  by (induction bs) (simp_all add: algebra_simps)

lemma be_val_zeros: "be_val (bs @ replicate n 0) = be_val bs * 256 ^ n"
proof (induction n)
  case (Suc n)
  then show ?case using be_val_snoc [of "bs @ replicate n 0" 0] by (simp add: replicate_append_same algebra_simps)
qed simp

lemma unat_be_word: "length bs \<le> 16 \<Longrightarrow> unat (be_word bs) = be_val bs"
proof -
  assume "length bs \<le> 16"
  then have "(256 :: nat) ^ length bs \<le> 256 ^ 16" by (intro power_increasing) simp_all
  with be_val_less [of bs] have "be_val bs < 2 ^ 128" by simp
  then show ?thesis by (simp add: be_word_def unat_of_nat_small)
qed

lemma be_word_Nil [simp]: "be_word [] = 0"
  by (simp add: be_word_def)

lemma push_be_word: "push_bit (8 * n) (be_word bs) = be_word (bs @ replicate n 0)"
  by (simp add: be_word_def be_val_zeros push_bit_eq_mult power_mult)

lemma push_be_word_or: "push_bit 8 (be_word bs) OR ucast b = be_word (bs @ [b])"
proof -
  have "push_bit 8 (be_word bs) OR ucast b = push_bit 8 (be_word bs) + (ucast b :: u128)"
    by (rule disjunctive_add [symmetric]) (auto simp: bit_simps dest: bit_imp_le_length)
  then show ?thesis by (simp add: be_word_def be_val_snoc push_bit_eq_mult)
qed

section \<open>Filling the words\<close>

function chunks :: "byte list \<Rightarrow> u128 list" where
  "chunks bs = (if bs = [] then [] else be_word (take 16 bs @ replicate (16 - length bs) 0) # chunks (drop 16 bs))"
  by pat_completeness auto
termination
  by (relation "measure length") auto

declare chunks.simps [simp del]

lemma chunks_Nil [simp]: "chunks [] = []"
  by (simp add: chunks.simps)

lemma length_chunks: "length (chunks bs) = (length bs + 15) div 16"
proof (induction bs rule: chunks.induct)
  case (1 bs)
  show ?case
  proof (cases "bs = []")
    case False
    then have "length (chunks bs) = Suc ((length bs - 16 + 15) div 16)"
      using 1 by (simp add: chunks.simps [of bs])
    also have "\<dots> = (length bs + 15) div 16"
      using False by (cases "16 \<le> length bs") (auto simp: le_div_geq Suc_le_eq intro: Suc_leI)
    finally show ?thesis .
  qed simp
qed

text \<open>Bytes within one word are collected in the temporary.\<close>

lemma word_sequence_partial:
  assumes "length done + length bs < 16"
  shows "word_sequence_loop 1 (map ucast bs @ rest) itr (push_bit 8 (be_word done)) (16 - length done) data =
    word_sequence_loop 1 rest itr (push_bit 8 (be_word (done @ bs))) (16 - length done - length bs) data"
  using assms
proof (induction bs arbitrary: "done")
  case (Cons b bs)
  then have "1 < 16 - length done" by simp
  with Cons show ?case
    using Cons.IH [of "done @ [b]"] by (simp add: push_be_word_or)
qed simp

lemma word_sequence_full:
  assumes "length bs = 16" "itr < length data"
  shows "word_sequence_loop 1 (map ucast bs @ rest) itr 0 16 data =
    word_sequence_loop 1 rest (itr + 1) 0 16 (data[itr := be_word bs])"
proof -
  define cs c where "cs = butlast bs" and "c = last bs"
  have bs: "bs = cs @ [c]" "length cs = 15"
    using assms(1) by (auto simp: cs_def c_def append_butlast_last_id simp flip: length_greater_0_conv)
  have "word_sequence_loop 1 (map ucast bs @ rest) itr 0 16 data =
      word_sequence_loop 1 (ucast c # rest) itr (push_bit 8 (be_word cs)) 1 data"
    using word_sequence_partial [of "[]" cs "ucast c # rest" itr data] bs by simp
  then show ?thesis using assms(2) bs by (simp add: store_word_def bindr_check push_be_word_or)
qed

lemma shift_rest:
  "0 < n \<Longrightarrow> (if 1 < n then push_bit (8 * (n - 1)) (push_bit 8 (be_word bs)) else push_bit 8 (be_word bs)) =
     be_word (bs @ replicate n 0)"
proof (cases "1 < n")
  case True
  then have "8 * (n - 1) + 8 = 8 * n" by (simp add: algebra_simps)
  with True show ?thesis using push_be_word [of n bs] by (simp add: push_bit_push_bit)
next
  case False
  moreover assume "0 < n"
  ultimately have "n = 1" by simp
  then show ?thesis using push_be_word [of 1 bs] by simp
qed

lemma word_sequence_eq:
  assumes "itr + length (chunks bs) \<le> length data"
  shows "bindr (word_sequence_loop 1 (map ucast bs) itr 0 16 data) (word_sequence_end 1) =
    Inr (take itr data @ chunks bs @ drop (itr + length (chunks bs)) data)"
  using assms
proof (induction bs arbitrary: itr data rule: chunks.induct)
  case (1 bs)
  show ?case
  proof (cases "length bs < 16")
    case True
    show ?thesis
    proof (cases "bs = []")
      case False
      then have ch: "chunks bs = [be_word (bs @ replicate (16 - length bs) 0)]" using True by (simp add: chunks.simps [of bs])
      then have itr: "itr < length data" using 1(2) by simp
      have "word_sequence_loop 1 (map ucast bs) itr 0 16 data = Inr (itr, push_bit 8 (be_word bs), 16 - length bs, data)"
        using word_sequence_partial [of "[]" bs "[]" itr data] True by simp
      moreover have "(if 1 < 16 - length bs then push_bit (8 * (16 - length bs - 1)) (push_bit 8 (be_word bs))
          else push_bit 8 (be_word bs)) = be_word (bs @ replicate (16 - length bs) 0)"
        using True by (intro shift_rest) simp
      moreover have "16 - length bs \<noteq> 16" using False True by (cases bs) simp_all
      ultimately show ?thesis
        using False itr ch by (simp add: word_sequence_end_def store_word_def upd_conv_take_nth_drop)
    qed (simp add: word_sequence_end_def)
  next
    case False
    then have ch: "chunks bs = be_word (take 16 bs) # chunks (drop 16 bs)" and ne: "bs \<noteq> []" by (auto simp: chunks.simps [of bs])
    then have itr: "itr < length data" using 1(2) by simp
    have "word_sequence_loop 1 (map ucast bs) itr 0 16 data =
        word_sequence_loop 1 (map ucast (drop 16 bs)) (itr + 1) 0 16 (data[itr := be_word (take 16 bs)])"
      using word_sequence_full [of "take 16 bs" itr data "map ucast (drop 16 bs)"] False itr
      by (simp flip: map_append)
    then show ?thesis
      using 1(1) [OF ne, of "itr + 1" "data[itr := be_word (take 16 bs)]"] 1(2) ch itr
      by (simp add: take_update_swap take_Suc_conv_app_nth list_update_append)
  qed
qed

lemma set_from_bytes:
  assumes "length data = num_words (length arr)"
  shows "set_from_word_sequence 1 (map ucast arr) data = Inr (chunks arr)"
  using word_sequence_eq [of 0 arr data] assms
  by (simp add: set_from_word_sequence_def length_chunks num_words_def)

section \<open>Reading the words\<close>

lemma sub_words_loop_eq:
  "length bs \<le> 16 \<Longrightarrow> sub_words_loop (length bs) (be_word bs) acc = bs @ acc"
proof (induction bs arbitrary: acc rule: rev_induct)
  case (snoc b bs)
  let ?w = "be_word (bs @ [b])"
  have w: "unat ?w = be_val bs * 256 + unat b" "unat (be_word bs) = be_val bs"
    using snoc.prems by (simp_all add: unat_be_word be_val_snoc)
  have "unat (drop_bit 8 ?w) = be_val bs" by (simp add: unat_drop_bit w(1) div_add1_eq)
  then have "drop_bit 8 ?w = be_word bs" using w(2) by (simp add: word_unat_eq_iff)
  moreover have "unat (?w AND mask 8) = unat b" unfolding unat_and_mask w(1) by simp
  then have "unat (ucast (?w AND 0xFF) :: byte) = unat b"
    by (simp add: mask_eq_exp_minus_1 unsigned_ucast_eq take_bit_eq_mod)
  then have "ucast (?w AND 0xFF) = b" by (simp add: word_unat_eq_iff)
  ultimately show ?case using snoc by simp
qed simp

lemma extract_chunks:
  assumes "arr \<noteq> []" "padded_bytes Size = (16 - length arr mod 16) mod 16"
  shows "extract_loop Size (chunks arr) = arr"
  using assms
proof (induction arr rule: chunks.induct)
  case (1 bs)
  show ?case
  proof (cases "length bs \<le> 16")
    case True
    let ?p = "16 - length bs"
    have p: "padded_bytes Size = ?p"
      using 1(2,3) True by (cases "length bs = 16") (auto simp flip: length_greater_0_conv)
    have "unat (drop_bit (8 * ?p) (be_word (bs @ replicate ?p 0))) = be_val bs"
      using True by (simp add: unat_drop_bit unat_be_word be_val_zeros power_mult)
    then have "drop_bit (8 * ?p) (be_word (bs @ replicate ?p 0)) = be_word bs"
      using True by (simp add: word_unat_eq_iff unat_be_word)
    then show ?thesis
      using True 1(2) p sub_words_loop_eq [of bs "[]"] by (simp add: chunks.simps [of bs])
  next
    case False
    have "16 - (length bs - 16) mod 16 = 16 - length bs mod 16" using False by (simp add: le_mod_geq [of 16 "length bs"])
    then have "extract_loop Size (chunks (drop 16 bs)) = drop 16 bs" using 1 False by simp
    moreover have "chunks (drop 16 bs) \<noteq> []" using False by (simp add: chunks.simps [of "drop 16 bs"])
    moreover have "sub_words_loop 16 (be_word (take 16 bs)) [] = take 16 bs"
      using False sub_words_loop_eq [of "take 16 bs" "[]"] by simp
    ultimately show ?thesis using False 1(2) by (simp add: chunks.simps [of bs])
  qed
qed

lemma padded_bytes_mod: "padded_bytes n = (16 - n mod 16) mod 16"
proof (cases "n mod 16 = 0")
  case True
  then obtain q where "n = 16 * q" by auto
  then show ?thesis by (simp add: padded_bytes_def num_words_def)
next
  case False
  define q r where "q = n div 16" and "r = n mod 16"
  have n: "n = 16 * q + r" "0 < r" "r < 16" using False by (simp_all add: q_def r_def)
  have "num_words n = q + 1" unfolding num_words_def using n by (intro div_nat_eqI) simp_all
  moreover have "(16 - n mod 16) mod 16 = 16 - r" using n by (simp add: r_def)
  ultimately show ?thesis using n by (simp add: padded_bytes_def)
qed

section \<open>The order\<close>

lemma lex_less_append:
  "length xs = length ys \<Longrightarrow> lex_less (xs @ us) (ys @ vs) \<longleftrightarrow> lex_less xs ys \<or> xs = ys \<and> lex_less us vs"
  by (induction xs ys rule: list_induct2) (auto dest: less_asym)

lemma lex_less_irrefl: "\<not> lex_less xs xs"
  by (induction xs) simp_all

lemma be_val_lex: "length xs = length ys \<Longrightarrow> be_val xs < be_val ys \<longleftrightarrow> lex_less xs ys"
proof (induction xs ys rule: list_induct2)
  case (Cons x xs y ys)
  then show ?case
    using halves_less [of "be_val xs" "256 ^ length xs" "be_val ys" "unat x" "unat y"]
      be_val_less [of xs] be_val_less [of ys]
    by (auto simp: word_less_nat_alt word_unat_eq_iff)
qed simp

lemma be_val_inj: "length xs = length ys \<Longrightarrow> be_val xs = be_val ys \<longleftrightarrow> xs = ys"
proof (induction xs ys rule: list_induct2)
  case (Cons x xs y ys)
  then show ?case
    using halves_less [of "be_val xs" "256 ^ length xs" "be_val ys" "unat x" "unat y"]
      halves_less [of "be_val ys" "256 ^ length xs" "be_val xs" "unat y" "unat x"]
      be_val_less [of xs] be_val_less [of ys]
    by (cases "unat x" "unat y" rule: linorder_cases; cases "be_val xs" "be_val ys" rule: linorder_cases)
      (auto simp: word_unat_eq_iff)
qed simp

lemma chunks_lex: "length xs = length ys \<Longrightarrow> lex_less (chunks xs) (chunks ys) \<longleftrightarrow> lex_less xs ys"
proof (induction xs arbitrary: ys rule: chunks.induct)
  case (1 xs)
  show ?case
  proof (cases "xs = []")
    case False
    let ?c = "\<lambda>zs. take 16 zs @ replicate (16 - length zs) (0 :: byte)"
    have len: "length (?c xs) = 16" "length (?c ys) = 16" using 1(2) by simp_all
    have ne: "ys \<noteq> []" using False 1(2) by auto
    have w: "be_word (?c xs) < be_word (?c ys) \<longleftrightarrow> lex_less (?c xs) (?c ys)"
        "be_word (?c ys) < be_word (?c xs) \<longleftrightarrow> lex_less (?c ys) (?c xs)"
      using len by (simp_all add: word_less_nat_alt unat_be_word be_val_lex)
    have e: "be_word (?c xs) = be_word (?c ys) \<longleftrightarrow> ?c xs = ?c ys"
      using len by (simp add: word_unat_eq_iff unat_be_word be_val_inj)
    have t: "length (take 16 xs) = length (take 16 ys)" using 1(2) by simp
    have "lex_less (chunks xs) (chunks ys) \<longleftrightarrow>
        lex_less (?c xs) (?c ys) \<or> ?c xs = ?c ys \<and> lex_less (drop 16 xs) (drop 16 ys)"
      using False ne w e 1(1) [of "drop 16 ys"] 1(2) by (auto simp: chunks.simps [of xs] chunks.simps [of ys])
    also have "\<dots> \<longleftrightarrow> lex_less (take 16 xs @ drop 16 xs) (take 16 ys @ drop 16 ys)"
      using 1(2) lex_less_append [OF t, of "drop 16 xs" "drop 16 ys"] lex_less_irrefl
        lex_less_append [OF t, of "replicate (16 - length xs) 0" "replicate (16 - length ys) 0"] by auto
    finally show ?thesis by simp
  qed (use 1 in simp)
qed

section \<open>The properties\<close>

text \<open>The objects a constructor from bytes can produce.\<close>

definition fb_ok :: "nat \<Rightarrow> fixed_bytes \<Rightarrow> bool" where
  "fb_ok Size d = (\<exists>arr. length arr = Size \<and> d = Fixed_bytes (chunks arr))"

lemma fixed_bytes_of_array_eq:
  "length (fb_data self) = num_words (length arr) \<Longrightarrow> fixed_bytes_of_array self arr = Inr (Fixed_bytes (chunks arr))"
  unfolding fixed_bytes_of_array_def by (simp only: set_from_bytes mapr_simps)

lemma extract_array:
  "0 < Size \<Longrightarrow> length arr = Size \<Longrightarrow> extract_as_byte_array Size (Fixed_bytes (chunks arr)) = arr"
  unfolding extract_as_byte_array_def fixed_bytes.sel
  by (rule extract_chunks) (auto simp: padded_bytes_mod)

lemma codec_fixed_bytes:
  assumes "0 < Size" "Size < 2 ^ 31"
  shows "codec (extract_as_byte_array Size) (fb_ok Size) (ser_fixed_bytes Size)
    (deser_fixed_bytes Size) (fixed_bytes_default Size)"
proof
  fix s v
  assume "fb_ok Size v"
  show "ser_fixed_bytes Size v s = sink_write (extract_as_byte_array Size v) s" by (simp add: ser_fixed_bytes_def)
next
  fix ds v rest
  assume ds: "wf_ds ds" "fb_ok Size v" "ds_avail ds = extract_as_byte_array Size v @ rest"
  then obtain arr where arr: "length arr = Size" "v = Fixed_bytes (chunks arr)" by (auto simp: fb_ok_def)
  then have "extract_as_byte_array Size v = arr" using extract_array [OF assms(1)] by simp
  moreover have "unat (of_nat Size :: u32) = Size" using assms(2) by (intro unat_of_nat_u32) simp
  ultimately show "deser_fixed_bytes Size (fixed_bytes_default Size) ds =
      Inr (v, ds_advance (length (extract_as_byte_array Size v)) ds)"
    using ds arr ds_read_split [of ds arr rest "of_nat Size"] fixed_bytes_of_array_eq [of "fixed_bytes_default Size" arr]
    by (simp add: deser_fixed_bytes_def fixed_bytes_default_def)
next
  fix ds w v ds'
  assume "wf_ds ds" "deser_fixed_bytes Size w ds = Inr (v, ds')"
  then show "ds_within ds ds'"
    by (auto simp: deser_fixed_bytes_def res_simps split: prod.splits dest: ds_read_within)
qed

interpretation checksum160: codec "extract_as_byte_array 20" "fb_ok 20" "ser_fixed_bytes 20"
  "deser_fixed_bytes 20" "fixed_bytes_default 20"
  by (rule codec_fixed_bytes) simp_all

interpretation checksum256: codec "extract_as_byte_array 32" "fb_ok 32" "ser_fixed_bytes 32"
  "deser_fixed_bytes 32" "fixed_bytes_default 32"
  by (rule codec_fixed_bytes) simp_all

interpretation checksum512: codec "extract_as_byte_array 64" "fb_ok 64" "ser_fixed_bytes 64"
  "deser_fixed_bytes 64" "fixed_bytes_default 64"
  by (rule codec_fixed_bytes) simp_all

text \<open>
  Fixed byte arrays hold their bytes and their order. Building the object from a
  byte array of its size writes every word, whatever the words held before, and
  extracting the bytes gives the array back; comparing two objects compares the arrays
  lexicographically as unsigned bytes.
\<close>

theorem fixed_bytes_faithful:
  assumes "0 < Size" "length arr1 = Size" "length arr2 = Size"
    and "length (fb_data self1) = num_words Size" "length (fb_data self2) = num_words Size"
  shows "\<exists>d1 d2. fixed_bytes_of_array self1 arr1 = Inr d1 \<and> fixed_bytes_of_array self2 arr2 = Inr d2
    \<and> extract_as_byte_array Size d1 = arr1 \<and> extract_as_byte_array Size d2 = arr2
    \<and> (fb_eq d1 d2 \<longleftrightarrow> arr1 = arr2) \<and> (fb_neq d1 d2 \<longleftrightarrow> arr1 \<noteq> arr2)
    \<and> (fb_less d1 d2 \<longleftrightarrow> lex_less arr1 arr2) \<and> (fb_greater d1 d2 \<longleftrightarrow> lex_less arr2 arr1)
    \<and> (fb_leq d1 d2 \<longleftrightarrow> \<not> lex_less arr2 arr1) \<and> (fb_geq d1 d2 \<longleftrightarrow> \<not> lex_less arr1 arr2)"
proof -
  have "chunks arr1 = chunks arr2 \<longleftrightarrow> arr1 = arr2"
    using extract_array [OF assms(1,2)] extract_array [OF assms(1,3)] by metis
  then show ?thesis
    using assms fixed_bytes_of_array_eq [of self1 arr1] fixed_bytes_of_array_eq [of self2 arr2]
      extract_array [OF assms(1,2)] extract_array [OF assms(1,3)] chunks_lex [of arr1 arr2] chunks_lex [of arr2 arr1]
    by (auto simp: fb_eq_def fb_neq_def fb_less_def fb_greater_def fb_leq_def fb_geq_def)
qed

theorem fixed_bytes_faithful_witness:
  "\<exists>d1 d2. fixed_bytes_of_array (Fixed_bytes [7, 7]) (replicate 19 0 @ [1]) = Inr d1
    \<and> fixed_bytes_of_array (Fixed_bytes [7, 7]) (replicate 20 0) = Inr d2 \<and> fb_less d2 d1
    \<and> extract_as_byte_array 20 d1 = replicate 19 0 @ [1]"
proof -
  have "lex_less (replicate 20 0) (replicate 19 0 @ [1 :: byte])" "num_words 20 = 2" by code_simp+
  then show ?thesis
    using fixed_bytes_faithful [of 20 "replicate 19 0 @ [1]" "replicate 20 0" "Fixed_bytes [7, 7]" "Fixed_bytes [7, 7]"]
    by (simp add: fb_greater_def fb_less_def) metis
qed

text \<open>
  The constructor from words wider than a byte. When the last word of the object is
  filled only in part, the code moves its contents by eight bits for every missing word
  instead of by the width of the missing words: five 32-bit words do not give the
  object that holds their twenty bytes.
\<close>

theorem word_sequence_misplaces:
  "make_from_word_sequence 20 4 [1, 2, 3, 4, 5] = Inr (Fixed_bytes [0x00000001000000020000000300000004, 0x5000000000000])
   \<and> extract_as_byte_array 20 (Fixed_bytes [0x00000001000000020000000300000004, 0x5000000000000])
       = [0, 0, 0, 1, 0, 0, 0, 2, 0, 0, 0, 3, 0, 0, 0, 4, 0, 0, 0, 0]"
  by code_simp

end
