(* ===== verification/Hash256.thy ===== *)
theory Hash256
  imports Strings Containers
begin

text \<open>
  Digests of 32 bytes and their hexadecimal form, most significant byte first:
  \<^verbatim>\<open>libraries/wasmlib/core/hash256.hpp\<close>. Reading a \<^verbatim>\<open>string_view\<close> past its end is
  undefined; a character that is not a lower-case hexadecimal digit counts as zero.
\<close>

datatype hash256 = Hash256 (hash_value: "byte list")

definition hash256_default :: hash256 where
  "hash256_default = Hash256 (replicate 32 0)"

definition hash256_of_buffer :: "byte list \<Rightarrow> hash256" where
  "hash256_of_buffer buffer = Hash256 (take 32 buffer)"

definition view_at :: "string \<Rightarrow> nat \<Rightarrow> char res" where
  "view_at str i = (if i < length str then Inr (str ! i) else Inl (Undefined ''read past the end of a string_view''))"

definition to_lower :: "char \<Rightarrow> char" where
  "to_lower c = (if CHR ''A'' \<le> c \<and> c \<le> CHR ''Z'' then char_of (of_char c + 32 :: nat) else c)"

definition strip_prefix :: "string \<Rightarrow> string res" where
  "strip_prefix str = bindr (view_at str 0) (\<lambda>c0.
     if c0 = CHR ''0'' then bindr (view_at str 1) (\<lambda>c1. Inr (if to_lower c1 = CHR ''x'' then drop 2 str else str))
     else Inr str)"

definition hash_byte :: "string \<Rightarrow> nat \<Rightarrow> byte" where
  "hash_byte str i =
     (let h = hex_value (str ! (length str - 2 * (i + 1))); l = hex_value (str ! (length str - 2 * (i + 1) + 1))
      in l OR push_bit 4 h)"

definition hash256_of_string :: "string \<Rightarrow> hash256 res" where
  "hash256_of_string str = bindr (strip_prefix str) (\<lambda>str.
     bindr (check (length str = 32 * 2) ''Hex string for hash256 must be 64 bytes'') (\<lambda>_.
       Inr (Hash256 (map (hash_byte str) [0..<32]))))"

definition hex_digits :: string where
  "hex_digits = ''0123456789abcdef''"

fun hash_string_loop :: "byte list \<Rightarrow> nat \<Rightarrow> nat \<Rightarrow> string \<Rightarrow> string" where
  "hash_string_loop v i 0 str = str"
| "hash_string_loop v i (Suc k) str =
     hash_string_loop v (i + 1) k
       (str @ [hex_digits ! unat (drop_bit 4 (v ! (32 - i - 1)))] @ [hex_digits ! unat (v ! (32 - i - 1) AND 0xf)])"

definition hash256_to_string :: "hash256 \<Rightarrow> string" where
  "hash256_to_string h = hash_string_loop (hash_value h) 0 32 []"

definition ser_hash256 :: "hash256 \<Rightarrow> sink \<Rightarrow> sink res" where
  "ser_hash256 h ds = ser_array ser_primitive (hash_value h) ds"

definition deser_hash256 :: "hash256 \<Rightarrow> datastream \<Rightarrow> (hash256 \<times> datastream) res" where
  "deser_hash256 h ds = bindr (deser_array deser_primitive (hash_value h) ds) (\<lambda>(v, ds'). Inr (Hash256 v, ds'))"

section \<open>Printing and parsing\<close>

definition hex_pair :: "byte \<Rightarrow> string" where
  "hex_pair b = [hex_digits ! unat (drop_bit 4 b), hex_digits ! unat (b AND 0xf)]"

lemma hash_string_loop_eq:
  assumes "length v = 32" "i + k = 32"
  shows "hash_string_loop v i k str = str @ concat (map hex_pair (rev (take k v)))"
  using assms(2)
proof (induction k arbitrary: i str)
  case (Suc k)
  then have "k = 32 - i - 1" by simp
  then have "take (Suc k) v = take k v @ [v ! (32 - i - 1)]" using assms(1) by (simp add: take_Suc_conv_app_nth)
  then show ?case using Suc.IH [of "i + 1"] Suc.prems by (simp add: hex_pair_def)
qed simp

lemma hex_value_digit: "unat w < 16 \<Longrightarrow> hex_value (hex_digits ! unat w) = w"
proof -
  have "list_all (\<lambda>n. hex_value (hex_digits ! n) = of_nat n) [0..<16]" by code_simp
  then have "hex_value (hex_digits ! n) = of_nat n" if "n < 16" for n using that by (simp add: list_all_iff)
  then show "unat w < 16 \<Longrightarrow> hex_value (hex_digits ! unat w) = w" by simp
qed

lemma nibbles: "unat (b AND 0xf) < 16" "unat (drop_bit 4 b) < 16" for b :: byte
proof -
  show "unat (b AND 0xf) < 16" using unat_and_mask [of b 4] by (simp add: mask_eq_exp_minus_1)
  show "unat (drop_bit 4 b) < 16"
    using byte_less_256 [of b] by (simp add: unat_drop_bit div_less_iff_less_mult del: byte_less_256)
qed

lemma hex_pair_value: "hex_value (hex_pair b ! 1) OR push_bit 4 (hex_value (hex_pair b ! 0)) = b"
proof -
  have "(b AND mask 4) OR push_bit 4 (drop_bit 4 b) = b"
    by (rule bit_word_eqI) (auto simp: bit_simps, metis le_add_diff_inverse not_less)
  then show ?thesis by (simp add: hex_pair_def hex_value_digit nibbles mask_eq_exp_minus_1)
qed

lemma nth_hex_pairs:
  "j < length xs \<Longrightarrow> concat (map hex_pair xs) ! (2 * j) = hex_pair (xs ! j) ! 0"
  "j < length xs \<Longrightarrow> concat (map hex_pair xs) ! (2 * j + 1) = hex_pair (xs ! j) ! 1"
proof (induction xs arbitrary: j)
  case (Cons x xs)
  { case 1 with Cons show ?case by (cases j) (simp_all add: hex_pair_def) }
  { case 2 with Cons show ?case by (cases j) (simp_all add: hex_pair_def) }
qed simp_all

lemma length_hex_pairs: "length (concat (map hex_pair xs)) = 2 * length xs"
  by (induction xs) (simp_all add: hex_pair_def)

lemma hex_digits_no_prefix: "n < 16 \<Longrightarrow> to_lower (hex_digits ! n) \<noteq> CHR ''x''"
proof -
  have "list_all (\<lambda>n. to_lower (hex_digits ! n) \<noteq> CHR ''x'') [0..<16]" by code_simp
  then show "n < 16 \<Longrightarrow> to_lower (hex_digits ! n) \<noteq> CHR ''x''" by (simp add: list_all_iff)
qed

text \<open>
  Digests and hexadecimal strings. A digest prints as 64 characters and parses back,
  with the prefix \<open>0x\<close> too; other lengths abort; but upper-case digits, which the
  test of the prefix would suggest are accepted, count as zero.
\<close>

theorem hash256_string_roundtrip:
  assumes "length (hash_value h) = 32"
  shows "length (hash256_to_string h) = 64 \<and> hash256_of_string (hash256_to_string h) = Inr h
    \<and> hash256_of_string (''0x'' @ hash256_to_string h) = Inr h
    \<and> hash256_of_string (replicate 64 (CHR ''A'')) = Inr hash256_default"
proof -
  let ?v = "hash_value h" let ?s = "concat (map hex_pair (rev ?v))"
  have s: "hash256_to_string h = ?s" using hash_string_loop_eq [OF assms, of 0 32 "[]"] assms by (simp add: hash256_to_string_def)
  have len: "length ?s = 64" using assms by (simp add: length_hex_pairs del: length_concat)
  have byte: "hash_byte ?s i = ?v ! i" if "i < 32" for i
  proof -
    have "64 - 2 * (i + 1) = 2 * (31 - i)" "64 - 2 * (i + 1) + 1 = 2 * (31 - i) + 1" using that by simp_all
    then show ?thesis
      using that assms nth_hex_pairs [of "31 - i" "rev ?v"] hex_pair_value [of "?v ! i"]
      unfolding hash_byte_def Let_def len by (simp add: rev_nth)
  qed
  have "map (hash_byte ?s) [0..<32] = ?v" using assms byte by (intro nth_equalityI) simp_all
  moreover have "strip_prefix ?s = Inr ?s"
    using len nth_hex_pairs [of 0 "rev ?v"] assms nibbles hex_digits_no_prefix
    by (simp add: strip_prefix_def view_at_def hex_pair_def del: length_concat)
  moreover have "strip_prefix (''0x'' @ ?s) = Inr ?s" by (simp add: strip_prefix_def view_at_def to_lower_def less_eq_char_def)
  moreover have "hash256_of_string (replicate 64 (CHR ''A'')) = Inr hash256_default" by code_simp
  ultimately show ?thesis using len s by (simp add: hash256_of_string_def bindr_check del: length_concat)
qed

theorem hash256_string_roundtrip_witness:
  "hash256_of_string (hash256_to_string (Hash256 (5 # replicate 31 7))) = Inr (Hash256 (5 # replicate 31 7))"
  using hash256_string_roundtrip [of "Hash256 (5 # replicate 31 7)"] by simp

end
