(* ===== verification/Name.thy ===== *)
theory Name
  imports Composites
begin

text \<open>
  Account and table names: \<^verbatim>\<open>libraries/wasmlib/core/name.hpp\<close> and the copies of
  its conversions in \<^verbatim>\<open>tools/include/wasm/utils.hpp\<close>. A name packs up to twelve
  characters of five bits and a thirteenth of four bits into 64 bits.

  The definitions follow the source; the facts about them are stated through the
  list of the thirteen digits of a name and the weight of each digit.
\<close>

section \<open>The runtime library\<close>

datatype name = Name (name_value: u64)

definition charmap :: string where
  "charmap = ''_12345abcdefghijklmnopqrstuvwxyz''"

text \<open>The character a C string holds at an index, its terminator included.\<close>

definition c_char :: "string \<Rightarrow> nat \<Rightarrow> char" where
  "c_char str i = (if i < length str then str ! i else CHR 0x00)"

definition char_to_symbol :: "char \<Rightarrow> u64" where
  "char_to_symbol c =
     (if c \<ge> CHR ''a'' \<and> c \<le> CHR ''z'' then ucast (byte_of_char c - byte_of_char (CHR ''a'')) + 6
      else if c \<ge> CHR ''1'' \<and> c \<le> CHR ''5'' then ucast (byte_of_char c - byte_of_char (CHR ''1'')) + 1
      else 0)"

function string_to_name_loop :: "string \<Rightarrow> nat \<Rightarrow> u64 \<Rightarrow> nat \<times> u64" where
  "string_to_name_loop str i name =
     (if c_char str i \<noteq> CHR 0x00 \<and> i < 12
      then string_to_name_loop str (i + 1)
             (name OR push_bit (64 - 5 * (i + 1)) (char_to_symbol (c_char str i) AND 0x1f))
      else (i, name))"
  by pat_completeness auto
termination
  by (relation "measure (\<lambda>(str, i, name). 12 - i)") auto

definition string_to_name :: "string \<Rightarrow> u64" where
  "string_to_name str =
     (let (i, name) = string_to_name_loop str 0 0
      in if i = 12 then name OR (char_to_symbol (c_char str 12) AND 0x0F) else name)"

definition char_to_value :: "char \<Rightarrow> u8 res" where
  "char_to_value c =
     (if c = CHR ''_'' then Inr 0
      else if c \<ge> CHR ''1'' \<and> c \<le> CHR ''5'' then Inr (byte_of_char c - byte_of_char (CHR ''1'') + 1)
      else if c \<ge> CHR ''a'' \<and> c \<le> CHR ''z'' then Inr (byte_of_char c - byte_of_char (CHR ''a'') + 6)
      else bindr (check False ''character is not in allowed character set for names'') (\<lambda>_. Inr 0))"

text \<open>The constructor from a string: the loop over the first \<open>n\<close> characters, then the rest.\<close>

primrec name_chars_loop :: "u64 \<Rightarrow> string \<Rightarrow> u64 res" where
  "name_chars_loop value [] = Inr value"
| "name_chars_loop value (c # cs) =
     bindr (char_to_value c) (\<lambda>v. name_chars_loop (push_bit 5 value OR ucast v) cs)"

definition name_of_string :: "string \<Rightarrow> name res" where
  "name_of_string str =
     bindr (if length str > 13 then check False ''string is too long to be a valid name'' else Inr ()) (\<lambda>_.
       if str = [] then Inr (Name 0)
       else let n = min (length str) 12 in
         bindr (name_chars_loop 0 (take n str)) (\<lambda>value0.
           let value = push_bit (4 + 5 * (12 - n)) value0 in
           if length str = 13
           then bindr (char_to_value (str ! 12)) (\<lambda>v.
                  bindr (if ucast v > (0x0F :: u64)
                         then check False ''thirteenth character in name cannot be a letter that comes after j''
                         else Inr ())
                    (\<lambda>_. Inr (Name (value OR ucast v))))
           else Inr (Name value)))"

fun name_length_loop :: "u64 \<Rightarrow> nat \<Rightarrow> nat \<Rightarrow> u8 \<Rightarrow> u8" where
  "name_length_loop v i 0 l = l"
| "name_length_loop v i (Suc k) l =
     name_length_loop (push_bit 5 v) (i + 1) k (if v AND 0xF800000000000000 > 0 then of_nat i else l)"

definition name_length :: "name \<Rightarrow> u8" where
  "name_length n = (if name_value n = 0 then 0 else name_length_loop (name_value n) 0 13 0 + 1)"

function suffix_loop :: "u64 \<Rightarrow> int \<Rightarrow> u32 \<Rightarrow> u32 \<Rightarrow> u32 \<times> u32" where
  "suffix_loop value remaining_bits rem_after_dot tmp =
     (if remaining_bits \<ge> 4
      then let c = drop_bit (nat remaining_bits) value AND 0x1F in
        if c = 0 then suffix_loop value (remaining_bits - 5) rem_after_dot (word_of_int remaining_bits)
        else suffix_loop value (remaining_bits - 5) tmp tmp
      else (rem_after_dot, tmp))"
  by pat_completeness auto
termination
  by (relation "measure (\<lambda>(value, r, _). nat r)") auto

definition name_suffix :: "name \<Rightarrow> name" where
  "name_suffix n =
     (let value = name_value n;
          (rem_after_dot0, tmp) = suffix_loop value 59 0 0;
          thirteenth_character = value AND 0x0F;
          rem_after_dot = (if thirteenth_character \<noteq> 0 then tmp else rem_after_dot0)
      in if rem_after_dot = 0 then Name value
         else let mask = push_bit (unat rem_after_dot) 1 - 16;
                  shift = 64 - rem_after_dot
              in Name (push_bit (unat shift) (value AND mask)
                       + push_bit (unat (shift - 1)) thirteenth_character))"

definition name_to_raw :: "name \<Rightarrow> u64" where
  "name_to_raw n = name_value n"

definition name_to_bool :: "name \<Rightarrow> bool" where
  "name_to_bool n = (name_value n \<noteq> 0)"

text \<open>
  \<open>write_as_string\<close> fills memory from \<open>bgn\<close> and returns the memory and the pointer
  past the last character; \<open>to_string\<close> gives it a buffer of exactly 13 bytes.
\<close>

fun write_as_string_loop :: "mem \<Rightarrow> u32 \<Rightarrow> u64 \<Rightarrow> nat \<Rightarrow> nat \<Rightarrow> mem \<times> u32" where
  "write_as_string_loop m bgn v i 0 = (m, bgn)"
| "write_as_string_loop m bgn v i (Suc k) =
     (if v = 0 then (m, bgn)
      else let indx = drop_bit (if i = 12 then 60 else 59) (v AND 0xF800000000000000)
           in write_as_string_loop (m(bgn := byte_of_char (charmap ! unat indx))) (bgn + 1)
                (push_bit 5 v) (i + 1) k)"

definition write_as_string :: "name \<Rightarrow> mem \<Rightarrow> u32 \<Rightarrow> u32 \<Rightarrow> mem \<times> u32" where
  "write_as_string n m bgn fin =
     (if bgn + 13 < bgn \<or> bgn + 13 > fin then (m, bgn)
      else write_as_string_loop m bgn (name_value n) 0 13)"

definition name_to_string :: "mem \<Rightarrow> u32 \<Rightarrow> name \<Rightarrow> string" where
  "name_to_string m buffer n =
     (let (m', fin) = write_as_string n m buffer (buffer + 13)
      in map char_of_byte (mem_read m' buffer (unat (fin - buffer))))"

definition name_eq :: "name \<Rightarrow> name \<Rightarrow> bool" where
  "name_eq a b = (name_value a = name_value b)"

definition name_neq :: "name \<Rightarrow> name \<Rightarrow> bool" where
  "name_neq a b = (name_value a \<noteq> name_value b)"

definition name_less :: "name \<Rightarrow> name \<Rightarrow> bool" where
  "name_less a b = (name_value a < name_value b)"

instantiation name :: linorder
begin

definition less_name :: "name \<Rightarrow> name \<Rightarrow> bool" where
  "less_name a b = name_less a b"

definition less_eq_name :: "name \<Rightarrow> name \<Rightarrow> bool" where
  "less_eq_name a b = (name_less a b \<or> name_eq a b)"

instance
  by standard (auto simp: less_name_def less_eq_name_def name_less_def name_eq_def intro: name.expand)

end

text \<open>The serialised fields: the value alone.\<close>

definition ser_name :: "name \<Rightarrow> sink \<Rightarrow> sink res" where
  "ser_name n ds = ser_primitive (name_value n) ds"

definition deser_name :: "name \<Rightarrow> datastream \<Rightarrow> (name \<times> datastream) res" where
  "deser_name n ds = bindr (deser_primitive (name_value n) ds) (\<lambda>(v, ds'). Inr (Name v, ds'))"

section \<open>The copies in the tools\<close>

fun tool_digits_loop :: "u64 \<Rightarrow> nat \<Rightarrow> string \<Rightarrow> nat \<Rightarrow> string" where
  "tool_digits_loop tmp i str 0 = str"
| "tool_digits_loop tmp i str (Suc k) =
     (let c = charmap ! unat (tmp AND (if i = 0 then 0x0f else 0x1f))
      in tool_digits_loop (drop_bit (if i = 0 then 4 else 5) tmp) (i + 1) (str[12 - i := c]) k)"

definition tool_trim_right_dots :: "string \<Rightarrow> string" where
  "tool_trim_right_dots str =
     (if \<exists>c\<in>set str. c \<noteq> CHR ''_'' then rev (dropWhile (\<lambda>c. c = CHR ''_'') (rev str)) else str)"

definition tool_name_to_string :: "u64 \<Rightarrow> string" where
  "tool_name_to_string nm = tool_trim_right_dots (tool_digits_loop nm 0 (replicate 13 (CHR ''_'')) 13)"

definition validate_name :: "string \<Rightarrow> string + unit" where
  "validate_name str =
     (if length str > 13
      then Inl (''Error, name {'' @ str @ ''} is more than 13 characters long'')
      else let value = string_to_name str;
               str2 = tool_digits_loop value 0 (replicate 13 (CHR ''_'')) 13;
               str2' = rev (dropWhile (\<lambda>c. c = CHR ''_'') (rev str2))
           in if str2' \<noteq> str then Inl ''Error, name not properly normalized'' else Inr ())"

declare string_to_name_loop.simps [simp del] suffix_loop.simps [simp del]

section \<open>Digits\<close>

definition name_weight :: "nat \<Rightarrow> nat" where
  "name_weight i = (if i < 12 then 2 ^ (59 - 5 * i) else 1)"

primrec name_val :: "nat \<Rightarrow> nat list \<Rightarrow> nat" where
  "name_val i [] = 0"
| "name_val i (d # ds) = d * name_weight i + name_val (Suc i) ds"

definition digit_at :: "nat \<Rightarrow> u64 \<Rightarrow> nat" where
  "digit_at i v = unat (drop_bit (if i = 12 then 60 else 59) (v AND 0xF800000000000000))"

fun name_digits :: "nat \<Rightarrow> u64 \<Rightarrow> nat \<Rightarrow> nat list" where
  "name_digits i v 0 = []"
| "name_digits i v (Suc k) =
     digit_at i v # name_digits (i + 1) (push_bit 5 v) k"

fun digits_ok :: "nat \<Rightarrow> nat list \<Rightarrow> bool" where
  "digits_ok i [] = (i \<le> 13)"
| "digits_ok i (d # ds) = (i < 13 \<and> d < (if i = 12 then 16 else 32) \<and> digits_ok (Suc i) ds)"

fun strip0 :: "nat list \<Rightarrow> nat list" where
  "strip0 [] = []"
| "strip0 (d # ds) = (if d = 0 \<and> (\<forall>x\<in>set ds. x = 0) then [] else d # strip0 ds)"

lemma top_digit: "unat (drop_bit 59 (v AND 0xF800000000000000)) = unat v div 2 ^ 59" for v :: u64
proof -
  have "(0xF800000000000000 :: u64) = push_bit 59 (mask 5)" by (simp add: mask_eq_exp_minus_1)
  then have "drop_bit 59 (v AND 0xF800000000000000) = take_bit 5 (drop_bit 59 v)"
    by (simp only: drop_bit_and take_bit_eq_mask) (simp add: mask_eq_exp_minus_1)
  moreover have "unat v div 2 ^ 59 < 2 ^ 5"
    using unat_u64_less [of v] by (intro less_mult_imp_div_less) simp
  ultimately show ?thesis by (simp only: unat_take_bit unat_drop_bit mod_less)
qed

lemma last_digit: "unat (drop_bit 60 (v AND 0xF800000000000000)) = unat v div 2 ^ 60" for v :: u64
proof -
  have "(0xF800000000000000 :: u64) = push_bit 59 (mask 5)" by (simp add: mask_eq_exp_minus_1)
  then have "drop_bit 60 (v AND 0xF800000000000000) = take_bit 4 (drop_bit 60 v)"
    by (simp only: drop_bit_and take_bit_eq_mask) (simp add: mask_eq_exp_minus_1)
  moreover have "unat v div 2 ^ 60 < 2 ^ 4"
    using unat_u64_less [of v] by (intro less_mult_imp_div_less) simp
  ultimately show ?thesis by (simp only: unat_take_bit unat_drop_bit mod_less)
qed

lemma digit_at_eq: "digit_at i v = unat v div 2 ^ (if i = 12 then 60 else 59)"
  using top_digit [of v] last_digit [of v] by (simp only: digit_at_def if_split) simp

lemma unat_shift5: "unat (push_bit 5 v) = unat v mod 2 ^ 59 * 32" for v :: u64
proof -
  have "unat (push_bit 5 v) = unat v * 2 ^ 5 mod 2 ^ 64" by (subst unat_push_bit) simp
  also have "\<dots> = unat v mod 2 ^ 59 * 2 ^ 5"
    using mult_mod_left [of "unat v" "2 ^ 59" "2 ^ 5"] by simp
  finally show ?thesis by simp
qed

lemma length_name_digits [simp]: "length (name_digits i v k) = k"
  by (induction i v k rule: name_digits.induct) simp_all

lemma digits_ok_name_digits: "i + k \<le> 13 \<Longrightarrow> digits_ok i (name_digits i v k)"
proof (induction i v k rule: name_digits.induct)
  case (2 i v k)
  have "unat v div 2 ^ 59 < 32" "unat v div 2 ^ 60 < 16"
    using unat_u64_less [of v] by (intro less_mult_imp_div_less, simp)+
  with 2 show ?case by (simp add: digit_at_eq)
qed simp

lemma shift_dvd:
  fixes v :: u64
  assumes "2 ^ (5 * i) dvd unat v" "i < 12"
  shows "2 ^ (5 * Suc i) dvd unat (push_bit 5 v)"
proof -
  have "2 ^ (5 * i) dvd (2 :: nat) ^ 59" using assms(2) by (intro le_imp_power_dvd) simp
  then have "2 ^ (5 * i) dvd unat v mod 2 ^ 59" using assms(1) by (simp add: dvd_mod)
  then show ?thesis by (simp only: unat_shift5) (simp add: power_add)
qed

lemma name_weight_shift: "i < 12 \<Longrightarrow> d * name_weight i * 2 ^ (5 * i) = d * 2 ^ 59"
  by (simp add: name_weight_def flip: power_add)

lemma name_val_digits:
  assumes "2 ^ (5 * i) dvd unat v" "i + k = 13"
  shows "name_val i (name_digits i v k) * 2 ^ (5 * i) = unat v"
  using assms
proof (induction i v k rule: name_digits.induct)
  case (1 i v)
  then have "(2 :: nat) ^ 65 dvd unat v" by simp
  then have "unat v = 0"
    using unat_u64_less [of v] dvd_imp_le [of "2 ^ 65" "unat v"] by (auto simp del: unat_u64_less)
  then show ?case by simp
next
  case (2 i v k)
  consider "i = 12" "k = 0" | "i < 12" using 2 by linarith
  then show ?case
  proof cases
    case 1
    then show ?thesis
      using 2 by (simp add: name_weight_def digit_at_eq)
  next
    case i: 2
    let ?r = "name_val (Suc i) (name_digits (Suc i) (push_bit 5 v) k)"
    have "?r * 2 ^ (5 * Suc i) = unat v mod 2 ^ 59 * 32"
      using "2.IH" "2.prems" shift_dvd [OF "2.prems"(1) i] by (simp add: unat_shift5)
    then have "?r * 2 ^ (5 * i) = unat v mod 2 ^ 59" by (simp add: power_add)
    then show ?thesis
      using i by (simp add: digit_at_eq add_mult_distrib name_weight_shift)
  qed
qed

lemma name_val_digits_all: "name_val 0 (name_digits 0 v 13) = unat v"
  using name_val_digits [of 0 v 13] by simp

lemma name_val_bound: "digits_ok i ds \<Longrightarrow> name_val i ds * 2 ^ (5 * i) < 2 ^ 64"
proof (induction i ds rule: digits_ok.induct)
  case (2 i d ds)
  show ?case
  proof (cases "i < 12")
    case True
    have "name_val (Suc i) ds * 2 ^ (5 * i) * 32 < 2 ^ 64"
      using 2 by (simp add: power_add)
    then show ?thesis
      using 2(2) True by (simp add: add_mult_distrib name_weight_shift)
  next
    case False
    then have "ds = []" "i = 12" using 2(2) by (cases ds; simp)+
    then show ?thesis using 2(2) by (simp add: name_weight_def)
  qed
qed simp

lemma name_digits_0: "name_digits i 0 k = replicate k 0"
  by (induction k arbitrary: i) (simp_all add: digit_at_def)

lemma name_digits_val:
  assumes "digits_ok i ds" "i + k = 13"
  shows "name_digits i (of_nat (name_val i ds * 2 ^ (5 * i))) k = ds @ replicate (k - length ds) 0"
  using assms
proof (induction i ds arbitrary: k rule: digits_ok.induct)
  case (2 i d ds)
  then obtain k' where k: "k = Suc k'" by (cases k) auto
  define v :: u64 where "v = of_nat (name_val i (d # ds) * 2 ^ (5 * i))"
  have v: "unat v = name_val i (d # ds) * 2 ^ (5 * i)"
    using name_val_bound [OF "2.prems"(1)] unfolding v_def by (intro unat_of_nat_small) simp
  show ?case
  proof (cases "i < 12")
    case True
    let ?r = "name_val (Suc i) ds * 2 ^ (5 * i)"
    have r: "?r < 2 ^ 59"
      using name_val_bound [of "Suc i" ds] "2.prems"(1) by (simp add: power_add)
    have v': "unat v = d * 2 ^ 59 + ?r"
      using v True by (simp add: add_mult_distrib name_weight_shift)
    then have "digit_at i v = d" using r True by (simp add: digit_at_eq)
    moreover have "unat (push_bit 5 v) = name_val (Suc i) ds * 2 ^ (5 * Suc i)"
      using r by (simp only: unat_shift5 v') (simp add: power_add)
    then have "push_bit 5 v = of_nat (name_val (Suc i) ds * 2 ^ (5 * Suc i))"
      by (rule word_eq_of_natI)
    ultimately show ?thesis
      using "2.IH" [of k'] "2.prems" by (simp only: k v_def [symmetric] name_digits.simps) simp
  next
    case False
    then have "ds = []" "i = 12" using "2.prems"(1) by (cases ds; simp)+
    moreover from this have "digit_at i v = d" using v by (simp add: digit_at_eq name_weight_def)
    ultimately show ?thesis
      unfolding k v_def [symmetric] name_digits.simps using "2.prems" by (simp add: k)
  qed
qed (simp add: name_digits_0)

lemma strip0_all: "strip0 ds = [] \<longleftrightarrow> (\<forall>d\<in>set ds. d = 0)"
  by (cases ds) auto

lemma strip0_append_replicate: "strip0 (ds @ replicate n 0) = strip0 ds"
  by (induction ds) (simp_all add: strip0_all ball_Un)

lemma name_val_0: "(\<forall>d\<in>set ds. d = 0) \<Longrightarrow> name_val i ds = 0"
  by (induction ds arbitrary: i) auto

lemma name_val_strip0: "name_val i (strip0 ds) = name_val i ds"
  by (induction ds arbitrary: i) (auto simp: name_val_0)

lemma name_weight_pos: "0 < name_weight i"
  by (simp add: name_weight_def)

lemma name_val_eq_0: "name_val i ds = 0 \<longleftrightarrow> (\<forall>d\<in>set ds. d = 0)"
  using name_weight_pos by (induction ds arbitrary: i) (auto simp: less_not_refl2)

lemma digits_ok_strip0: "digits_ok i ds \<Longrightarrow> digits_ok i (strip0 ds)"
  by (induction i ds rule: digits_ok.induct) auto

lemma write_loop_eq:
  assumes "2 ^ (5 * i) dvd unat v" "i + k = 13"
  shows "write_as_string_loop m bgn v i k =
    (let cs = map (\<lambda>d. byte_of_char (charmap ! d)) (strip0 (name_digits i v k))
     in (mem_write m bgn cs, bgn + of_nat (length cs)))"
  using assms
proof (induction k arbitrary: m bgn v i)
  case (Suc k)
  have all0: "(\<forall>d\<in>set (name_digits i v (Suc k)). d = 0) \<longleftrightarrow> v = 0"
    using name_val_digits [OF Suc.prems] name_val_eq_0 [of i "name_digits i v (Suc k)"]
    by (metis mult_eq_0_iff power_not_zero unsigned_eq_0_iff zero_neq_numeral)
  show ?case
  proof (cases "v = 0")
    case True
    with all0 have "strip0 (name_digits i v (Suc k)) = []" by (simp only: strip0_all)
    with True show ?thesis by (simp del: name_digits.simps)
  next
    case False
    let ?ds = "name_digits (i + 1) (push_bit 5 v) k"
    from False all0 have ds: "strip0 (name_digits i v (Suc k)) = digit_at i v # strip0 ?ds"
      by (simp only: name_digits.simps strip0.simps list.set ball_simps if_False)
    have step: "write_as_string_loop m bgn v i (Suc k) =
        write_as_string_loop (m(bgn := byte_of_char (charmap ! digit_at i v))) (bgn + 1) (push_bit 5 v) (i + 1) k"
      using False by (simp only: write_as_string_loop.simps Let_def digit_at_def if_False)
    show ?thesis
    proof (cases "i < 12")
      case True
      then show ?thesis
        using Suc.IH [OF _ _, of "Suc i" "push_bit 5 v"] shift_dvd [OF Suc.prems(1) True] Suc.prems(2)
        unfolding step ds by (simp add: Let_def)
    next
      case False
      then have "k = 0" using Suc.prems(2) by simp
      then show ?thesis unfolding step ds by simp
    qed
  qed
qed simp

section \<open>Characters\<close>

lemma length_charmap: "length charmap = 32"
  by (simp add: charmap_def)

lemma in_charmap: "c \<in> set charmap \<longleftrightarrow> (\<exists>d<32. c = charmap ! d)"
  by (auto simp: in_set_conv_nth length_charmap)

lemma charmap_value: "d < 32 \<Longrightarrow> char_to_value (charmap ! d) = Inr (of_nat d)"
proof -
  have "list_all (\<lambda>d. char_to_value (charmap ! d) = Inr (of_nat d)) [0..<32]" by code_simp
  then show "d < 32 \<Longrightarrow> ?thesis" by (simp add: list_all_iff)
qed

text \<open>A character range by enumeration, to decide facts about each of its characters.\<close>

lemma char_between:
  "CHR ''1'' \<le> c \<and> c \<le> CHR ''5'' \<longleftrightarrow> c \<in> set ''12345''"
  "CHR ''a'' \<le> c \<and> c \<le> CHR ''z'' \<longleftrightarrow> c \<in> set ''abcdefghijklmnopqrstuvwxyz''"
proof -
  have range: "char_of a \<le> c \<and> c \<le> char_of b \<longleftrightarrow> c \<in> set (map char_of [a..<Suc b])"
    if "a < 256" "b < 256" for a b :: nat
  proof -
    have "c = char_of (of_char c :: nat)" by simp
    moreover have "x \<in> {a..<Suc b} \<Longrightarrow> of_char (char_of x :: char) = x" for x
      using that by (simp add: of_char_of)
    ultimately show ?thesis
      using that by (auto simp: less_eq_char_def of_char_of intro: image_eqI [of _ _ "of_char c"])
  qed
  show "CHR ''1'' \<le> c \<and> c \<le> CHR ''5'' \<longleftrightarrow> c \<in> set ''12345''"
    using range [of 49 53] by (simp add: upt_conv_Cons char_of_def bit_0)
  show "CHR ''a'' \<le> c \<and> c \<le> CHR ''z'' \<longleftrightarrow> c \<in> set ''abcdefghijklmnopqrstuvwxyz''"
    using range [of 97 122] by (simp add: upt_conv_Cons char_of_def bit_0)
qed

lemma char_to_value_charmap:
  assumes "char_to_value c = Inr v"
  shows "unat v < 32 \<and> charmap ! unat v = c"
proof -
  consider "c = CHR ''_''" | "c \<in> set ''12345''" | "c \<in> set ''abcdefghijklmnopqrstuvwxyz''"
    using assms by (auto simp: char_to_value_def char_between split: if_splits)
  then show ?thesis
    using assms by cases (auto simp: char_to_value_def charmap_def byte_of_char_def less_eq_char_def)
qed

section \<open>Parsing\<close>

lemma name_chars_loop_charmap:
  assumes "\<forall>d\<in>set ds. d < 32" "unat v0 < 32 ^ i" "i + length ds \<le> 12"
  shows "\<exists>r. name_chars_loop v0 (map ((!) charmap) ds) = Inr r \<and> unat r < 32 ^ (i + length ds)
    \<and> unat r * 2 ^ (64 - 5 * (i + length ds)) = unat v0 * 2 ^ (64 - 5 * i) + name_val i ds"
  using assms
proof (induction ds arbitrary: v0 i)
  case (Cons d ds)
  let ?v = "push_bit 5 v0 OR ucast (of_nat d :: u8)"
  have d: "d < 32" using Cons.prems(1) by simp
  then have ud: "unat (ucast (of_nat d :: u8) :: u64) = d"
    by (simp add: unat_ucast_up unat_of_nat_small)
  have le: "(32 :: nat) ^ Suc i \<le> 32 ^ 12" using Cons.prems(3) by (intro power_increasing) simp_all
  have sum: "unat v0 * 32 + d < 32 ^ Suc i" using Cons.prems(2) d by simp
  then have "unat (push_bit 5 v0) = unat v0 * 2 ^ 5"
    using le by (intro unat_push_bit_small) simp
  then have v: "unat ?v = unat v0 * 32 + d"
    using sum le ud d by (subst push_bit_or_add) (simp_all add: unat_word_ariths)
  have e: "64 - 5 * i = 5 + (64 - 5 * Suc i)" using Cons.prems(3) by simp
  have w: "name_weight i = 2 ^ (64 - 5 * Suc i)" "(2 :: nat) ^ (64 - 5 * i) = 32 * 2 ^ (64 - 5 * Suc i)"
    using Cons.prems(3) by (simp add: name_weight_def) (simp only: e power_add, simp)
  obtain r where "name_chars_loop ?v (map ((!) charmap) ds) = Inr r" "unat r < 32 ^ (Suc i + length ds)"
      "unat r * 2 ^ (64 - 5 * (Suc i + length ds)) = unat ?v * 2 ^ (64 - 5 * Suc i) + name_val (Suc i) ds"
    using Cons.IH [of ?v "Suc i"] Cons.prems sum v by auto
  then show ?case
    using d v w by (auto simp: charmap_value add_mult_distrib)
qed simp

lemma name_val_append: "name_val i (xs @ ys) = name_val i xs + name_val (i + length xs) ys"
  by (induction xs arbitrary: i) simp_all

lemma digits_ok_iff:
  "digits_ok i ds \<longleftrightarrow> i + length ds \<le> 13 \<and> (\<forall>d\<in>set ds. d < 32) \<and> (i + length ds = 13 \<and> ds \<noteq> [] \<longrightarrow> last ds < 16)"
  by (induction i ds rule: digits_ok.induct) auto

lemma name_of_string_charmap:
  assumes "digits_ok 0 ds"
  shows "name_of_string (map ((!) charmap) ds) = Inr (Name (of_nat (name_val 0 ds)))"
proof -
  define n where "n = min (length ds) 12"
  have ok: "length ds \<le> 13" "\<forall>d\<in>set ds. d < 32" "length ds = 13 \<longrightarrow> last ds < 16"
    using assms by (auto simp: digits_ok_iff)
  obtain r where r: "name_chars_loop 0 (map ((!) charmap) (take n ds)) = Inr r" "unat r < 32 ^ n"
      "unat r * 2 ^ (64 - 5 * n) = name_val 0 (take n ds)"
    using name_chars_loop_charmap [of "take n ds" 0 0] ok set_take_subset [of n ds] by (auto simp: n_def)
  have shift: "4 + 5 * (12 - n) = 64 - 5 * n" by (simp add: n_def)
  have "digits_ok 0 (take n ds)"
    using ok set_take_subset [of n ds] by (auto simp: digits_ok_iff n_def)
  from name_val_bound [OF this] have "unat r * 2 ^ (64 - 5 * n) < 2 ^ 64" by (simp add: r(3))
  then have v: "unat (push_bit (64 - 5 * n) r) = name_val 0 (take n ds)"
    by (subst unat_push_bit_small) (simp_all add: r(3))
  show ?thesis
  proof (cases "length ds = 13")
    case True
    then have ds: "ds = take 12 ds @ [ds ! 12]" by (simp add: take_Suc_conv_app_nth [symmetric])
    then have "ds ! 12 < 16" using ok(3) True by (metis last_snoc)
    then have d: "unat (ucast (of_nat (ds ! 12) :: u8) :: u64) = ds ! 12"
      by (simp add: unat_ucast_up unat_of_nat_small)
    have n: "n = 12" using True by (simp add: n_def)
    have "name_val 0 ds = name_val 0 (take 12 ds) + ds ! 12"
      using True by (subst ds) (simp only: name_val_append, simp add: name_weight_def)
    moreover have "push_bit 4 r OR ucast (of_nat (ds ! 12) :: u8) = of_nat (name_val 0 (take 12 ds) + ds ! 12)"
      using v d \<open>ds ! 12 < 16\<close> word_eq_of_natI [OF v] word_eq_of_natI [OF d]
      by (subst push_bit_or_add) (simp_all add: n)
    moreover have "\<not> ucast (of_nat (ds ! 12) :: u8) > (0x0F :: u64)"
      using d \<open>ds ! 12 < 16\<close> by (simp add: word_less_nat_alt)
    ultimately show ?thesis
      using True r(1) \<open>ds ! 12 < 16\<close> by (cases "ds = []") (simp_all add: name_of_string_def n take_map charmap_value)
  next
    case False
    then have "n = length ds" using ok(1) by (simp add: n_def)
    moreover from this have "min (length ds) 12 = length ds" using ok(1) False by simp
    ultimately show ?thesis
      using r(1) False word_eq_of_natI [OF v] ok(1) shift
      by (cases "ds = []") (simp_all add: name_of_string_def)
  qed
qed

section \<open>Printing\<close>

lemma length_strip0: "length (strip0 ds) \<le> length ds"
  by (induction ds) auto

lemma name_to_string_eq:
  assumes "unat b + 13 < 2 ^ 32"
  shows "name_to_string m b n = map ((!) charmap) (strip0 (name_digits 0 (name_value n) 13))"
proof -
  let ?ds = "strip0 (name_digits 0 (name_value n) 13)"
  let ?cs = "map (\<lambda>d. byte_of_char (charmap ! d)) ?ds"
  have len: "length ?ds \<le> 13" using length_strip0 [of "name_digits 0 (name_value n) 13"] by simp
  have "unat (b + 13) = unat b + 13" using assms by (simp add: unat_word_ariths)
  then have "\<not> b + 13 < b" by (simp add: word_less_nat_alt)
  then have "write_as_string n m b (b + 13) = (mem_write m b ?cs, b + of_nat (length ?cs))"
    using write_loop_eq [of 0 "name_value n" 13 m b] by (simp add: write_as_string_def Let_def)
  moreover have "unat (of_nat (length ?cs) :: u32) = length ?cs"
    using len by (intro unat_of_nat_u32) simp
  moreover have "mem_read (mem_write m b ?cs) b (length ?cs) = ?cs"
    using len by (intro mem_read_write) simp
  ultimately show ?thesis
    by (simp add: name_to_string_def del: length_map)
qed

lemma char_to_value_cases:
  obtains d where "d < 32" "c = charmap ! d" "char_to_value c = Inr (of_nat d)"
    | "c \<notin> set charmap" "char_to_value c = Inl (Assert ''character is not in allowed character set for names'')"
proof (cases "char_to_value c")
  case (Inr v)
  then show ?thesis
    using char_to_value_charmap [OF Inr] that(1) [of "unat v"] by (simp add: word_of_nat_unat)
next
  case (Inl e)
  moreover have "c \<notin> set charmap"
    using Inl charmap_value by (auto simp: in_charmap)
  ultimately show ?thesis
    using that(2) by (auto simp: char_to_value_def split: if_splits)
qed

lemma name_chars_loop_chars:
  "(\<exists>r. name_chars_loop v s = Inr r) \<longleftrightarrow> set s \<subseteq> set charmap"
  "(\<exists>e. name_chars_loop v s = Inl e \<and> e \<noteq> Assert ''character is not in allowed character set for names'') \<longleftrightarrow> False"
proof (induction s arbitrary: v)
  case (Cons c s)
  {
    case 1
    then show ?case
      using Cons.IH by (cases c rule: char_to_value_cases) (auto simp: in_charmap)
  next
    case 2
    then show ?case
      using Cons.IH by (cases c rule: char_to_value_cases) auto
  }
qed simp_all

lemma chars_are_digits:
  assumes "set s \<subseteq> set charmap"
  shows "\<exists>ds. s = map ((!) charmap) ds \<and> (\<forall>d\<in>set ds. d < 32)"
  using assms
proof (induction s)
  case (Cons c s)
  then obtain ds where "s = map ((!) charmap) ds" "\<forall>d\<in>set ds. d < 32" by auto
  moreover from Cons.prems obtain d where "d < 32" "c = charmap ! d"
    by (auto simp: in_charmap)
  ultimately show ?case by (intro exI [of _ "d # ds"]) simp
qed simp

lemma strip0_snoc: "strip0 (ds @ [x]) = (if x = 0 then strip0 ds else ds @ [x])"
  by (induction ds) (auto simp: strip0_all)

lemma charmap_underscore: "d < 32 \<Longrightarrow> charmap ! d = CHR ''_'' \<longleftrightarrow> d = 0"
proof -
  have "list_all (\<lambda>d. charmap ! d = CHR ''_'' \<longleftrightarrow> d = 0) [0..<32]" by code_simp
  then show "d < 32 \<Longrightarrow> ?thesis" by (simp add: list_all_iff)
qed

lemma strip0_chars:
  "(\<forall>d\<in>set ds. d < 32) \<Longrightarrow>
     map ((!) charmap) (strip0 ds) = rev (dropWhile (\<lambda>c. c = CHR ''_'') (rev (map ((!) charmap) ds)))"
  by (induction ds rule: rev_induct) (auto simp: strip0_snoc charmap_underscore)

subsection \<open>The unchecked conversion\<close>

lemma char_to_symbol_value:
  assumes "char_to_value c = Inr v"
  shows "char_to_symbol c AND 0x1f = ucast v" "c \<noteq> CHR 0x00"
    "unat v < 16 \<Longrightarrow> char_to_symbol c AND 0x0F = ucast v"
proof -
  have "list_all (\<lambda>d. char_to_symbol (charmap ! d) = of_nat d \<and> charmap ! d \<noteq> CHR 0x00) [0..<32]"
    by code_simp
  then have "char_to_symbol (charmap ! d) = of_nat d \<and> charmap ! d \<noteq> CHR 0x00" if "d < 32" for d
    using that by (simp add: list_all_iff)
  from this [of "unat v"] char_to_value_charmap [OF assms]
  have c: "char_to_symbol c = ucast v" "c \<noteq> CHR 0x00" and v: "unat v < 32" by auto
  show "c \<noteq> CHR 0x00" by (rule c(2))
  have u: "unat (ucast v :: u64) = unat v" by (simp add: unat_ucast_up)
  have "unat (char_to_symbol c AND mask 5) = unat (ucast v :: u64)"
    using v unfolding c(1) unat_and_mask u by simp
  then show "char_to_symbol c AND 0x1f = ucast v"
    by (simp add: mask_eq_exp_minus_1 word_unat_eq_iff)
  assume "unat v < 16"
  then have "unat (char_to_symbol c AND mask 4) = unat (ucast v :: u64)"
    unfolding c(1) unat_and_mask u by simp
  then show "char_to_symbol c AND 0x0F = ucast v"
    by (simp add: mask_eq_exp_minus_1 word_unat_eq_iff)
qed

lemma string_to_name_loop_eq:
  assumes "name_chars_loop v (take (12 - i) (drop i s)) = Inr r" "i \<le> 12" "i \<le> length s"
  shows "string_to_name_loop s i (push_bit (64 - 5 * i) v) =
    (min (length s) 12, push_bit (64 - 5 * min (length s) 12) r)"
  using assms
proof (induction "12 - i" arbitrary: i v)
  case 0
  then have "i = 12" by simp
  with 0 show ?case by (simp add: string_to_name_loop.simps [of s 12])
next
  case (Suc k)
  then have i: "i < 12" "12 - i = Suc (12 - Suc i)" by simp_all
  show ?case
  proof (cases "i < length s")
    case False
    then show ?thesis
      using Suc.prems i by (subst string_to_name_loop.simps) (simp add: c_char_def)
  next
    case True
    then have "take (12 - i) (drop i s) = s ! i # take (12 - Suc i) (drop (Suc i) s)"
      using i by (simp add: Cons_nth_drop_Suc [symmetric])
    then obtain d where d: "char_to_value (s ! i) = Inr d"
        "name_chars_loop (push_bit 5 v OR ucast d) (take (12 - Suc i) (drop (Suc i) s)) = Inr r"
      using Suc.prems(1) by (auto simp: bindr_eq_Inr)
    have e: "64 - 5 * i = (64 - 5 * Suc i) + 5" using i by simp
    have "push_bit (64 - 5 * i) v OR push_bit (64 - 5 * (i + 1)) (ucast d) =
        push_bit (64 - 5 * Suc i) (push_bit 5 v OR ucast d)"
      by (simp only: e push_bit_or push_bit_push_bit) simp
    then have "string_to_name_loop s i (push_bit (64 - 5 * i) v) =
        string_to_name_loop s (Suc i) (push_bit (64 - 5 * Suc i) (push_bit 5 v OR ucast d))"
      using True i(1) char_to_symbol_value [OF d(1)]
      by (subst string_to_name_loop.simps) (simp add: c_char_def)
    also have "\<dots> = (min (length s) 12, push_bit (64 - 5 * min (length s) 12) r)"
      using Suc.hyps(2) d(2) i True by (intro Suc.hyps(1)) simp_all
    finally show ?thesis .
  qed
qed

lemma in_charmap_16: "d < 32 \<Longrightarrow> charmap ! d \<in> set (take 16 charmap) \<longleftrightarrow> d < 16"
proof -
  have "list_all (\<lambda>d. charmap ! d \<in> set (take 16 charmap) \<longleftrightarrow> d < 16) [0..<32]" by code_simp
  then show "d < 32 \<Longrightarrow> ?thesis" by (simp add: list_all_iff)
qed

text \<open>The constructor once the first twelve characters have been read.\<close>

lemma name_of_string_short:
  assumes "length s \<le> 12" "s \<noteq> []" "name_chars_loop 0 (take 12 s) = Inr r"
  shows "name_of_string s = Inr (Name (string_to_name s))"
proof -
  have "string_to_name_loop s 0 0 = (length s, push_bit (64 - 5 * length s) r)"
    using string_to_name_loop_eq [of 0 0 s r] assms by (simp add: min_absorb1)
  moreover have "char_to_symbol (CHR 0x00) = 0" by code_simp
  moreover have "4 + 5 * (12 - length s) = 64 - 5 * length s" using assms(1) by simp
  ultimately show ?thesis
    using assms by (auto simp: name_of_string_def string_to_name_def c_char_def min_absorb1)
qed

lemma name_of_string_13:
  assumes "length s = 13" "name_chars_loop 0 (take 12 s) = Inr r"
  shows "name_of_string s =
    (if s ! 12 \<notin> set charmap then Inl (Assert ''character is not in allowed character set for names'')
     else if s ! 12 \<notin> set (take 16 charmap)
       then Inl (Assert ''thirteenth character in name cannot be a letter that comes after j'')
     else Inr (Name (string_to_name s)))"
proof -
  have loop: "string_to_name_loop s 0 0 = (12, push_bit 4 r)"
    using string_to_name_loop_eq [of 0 0 s r] assms by simp
  show ?thesis
  proof (cases "s ! 12" rule: char_to_value_cases)
    case (1 d)
    then have u: "unat (of_nat d :: u8) = d" by (simp add: unat_of_nat_small)
    have "ucast (of_nat d :: u8) > (0x0F :: u64) \<longleftrightarrow> \<not> d < 16"
      using u by (auto simp: word_less_nat_alt unat_ucast_up)
    moreover have "s ! 12 \<in> set charmap" using 1 by (auto simp: in_charmap)
    moreover have "s ! 12 \<in> set (take 16 charmap) \<longleftrightarrow> d < 16" using 1 in_charmap_16 by simp
    ultimately show ?thesis
      using assms loop 1 char_to_symbol_value(3) [OF 1(3)] u
      by (simp add: name_of_string_def string_to_name_def c_char_def list_eq_iff_nth_eq)
  next
    case 2
    then show ?thesis
      using assms by (auto simp: name_of_string_def)
  qed
qed

lemma name_of_string_cases:
  "name_of_string s =
     (if length s > 13 then Inl (Assert ''string is too long to be a valid name'')
      else if \<not> set s \<subseteq> set charmap
        then Inl (Assert ''character is not in allowed character set for names'')
      else if length s = 13 \<and> s ! 12 \<notin> set (take 16 charmap)
        then Inl (Assert ''thirteenth character in name cannot be a letter that comes after j'')
      else Inr (Name (string_to_name s)))"
proof -
  let ?bad = "Inl (Assert ''character is not in allowed character set for names'')"
  let ?n = "min (length s) 12"
  consider "length s > 13" | "s = []"
    | r where "length s \<le> 13" "s \<noteq> []" "name_chars_loop 0 (take ?n s) = Inr r"
    | "length s \<le> 13" "s \<noteq> []" "name_chars_loop 0 (take ?n s) = ?bad"
    using name_chars_loop_chars(2) [of 0 "take ?n s"] by (cases "name_chars_loop 0 (take ?n s)") force+
  then show ?thesis
  proof cases
    case 1
    then show ?thesis by (simp add: name_of_string_def)
  next
    case 2
    then show ?thesis
      by (simp add: name_of_string_def string_to_name_def string_to_name_loop.simps c_char_def)
  next
    case 3
    have sub: "set (take 12 s) \<subseteq> set charmap" and run: "name_chars_loop 0 (take 12 s) = Inr r"
      using name_chars_loop_chars(1) [of 0 "take ?n s"] 3(3) by (auto simp: min_def split: if_splits)
    show ?thesis
    proof (cases "length s = 13")
      case True
      then have "s = take 12 s @ [s ! 12]" by (simp add: take_Suc_conv_app_nth [symmetric])
      then have "set s \<subseteq> set charmap \<longleftrightarrow> s ! 12 \<in> set charmap"
        using sub by (metis insert_subset list.simps(15) set_append Un_subset_iff empty_subsetI list.set(1))
      then show ?thesis using name_of_string_13 [OF True run] True by simp
    next
      case False
      then show ?thesis using name_of_string_short [OF _ 3(2) run] 3(1) sub by simp
    qed
  next
    case 4
    then have "\<not> set (take ?n s) \<subseteq> set charmap"
      using name_chars_loop_chars(1) [of 0 "take ?n s"] by force
    then have "\<not> set s \<subseteq> set charmap" using set_take_subset [of ?n s] by blast
    with 4 show ?thesis by (simp add: name_of_string_def)
  qed
qed

subsection \<open>Accepted strings\<close>

lemma accepted_digits:
  assumes "name_of_string s = Inr n"
  shows "\<exists>ds. digits_ok 0 ds \<and> s = map ((!) charmap) ds \<and> name_value n = of_nat (name_val 0 ds)"
proof -
  have s: "length s \<le> 13" "set s \<subseteq> set charmap" "length s = 13 \<longrightarrow> s ! 12 \<in> set (take 16 charmap)"
    using assms by (auto simp: name_of_string_cases split: if_splits)
  obtain ds where ds: "s = map ((!) charmap) ds" "\<forall>d\<in>set ds. d < 32"
    using chars_are_digits [OF s(2)] by blast
  have "last ds < 16" if "length ds = 13"
  proof -
    have "last ds = ds ! 12" using that by (subst last_conv_nth) auto
    moreover have "ds ! 12 < 32" using that ds(2) by simp
    ultimately show ?thesis using s(3) that ds(1) in_charmap_16 by simp
  qed
  then have "digits_ok 0 ds" using s(1) ds by (auto simp: digits_ok_iff)
  then show ?thesis
    using assms name_of_string_charmap [of ds] ds(1) by auto
qed

lemma strip0_digits_val:
  "digits_ok 0 ds \<Longrightarrow> strip0 (name_digits 0 (of_nat (name_val 0 ds)) 13) = strip0 ds"
  using name_digits_val [of 0 ds 13] by (simp add: strip0_append_replicate)

lemma digits_ok_less: "digits_ok i ds \<Longrightarrow> d \<in> set ds \<Longrightarrow> d < 32"
  by (auto simp: digits_ok_iff)

lemma name_of_string_digits:
  "name_of_string (map ((!) charmap) (strip0 (name_digits 0 v 13))) = Inr (Name v)"
  by (simp add: name_of_string_charmap digits_ok_strip0 digits_ok_name_digits name_val_strip0
      name_val_digits_all word_of_nat_unat)

section \<open>Properties of names\<close>

text \<open>
  The checked constructor. \<open>name\<close> of a string aborts exactly when the string has
  more than 13 characters, then when it has a character outside the alphabet, then
  when its thirteenth character does not fit in four bits; otherwise its value is
  that of the unchecked \<open>string_to_name\<close>.
\<close>

theorem name_of_string_spec:
  "name_of_string s =
     (if length s > 13 then Inl (Assert ''string is too long to be a valid name'')
      else if \<not> set s \<subseteq> set charmap
        then Inl (Assert ''character is not in allowed character set for names'')
      else if length s = 13 \<and> s ! 12 \<notin> set (take 16 charmap)
        then Inl (Assert ''thirteenth character in name cannot be a letter that comes after j'')
      else Inr (Name (string_to_name s)))"
  by (rule name_of_string_cases)

text \<open>
  C34. Printing and parsing are inverse. The string of any 64-bit name parses back to that
  name. A string is accepted exactly if it has at most thirteen characters, all of the
  alphabet, and its thirteenth, if any, is among the first sixteen of the alphabet (at most
  \<^verbatim>\<open>j\<close>); an accepted string is printed back without its trailing underscores.
\<close>

theorem name_string_roundtrip:
  assumes "unat b + 13 < 2 ^ 32"
  shows "name_of_string (name_to_string m b n) = Inr n
    \<and> ((\<exists>n'. name_of_string s = Inr n') \<longleftrightarrow>
         length s \<le> 13 \<and> set s \<subseteq> set charmap \<and> (length s = 13 \<longrightarrow> s ! 12 \<in> set (take 16 charmap)))
    \<and> (name_of_string s = Inr n' \<longrightarrow>
         name_to_string m b n' = rev (dropWhile (\<lambda>c. c = CHR ''_'') (rev s)))"
proof (intro conjI impI)
  show "name_of_string (name_to_string m b n) = Inr n"
    using assms by (simp add: name_to_string_eq name_of_string_digits)
  show "(\<exists>n'. name_of_string s = Inr n') \<longleftrightarrow>
      length s \<le> 13 \<and> set s \<subseteq> set charmap \<and> (length s = 13 \<longrightarrow> s ! 12 \<in> set (take 16 charmap))"
    unfolding name_of_string_cases by simp
  assume "name_of_string s = Inr n'"
  then obtain ds where ds: "digits_ok 0 ds" "s = map ((!) charmap) ds" "name_value n' = of_nat (name_val 0 ds)"
    using accepted_digits by blast
  then have "name_to_string m b n' = map ((!) charmap) (strip0 ds)"
    using assms by (simp add: name_to_string_eq strip0_digits_val)
  then show "name_to_string m b n' = rev (dropWhile (\<lambda>c. c = CHR ''_'') (rev s))"
    using strip0_chars [of ds] ds(2) digits_ok_less [OF ds(1)] by simp
qed

theorem name_string_roundtrip_witness:
  "name_of_string (name_to_string (\<lambda>_. 0) 100 (Name 0xE5A0000000000001)) = Inr (Name 0xE5A0000000000001)
   \<and> (\<exists>n'. name_of_string ''wicc_'' = Inr n' \<and> name_to_string (\<lambda>_. 0) 100 n' = ''wicc'')"
proof -
  have ok: "set ''wicc_'' \<subseteq> set charmap" by code_simp
  obtain n' where "name_of_string ''wicc_'' = Inr n'"
    using name_string_roundtrip [of 100 "\<lambda>_. 0" "Name 0xE5A0000000000001" "''wicc_''"] ok by auto
  then show ?thesis
    using name_string_roundtrip [of 100 "\<lambda>_. 0" "Name 0xE5A0000000000001" "''wicc_''" n'] by auto
qed

subsection \<open>Length\<close>

lemma top_digit_nonzero:
  assumes "i \<le> 12" "2 ^ (5 * i) dvd unat v"
  shows "v AND 0xF800000000000000 > 0 \<longleftrightarrow> digit_at i v \<noteq> 0"
proof -
  have "v AND push_bit 59 (mask 5) = push_bit 59 (drop_bit 59 (v AND push_bit 59 (mask 5)))"
    by (rule bit_word_eqI) (auto simp: bit_simps)
  moreover have "(0xF800000000000000 :: u64) = push_bit 59 (mask 5)" by (simp add: mask_eq_exp_minus_1)
  ultimately have "v AND 0xF800000000000000 = 0 \<longleftrightarrow> drop_bit 59 (v AND 0xF800000000000000) = 0"
    by (metis drop_bit_of_0 push_bit_of_0)
  also have "\<dots> \<longleftrightarrow> unat v div 2 ^ 59 = 0"
    by (simp only: top_digit [symmetric] unsigned_eq_0_iff)
  also have "\<dots> \<longleftrightarrow> digit_at i v = 0"
  proof (cases "i = 12")
    case True
    with assms(2) obtain q where "unat v = 2 ^ 60 * q" by (auto elim: dvdE)
    then show ?thesis using True by (simp add: digit_at_eq)
  next
    case False
    then show ?thesis by (simp add: digit_at_eq)
  qed
  finally show ?thesis by (simp add: word_greater_zero_iff)
qed

lemma name_length_loop_eq:
  assumes "i + k = 13" "2 ^ (5 * i) dvd unat v"
  shows "name_length_loop v i k l =
    (if v = 0 then l else of_nat (i + length (strip0 (name_digits i v k)) - 1))"
  using assms
proof (induction k arbitrary: i v l)
  case 0
  then show ?case using name_val_digits [of i v 0] by (simp add: unsigned_eq_0_iff)
next
  case (Suc k)
  let ?v = "push_bit 5 v"
  let ?ds = "name_digits (i + 1) ?v k"
  have i: "i \<le> 12" using Suc.prems by simp
  have v0: "v = 0 \<longleftrightarrow> digit_at i v = 0 \<and> (\<forall>d\<in>set ?ds. d = 0)"
    using name_val_digits [of i v "Suc k"] name_val_eq_0 [of i "name_digits i v (Suc k)"] Suc.prems
    by (auto simp: unsigned_eq_0_iff)
  have step: "name_length_loop v i (Suc k) l =
      name_length_loop ?v (i + 1) k (if digit_at i v \<noteq> 0 then of_nat i else l)"
    by (simp only: name_length_loop.simps top_digit_nonzero [OF i Suc.prems(2)])
  show ?case
  proof (cases "i < 12")
    case True
    then have dvd: "2 ^ (5 * (i + 1)) dvd unat ?v" using shift_dvd Suc.prems(2) by simp
    have "?v = 0 \<longleftrightarrow> (\<forall>d\<in>set ?ds. d = 0)"
      using name_val_digits [OF dvd, of k] name_val_eq_0 [of "i + 1" ?ds] Suc.prems(1)
      by (auto simp: unsigned_eq_0_iff)
    moreover have "strip0 ?ds = [] \<longleftrightarrow> (\<forall>d\<in>set ?ds. d = 0)" by (rule strip0_all)
    ultimately show ?thesis
      unfolding step using Suc.IH [OF _ dvd] Suc.prems(1) v0 by auto
  next
    case False
    then have "k = 0" using Suc.prems(1) by simp
    then show ?thesis unfolding step using v0 by simp
  qed
qed

lemma name_length_eq: "unat (name_length n) = length (strip0 (name_digits 0 (name_value n) 13))"
proof (cases "name_value n = 0")
  case True
  then show ?thesis by (simp add: name_length_def name_digits_0 strip0_all del: name_digits.simps)
next
  case False
  let ?ds = "strip0 (name_digits 0 (name_value n) 13)"
  have "?ds \<noteq> []"
    using False name_val_digits_all [of "name_value n"] name_val_0 [of "name_digits 0 (name_value n) 13" 0]
    by (metis strip0_all unsigned_eq_0_iff)
  moreover have "length ?ds \<le> 13" using length_strip0 [of "name_digits 0 (name_value n) 13"] by simp
  ultimately have "name_length n = of_nat (length ?ds)"
    using False name_length_loop_eq [of 0 13 "name_value n" 0]
    by (cases ?ds) (simp_all add: name_length_def del: name_digits.simps)
  then show ?thesis
    using \<open>length ?ds \<le> 13\<close> by (simp add: unat_of_nat_small del: name_digits.simps)
qed

text \<open>\<open>length\<close> is the length of the printed name.\<close>

theorem name_length_spec:
  assumes "unat b + 13 < 2 ^ 32"
  shows "unat (name_length n) = length (name_to_string m b n)"
  using assms by (simp add: name_to_string_eq name_length_eq del: name_digits.simps)

theorem name_length_spec_witness:
  "unat (name_length (Name 0xE5A0000000000001)) = length (name_to_string (\<lambda>_. 0) 0 (Name 0xE5A0000000000001))"
  by (rule name_length_spec) simp

subsection \<open>Suffix\<close>

text \<open>\<open>dot_mark ds\<close>: the number of bits after the last zero digit of \<open>ds\<close>, 0 if there is none.\<close>

definition dot_mark :: "nat list \<Rightarrow> nat" where
  "dot_mark ds = foldl (\<lambda>m (j, d). if d = 0 then 59 - 5 * j else m) 0 (enumerate 0 ds)"

lemma dot_mark_snoc: "dot_mark (ds @ [x]) = (if x = 0 then 59 - 5 * length ds else dot_mark ds)"
  by (simp add: dot_mark_def enumerate_append_eq)

lemma dot_mark_Nil [simp]: "dot_mark [] = 0"
  by (simp add: dot_mark_def)

lemma dot_mark_no_zero: "0 \<notin> set ds \<Longrightarrow> dot_mark ds = 0"
  by (induction ds rule: rev_induct) (auto simp: dot_mark_snoc)

lemma dot_mark_last: "0 \<notin> set bs \<Longrightarrow> dot_mark (as @ 0 # bs) = 59 - 5 * length as"
proof (induction bs rule: rev_induct)
  case Nil
  then show ?case by (simp add: dot_mark_snoc)
next
  case (snoc x bs)
  then show ?case using dot_mark_snoc [of "as @ 0 # bs" x] by simp
qed

lemma nth_name_digits:
  "t < k \<Longrightarrow> name_digits i v k ! t = digit_at (i + t) (push_bit (5 * t) v)"
proof (induction i v k arbitrary: t rule: name_digits.induct)
  case (2 i v k)
  then show ?case by (cases t) (simp_all add: push_bit_push_bit ac_simps)
qed simp

lemma unat_push_shift:
  fixes v :: u64
  assumes "a + b = 64"
  shows "unat (push_bit a v) = unat v mod 2 ^ b * 2 ^ a"
proof -
  have "(2 :: nat) ^ 64 = 2 ^ b * 2 ^ a" using assms by (simp flip: power_add add: add.commute)
  then show ?thesis by (simp only: unat_push_bit mult_mod_left) simp
qed

lemma mod_power_div: "x mod 2 ^ (r + 5) div 2 ^ r = x div 2 ^ r mod 32" for x :: nat
  using mod_mult2_eq [of x "2 ^ r" 32] by (simp add: power_add)

lemma nth_digit_val:
  assumes "j < 12"
  shows "name_digits 0 v 13 ! j = unat v div 2 ^ (59 - 5 * j) mod 32"
proof -
  have e: "(2 :: nat) ^ 59 = 2 ^ (59 - 5 * j) * 2 ^ (5 * j)" "64 - 5 * j = (59 - 5 * j) + 5"
    using assms by (simp_all flip: power_add)
  have "name_digits 0 v 13 ! j = unat (push_bit (5 * j) v) div 2 ^ 59"
    using assms by (subst nth_name_digits) (simp_all add: digit_at_eq)
  also have "unat (push_bit (5 * j) v) = unat v mod 2 ^ (64 - 5 * j) * 2 ^ (5 * j)"
    using assms by (intro unat_push_shift) simp
  finally show ?thesis
    by (simp only: e div_mult_mult2 [OF power_not_zero [OF zero_neq_numeral [symmetric]]] mod_power_div)
qed

lemma digit_shift:
  assumes "j < 12"
  shows "drop_bit (59 - 5 * j) v AND 0x1F = of_nat (name_digits 0 v 13 ! j)"
proof (rule word_eq_of_natI)
  have "unat (drop_bit (59 - 5 * j) v AND mask 5) = unat v div 2 ^ (59 - 5 * j) mod 32"
    by (simp only: unat_and_mask unat_drop_bit) simp
  then show "unat (drop_bit (59 - 5 * j) v AND 0x1F) = name_digits 0 v 13 ! j"
    using assms by (simp add: nth_digit_val mask_eq_exp_minus_1 del: name_digits.simps)
qed

lemma last_name_digit: "name_digits 0 v 13 ! 12 = unat (v AND 0x0F)"
proof -
  have "unat (v AND mask 4) = unat v mod 16" by (simp only: unat_and_mask) simp
  moreover have "unat (push_bit 60 v) = unat v mod 2 ^ 4 * 2 ^ 60" by (rule unat_push_shift) simp
  ultimately show ?thesis
    by (subst nth_name_digits) (simp_all add: digit_at_eq mask_eq_exp_minus_1)
qed

lemma suffix_loop_eq:
  fixes v :: u64
  defines "ds \<equiv> name_digits 0 v 13"
  assumes "j \<le> 12"
  shows "suffix_loop v (59 - 5 * int j) (of_nat (dot_mark (strip0 (take j ds)))) (of_nat (dot_mark (take j ds))) =
    (of_nat (dot_mark (strip0 (take 12 ds))), of_nat (dot_mark (take 12 ds)))"
  using assms(2)
proof (induction "12 - j" arbitrary: j)
  case 0
  then show ?case by (simp add: suffix_loop.simps)
next
  case (Suc k)
  then have j: "j < 12" by simp
  then have take: "take (Suc j) ds = take j ds @ [ds ! j]"
    by (simp add: ds_def take_Suc_conv_app_nth)
  have len: "length (take j ds) = j" using j by (simp add: ds_def)
  have n: "nat (59 - 5 * int j) = 59 - 5 * j" using j by simp
  have "ds ! j < 32" using nth_digit_val [OF j, of v] by (simp add: ds_def del: name_digits.simps)
  then have "unat (of_nat (ds ! j) :: u64) = ds ! j" by (intro unat_of_nat_small) simp
  then have c: "drop_bit (nat (59 - 5 * int j)) v AND 0x1F = 0 \<longleftrightarrow> ds ! j = 0"
    unfolding n digit_shift [OF j] ds_def [symmetric] by (metis unsigned_eq_0_iff)
  have IH: "suffix_loop v (59 - 5 * int (Suc j)) (of_nat (dot_mark (strip0 (take (Suc j) ds))))
      (of_nat (dot_mark (take (Suc j) ds))) = (of_nat (dot_mark (strip0 (take 12 ds))), of_nat (dot_mark (take 12 ds)))"
    using Suc.hyps j by (intro Suc.hyps(1)) simp_all
  have dm: "dot_mark (take (Suc j) ds) = (if ds ! j = 0 then 59 - 5 * j else dot_mark (take j ds))"
    "dot_mark (strip0 (take (Suc j) ds)) =
       (if ds ! j = 0 then dot_mark (strip0 (take j ds)) else dot_mark (take j ds))"
    by (simp_all add: take dot_mark_snoc strip0_snoc len del: length_take)
  have w: "word_of_int (59 - 5 * int j) = (of_nat (59 - 5 * j) :: u32)"
    using j by (simp add: of_nat_diff)
  have "suffix_loop v (59 - 5 * int j) r t =
      (if ds ! j = 0 then suffix_loop v (59 - 5 * int (Suc j)) r (of_nat (59 - 5 * j))
       else suffix_loop v (59 - 5 * int (Suc j)) t t)" for r t
    unfolding suffix_loop.simps [of v "59 - 5 * int j"] c w Let_def using j by simp
  with IH show ?case
    unfolding dm by (cases "ds ! j = 0") (simp_all only: if_True if_False simp_thms)
qed

lemma strip0_replicate: "\<exists>k. ds = strip0 ds @ replicate k 0"
proof (induction ds rule: rev_induct)
  case (snoc x ds)
  then obtain k where "ds = strip0 ds @ replicate k 0" by blast
  then have "ds @ [0] = strip0 ds @ replicate (Suc k) 0"
    by (metis append.assoc replicate_append_same replicate_Suc)
  then show ?case
  proof (cases "x = 0")
    case True
    then show ?thesis
      using \<open>ds @ [0] = strip0 ds @ replicate (Suc k) 0\<close> by (metis strip0_snoc)
  qed (auto simp: strip0_snoc intro: exI [of _ 0])
qed simp

lemma strip0_last: "strip0 ds \<noteq> [] \<Longrightarrow> last (strip0 ds) \<noteq> 0"
  by (induction ds rule: rev_induct) (auto simp: strip0_snoc)

text \<open>The split of the digits of a name at the last underscore that something follows.\<close>

lemma strip0_split:
  assumes "0 \<in> set (strip0 ds)"
  obtains as bs k where "ds = as @ 0 # bs @ replicate k 0" "strip0 ds = as @ 0 # bs" "0 \<notin> set bs" "bs \<noteq> []"
proof -
  obtain as bs where e: "strip0 ds = as @ 0 # bs" "0 \<notin> set bs"
    using split_list_last [OF assms] by blast
  moreover obtain k where "ds = strip0 ds @ replicate k 0" using strip0_replicate by blast
  moreover have "bs \<noteq> []" using strip0_last [of ds] e by auto
  ultimately show ?thesis using that by (metis append.assoc append_Cons)
qed

lemma name_weight_down: "i + t < 12 \<Longrightarrow> name_weight (i + t) * 2 ^ (5 * t) = name_weight i"
  by (simp add: name_weight_def flip: power_add)

lemma name_val_down: "i + t + length ds \<le> 12 \<Longrightarrow> name_val (i + t) ds * 2 ^ (5 * t) = name_val i ds"
proof (induction ds arbitrary: i)
  case (Cons d ds)
  have "d * name_weight (i + t) * 2 ^ (5 * t) = d * name_weight i"
    using name_weight_down [of i t] Cons.prems by (simp add: mult.assoc)
  then show ?case
    using Cons.IH [of "Suc i"] Cons.prems by (simp add: add_mult_distrib)
qed simp

lemma name_val_dvd: "i + length ds \<le> 12 \<Longrightarrow> 2 ^ (64 - 5 * (i + length ds)) dvd name_val i ds"
proof (induction ds arbitrary: i)
  case (Cons d ds)
  have "(2 :: nat) ^ (64 - 5 * (i + length (d # ds))) dvd 2 ^ (59 - 5 * i)"
    using Cons.prems by (intro le_imp_power_dvd) simp
  then show ?case
    using Cons.IH [of "Suc i"] Cons.prems by (auto simp: name_weight_def intro!: dvd_add)
qed simp

lemma unat_suffix_mask:
  fixes v :: u64
  assumes "r + 4 \<le> 63"
  shows "unat (v AND (push_bit (r + 4) 1 - 16)) = unat v div 16 mod 2 ^ r * 16"
proof -
  have m: "push_bit (r + 4) (1 :: u64) - 16 = push_bit 4 (mask r)"
      "v AND push_bit 4 (mask r) = push_bit 4 (drop_bit 4 v AND mask r)"
    by (simp add: push_bit_eq_mult mask_eq_exp_minus_1 power_add algebra_simps)
      (rule bit_word_eqI, auto simp: bit_simps)
  have u: "unat (drop_bit 4 v AND mask r) = unat v div 2 ^ 4 mod 2 ^ r"
    by (simp only: unat_and_mask unat_drop_bit)
  have "unat v div 2 ^ 4 mod 2 ^ r < 2 ^ r" by simp
  also have "\<dots> \<le> (2 :: nat) ^ 59" using assms by (intro power_increasing) simp_all
  finally have "unat (drop_bit 4 v AND mask r) * 2 ^ 4 < 2 ^ LENGTH(64)" by (simp only: u) simp
  from unat_push_bit_small [OF this] show ?thesis
    by (simp only: m u) simp
qed

lemma digits_ok_append: "digits_ok i (xs @ ys) \<Longrightarrow> digits_ok i xs \<and> digits_ok (i + length xs) ys"
  by (induction i xs rule: digits_ok.induct) (auto simp: digits_ok_iff)

lemma digits_ok_shift: "digits_ok (i + t) ds \<Longrightarrow> digits_ok i ds"
  by (cases "t = 0") (auto simp: digits_ok_iff)

text \<open>The parts of the value when the digits split after position \<open>p\<close>, and what \<open>suffix\<close> computes.\<close>

lemma split_digits:
  assumes "name_digits 0 v 13 = cs @ gs @ [x]" "length cs = Suc p" "p < 12"
  shows "length gs = 11 - p" "unat (v AND 0x0F) = x" "digits_ok (Suc p) (gs @ [x])"
    "unat v div 16 mod 2 ^ (55 - 5 * p) * 16 = name_val (Suc p) gs"
proof -
  show len: "length gs = 11 - p"
    using arg_cong [OF assms(1), of length] assms(2) by (simp del: name_digits.simps)
  show x: "unat (v AND 0x0F) = x"
    using last_name_digit [of v] assms len by (simp add: nth_append del: name_digits.simps)
  show ok: "digits_ok (Suc p) (gs @ [x])"
    using digits_ok_append [of 0 cs "gs @ [x]"] digits_ok_name_digits [of 0 13 v] assms by simp
  have "name_val (Suc p) (gs @ [x]) < 2 ^ (59 - 5 * p)"
  proof -
    have "(2 :: nat) ^ 64 = 2 ^ (59 - 5 * p) * 2 ^ (5 * Suc p)" using assms(3) by (simp flip: power_add)
    with name_val_bound [OF ok] show ?thesis by (simp only: mult_less_cancel2)
  qed
  moreover have "2 ^ (59 - 5 * p) dvd name_val 0 cs"
    using name_val_dvd [of 0 cs] assms(2,3) by simp
  moreover have "unat v = name_val 0 cs + name_val (Suc p) (gs @ [x])"
    using name_val_digits_all [of v] assms(1,2) by (simp add: name_val_append del: name_digits.simps)
  ultimately have "unat v mod 2 ^ (59 - 5 * p) = name_val (Suc p) gs + x"
    using len assms(3) by (auto simp: name_val_append name_weight_def elim!: dvdE)
  moreover have "59 - 5 * p = 4 + (55 - 5 * p)" using assms(3) by simp
  then have "(2 :: nat) ^ (59 - 5 * p) = 16 * 2 ^ (55 - 5 * p)" by (simp only: power_add) simp
  moreover have "unat v mod 16 = x"
    using x unat_and_mask [of v 4] by (simp add: mask_eq_exp_minus_1)
  ultimately show "unat v div 16 mod 2 ^ (55 - 5 * p) * 16 = name_val (Suc p) gs"
    using mod_mult2_eq [of "unat v" 16 "2 ^ (55 - 5 * p)"] by simp
qed

lemma suffix_value:
  assumes "name_digits 0 v 13 = cs @ gs @ [x]" "length cs = Suc p" "p < 12"
  shows "unat (push_bit (5 * p + 5) (v AND (push_bit (59 - 5 * p) 1 - 16)) + push_bit (5 * p + 4) (v AND 0x0F))
    = name_val 0 (gs @ [x])"
proof -
  note s = split_digits [OF assms]
  have a: "name_val (Suc p) gs * 2 ^ (5 * p + 5) = name_val 0 gs"
    using name_val_down [of 0 "Suc p" gs] s(1) assms(3) by (simp add: add.commute)
  have b: "name_val 0 (gs @ [x]) = name_val 0 gs + x * 2 ^ (5 * p + 4)"
    using s(1) assms(3) by (cases "p = 11") (auto simp: name_val_append name_weight_def)
  have bound: "name_val 0 gs + x * 2 ^ (5 * p + 4) < 2 ^ 64"
    using name_val_bound [of 0 "gs @ [x]"] digits_ok_shift [of 0 "Suc p"] s(3) b by simp
  have "unat (v AND (push_bit (59 - 5 * p) 1 - 16)) = name_val (Suc p) gs"
    using unat_suffix_mask [of "55 - 5 * p" v] assms(3) s(4) by simp
  then have "unat (push_bit (5 * p + 5) (v AND (push_bit (59 - 5 * p) 1 - 16))) = name_val 0 gs"
    using bound a by (subst unat_push_bit_small) simp_all
  moreover have "unat (push_bit (5 * p + 4) (v AND 0x0F)) = x * 2 ^ (5 * p + 4)"
    using bound s(2) by (subst unat_push_bit_small) simp_all
  ultimately show ?thesis
    unfolding unat_word_ariths(1) b using bound by simp
qed

lemma name_suffix_unfold:
  fixes v :: u64
  defines "m \<equiv> dot_mark (strip0 (name_digits 0 v 13))"
  shows "name_suffix (Name v) =
    (if m = 0 then Name v
     else Name (push_bit (64 - m) (v AND (push_bit m 1 - 16)) + push_bit (63 - m) (v AND 0x0F)))"
proof -
  let ?ds = "name_digits 0 v 13"
  have "?ds = take 12 ?ds @ [?ds ! 12]"
    using take_Suc_conv_app_nth [of 12 ?ds] by (simp del: name_digits.simps)
  then have m: "m = (if v AND 0x0F \<noteq> 0 then dot_mark (take 12 ?ds) else dot_mark (strip0 (take 12 ?ds)))"
    unfolding m_def using strip0_snoc [of "take 12 ?ds" "?ds ! 12"] last_name_digit [of v]
    by (metis dot_mark_snoc unsigned_eq_0_iff)
  have "dot_mark xs \<le> 59" for xs
    by (induction xs rule: rev_induct) (simp_all add: dot_mark_snoc)
  then have le: "m \<le> 59" unfolding m_def .
  then have u: "unat (of_nat m :: u32) = m" by (simp add: unat_of_nat_small)
  then have z: "(of_nat m :: u32) = 0 \<longleftrightarrow> m = 0" by (metis unsigned_eq_0_iff)
  have "(64 - of_nat m :: u32) = of_nat (64 - m)" "(64 - of_nat m - 1 :: u32) = of_nat (63 - m)"
    using le by (simp_all add: of_nat_diff)
  then have sh: "unat (64 - of_nat m :: u32) = 64 - m" "unat (64 - of_nat m - 1 :: u32) = 63 - m"
    by (simp_all add: unat_of_nat_small)
  have loop: "suffix_loop v 59 0 0 = (of_nat (dot_mark (strip0 (take 12 ?ds))), of_nat (dot_mark (take 12 ?ds)))"
    using suffix_loop_eq [of 0 v] by (simp del: name_digits.simps)
  have rem: "(if v AND 0x0F \<noteq> 0 then of_nat (dot_mark (take 12 ?ds)) else of_nat (dot_mark (strip0 (take 12 ?ds)))) =
      (of_nat m :: u32)"
    using m by simp
  show ?thesis
    unfolding name_suffix_def Let_def name.sel loop prod.case rem by (simp only: z sh u)
qed

lemma strip0_no_zero: "0 \<notin> set ds \<Longrightarrow> strip0 ds = ds"
  by (induction ds) auto

lemma name_suffix_digits:
  "strip0 (name_digits 0 (name_value (name_suffix (Name v))) 13) =
     rev (takeWhile (\<lambda>d. d \<noteq> 0) (rev (strip0 (name_digits 0 v 13))))"
proof (cases "0 \<in> set (strip0 (name_digits 0 v 13))")
  case False
  then have tw: "takeWhile (\<lambda>d. d \<noteq> 0) (rev (strip0 (name_digits 0 v 13))) = rev (strip0 (name_digits 0 v 13))"
    by (intro takeWhile_eq_all_conv [THEN iffD2] ballI) (metis set_rev)
  show ?thesis
    unfolding name_suffix_unfold dot_mark_no_zero [OF False] tw by (simp del: name_digits.simps)
next
  case True
  obtain as bs k where ds: "name_digits 0 v 13 = as @ 0 # bs @ replicate k 0"
      "strip0 (name_digits 0 v 13) = as @ 0 # bs" "0 \<notin> set bs" "bs \<noteq> []"
    using strip0_split [OF True] .
  define p where "p = length as"
  have p: "p < 12"
    using arg_cong [OF ds(1), of length] ds(4) by (cases bs) (simp_all add: p_def del: name_digits.simps)
  obtain gs x where fs: "bs @ replicate k 0 = gs @ [x]"
    using ds(4) by (metis append_is_Nil_conv rev_exhaust)
  have split: "name_digits 0 v 13 = (as @ [0]) @ gs @ [x]" using ds(1) fs by simp
  have m: "dot_mark (strip0 (name_digits 0 v 13)) = 59 - 5 * p"
    using dot_mark_last [OF ds(3)] ds(2) by (simp add: p_def)
  have "64 - (59 - 5 * p) = 5 * p + 5" "63 - (59 - 5 * p) = 5 * p + 4" "59 - 5 * p \<noteq> 0" using p by simp_all
  with suffix_value [OF split _ p] m
  have "unat (name_value (name_suffix (Name v))) = name_val 0 (gs @ [x])"
    by (simp only: name_suffix_unfold p_def name.sel if_False length_append list.size)
  then have "name_value (name_suffix (Name v)) = of_nat (name_val 0 (gs @ [x]))"
    by (rule word_eq_of_natI)
  moreover have "digits_ok 0 (gs @ [x])"
    using split_digits(3) [OF split _ p] digits_ok_shift [of 0 "Suc p"] by (simp add: p_def)
  moreover have "strip0 (gs @ [x]) = bs"
    using strip0_append_replicate [of bs k] strip0_no_zero [OF ds(3)] fs by simp
  moreover have "takeWhile (\<lambda>d. d \<noteq> 0) (rev bs @ 0 # rev as) = rev bs"
    using ds(3) by (subst takeWhile_append2) (auto intro: gr0I)
  ultimately show ?thesis
    by (simp add: strip0_digits_val ds(2) del: name_digits.simps)
qed

text \<open>
  \<open>suffix\<close> is the part of the printed name after its last underscore, and the
  whole name when there is none.
\<close>

theorem name_suffix_spec:
  assumes "unat b + 13 < 2 ^ 32"
  shows "name_to_string m b (name_suffix n) =
    rev (takeWhile (\<lambda>c. c \<noteq> CHR ''_'') (rev (name_to_string m b n)))"
proof -
  let ?ds = "strip0 (name_digits 0 (name_value n) 13)"
  have "d < 32" if "d \<in> set ?ds" for d
    using digits_ok_less [OF digits_ok_strip0 [OF digits_ok_name_digits [of 0 13]] that] by simp
  then have "takeWhile (\<lambda>c. c \<noteq> CHR ''_'') (map ((!) charmap) (rev ?ds)) =
      map ((!) charmap) (takeWhile (\<lambda>d. d \<noteq> 0) (rev ?ds))"
    by (subst takeWhile_map) (auto simp: charmap_underscore intro!: arg_cong [of _ _ "map _"] takeWhile_cong)
  then show ?thesis
    using assms name_suffix_digits [of "name_value n"]
    by (simp add: name_to_string_eq rev_map del: name_digits.simps)
qed

theorem name_suffix_spec_witness:
  "name_to_string (\<lambda>_. 0) 0 (name_suffix (Name 0xE5A0000000000001)) =
    rev (takeWhile (\<lambda>c. c \<noteq> CHR ''_'') (rev (name_to_string (\<lambda>_. 0) 0 (Name 0xE5A0000000000001))))"
  by (rule name_suffix_spec) simp

subsection \<open>The tools' copies\<close>

lemma tool_index: "unat (tmp AND 0x1f) = unat tmp mod 32" "unat (tmp AND 0x0f) = unat tmp mod 16" for tmp :: u64
  using unat_and_mask [of tmp 5] unat_and_mask [of tmp 4] by (simp_all add: mask_eq_exp_minus_1)

lemma tool_digits_loop_tail:
  assumes "0 < i" "i + k = 13" "length str = 13"
  shows "tool_digits_loop tmp i str k =
    map (\<lambda>j. charmap ! (unat tmp div 32 ^ (k - 1 - j) mod 32)) [0..<k] @ drop k str"
  using assms
proof (induction k arbitrary: i tmp str)
  case (Suc k)
  let ?c = "charmap ! (unat tmp mod 32)"
  have k: "12 - i = k" "k < 13" using Suc.prems by simp_all
  have "tool_digits_loop tmp i str (Suc k) = tool_digits_loop (drop_bit 5 tmp) (i + 1) (str[k := ?c]) k"
    using Suc.prems(1) k by (simp add: tool_index)
  also have "\<dots> = map (\<lambda>j. charmap ! (unat tmp div 32 div 32 ^ (k - 1 - j) mod 32)) [0..<k] @ drop k (str[k := ?c])"
    using Suc.IH [of "i + 1" "str[k := ?c]" "drop_bit 5 tmp"] Suc.prems by (simp add: unat_drop_bit)
  also have "drop k (str[k := ?c]) = ?c # drop (Suc k) str"
    using k Suc.prems(3) by (subst Cons_nth_drop_Suc [symmetric]) simp_all
  also have "map (\<lambda>j. charmap ! (unat tmp div 32 div 32 ^ (k - 1 - j) mod 32)) [0..<k] =
      map (\<lambda>j. charmap ! (unat tmp div 32 ^ (k - j) mod 32)) [0..<k]"
  proof (rule map_cong [OF refl])
    fix j
    assume "j \<in> set [0..<k]"
    then have "k - j = Suc (k - 1 - j)" by simp
    then show "charmap ! (unat tmp div 32 div 32 ^ (k - 1 - j) mod 32) = charmap ! (unat tmp div 32 ^ (k - j) mod 32)"
      by (simp only: power_Suc div_mult2_eq)
  qed
  finally show ?case by simp
qed simp

lemma tool_digits_loop_eq:
  "tool_digits_loop v 0 (replicate 13 (CHR ''_'')) 13 = map ((!) charmap) (name_digits 0 v 13)"
proof (rule nth_equalityI)
  let ?str = "(replicate 13 (CHR ''_''))[12 := charmap ! (unat v mod 16)]"
  have "tool_digits_loop v 0 (replicate 13 (CHR ''_'')) 13 = tool_digits_loop (drop_bit 4 v) 1 ?str 12"
    by (simp only: numeral_eq_Suc pred_numeral_simps tool_digits_loop.simps) (simp add: tool_index)
  then have run: "tool_digits_loop v 0 (replicate 13 (CHR ''_'')) 13 =
      map (\<lambda>j. charmap ! (unat v div 16 div 32 ^ (11 - j) mod 32)) [0..<12] @ [charmap ! (unat v mod 16)]"
    using tool_digits_loop_tail [of 1 12 ?str "drop_bit 4 v"]
    by (simp add: unat_drop_bit drop_update_swap)
  then show "length (tool_digits_loop v 0 (replicate 13 (CHR ''_'')) 13) = length (map ((!) charmap) (name_digits 0 v 13))"
    by (simp del: name_digits.simps)
  fix j
  assume "j < length (tool_digits_loop v 0 (replicate 13 (CHR ''_'')) 13)"
  then have "j < 12 \<or> j = 12" using run by auto
  then show "tool_digits_loop v 0 (replicate 13 (CHR ''_'')) 13 ! j = map ((!) charmap) (name_digits 0 v 13) ! j"
  proof
    assume j: "j < 12"
    then have "59 - 5 * j = 4 + 5 * (11 - j)" by simp
    then have "(2 :: nat) ^ (59 - 5 * j) = 16 * 32 ^ (11 - j)" by (simp only: power_add power_mult) simp
    then show ?thesis
      using j run nth_digit_val [OF j, of v] by (simp add: nth_append div_mult2_eq del: name_digits.simps)
  next
    assume j: "j = 12"
    then show ?thesis
      using run last_name_digit [of v] by (simp add: nth_append tool_index del: name_digits.simps)
  qed
qed

lemma string_to_name_accepted: "name_of_string s = Inr n \<Longrightarrow> string_to_name s = name_value n"
  by (auto simp: name_of_string_cases split: if_splits)

text \<open>
  The ABI generator's name functions agree with the runtime library.
  \<open>validate_name\<close> accepts exactly the strings that the runtime prints, and on every
  name but 0 the tools print what the runtime prints; the name 0, which the runtime
  prints as the empty string, is printed by the tools as thirteen underscores.
\<close>

theorem tools_agree_on_names:
  assumes "unat b + 13 < 2 ^ 32"
  shows "(validate_name s = Inr () \<longleftrightarrow> (\<exists>n. s = name_to_string m b n))
    \<and> tool_name_to_string v = (if v = 0 then ''_____________'' else name_to_string m b (Name v))"
proof
  let ?chars = "\<lambda>v. map ((!) charmap) (strip0 (name_digits 0 v 13))"
  have small: "\<forall>d\<in>set (name_digits 0 v 13). d < 32" for v
    using digits_ok_less [OF digits_ok_name_digits [of 0 13]] by auto
  have trim: "rev (dropWhile (\<lambda>c. c = CHR ''_'') (rev (tool_digits_loop v 0 (replicate 13 (CHR ''_'')) 13))) = ?chars v" for v
    using strip0_chars [OF small] by (simp add: tool_digits_loop_eq del: name_digits.simps)
  have len: "length (?chars v) \<le> 13" for v
    using length_strip0 [of "name_digits 0 v 13"] by simp
  have val: "string_to_name (?chars v) = v" for v
    using string_to_name_accepted [OF name_of_string_digits [of v]] by simp
  have "validate_name s = Inr () \<longleftrightarrow> (\<exists>v. s = ?chars v)"
    unfolding validate_name_def Let_def trim using len val by (metis Inl_Inr_False linorder_not_le)
  also have "\<dots> \<longleftrightarrow> (\<exists>n. s = name_to_string m b n)"
    unfolding name_to_string_eq [OF assms] by (metis name.sel)
  finally show "validate_name s = Inr () \<longleftrightarrow> (\<exists>n. s = name_to_string m b n)" .
  have ex: "(\<exists>c\<in>set (tool_digits_loop v 0 (replicate 13 (CHR ''_'')) 13). c \<noteq> CHR ''_'') \<longleftrightarrow> v \<noteq> 0"
    using small [of v] charmap_underscore name_val_eq_0 [of 0 "name_digits 0 v 13"] name_val_digits_all [of v]
    by (auto simp: tool_digits_loop_eq unsigned_eq_0_iff simp del: name_digits.simps)
  have zero: "tool_digits_loop 0 0 (replicate 13 (CHR ''_'')) 13 = ''_____________''" by code_simp
  show "tool_name_to_string v = (if v = 0 then ''_____________'' else name_to_string m b (Name v))"
    unfolding tool_name_to_string_def tool_trim_right_dots_def ex trim name_to_string_eq [OF assms] name.sel
    using zero by (cases "v = 0") simp_all
qed

theorem tools_agree_on_names_witness:
  "validate_name ''wasmio'' = Inr () \<longleftrightarrow> (\<exists>n. ''wasmio'' = name_to_string (\<lambda>_. 0) 0 n)"
  using tools_agree_on_names [of 0 "''wasmio''" "\<lambda>_. 0" 0] by simp

interpretation name_codec: codec "prim_enc \<circ> name_value" "\<lambda>_. True" ser_name deser_name "Name 0"
proof -
  have "ser_name = ser_class name_value ser_primitive" "deser_name = deser_class name_value Name deser_primitive"
    by (simp_all add: fun_eq_iff ser_name_def deser_name_def ser_class_def deser_class_def)
  then show "codec (prim_enc \<circ> name_value) (\<lambda>_. True) ser_name deser_name (Name 0)"
    using codec_class [OF prim64.codec_axioms, of Name name_value "Name 0"] by (simp add: comp_def)
qed

end
