(* ===== verification/Regid.thy ===== *)
theory Regid
  imports Strings Composites
begin

text \<open>
  Account identities, a block height and an index in the block packed in 64 bits:
  \<^verbatim>\<open>libraries/wasmlib/core/regid.hpp\<close>. A \<^verbatim>\<open>string_view\<close> is its characters together
  with those that follow them in memory, because the constructor reads past its end.
\<close>

datatype regid = Regid (regid_value: u64)

definition regid_default :: regid where
  "regid_default = Regid 0"

definition regid_message :: string where
  "regid_message = CHR 0x27 # ''-'' @ CHR 0x27 # '' must be between two numbers, ex. '' @ CHR 0x27 # ''999-80'' @ [CHR 0x27]"

text \<open>
  The position of the missing separator is the largest \<^verbatim>\<open>size_t\<close>: it passes the test,
  and adding one to it gives zero.
\<close>

definition regid_of_string :: "string \<Rightarrow> string \<Rightarrow> regid res" where
  "regid_of_string str behind =
     (let pos = (case find_char (CHR ''-'') str of Some p \<Rightarrow> of_nat p | None \<Rightarrow> - 1) :: u32 in
      bindr (check (pos > 0) regid_message) (\<lambda>_.
      bindr (atoi (c_str (str @ behind))) (\<lambda>h.
      bindr (atoi (c_str (drop (unat (pos + 1)) str @ behind))) (\<lambda>i.
        let height = word_of_int h :: u64; index = word_of_int i in
        Inr (Regid (push_bit 20 height + index))))))"

definition regid_to_bool :: "regid \<Rightarrow> bool" where
  "regid_to_bool r = (regid_value r \<noteq> 0)"

definition regid_to_string :: "regid \<Rightarrow> string" where
  "regid_to_string r =
     (let height = drop_bit 20 (regid_value r); index = regid_value r AND 0xFFFFF in
      show_int (sint height) @ ''-'' @ show_int (sint index))"

definition regid_eq :: "regid \<Rightarrow> regid \<Rightarrow> bool" where
  "regid_eq a b = (regid_value a = regid_value b)"

definition regid_neq :: "regid \<Rightarrow> regid \<Rightarrow> bool" where
  "regid_neq a b = (regid_value a \<noteq> regid_value b)"

definition regid_less :: "regid \<Rightarrow> regid \<Rightarrow> bool" where
  "regid_less a b = (regid_value a < regid_value b)"

definition ser_regid :: "regid \<Rightarrow> sink \<Rightarrow> sink res" where
  "ser_regid r ds = ser_primitive (regid_value r) ds"

definition deser_regid :: "regid \<Rightarrow> datastream \<Rightarrow> (regid \<times> datastream) res" where
  "deser_regid r ds = bindr (deser_primitive (regid_value r) ds) (\<lambda>(v, ds'). Inr (Regid v, ds'))"

lemma regid_parts:
  "unat (drop_bit 20 w) * 2 ^ 20 + unat (w AND 0xFFFFF) = unat w" for w :: u64
proof -
  have "unat (w AND mask 20) = unat w mod 2 ^ 20" by (rule unat_and_mask)
  then have "unat (w AND 0xFFFFF) = unat w mod 2 ^ 20" by (simp add: mask_eq_exp_minus_1)
  then show ?thesis by (simp add: unat_drop_bit)
qed

lemma show_int_nat: "show_int (int n) = show_nat n"
  by (simp add: show_int_def)

lemma numeral_chars:
  "CHR ''-'' \<notin> set (show_nat n)" "c_str (show_nat n) = show_nat n"
proof -
  have "\<forall>c\<in>set (show_nat n). is_digit c" using show_nat_digits by simp
  then show "CHR ''-'' \<notin> set (show_nat n)" "c_str (show_nat n) = show_nat n"
    by (auto simp: c_str_def takeWhile_eq_all_conv is_digit_def less_eq_char_def)
qed

lemma atoi_numeral_dash:
  assumes "n < 2 ^ 31"
  shows "atoi (show_nat n @ CHR ''-'' # s) = Inr (int n)"
proof -
  have dig: "show_nat n \<noteq> []" "\<forall>c\<in>set (show_nat n). is_digit c" "dec_val (show_nat n) = n"
    using show_nat_digits by simp_all
  then obtain c cs where cs: "show_nat n = c # cs" "is_digit c" by (cases "show_nat n") auto
  have "takeWhile is_digit (show_nat n @ CHR ''-'' # s) = show_nat n"
    using dig(2) by (simp add: is_digit_def less_eq_char_def)
  then show ?thesis
    using cs digit_not_special [OF cs(2)] assms dig(3) by (simp add: atoi_def)
qed

lemma regid_of_string_parts:
  assumes "h < 2 ^ 31" "i < 2 ^ 31"
  shows "regid_of_string (show_nat h @ ''-'' @ show_nat i) [] = Inr (Regid (push_bit 20 (of_nat h) + of_nat i))"
proof -
  let ?s = "show_nat h @ CHR ''-'' # show_nat i"
  have f: "find_char (CHR ''-'') ?s = Some (length (show_nat h))"
    using numeral_chars(1) by (rule find_char_split [THEN iffD2])
  have len: "length (show_nat h) \<le> 10" "show_nat h \<noteq> []"
    using length_show_nat [of h 9] assms(1) show_nat_digits by simp_all
  then have n: "unat (of_nat (length (show_nat h)) :: u32) = length (show_nat h)" by (intro unat_of_nat_u32) simp
  then have pos: "(0 :: u32) < of_nat (length (show_nat h))" using len by (simp add: word_less_nat_alt)
  have next_pos: "unat (of_nat (length (show_nat h)) + 1 :: u32) = length (show_nat h) + 1"
    using n len by (simp add: unat_word_ariths)
  have "c_str ?s = ?s"
    using show_nat_digits [of h] show_nat_digits [of i]
    by (auto simp: c_str_def takeWhile_eq_all_conv is_digit_def less_eq_char_def)
  then show ?thesis
    using f pos next_pos assms atoi_numeral_dash [of h] atoi_digits [of "show_nat i"] show_nat_digits [of i] numeral_chars(2)
    by (simp add: regid_of_string_def bindr_check)
qed

text \<open>
  Account identities and strings. An identity whose height is below \<open>2 ^ 31\<close> prints
  as height and index and parses back; a number without a separator is not rejected, but
  becomes both the height and the index.
\<close>

theorem regid_string_roundtrip:
  "(unat (drop_bit 20 (regid_value r)) < 2 ^ 31 \<longrightarrow> regid_of_string (regid_to_string r) [] = Inr r)
   \<and> (n < 2 ^ 31 \<longrightarrow> regid_of_string (show_nat n) [] = Inr (Regid (push_bit 20 (of_nat n) + of_nat n)))"
proof (intro conjI impI)
  let ?h = "drop_bit 20 (regid_value r)" and ?i = "regid_value r AND 0xFFFFF"
  assume h: "unat ?h < 2 ^ 31"
  have "unat ?i < 2 ^ 20"
    using unat_and_mask [of "regid_value r" 20] by (simp add: mask_eq_exp_minus_1)
  moreover have "sint w = int (unat w)" if "unat w < 2 ^ 31" for w :: u64
    using that by (intro sint_eq_unat) simp
  ultimately have s: "sint ?h = int (unat ?h)" "sint ?i = int (unat ?i)" "unat ?i < 2 ^ 31"
    using h by (simp_all del: of_nat_unat)
  have "push_bit 20 (of_nat (unat ?h)) + of_nat (unat ?i) = (of_nat (unat ?h * 2 ^ 20 + unat ?i) :: u64)"
    by (simp add: push_bit_eq_mult)
  also have "\<dots> = regid_value r" unfolding regid_parts by simp
  finally show "regid_of_string (regid_to_string r) [] = Inr r"
    using regid_of_string_parts [OF h s(3)] s(1,2) by (simp add: regid_to_string_def show_int_nat del: of_nat_unat)
next
  assume n: "n < 2 ^ 31"
  have "find_char (CHR ''-'') (show_nat n) = None" using numeral_chars(1) by (simp add: find_char_None)
  then show "regid_of_string (show_nat n) [] = Inr (Regid (push_bit 20 (of_nat n) + of_nat n))"
    using n atoi_digits [of "show_nat n"] show_nat_digits [of n] numeral_chars(2)
    by (simp add: regid_of_string_def bindr_check Let_def word_gt_0)
qed

theorem regid_string_roundtrip_witness:
  "regid_of_string ''999-80'' [] = Inr (Regid 0x3E700050) \<and> regid_of_string ''12'' [] = Inr (Regid 0xC0000C)"
proof -
  have "regid_to_string (Regid 0x3E700050) = ''999-80''" "show_nat 12 = ''12''" by code_simp+
  moreover have "unat (drop_bit 20 (regid_value (Regid 0x3E700050))) < 2 ^ 31" by simp
  ultimately show ?thesis using regid_string_roundtrip [of "Regid 0x3E700050" 12] by simp
qed

interpretation regid_codec: codec "prim_enc \<circ> regid_value" "\<lambda>_. True" ser_regid deser_regid "Regid 0"
proof -
  have "ser_regid = ser_class regid_value ser_primitive" "deser_regid = deser_class regid_value Regid deser_primitive"
    by (simp_all add: fun_eq_iff ser_regid_def deser_regid_def ser_class_def deser_class_def)
  then show "codec (prim_enc \<circ> regid_value) (\<lambda>_. True) ser_regid deser_regid (Regid 0)"
    using codec_class [OF prim64.codec_axioms, of Regid regid_value "Regid 0"] by (simp add: comp_def)
qed

end
