(* ===== verification/Table.thy ===== *)
theory Table
  imports Name Regid
begin

text \<open>
  The table of rows over the key-value database of the host:
  \<^verbatim>\<open>libraries/wasmlib/contracts/table.hpp\<close>. The host functions of
  \<^verbatim>\<open>core/database.h\<close> are not part of the repository: they are the fields of a record
  \<open>database\<close> over an arbitrary type of world states, and \<open>db_laws\<close> states what the code
  relies on. The template parameters of the class (the name of the table, the row type
  with its operators, default value and key) are a record \<open>row_type\<close>; all tables of the
  repository have a 64-bit primary key. Every operation takes the memory and the
  address at which the vectors it packs into, or the block it allocates, are placed.
\<close>

section \<open>The host database\<close>

record 'w database =
  db_store :: "u64 \<Rightarrow> byte list \<Rightarrow> byte list \<Rightarrow> 'w \<Rightarrow> 'w res"
  db_update :: "u64 \<Rightarrow> byte list \<Rightarrow> byte list \<Rightarrow> 'w \<Rightarrow> 'w res"
  db_remove :: "u64 \<Rightarrow> byte list \<Rightarrow> 'w \<Rightarrow> 'w res"
  db_get :: "byte list \<Rightarrow> 'w \<Rightarrow> byte list"

text \<open>
  A successful write is read back and leaves every other key alone; a removed key reads
  as no bytes. Nothing is assumed about when a call succeeds.
\<close>

definition db_laws :: "'w database \<Rightarrow> bool" where
  "db_laws h \<longleftrightarrow>
     (\<forall>p k v w w'. db_store h p k v w = Inr w' \<longrightarrow> (\<forall>k'. db_get h k' w' = (if k' = k then v else db_get h k' w))) \<and>
     (\<forall>p k v w w'. db_update h p k v w = Inr w' \<longrightarrow> (\<forall>k'. db_get h k' w' = (if k' = k then v else db_get h k' w))) \<and>
     (\<forall>p k w w'. db_remove h p k w = Inr w' \<longrightarrow> (\<forall>k'. db_get h k' w' = (if k' = k then [] else db_get h k' w)))"

section \<open>The class\<close>

record 'r row_type =
  row_table :: name
  row_ser :: "'r \<Rightarrow> sink \<Rightarrow> sink res"
  row_deser :: "'r \<Rightarrow> datastream \<Rightarrow> ('r \<times> datastream) res"
  row_default :: 'r
  row_key :: "'r \<Rightarrow> u64"

record table =
  table_code :: regid
  table_scope :: u64

definition table_make :: "regid \<Rightarrow> u64 \<Rightarrow> table" where
  "table_make code scope = \<lparr>table_code = code, table_scope = scope\<rparr>"

definition no_payer :: regid where
  "no_payer = regid_default"

definition table_key :: "mem \<Rightarrow> u32 \<Rightarrow> 'r row_type \<Rightarrow> table \<Rightarrow> u64 \<Rightarrow> byte list res" where
  "table_key m a tt tb primary =
     pack m a (ser_tuple ser_primitive (ser_tuple ser_primitive (ser_tuple ser_primitive ser_tuple_nil)))
       (name_value (row_table tt), table_scope tb, primary, ())"

definition table_emplace ::
  "'w database \<Rightarrow> mem \<Rightarrow> u32 \<Rightarrow> 'r row_type \<Rightarrow> table \<Rightarrow> regid \<Rightarrow> ('r \<Rightarrow> 'r res) \<Rightarrow> 'w \<Rightarrow> 'w res" where
  "table_emplace h m a tt tb payer constructor w =
     bindr (constructor (row_default tt)) (\<lambda>obj.
     bindr (table_key m a tt tb (row_key tt obj)) (\<lambda>key.
     bindr (pack m a (row_ser tt) obj) (\<lambda>val.
       db_store h (regid_value payer) key val w)))"

definition table_modify ::
  "'w database \<Rightarrow> mem \<Rightarrow> u32 \<Rightarrow> 'r row_type \<Rightarrow> table \<Rightarrow> 'r \<Rightarrow> regid \<Rightarrow> ('r \<Rightarrow> 'r res) \<Rightarrow> 'w \<Rightarrow> ('r \<times> 'w) res" where
  "table_modify h m a tt tb obj payer updater w =
     bindr (updater obj) (\<lambda>obj.
     bindr (table_key m a tt tb (row_key tt obj)) (\<lambda>key.
     bindr (pack m a (row_ser tt) obj) (\<lambda>val.
     bindr (db_update h (regid_value payer) key val w) (\<lambda>w'. Inr (obj, w')))))"

definition table_erase_key :: "'w database \<Rightarrow> mem \<Rightarrow> u32 \<Rightarrow> 'r row_type \<Rightarrow> table \<Rightarrow> u64 \<Rightarrow> regid \<Rightarrow> 'w \<Rightarrow> 'w res" where
  "table_erase_key h m a tt tb primary payer w =
     bindr (table_key m a tt tb primary) (\<lambda>key. db_remove h (regid_value payer) key w)"

definition table_erase :: "'w database \<Rightarrow> mem \<Rightarrow> u32 \<Rightarrow> 'r row_type \<Rightarrow> table \<Rightarrow> 'r \<Rightarrow> regid \<Rightarrow> 'w \<Rightarrow> 'w res" where
  "table_erase h m a tt tb obj payer w = table_erase_key h m a tt tb (row_key tt obj) payer w"

definition table_get ::
  "'w database \<Rightarrow> mem \<Rightarrow> u32 \<Rightarrow> 'r row_type \<Rightarrow> table \<Rightarrow> 'r \<Rightarrow> u64 \<Rightarrow> 'w \<Rightarrow> (bool \<times> 'r) res" where
  "table_get h m a tt tb t primary w =
     bindr (table_key m a tt tb primary) (\<lambda>key.
       let v = db_get h key w in
       if length v = 0 then Inr (False, t)
       else bindr (unpack_bytes (row_deser tt) (row_default tt) m a v) (\<lambda>t'. Inr (True, t')))"

section \<open>Keys\<close>

text \<open>
  The literals \<^verbatim>\<open>"..."_n\<close> that name tables and actions are converted at compile time,
  which rejects a literal that is not a name.
\<close>

definition name_literal :: "string \<Rightarrow> name" where
  "name_literal s = (case name_of_string s of Inr n \<Rightarrow> n | Inl _ \<Rightarrow> Name 0)"

definition key_bytes :: "name \<Rightarrow> u64 \<Rightarrow> u64 \<Rightarrow> byte list" where
  "key_bytes t s k = prim_enc (name_value t) @ prim_enc s @ prim_enc k"

lemma prim_enc_inject: "prim_enc v = prim_enc w \<longleftrightarrow> v = w" for v w :: u64
  using prim64.enc_prefix_free [where v = v and w = w and bs = "[]" and cs = "[]"] by auto

lemma key_bytes_inject: "key_bytes t s k = key_bytes t' s' k' \<longleftrightarrow> t = t' \<and> s = s' \<and> k = k'"
  by (auto simp: key_bytes_def prim_enc_inject name.expand)

interpretation key_codec: codec
  "pair_enc prim_enc (pair_enc prim_enc (pair_enc prim_enc (\<lambda>_. [])))"
  "pair_ok (\<lambda>_. True) (pair_ok (\<lambda>_. True) (pair_ok (\<lambda>_. True) (\<lambda>_. True)))"
  "ser_tuple ser_primitive (ser_tuple ser_primitive (ser_tuple ser_primitive ser_tuple_nil))"
  "deser_tuple deser_primitive (deser_tuple deser_primitive (deser_tuple deser_primitive deser_tuple_nil))"
  "(0 :: u64, 0 :: u64, 0 :: u64, ())"
  by (intro codec2.codec_tuple codec2.intro prim64.codec_axioms tuple_nil.codec_axioms)

lemma table_key_eq:
  assumes "unat a + 24 < 2 ^ 32"
  shows "table_key m a tt tb primary = Inr (key_bytes (row_table tt) (table_scope tb) primary)"
  using key_codec.pack_enc [of "(name_value (row_table tt), table_scope tb, primary, ())" a m] assms
  by (simp add: table_key_def key_bytes_def pair_enc_def pair_ok_def)

section \<open>Tables refine maps\<close>

text \<open>
  The abstract state of a table is a map from scopes and keys to rows. The relation to
  the database: at the key of every row stand the bytes of the row, at every other key
  of the table none.
\<close>

type_synonym 'r rows = "u64 \<Rightarrow> u64 \<Rightarrow> 'r option"

definition holds_rows :: "'w database \<Rightarrow> 'r row_type \<Rightarrow> ('r \<Rightarrow> byte list) \<Rightarrow> 'r rows \<Rightarrow> 'w \<Rightarrow> bool" where
  "holds_rows h tt enc rows w \<longleftrightarrow>
     (\<forall>s k. db_get h (key_bytes (row_table tt) s k) w = (case rows s k of None \<Rightarrow> [] | Some r \<Rightarrow> enc r))"

definition set_row :: "'r rows \<Rightarrow> u64 \<Rightarrow> u64 \<Rightarrow> 'r option \<Rightarrow> 'r rows" where
  "set_row rows s k r = rows(s := (rows s)(k := r))"

lemma set_row_apply: "set_row rows s k r s' k' = (if s' = s \<and> k' = k then r else rows s' k')"
  by (simp add: set_row_def)

text \<open>The contract of a row type: a codec whose rows take at least one and at most 1024 bytes.\<close>

locale row_codec = codec enc "\<lambda>_. True" "row_ser tt" "row_deser tt" "row_default tt"
  for tt :: "'r row_type" and enc +
  assumes enc_size: "0 < length (enc r)" "length (enc r) \<le> 1024"
begin

lemma holds_after_write:
  assumes "holds_rows h tt enc rows w"
    and "\<forall>k'. db_get h k' w' = (if k' = key_bytes (row_table tt) s k then enc r else db_get h k' w)"
  shows "holds_rows h tt enc (set_row rows s k (Some r)) w'"
  using assms by (auto simp: holds_rows_def key_bytes_inject set_row_apply)

lemma pack_row: "unat a + 1024 < 2 ^ 32 \<Longrightarrow> pack m a (row_ser tt) r = Inr (enc r)"
  using enc_size [of r] by (intro pack_enc) simp_all

lemma get_row:
  assumes "holds_rows h tt enc rows w" "unat a + 1024 < 2 ^ 32"
  shows "table_get h m a tt tb t k w =
    Inr (case rows (table_scope tb) k of None \<Rightarrow> (False, t) | Some r \<Rightarrow> (True, r))"
proof (cases "rows (table_scope tb) k")
  case None
  then show ?thesis
    using assms by (simp add: table_get_def table_key_eq holds_rows_def)
next
  case (Some r)
  then have "unpack_bytes (row_deser tt) (row_default tt) m a (enc r) = Inr r"
    using assms(2) enc_size [of r] by (intro unpack_enc) simp_all
  then show ?thesis
    using Some assms enc_size(1) [of r] by (simp add: table_get_def table_key_eq holds_rows_def)
qed

lemma emplace_row:
  assumes "db_laws h" "holds_rows h tt enc rows w" "unat a + 1024 < 2 ^ 32"
    and "table_emplace h m a tt tb payer constructor w = Inr w'"
  obtains r where "constructor (row_default tt) = Inr r"
    "holds_rows h tt enc (set_row rows (table_scope tb) (row_key tt r) (Some r)) w'"
    "\<And>k'. k' \<noteq> key_bytes (row_table tt) (table_scope tb) (row_key tt r) \<Longrightarrow> db_get h k' w' = db_get h k' w"
proof -
  obtain r where r: "constructor (row_default tt) = Inr r"
      "db_store h (regid_value payer) (key_bytes (row_table tt) (table_scope tb) (row_key tt r)) (enc r) w = Inr w'"
    using assms(3,4) by (auto simp: table_emplace_def res_simps table_key_eq pack_row)
  then have "\<forall>k'. db_get h k' w' =
      (if k' = key_bytes (row_table tt) (table_scope tb) (row_key tt r) then enc r else db_get h k' w)"
    using assms(1) unfolding db_laws_def by blast
  with r(1) holds_after_write [OF assms(2) this] show ?thesis by (intro that [of r]) simp_all
qed

lemma emplace_total:
  assumes "\<And>p k v. \<exists>w'. db_store h p k v w = Inr w'" "unat a + 1024 < 2 ^ 32" "constructor (row_default tt) = Inr r"
  shows "\<exists>w'. table_emplace h m a tt tb payer constructor w = Inr w'"
  using assms by (simp add: table_emplace_def table_key_eq pack_row)

lemma modify_total:
  assumes "\<And>p k v. \<exists>w'. db_update h p k v w = Inr w'" "unat a + 1024 < 2 ^ 32" "updater obj = Inr r"
  shows "\<exists>w'. table_modify h m a tt tb obj payer updater w = Inr (r, w')"
  using assms(1) [of "regid_value payer" "key_bytes (row_table tt) (table_scope tb) (row_key tt r)" "enc r"] assms(2,3)
  by (auto simp: table_modify_def table_key_eq pack_row)

lemma modify_row:
  assumes "db_laws h" "holds_rows h tt enc rows w" "unat a + 1024 < 2 ^ 32"
    and "table_modify h m a tt tb obj payer updater w = Inr (r, w')"
  shows "updater obj = Inr r"
    and "holds_rows h tt enc (set_row rows (table_scope tb) (row_key tt r) (Some r)) w'"
    and "k' \<noteq> key_bytes (row_table tt) (table_scope tb) (row_key tt r) \<Longrightarrow> db_get h k' w' = db_get h k' w"
proof -
  have r: "updater obj = Inr r"
      "db_update h (regid_value payer) (key_bytes (row_table tt) (table_scope tb) (row_key tt r)) (enc r) w = Inr w'"
    using assms(3,4) by (auto simp: table_modify_def res_simps table_key_eq pack_row)
  then have upd: "\<forall>k'. db_get h k' w' =
      (if k' = key_bytes (row_table tt) (table_scope tb) (row_key tt r) then enc r else db_get h k' w)"
    using assms(1) unfolding db_laws_def by blast
  show "updater obj = Inr r" by (rule r(1))
  show "holds_rows h tt enc (set_row rows (table_scope tb) (row_key tt r) (Some r)) w'"
    by (rule holds_after_write [OF assms(2) upd])
  show "k' \<noteq> key_bytes (row_table tt) (table_scope tb) (row_key tt r) \<Longrightarrow> db_get h k' w' = db_get h k' w"
    using upd by simp
qed

lemma erase_row:
  assumes "db_laws h" "holds_rows h tt enc rows w" "unat a + 1024 < 2 ^ 32"
    and "table_erase h m a tt tb r payer w = Inr w'"
  shows "holds_rows h tt enc (set_row rows (table_scope tb) (row_key tt r) None) w'"
    and "k' \<noteq> key_bytes (row_table tt) (table_scope tb) (row_key tt r) \<Longrightarrow> db_get h k' w' = db_get h k' w"
proof -
  have "db_remove h (regid_value payer) (key_bytes (row_table tt) (table_scope tb) (row_key tt r)) w = Inr w'"
    using assms(3,4) by (simp add: table_erase_def table_erase_key_def table_key_eq)
  then have upd: "\<forall>k'. db_get h k' w' =
      (if k' = key_bytes (row_table tt) (table_scope tb) (row_key tt r) then [] else db_get h k' w)"
    using assms(1) unfolding db_laws_def by blast
  then show "holds_rows h tt enc (set_row rows (table_scope tb) (row_key tt r) None) w'"
    using assms(2) by (auto simp: holds_rows_def key_bytes_inject set_row_apply)
  show "k' \<noteq> key_bytes (row_table tt) (table_scope tb) (row_key tt r) \<Longrightarrow> db_get h k' w' = db_get h k' w"
    using upd by simp
qed

end

text \<open>Writes to one table do not touch a table of another name.\<close>

lemma holds_rows_frame:
  assumes "holds_rows h tt enc rows w" "row_table tt \<noteq> t"
    and "\<And>k'. k' \<noteq> key_bytes t s k \<Longrightarrow> db_get h k' w' = db_get h k' w"
  shows "holds_rows h tt enc rows w'"
  using assms by (simp add: holds_rows_def key_bytes_inject)

text \<open>A database that keeps the laws: a finite map of byte strings.\<close>

definition map_database :: "((byte list \<Rightarrow> byte list) database)" where
  "map_database = \<lparr>db_store = \<lambda>_ k v w. Inr (w(k := v)), db_update = \<lambda>_ k v w. Inr (w(k := v)),
     db_remove = \<lambda>_ k w. Inr (w(k := [])), db_get = \<lambda>k w. w k\<rparr>"

lemma map_database_laws: "db_laws map_database"
  by (simp add: db_laws_def map_database_def)

end
