(* ===== verification/Inline_Transaction.thy ===== *)
theory Inline_Transaction
  imports Table
begin

text \<open>
  Authorisation, notification and inline transactions:
  \<^verbatim>\<open>libraries/wasmlib/contracts/inline_transaction.hpp\<close>, with the return value and
  log functions of \<^verbatim>\<open>return.hpp\<close> and \<^verbatim>\<open>make_log.hpp\<close> and the maintainer query of
  \<^verbatim>\<open>wasmlib.cpp\<close>. The imported host functions are the fields of a record over an
  arbitrary type of world states; \<open>chain_laws\<close> states the documented behaviour that
  contracts rely on.
\<close>

record 'w chain =
  chain_db :: "'w database"
  host_require_auth :: "u64 \<Rightarrow> 'w \<Rightarrow> unit res"
  host_has_auth :: "u64 \<Rightarrow> 'w \<Rightarrow> bool"
  host_is_account :: "u64 \<Rightarrow> 'w \<Rightarrow> bool"
  host_notify_recipient :: "u64 \<Rightarrow> 'w \<Rightarrow> 'w res"
  host_send_inline :: "byte list \<Rightarrow> 'w \<Rightarrow> 'w res"
  host_call :: "byte list \<Rightarrow> 'w \<Rightarrow> (u64 \<times> 'w) res"
  host_call_with_return :: "byte list \<Rightarrow> 'w \<Rightarrow> (u64 \<times> 'w) res"
  host_get_maintainer :: "u64 \<Rightarrow> 'w \<Rightarrow> u64"
  host_set_return :: "byte list \<Rightarrow> 'w \<Rightarrow> 'w res"
  host_make_log :: "u64 \<Rightarrow> u64 \<Rightarrow> string \<Rightarrow> byte list \<Rightarrow> 'w \<Rightarrow> 'w res"
  host_action_data :: "'w \<Rightarrow> byte list"
  host_current_receiver :: "'w \<Rightarrow> u64"
  host_get_return :: "u32 \<Rightarrow> 'w \<Rightarrow> byte list"
  host_current_time :: "'w \<Rightarrow> u64"
  host_active_producers :: "'w \<Rightarrow> u64 list"
  host_txid :: "'w \<Rightarrow> byte list"
  host_system_asset_price :: "u64 \<Rightarrow> u64 \<Rightarrow> 'w \<Rightarrow> byte list"
  host_emit_result :: "string \<Rightarrow> string \<Rightarrow> byte list \<Rightarrow> 'w \<Rightarrow> 'w res"

text \<open>
  The database keeps its laws; \<^verbatim>\<open>require_auth\<close> fails for an account that has not
  authorised the transaction; notifying, queueing an inline transaction, setting the
  return value and logging leave the database alone.
\<close>

definition chain_laws :: "'w chain \<Rightarrow> bool" where
  "chain_laws ch \<longleftrightarrow> db_laws (chain_db ch) \<and>
     (\<forall>n w. host_require_auth ch n w = Inr () \<longrightarrow> host_has_auth ch n w) \<and>
     (\<forall>n w w' k. host_notify_recipient ch n w = Inr w' \<longrightarrow> db_get (chain_db ch) k w' = db_get (chain_db ch) k w) \<and>
     (\<forall>b w w' k. host_send_inline ch b w = Inr w' \<longrightarrow> db_get (chain_db ch) k w' = db_get (chain_db ch) k w) \<and>
     (\<forall>b w w' k. host_set_return ch b w = Inr w' \<longrightarrow> db_get (chain_db ch) k w' = db_get (chain_db ch) k w) \<and>
     (\<forall>p r t d w w' k. host_make_log ch p r t d w = Inr w' \<longrightarrow> db_get (chain_db ch) k w' = db_get (chain_db ch) k w)"

section \<open>Wrappers of the host functions\<close>

definition notify_recipient :: "'w chain \<Rightarrow> regid \<Rightarrow> 'w \<Rightarrow> 'w res" where
  "notify_recipient ch notify_account w = host_notify_recipient ch (regid_value notify_account) w"

fun notify_recipients :: "'w chain \<Rightarrow> regid \<Rightarrow> regid list \<Rightarrow> 'w \<Rightarrow> 'w res" where
  "notify_recipients ch notify_account [] w = notify_recipient ch notify_account w"
| "notify_recipients ch notify_account (r # remaining_accounts) w =
     bindr (host_notify_recipient ch (regid_value notify_account) w) (notify_recipients ch r remaining_accounts)"

definition require_auth :: "'w chain \<Rightarrow> regid \<Rightarrow> 'w \<Rightarrow> unit res" where
  "require_auth ch n w = host_require_auth ch (regid_value n) w"

definition current_receiver :: "'w chain \<Rightarrow> 'w \<Rightarrow> regid" where
  "current_receiver ch w = Regid (host_current_receiver ch w)"

text \<open>The data of the current action are copied to a buffer at address \<open>a\<close> and unpacked.\<close>

definition action_data_size :: "'w chain \<Rightarrow> 'w \<Rightarrow> u32" where
  "action_data_size ch w = of_nat (length (host_action_data ch w))"

definition read_action_data :: "'w chain \<Rightarrow> mem \<Rightarrow> u32 \<Rightarrow> u32 \<Rightarrow> 'w \<Rightarrow> mem" where
  "read_action_data ch m msg len w = mem_write m msg (take (unat len) (host_action_data ch w))"

definition unpack_action_data ::
  "('t \<Rightarrow> datastream \<Rightarrow> ('t \<times> datastream) res) \<Rightarrow> 't \<Rightarrow> 'w chain \<Rightarrow> mem \<Rightarrow> u32 \<Rightarrow> 'w \<Rightarrow> 't res" where
  "unpack_action_data deser dflt ch m a w =
     (let size = action_data_size ch w in unpack deser dflt (read_action_data ch m a size w) a size)"

definition has_auth :: "'w chain \<Rightarrow> regid \<Rightarrow> 'w \<Rightarrow> bool" where
  "has_auth ch n w = host_has_auth ch (regid_value n) w"

definition is_account :: "'w chain \<Rightarrow> regid \<Rightarrow> 'w \<Rightarrow> bool" where
  "is_account ch n w = host_is_account ch (regid_value n) w"

definition get_maintainer :: "'w chain \<Rightarrow> regid \<Rightarrow> 'w \<Rightarrow> regid" where
  "get_maintainer ch contr w = Regid (host_get_maintainer ch (regid_value contr) w)"

definition set_return :: "'w chain \<Rightarrow> byte list \<Rightarrow> 'w \<Rightarrow> 'w res" where
  "set_return ch bytes w = host_set_return ch bytes w"

text \<open>The vector is filled with zeros first; the host writes at most its size.\<close>

definition get_return :: "'w chain \<Rightarrow> u32 \<Rightarrow> 'w \<Rightarrow> byte list" where
  "get_return ch sz w =
     (let bytes = take (unat sz) (host_get_return ch sz w) in bytes @ replicate (unat sz - length bytes) 0)"

definition make_log :: "'w chain \<Rightarrow> regid \<Rightarrow> string \<Rightarrow> byte list \<Rightarrow> 'w \<Rightarrow> 'w res" where
  "make_log ch owner topic val w = host_make_log ch 0 (regid_value owner) topic val w"

section \<open>Transactions\<close>

record permission =
  perm_account :: regid
  perm_name :: name

definition permission_default :: permission where
  "permission_default = \<lparr>perm_account = regid_default, perm_name = Name 0\<rparr>"

definition ser_permission :: "permission \<Rightarrow> sink \<Rightarrow> sink res" where
  "ser_permission p ds = bindr (ser_regid (perm_account p) ds) (ser_name (perm_name p))"

definition deser_permission :: "permission \<Rightarrow> datastream \<Rightarrow> (permission \<times> datastream) res" where
  "deser_permission p ds =
     bindr (deser_regid (perm_account p) ds) (\<lambda>(r, ds'). bindr (deser_name (perm_name p) ds') (\<lambda>(n, ds'').
       Inr (\<lparr>perm_account = r, perm_name = n\<rparr>, ds'')))"

record transaction =
  tx_account :: regid
  tx_name :: name
  tx_authorization :: "permission list"
  tx_data :: "byte list"

definition transaction_make ::
  "mem \<Rightarrow> u32 \<Rightarrow> ('t \<Rightarrow> sink \<Rightarrow> sink res) \<Rightarrow> regid \<Rightarrow> name \<Rightarrow> permission list \<Rightarrow> 't \<Rightarrow> transaction res" where
  "transaction_make m a ser acct n auths val =
     bindr (pack m a ser val) (\<lambda>d.
       Inr \<lparr>tx_account = acct, tx_name = n, tx_authorization = auths, tx_data = d\<rparr>)"

definition ser_transaction :: "transaction \<Rightarrow> sink \<Rightarrow> sink res" where
  "ser_transaction t ds =
     bindr (ser_regid (tx_account t) ds) (\<lambda>ds. bindr (ser_name (tx_name t) ds) (\<lambda>ds.
     bindr (ser_vector ser_permission (tx_authorization t) ds) (ser_bytes (tx_data t))))"

definition deser_transaction :: "transaction \<Rightarrow> datastream \<Rightarrow> (transaction \<times> datastream) res" where
  "deser_transaction t ds =
     bindr (deser_regid (tx_account t) ds) (\<lambda>(r, ds). bindr (deser_name (tx_name t) ds) (\<lambda>(n, ds).
     bindr (deser_vector deser_permission permission_default (tx_authorization t) ds) (\<lambda>(p, ds).
     bindr (deser_bytes (tx_data t) ds) (\<lambda>(d, ds).
       Inr (\<lparr>tx_account = r, tx_name = n, tx_authorization = p, tx_data = d\<rparr>, ds)))))"

definition transaction_send :: "'w chain \<Rightarrow> mem \<Rightarrow> u32 \<Rightarrow> transaction \<Rightarrow> 'w \<Rightarrow> 'w res" where
  "transaction_send ch m a t w = bindr (pack m a ser_transaction t) (\<lambda>bytes. host_send_inline ch bytes w)"

definition transaction_call :: "'w chain \<Rightarrow> mem \<Rightarrow> u32 \<Rightarrow> transaction \<Rightarrow> 'w \<Rightarrow> (u64 \<times> 'w) res" where
  "transaction_call ch m a t w = bindr (pack m a ser_transaction t) (\<lambda>bytes. host_call ch bytes w)"

text \<open>The method with a return value calls the same host function as the one without.\<close>

definition transaction_call_with_return :: "'w chain \<Rightarrow> mem \<Rightarrow> u32 \<Rightarrow> transaction \<Rightarrow> 'w \<Rightarrow> (u64 \<times> 'w) res" where
  "transaction_call_with_return ch m a t w = bindr (pack m a ser_transaction t) (\<lambda>bytes. host_call ch bytes w)"

definition data_as ::
  "('t \<Rightarrow> datastream \<Rightarrow> ('t \<times> datastream) res) \<Rightarrow> 't \<Rightarrow> mem \<Rightarrow> u32 \<Rightarrow> transaction \<Rightarrow> 't res" where
  "data_as deser dflt m a t = unpack_bytes deser dflt m a (tx_data t)"

section \<open>The wire format of transactions\<close>

definition permission_enc :: "permission \<Rightarrow> byte list" where
  "permission_enc p = prim_enc (regid_value (perm_account p)) @ prim_enc (name_value (perm_name p))"

interpretation permission_codec: codec permission_enc "\<lambda>_. True" ser_permission deser_permission permission_default
proof -
  have "codec (\<lambda>v. (prim_enc \<circ> regid_value) (perm_account v) @ (prim_enc \<circ> name_value) (perm_name v))
      (\<lambda>v. True \<and> True) ser_permission deser_permission permission_default"
    by (rule codec_of_two_fields [OF regid_codec.codec_axioms name_codec.codec_axioms])
      (simp_all add: permission_default_def regid_default_def ser_permission_def deser_permission_def)
  then show "codec permission_enc (\<lambda>_. True) ser_permission deser_permission permission_default"
    by (simp add: permission_enc_def [abs_def])
qed

end
