(* ===== verification/Symbol.thy ===== *)
theory Symbol
  imports Name Strings
begin

text \<open>
  Currency symbols: \<^verbatim>\<open>libraries/wasmlib/core/symbol.hpp\<close>. A symbol code holds up
  to seven characters in a 64-bit integer, first character in the lowest byte; a
  symbol is a code shifted left by eight bits with the number of decimals in the
  lowest byte. A plain \<^verbatim>\<open>char\<close> is signed on the target, so or-ing one into an integer
  extends its sign.
\<close>

section \<open>Definitions\<close>

datatype symbol_code = Symbol_code (code_raw: u64)

fun string_to_symbol_code_loop :: "string \<Rightarrow> nat \<Rightarrow> u64 \<Rightarrow> u64" where
  "string_to_symbol_code_loop str i code =
     (let code' = push_bit 8 code OR (scast (byte_of_char (c_char str i)) :: u64)
      in case i of 0 \<Rightarrow> code' | Suc j \<Rightarrow> string_to_symbol_code_loop str j code')"

definition string_to_symbol_code :: "string \<Rightarrow> u64" where
  "string_to_symbol_code str = string_to_symbol_code_loop str (length (c_str str)) 0"

definition valid_character_in_symbol_name :: "char \<Rightarrow> bool" where
  "valid_character_in_symbol_name c =
     (if c \<ge> CHR ''0'' \<and> c \<le> CHR ''9'' then True
      else if c \<ge> CHR ''A'' \<and> c \<le> CHR ''Z'' then True
      else if c \<ge> CHR ''a'' \<and> c \<le> CHR ''z'' then True
      else if c = CHR ''-'' then True
      else if c = CHR ''@'' then True
      else if c = CHR ''.'' then True
      else if c = CHR ''#'' then True
      else False)"

primrec symbol_code_loop :: "u64 \<Rightarrow> string \<Rightarrow> u64 res" where
  "symbol_code_loop v [] = Inr v"
| "symbol_code_loop v (c # cs) =
     bindr (check (valid_character_in_symbol_name c) ''invalid character in symbol name'') (\<lambda>_.
       symbol_code_loop (push_bit 8 v OR scast (byte_of_char c)) cs)"

definition symbol_code_of_string :: "string \<Rightarrow> symbol_code res" where
  "symbol_code_of_string str =
     bindr (if length str > 7 then check False ''string is too long to be a valid symbol_code'' else Inr ()) (\<lambda>_.
       mapr Symbol_code (symbol_code_loop 0 (rev str)))"

text \<open>The inner \<^verbatim>\<open>do\<close> loop of \<open>is_valid\<close>, \<open>None\<close> when it returns false, and the outer loop.\<close>

function code_zero_loop :: "u64 \<Rightarrow> nat \<Rightarrow> (u64 \<times> nat) option" where
  "code_zero_loop symb i =
     (let symb' = drop_bit 8 symb in
      if symb' AND 0xFF \<noteq> 0 then None
      else if i + 1 < 7 then code_zero_loop symb' (i + 1) else Some (symb', i + 1))"
  by pat_completeness auto
termination
  by (relation "measure (\<lambda>(symb, i). 7 - i)") auto

declare code_zero_loop.simps [simp del]

lemma code_zero_loop_grows: "code_zero_loop symb i = Some (symb', j) \<Longrightarrow> i < j"
proof (induction symb i rule: code_zero_loop.induct)
  case (1 symb i)
  then show ?case
    by (subst (asm) (2) code_zero_loop.simps) (force simp: Let_def split: if_splits)
qed

function code_valid_loop :: "u64 \<Rightarrow> nat \<Rightarrow> bool" where
  "code_valid_loop symb i =
     (if i < 7 then
        if \<not> valid_character_in_symbol_name (char_of_byte (ucast (symb AND 0xFF))) then False
        else let symb' = drop_bit 8 symb in
          if symb' AND 0xFF = 0 then
            case code_zero_loop symb' i of None \<Rightarrow> False | Some (symb'', j) \<Rightarrow> code_valid_loop symb'' (j + 1)
          else code_valid_loop symb' (i + 1)
      else True)"
  by pat_completeness auto
termination
  by (relation "measure (\<lambda>(symb, i). 7 - i)") (auto dest: code_zero_loop_grows)

declare code_valid_loop.simps [simp del]

definition code_is_valid :: "symbol_code \<Rightarrow> bool" where
  "code_is_valid sc = code_valid_loop (code_raw sc) 0"

function code_length_loop :: "u64 \<Rightarrow> u32 \<Rightarrow> u32" where
  "code_length_loop symb len =
     (if symb AND 0xFF \<noteq> 0 \<and> len \<le> 7 then code_length_loop (drop_bit 8 symb) (len + 1) else len)"
  by pat_completeness auto
termination
proof (relation "measure (\<lambda>(symb, len). 8 - unat len)")
  fix symb :: u64 and len :: u32
  assume "symb AND 0xFF \<noteq> 0 \<and> len \<le> 7"
  then have "unat len \<le> 7" by (simp add: word_le_nat_alt)
  then show "((drop_bit 8 symb, len + 1), symb, len) \<in> measure (\<lambda>(symb, len). 8 - unat len)"
    by (simp add: unat_word_ariths)
qed simp

declare code_length_loop.simps [simp del]

definition code_length :: "symbol_code \<Rightarrow> u32" where
  "code_length sc = code_length_loop (code_raw sc) 0"

definition code_to_bool :: "symbol_code \<Rightarrow> bool" where
  "code_to_bool sc = (code_raw sc \<noteq> 0)"

fun code_write_loop :: "mem \<Rightarrow> u32 \<Rightarrow> u64 \<Rightarrow> nat \<Rightarrow> mem \<times> u32" where
  "code_write_loop m bgn v 0 = (m, bgn)"
| "code_write_loop m bgn v (Suc k) =
     (if v = 0 then (m, bgn)
      else code_write_loop (m(bgn := ucast (v AND 0xFF))) (bgn + 1) (drop_bit 8 v) k)"

definition code_write_as_string :: "symbol_code \<Rightarrow> mem \<Rightarrow> u32 \<Rightarrow> u32 \<Rightarrow> mem \<times> u32" where
  "code_write_as_string sc m bgn fin =
     (if bgn + 7 < bgn \<or> bgn + 7 > fin then (m, bgn) else code_write_loop m bgn (code_raw sc) 7)"

definition code_to_string :: "mem \<Rightarrow> u32 \<Rightarrow> symbol_code \<Rightarrow> string" where
  "code_to_string m buffer sc =
     (let (m', fin) = code_write_as_string sc m buffer (buffer + 7)
      in map char_of_byte (mem_read m' buffer (unat (fin - buffer))))"

definition code_eq :: "symbol_code \<Rightarrow> symbol_code \<Rightarrow> bool" where
  "code_eq a b = (code_raw a = code_raw b)"

definition code_neq :: "symbol_code \<Rightarrow> symbol_code \<Rightarrow> bool" where
  "code_neq a b = (code_raw a \<noteq> code_raw b)"

definition code_less :: "symbol_code \<Rightarrow> symbol_code \<Rightarrow> bool" where
  "code_less a b = (code_raw a < code_raw b)"

definition ser_symbol_code :: "symbol_code \<Rightarrow> sink \<Rightarrow> sink res" where
  "ser_symbol_code sc ds = sink_write (le_bytes 8 (code_raw sc)) ds"

definition deser_symbol_code :: "symbol_code \<Rightarrow> datastream \<Rightarrow> (symbol_code \<times> datastream) res" where
  "deser_symbol_code sc ds = bindr (ds_read 8 ds) (\<lambda>(bs, ds'). Inr (Symbol_code (le_word bs), ds'))"

datatype symbol = Symbol (symbol_raw: u64)

definition max_precision :: u8 where
  "max_precision = 18"

definition symbol_make :: "symbol_code \<Rightarrow> u8 \<Rightarrow> symbol res" where
  "symbol_make sc precision =
     (let value = push_bit 8 (code_raw sc) OR ucast precision
      in bindr (check (precision \<le> max_precision) ''precision should be <= 18'') (\<lambda>_. Inr (Symbol value)))"

definition symbol_of_string :: "string \<Rightarrow> u8 \<Rightarrow> symbol res" where
  "symbol_of_string ss precision =
     bindr (symbol_code_of_string ss) (\<lambda>sc.
       let value = push_bit 8 (code_raw sc) OR ucast precision
       in bindr (check (precision \<le> max_precision) ''precision should be <= 18'') (\<lambda>_. Inr (Symbol value)))"

definition symbol_precision :: "symbol \<Rightarrow> u8" where
  "symbol_precision s = ucast (symbol_raw s AND 0xFF)"

definition symbol_get_code :: "symbol \<Rightarrow> symbol_code" where
  "symbol_get_code s = Symbol_code (drop_bit 8 (symbol_raw s))"

definition symbol_is_valid :: "symbol \<Rightarrow> bool" where
  "symbol_is_valid s = (code_is_valid (symbol_get_code s) \<and> symbol_precision s \<le> max_precision)"

fun p10_loop :: "u64 \<Rightarrow> nat \<Rightarrow> u64" where
  "p10_loop p10 0 = p10"
| "p10_loop p10 (Suc p) = p10_loop (p10 * 10) p"

definition precision_in_10 :: "symbol \<Rightarrow> u64 res" where
  "precision_in_10 s =
     bindr (check (symbol_precision s \<le> max_precision) ''precision should be <= 18'') (\<lambda>_.
       Inr (p10_loop 1 (unat (symbol_precision s))))"

definition symbol_to_bool :: "symbol \<Rightarrow> bool" where
  "symbol_to_bool s = (symbol_raw s \<noteq> 0)"

text \<open>
  Inside the class the unqualified \<^verbatim>\<open>to_string(precision())\<close> names the member itself,
  whose parameter is a \<^verbatim>\<open>bool\<close>: the call recurs with the precision read as a truth
  value. The first argument bounds the depth of the recursion.
\<close>

fun symbol_to_string :: "nat \<Rightarrow> mem \<Rightarrow> u32 \<Rightarrow> symbol \<Rightarrow> bool \<Rightarrow> string option" where
  "symbol_to_string 0 m buffer s show_precision = None"
| "symbol_to_string (Suc fuel) m buffer s show_precision =
     (case (if show_precision
            then map_option (\<lambda>r. r @ '','') (symbol_to_string fuel m buffer s (symbol_precision s \<noteq> 0))
            else Some []) of
        None \<Rightarrow> None
      | Some str \<Rightarrow> Some (str @ code_to_string m buffer (symbol_get_code s)))"

definition symbol_from_string :: "string \<Rightarrow> symbol res" where
  "symbol_from_string from =
     (let s = trim from in
      bindr (check (s \<noteq> []) ''creating symbol from empty string'') (\<lambda>_.
      bindr (check (find_char (CHR '','') s \<noteq> None) ''missing comma in symbol. eg. 8,WICC'') (\<lambda>_.
        let comma_pos = the (find_char (CHR '','') s);
            prec_part = take comma_pos s
        in bindr (atoi (c_str prec_part)) (\<lambda>i.
             let p = word_of_int i :: u8;
                 name_part = drop (comma_pos + 1) s
             in bindr (check (p \<le> max_precision) ''precision should be <= 18'') (\<lambda>_.
                  symbol_of_string name_part p)))))"

definition symbol_eq :: "symbol \<Rightarrow> symbol \<Rightarrow> bool" where
  "symbol_eq a b = (symbol_raw a = symbol_raw b)"

definition symbol_neq :: "symbol \<Rightarrow> symbol \<Rightarrow> bool" where
  "symbol_neq a b = (symbol_raw a \<noteq> symbol_raw b)"

definition symbol_less :: "symbol \<Rightarrow> symbol \<Rightarrow> bool" where
  "symbol_less a b = (symbol_raw a < symbol_raw b)"

definition ser_symbol :: "symbol \<Rightarrow> sink \<Rightarrow> sink res" where
  "ser_symbol s ds = sink_write (le_bytes 8 (symbol_raw s)) ds"

definition deser_symbol :: "symbol \<Rightarrow> datastream \<Rightarrow> (symbol \<times> datastream) res" where
  "deser_symbol s ds = bindr (ds_read 8 ds) (\<lambda>(bs, ds'). Inr (Symbol (le_word bs), ds'))"

instantiation symbol_code :: linorder
begin

definition less_symbol_code :: "symbol_code \<Rightarrow> symbol_code \<Rightarrow> bool" where
  "less_symbol_code a b = code_less a b"

definition less_eq_symbol_code :: "symbol_code \<Rightarrow> symbol_code \<Rightarrow> bool" where
  "less_eq_symbol_code a b = (code_less a b \<or> code_eq a b)"

instance
  by standard (auto simp: less_symbol_code_def less_eq_symbol_code_def code_less_def code_eq_def
      intro: symbol_code.expand)

end

instantiation symbol :: linorder
begin

definition less_symbol :: "symbol \<Rightarrow> symbol \<Rightarrow> bool" where
  "less_symbol a b = symbol_less a b"

definition less_eq_symbol :: "symbol \<Rightarrow> symbol \<Rightarrow> bool" where
  "less_eq_symbol a b = (symbol_less a b \<or> symbol_eq a b)"

instance
  by standard (auto simp: less_symbol_def less_eq_symbol_def symbol_less_def symbol_eq_def
      intro: symbol.expand)

end

record extended_symbol =
  es_symbol :: symbol
  es_contract :: name

definition extended_symbol_make :: "symbol \<Rightarrow> name \<Rightarrow> extended_symbol" where
  "extended_symbol_make symb con = \<lparr>es_symbol = symb, es_contract = con\<rparr>"

definition extended_symbol_eq :: "extended_symbol \<Rightarrow> extended_symbol \<Rightarrow> bool" where
  "extended_symbol_eq a b = (symbol_eq (es_symbol a) (es_symbol b) \<and> name_eq (es_contract a) (es_contract b))"

definition extended_symbol_neq :: "extended_symbol \<Rightarrow> extended_symbol \<Rightarrow> bool" where
  "extended_symbol_neq a b = (\<not> (symbol_eq (es_symbol a) (es_symbol b) \<and> name_eq (es_contract a) (es_contract b)))"

definition extended_symbol_less :: "extended_symbol \<Rightarrow> extended_symbol \<Rightarrow> bool" where
  "extended_symbol_less a b =
     (if symbol_less (es_symbol a) (es_symbol b) then True
      else if symbol_less (es_symbol b) (es_symbol a) then False
      else name_less (es_contract a) (es_contract b))"

definition ser_extended_symbol :: "extended_symbol \<Rightarrow> sink \<Rightarrow> sink res" where
  "ser_extended_symbol e ds = bindr (ser_symbol (es_symbol e) ds) (ser_name (es_contract e))"

definition deser_extended_symbol :: "extended_symbol \<Rightarrow> datastream \<Rightarrow> (extended_symbol \<times> datastream) res" where
  "deser_extended_symbol e ds =
     bindr (deser_symbol (es_symbol e) ds) (\<lambda>(s, ds').
       bindr (deser_name (es_contract e) ds') (\<lambda>(c, ds'').
         Inr (\<lparr>es_symbol = s, es_contract = c\<rparr>, ds'')))"

declare string_to_symbol_code_loop.simps [simp del]

section \<open>Codes as byte sequences\<close>

lemma le_word_low: "le_word (b # bs) AND 0xFF = (ucast b :: u64)"
proof -
  have "le_word (b # bs) AND mask 8 = (ucast b :: u64)"
    by (rule bit_word_eqI) (auto simp: bit_simps dest: bit_imp_le_length)
  then show ?thesis by (simp add: mask_eq_exp_minus_1 del: le_word.simps)
qed

lemma le_word_shift: "length bs \<le> 7 \<Longrightarrow> drop_bit 8 (le_word (b # bs)) = (le_word bs :: u64)"
  by (rule bit_word_eqI) (auto simp: bit_simps bit_le_word dest: bit_imp_le_length)

lemma ucast_byte_eq_0: "(ucast b :: u64) = 0 \<longleftrightarrow> b = 0" for b :: byte
  using unat_ucast_up [of b, where 'b = 64] by (simp flip: unsigned_eq_0_iff [where 'a = nat])

lemma le_word_eq_0: "length bs \<le> 8 \<Longrightarrow> le_word bs = (0 :: u64) \<longleftrightarrow> (\<forall>b\<in>set bs. b = 0)"
proof (induction bs)
  case (Cons b bs)
  have "le_word (b # bs) = (0 :: u64) \<longleftrightarrow> ucast b = (0 :: u64) \<and> le_word bs = (0 :: u64)"
  proof
    assume "le_word (b # bs) = (0 :: u64)"
    with le_word_low [of b bs] le_word_shift [of bs b] Cons.prems
    show "ucast b = (0 :: u64) \<and> le_word bs = (0 :: u64)" by (simp del: le_word.simps)
  qed simp
  with Cons show ?case by (simp add: ucast_byte_eq_0 del: le_word.simps)
qed simp

lemma scast_char:
  assumes "of_char c < (128 :: nat)"
  shows "(scast (byte_of_char c) :: u64) = ucast (byte_of_char c)"
proof (rule bit_word_eqI)
  fix n
  have "\<not> bit (byte_of_char c) 7" using top_bit_iff [of "byte_of_char c"] assms by simp
  then show "bit (scast (byte_of_char c) :: u64) n = bit (ucast (byte_of_char c) :: u64) n" if "n < LENGTH(64)"
    using that by (cases "n \<le> 7") (auto simp: bit_signed_iff bit_unsigned_iff min_def dest: bit_imp_le_length)
qed

lemma valid_char_small:
  assumes "valid_character_in_symbol_name c"
  shows "of_char c < (128 :: nat)" "byte_of_char c \<noteq> 0" "c \<noteq> CHR '' ''" "c \<noteq> CHR 0x00"
proof -
  have "0 < (of_char c :: nat)" "of_char c < (128 :: nat)" "c \<noteq> CHR '' ''"
    using assms by (auto simp: valid_character_in_symbol_name_def less_eq_char_def split: if_splits)
  then show "of_char c < (128 :: nat)" "byte_of_char c \<noteq> 0" "c \<noteq> CHR '' ''" "c \<noteq> CHR 0x00"
    by (auto simp flip: unsigned_eq_0_iff [where 'a = nat])
qed

abbreviation code_bytes :: "string \<Rightarrow> u64" where
  "code_bytes s \<equiv> le_word (map byte_of_char s)"

lemma symbol_code_loop_rev:
  "symbol_code_loop (le_word bs) (rev s) =
     (if \<forall>c\<in>set s. valid_character_in_symbol_name c then Inr (le_word (map byte_of_char s @ bs))
      else Inl (Assert ''invalid character in symbol name''))"
proof (induction s arbitrary: bs rule: rev_induct)
  case (snoc c s)
  show ?case
  proof (cases "valid_character_in_symbol_name c")
    case True
    then have "push_bit 8 (le_word bs) OR scast (byte_of_char c) = (le_word (byte_of_char c # bs) :: u64)"
      by (simp add: scast_char valid_char_small or.commute)
    with True show ?thesis
      using snoc.IH [of "byte_of_char c # bs"] by (simp add: bindr_check del: le_word.simps)
  qed (simp add: bindr_check)
qed simp

text \<open>Which strings make a code, and its value.\<close>

lemma symbol_code_of_string_eq:
  "symbol_code_of_string s =
     (if length s > 7 then Inl (Assert ''string is too long to be a valid symbol_code'')
      else if \<forall>c\<in>set s. valid_character_in_symbol_name c then Inr (Symbol_code (code_bytes s))
      else Inl (Assert ''invalid character in symbol name''))"
  using symbol_code_loop_rev [of "[]" s] by (simp add: symbol_code_of_string_def)

lemma code_write_loop_eq:
  assumes "\<forall>b\<in>set bs. b \<noteq> 0" "length bs \<le> k" "length bs \<le> 7"
  shows "code_write_loop m a (le_word bs) k = (mem_write m a bs, a + of_nat (length bs))"
  using assms
proof (induction bs arbitrary: m a k)
  case Nil
  then show ?case by (cases k) simp_all
next
  case (Cons b bs)
  then obtain k' where k: "k = Suc k'" by (cases k) auto
  have "le_word (b # bs) \<noteq> (0 :: u64)"
    using Cons.prems by (simp add: le_word_eq_0 del: le_word.simps)
  moreover have "ucast (ucast b :: u64) = b" by simp
  ultimately show ?case
    using Cons le_word_low [of b bs] le_word_shift [of bs b]
    by (simp add: k add.assoc del: le_word.simps)
qed

lemma code_to_string_bytes:
  assumes "\<forall>c\<in>set s. valid_character_in_symbol_name c" "length s \<le> 7" "unat b + 7 < 2 ^ 32"
  shows "code_to_string m b (Symbol_code (code_bytes s)) = s"
proof -
  let ?bs = "map byte_of_char s"
  have "unat (b + 7) = unat b + 7" using assms(3) by (simp add: unat_word_ariths)
  then have "\<not> b + 7 < b" by (simp add: word_less_nat_alt)
  moreover have "code_write_loop m b (le_word ?bs) 7 = (mem_write m b ?bs, b + of_nat (length ?bs))"
    using assms valid_char_small(2) by (intro code_write_loop_eq) auto
  moreover have "unat (of_nat (length s) :: u32) = length s"
    using assms(2) by (intro unat_of_nat_u32) simp
  moreover have "mem_read (mem_write m b ?bs) b (length ?bs) = ?bs"
    using assms(2) by (intro mem_read_write) simp
  ultimately show ?thesis
    by (simp add: code_to_string_def code_write_as_string_def)
qed

subsection \<open>Validity\<close>

lemma code_zero_loop_eq:
  assumes "length bs = 6 - i" "i < 7"
  shows "code_zero_loop (le_word (b # bs)) i = (if \<forall>x\<in>set bs. x = 0 then Some (0, 7) else None)"
  using assms
proof (induction bs arbitrary: i b)
  case Nil
  then have "i = 6" by simp
  then show ?case
    using le_word_shift [of "[]" b] by (simp add: code_zero_loop.simps [of _ 6] del: le_word.simps) simp
next
  case (Cons c bs)
  have shift: "drop_bit 8 (le_word (b # c # bs)) = (le_word (c # bs) :: u64)"
    using Cons.prems by (intro le_word_shift) simp
  have "i + 1 < 7" using Cons.prems by simp
  then have "code_zero_loop (le_word (b # c # bs)) i =
      (if c \<noteq> 0 then None else code_zero_loop (le_word (c # bs)) (i + 1))"
    by (subst code_zero_loop.simps) (simp only: shift le_word_low ucast_byte_eq_0 Let_def if_True)
  moreover have "code_zero_loop (le_word (c # bs)) (i + 1) = (if \<forall>x\<in>set bs. x = 0 then Some (0, 7) else None)"
    using Cons.prems by (intro Cons.IH) simp_all
  ultimately have "code_zero_loop (le_word (b # c # bs)) i =
      (if c \<noteq> 0 then None else if \<forall>x\<in>set bs. x = 0 then Some (0, 7) else None)"
    by (simp only:)
  then show ?case by (rule trans) simp
qed

text \<open>What \<open>is_valid\<close> checks, on the eight bytes of a code; the eighth is not looked at when the others are characters.\<close>

fun valid_bytes :: "byte list \<Rightarrow> bool" where
  "valid_bytes [] = True"
| "valid_bytes [b] = True"
| "valid_bytes (b # c # bs) =
     (valid_character_in_symbol_name (char_of_byte b) \<and>
      (if c = 0 then \<forall>x\<in>set bs. x = 0 else valid_bytes (c # bs)))"

lemma code_valid_loop_eq:
  assumes "length bs = 8 - i" "i \<le> 7"
  shows "code_valid_loop (le_word bs) i = valid_bytes bs"
  using assms
proof (induction bs arbitrary: i rule: valid_bytes.induct)
  case (2 b)
  then have "i = 7" by simp
  then show ?case by (simp add: code_valid_loop.simps [of _ 7])
next
  case (3 b c bs)
  have i: "i < 7" using "3.prems" by simp
  have shift: "drop_bit 8 (le_word (b # c # bs)) = (le_word (c # bs) :: u64)"
    using "3.prems" by (intro le_word_shift) simp
  have zero: "code_zero_loop (le_word (c # bs)) i = (if \<forall>x\<in>set bs. x = 0 then Some (0, 7) else None)"
    using "3.prems" i by (intro code_zero_loop_eq) simp_all
  have "code_valid_loop (le_word (b # c # bs)) i =
      (valid_character_in_symbol_name (char_of_byte b) \<and>
        (if c = 0 then (\<forall>x\<in>set bs. x = 0) \<and> code_valid_loop 0 8 else code_valid_loop (le_word (c # bs)) (i + 1)))"
    using i by (subst code_valid_loop.simps)
      (simp only: shift le_word_low ucast_byte_eq_0 zero Let_def ucast_up_down if_True, simp)
  moreover have "code_valid_loop 0 8" by (simp add: code_valid_loop.simps [of 0 8])
  ultimately show ?case
    using "3.IH" [of "i + 1"] "3.prems" by (auto simp del: le_word.simps)
qed simp

lemma valid_bytes_iff:
  "length bs = Suc (Suc n) \<Longrightarrow> valid_bytes bs \<longleftrightarrow>
     (let cs = takeWhile (\<lambda>b. b \<noteq> 0) bs
      in cs \<noteq> [] \<and> (\<forall>b\<in>set (take (Suc n) cs). valid_character_in_symbol_name (char_of_byte b))
         \<and> (\<forall>b\<in>set (dropWhile (\<lambda>b. b \<noteq> 0) bs). b = 0))"
proof (induction bs arbitrary: n rule: valid_bytes.induct)
  case (3 b c bs)
  have b0: "b \<noteq> 0" if "valid_character_in_symbol_name (char_of_byte b)"
    using valid_char_small(2) [OF that] by simp
  show ?case
  proof (cases n)
    case 0
    then show ?thesis using 3 b0 by (auto simp: Let_def)
  next
    case (Suc m)
    then show ?thesis using 3 b0 by (auto simp: Let_def)
  qed
qed simp_all

lemma code_is_valid_iff:
  "code_is_valid sc \<longleftrightarrow>
     (let bs = le_bytes 8 (code_raw sc); cs = takeWhile (\<lambda>b. b \<noteq> 0) bs
      in cs \<noteq> [] \<and> (\<forall>b\<in>set (take 7 cs). valid_character_in_symbol_name (char_of_byte b))
         \<and> (\<forall>b\<in>set (dropWhile (\<lambda>b. b \<noteq> 0) bs). b = 0))"
proof -
  have "code_valid_loop (le_word (le_bytes 8 (code_raw sc))) 0 = valid_bytes (le_bytes 8 (code_raw sc))"
    by (rule code_valid_loop_eq) simp_all
  then have "code_is_valid sc = valid_bytes (le_bytes 8 (code_raw sc))"
    by (simp add: code_is_valid_def le_word_le_bytes)
  then show ?thesis
    using valid_bytes_iff [of "le_bytes 8 (code_raw sc)" 6] by (simp add: Let_def)
qed

lemma le_word_append_zeros: "le_word (bs @ replicate n 0) = (le_word bs :: 'a::len word)"
  by (induction bs) (induction n, simp_all)

lemma le_bytes_code_bytes:
  "length s \<le> 8 \<Longrightarrow> le_bytes 8 (code_bytes s) = map byte_of_char s @ replicate (8 - length s) 0"
  using le_bytes_le_word [of "map byte_of_char s @ replicate (8 - length s) 0" 8, where 'a = 64]
  by (simp add: le_word_append_zeros)

lemma code_is_valid_string:
  assumes "s \<noteq> []" "length s \<le> 7" "\<forall>c\<in>set s. valid_character_in_symbol_name c"
  shows "code_is_valid (Symbol_code (code_bytes s))"
proof -
  have nz: "\<forall>b\<in>set (map byte_of_char s). b \<noteq> 0" using assms(3) valid_char_small(2) by auto
  have "takeWhile (\<lambda>b. b \<noteq> 0) (replicate k (0 :: byte)) = []" for k by (cases k) simp_all
  then have "takeWhile (\<lambda>b. b \<noteq> 0) (map byte_of_char s @ replicate (8 - length s) 0) = map byte_of_char s"
    using nz by (subst takeWhile_append2) auto
  moreover have "dropWhile (\<lambda>b. b \<noteq> 0) (replicate k (0 :: byte)) = replicate k 0" for k by (cases k) simp_all
  then have "dropWhile (\<lambda>b. b \<noteq> 0) (map byte_of_char s @ replicate (8 - length s) 0) = replicate (8 - length s) 0"
    using nz by (subst dropWhile_append2) auto
  ultimately show ?thesis
    using assms by (auto simp: code_is_valid_iff le_bytes_code_bytes Let_def dest: in_set_takeD)
qed

lemma code_valid_string:
  assumes "code_is_valid sc" "unat (code_raw sc) < 2 ^ 56"
  obtains s where "s \<noteq> []" "length s \<le> 7" "\<forall>c\<in>set s. valid_character_in_symbol_name c"
    "sc = Symbol_code (code_bytes s)"
proof -
  let ?bs = "le_bytes 8 (code_raw sc)"
  define cs where "cs = takeWhile (\<lambda>b. b \<noteq> 0) ?bs"
  define zs where "zs = dropWhile (\<lambda>b. b \<noteq> 0) ?bs"
  have bs: "?bs = cs @ zs" by (simp add: cs_def zs_def)
  have "drop_bit 56 (code_raw sc) = 0"
    using assms(2) by (simp add: unat_drop_bit flip: unsigned_eq_0_iff [where 'a = nat])
  then have z: "?bs ! 7 = 0" by simp
  have nz: "cs ! i \<noteq> 0" if "i < length cs" for i
    using that nth_mem [OF that] set_takeWhileD unfolding cs_def by fastforce
  have len: "length cs \<le> 7"
  proof (rule ccontr)
    assume "\<not> length cs \<le> 7"
    then have l: "7 < length cs" by simp
    then have "?bs ! 7 = cs ! 7" unfolding bs by (simp add: nth_append)
    with z nz [OF l] show False by (simp only: simp_thms)
  qed
  have v: "cs \<noteq> []" "\<forall>b\<in>set cs. valid_character_in_symbol_name (char_of_byte b)" "\<forall>b\<in>set zs. b = 0"
    using assms(1) len unfolding code_is_valid_iff Let_def cs_def [symmetric] zs_def [symmetric] by simp_all
  have "zs = replicate (length zs) 0" using v(3) by (simp add: replicate_length_same)
  then have "code_raw sc = le_word cs"
    using le_word_le_bytes [of 8 "code_raw sc"] bs le_word_append_zeros [of cs "length zs", where 'a = 64] by simp
  then show ?thesis
    using that [of "map char_of_byte cs"] v len by (simp add: comp_def symbol_code.expand)
qed

section \<open>Symbols\<close>

lemma symbol_parts:
  fixes raw :: u64 and p :: u8
  defines "s \<equiv> Symbol (push_bit 8 raw OR ucast p)"
  assumes "unat raw < 2 ^ 56"
  shows "symbol_precision s = p" "symbol_get_code s = Symbol_code raw"
proof -
  have small: "n < 56" if "bit raw n" for n
  proof (rule ccontr)
    assume "\<not> n < 56"
    have "drop_bit 56 raw = 0" using assms(2) by (simp add: unat_drop_bit flip: unsigned_eq_0_iff [where 'a = nat])
    then have "\<not> bit (drop_bit 56 raw) (n - 56)" by simp
    with that \<open>\<not> n < 56\<close> show False by (simp add: bit_drop_bit_eq)
  qed
  have hi: "drop_bit 8 (push_bit 8 raw OR ucast p) = raw"
    by (intro bit_word_eqI) (auto simp: bit_simps dest: small bit_imp_le_length)
  have "(push_bit 8 raw OR ucast p) AND mask 8 = ucast p"
    by (rule bit_word_eqI) (auto simp: bit_simps dest: bit_imp_le_length)
  then have lo: "(push_bit 8 raw OR ucast p) AND 0xFF = ucast p" by (simp add: mask_eq_exp_minus_1)
  show "symbol_precision s = p" by (simp add: s_def symbol_precision_def lo del: push_bit_or)
  show "symbol_get_code s = Symbol_code raw" by (simp only: s_def symbol_get_code_def symbol.sel hi)
qed

lemma unat_le_word: "unat (le_word bs :: u64) < 2 ^ (8 * length bs)"
proof (induction bs)
  case (Cons b bs)
  have "unat (le_word (b # bs) :: u64) = unat (push_bit 8 (le_word bs) + ucast b :: u64)"
    using push_bit_or_add [of "ucast b :: u64" 8 "le_word bs"] by (simp add: or.commute unat_ucast_up)
  also have "\<dots> \<le> unat (push_bit 8 (le_word bs) :: u64) + unat (ucast b :: u64)"
    by (simp add: unat_word_ariths)
  also have "\<dots> \<le> unat (le_word bs :: u64) * 2 ^ 8 + unat b"
    by (simp add: unat_push_bit unat_ucast_up)
  also have "\<dots> < (unat (le_word bs :: u64) + 1) * 2 ^ 8" by simp
  also have "\<dots> \<le> 2 ^ (8 * length bs) * 2 ^ 8" using Cons by (intro mult_right_mono) simp_all
  finally show ?case by (simp add: power_add)
qed simp

lemma code_bytes_small: "length s \<le> 7 \<Longrightarrow> unat (code_bytes s) < 2 ^ 56"
proof -
  assume "length s \<le> 7"
  then have "(2 :: nat) ^ (8 * length (map byte_of_char s)) \<le> 2 ^ 56" by (intro power_increasing) simp_all
  with unat_le_word [of "map byte_of_char s"] show ?thesis by (rule less_le_trans)
qed

lemma p10_loop_eq: "unat p10 * 10 ^ p < 2 ^ 64 \<Longrightarrow> unat (p10_loop p10 p) = unat p10 * 10 ^ p"
proof (induction p arbitrary: p10)
  case (Suc p)
  have "unat p10 * 10 \<le> unat p10 * 10 ^ Suc p" by simp
  then have "unat p10 * 10 < 2 ^ 64" using Suc.prems by linarith
  then have "unat (p10 * 10) = unat p10 * 10" by (simp add: unat_word_ariths)
  with Suc show ?case by (simp add: mult.assoc)
qed simp

lemma precision_in_10_eq:
  assumes "symbol_precision s \<le> max_precision"
  shows "\<exists>p10. precision_in_10 s = Inr p10 \<and> unat p10 = 10 ^ unat (symbol_precision s)"
proof -
  have "unat (symbol_precision s) \<le> 18"
    using assms by (simp add: max_precision_def word_le_nat_alt)
  then have "(10 :: nat) ^ unat (symbol_precision s) \<le> 10 ^ 18" by (intro power_increasing) simp_all
  then show ?thesis
    using assms p10_loop_eq [of 1 "unat (symbol_precision s)"] by (simp add: precision_in_10_def)
qed

text \<open>
  Symbol codes and strings. A string is accepted when it has at most seven
  characters, all of the symbol alphabet, and then prints back as itself; every
  non-empty accepted string gives a valid code; and every valid code of at most
  seven bytes is the code of the string it prints.
\<close>

theorem symbol_code_roundtrip:
  assumes "unat b + 7 < 2 ^ 32"
  shows "(symbol_code_of_string s = Inr sc \<longrightarrow>
      code_to_string m b sc = s \<and> (s \<noteq> [] \<longrightarrow> code_is_valid sc) \<and> unat (code_raw sc) < 2 ^ 56)
    \<and> (code_is_valid sc \<and> unat (code_raw sc) < 2 ^ 56 \<longrightarrow>
      symbol_code_of_string (code_to_string m b sc) = Inr sc \<and> code_to_string m b sc \<noteq> [])"
proof (intro conjI impI)
  assume "symbol_code_of_string s = Inr sc"
  then have s: "length s \<le> 7" "\<forall>c\<in>set s. valid_character_in_symbol_name c" "sc = Symbol_code (code_bytes s)"
    by (simp_all add: symbol_code_of_string_eq split: if_splits)
  show "code_to_string m b sc = s" using s assms by (simp add: code_to_string_bytes)
  show "code_is_valid sc" if "s \<noteq> []" using s that by (simp add: code_is_valid_string)
  show "unat (code_raw sc) < 2 ^ 56" using s code_bytes_small by simp
next
  assume "code_is_valid sc \<and> unat (code_raw sc) < 2 ^ 56"
  then obtain s where s: "s \<noteq> []" "length s \<le> 7" "\<forall>c\<in>set s. valid_character_in_symbol_name c"
      "sc = Symbol_code (code_bytes s)"
    by (auto elim: code_valid_string)
  then show "symbol_code_of_string (code_to_string m b sc) = Inr sc" "code_to_string m b sc \<noteq> []"
    using assms by (simp_all add: code_to_string_bytes symbol_code_of_string_eq)
qed

theorem symbol_code_roundtrip_witness:
  "code_to_string (\<lambda>_. 0) 0 (Symbol_code 0x43434957) = ''WICC''"
proof -
  have "symbol_code_of_string ''WICC'' = Inr (Symbol_code 0x43434957)" by code_simp
  then show ?thesis using symbol_code_roundtrip [of 0 "''WICC''" _ "\<lambda>_. 0"] by simp
qed

text \<open>
  \<open>is_valid\<close> of a code: its non-zero bytes come first, there is at least one, and
  the first seven are characters of the alphabet. A non-zero eighth byte is not
  examined, so a raw value of eight non-zero bytes counts as valid although a code
  has at most seven characters.
\<close>

theorem code_is_valid_spec:
  "code_is_valid sc \<longleftrightarrow>
     (let bs = le_bytes 8 (code_raw sc); cs = takeWhile (\<lambda>b. b \<noteq> 0) bs
      in cs \<noteq> [] \<and> (\<forall>b\<in>set (take 7 cs). valid_character_in_symbol_name (char_of_byte b))
         \<and> (\<forall>b\<in>set (dropWhile (\<lambda>b. b \<noteq> 0) bs). b = 0))"
  by (rule code_is_valid_iff)

theorem code_is_valid_spec_witness: "code_is_valid (Symbol_code 0x0141414141414141)"
proof -
  have "let bs = le_bytes 8 (code_raw (Symbol_code 0x0141414141414141)); cs = takeWhile (\<lambda>b. b \<noteq> 0) bs
      in cs \<noteq> [] \<and> (\<forall>b\<in>set (take 7 cs). valid_character_in_symbol_name (char_of_byte b))
         \<and> (\<forall>b\<in>set (dropWhile (\<lambda>b. b \<noteq> 0) bs). b = 0)"
    by code_simp
  then show ?thesis
    using code_is_valid_spec [of "Symbol_code 0x0141414141414141"] by (rule iffD2 [rotated])
qed

text \<open>The three conversions of a symbol from its parts, and its validity.\<close>

lemma symbol_of_string_eq:
  assumes "symbol_code_of_string ss = Inr sc" "p \<le> max_precision"
  shows "symbol_of_string ss p = Inr (Symbol (push_bit 8 (code_raw sc) OR ucast p))"
  using assms by (simp add: symbol_of_string_def)

lemma symbol_of_string_valid:
  assumes "symbol_of_string ss p = Inr s" "ss \<noteq> []"
  shows "symbol_is_valid s" "symbol_precision s = p" "symbol_get_code s = Symbol_code (code_bytes ss)"
proof -
  have ss: "length ss \<le> 7" "\<forall>c\<in>set ss. valid_character_in_symbol_name c"
      and p: "p \<le> max_precision" and s: "s = Symbol (push_bit 8 (code_bytes ss) OR ucast p)"
    using assms(1) by (auto simp: symbol_of_string_def symbol_code_of_string_eq Let_def bindr_check split: if_splits)
  show prec: "symbol_precision s = p" and code: "symbol_get_code s = Symbol_code (code_bytes ss)"
    using symbol_parts [of "code_bytes ss" p] code_bytes_small [OF ss(1)] s by simp_all
  show "symbol_is_valid s"
    using ss p assms(2) by (simp add: symbol_is_valid_def prec code code_is_valid_string)
qed

text \<open>
  Parsing a symbol. The decimal number before the first comma is reduced to eight
  bits before it is compared with the largest precision, so \<open>256 + p\<close> stands for \<open>p\<close>;
  otherwise the text before the comma is the precision and the text after it the name.
\<close>

theorem symbol_from_string_spec:
  assumes "n < 2 ^ 31"
  shows "symbol_from_string (show_nat n @ '','' @ ss) =
    (if n mod 256 \<le> 18 then symbol_of_string ss (of_nat (n mod 256))
     else Inl (Assert ''precision should be <= 18''))"
proof -
  have digits: "show_nat n \<noteq> []" "\<forall>c\<in>set (show_nat n). is_digit c" "dec_val (show_nat n) = n"
    using show_nat_digits by simp_all
  then have "CHR '','' \<notin> set (show_nat n)" "CHR 0x00 \<notin> set (show_nat n)"
    by (auto simp: is_digit_def less_eq_char_def)
  then have find: "find_char (CHR '','') (show_nat n @ CHR '','' # ss) = Some (length (show_nat n))"
    and c: "c_str (show_nat n) = show_nat n"
    by (auto simp: find_char_split c_str_def takeWhile_eq_all_conv)
  have "unat (word_of_int (int n) :: u8) = n mod 256" by (simp add: unat_of_nat take_bit_eq_mod)
  then have "(word_of_int (int n) :: u8) = of_nat (n mod 256)" and le: "(word_of_int (int n) :: u8) \<le> max_precision \<longleftrightarrow> n mod 256 \<le> 18"
    by (auto intro: word_eq_of_natI simp: max_precision_def word_le_nat_alt)
  then show ?thesis
    using digits find c atoi_digits [of "show_nat n"] assms
    by (simp add: symbol_from_string_def bindr_check del: of_int_of_nat_eq)
qed

theorem symbol_from_string_spec_witness:
  "symbol_from_string ''258,WICC'' = symbol_of_string ''WICC'' 2"
proof -
  have "show_nat 258 = ''258''" by code_simp
  then show ?thesis using symbol_from_string_spec [of 258 "''WICC''"] by simp
qed

text \<open>
  C40. Printing a symbol with its precision. Whenever the precision is not zero the
  function calls itself with the same arguments, so no depth of recursion suffices
  and it returns no string; for precision zero it prints the code twice, separated by
  a comma.
\<close>

theorem symbol_to_string_diverges:
  "(if symbol_precision s \<noteq> 0 then \<forall>fuel. symbol_to_string fuel m b s True = None
    else \<forall>fuel. symbol_to_string (Suc (Suc fuel)) m b s True =
      Some (code_to_string m b (symbol_get_code s) @ '','' @ code_to_string m b (symbol_get_code s)))"
proof (cases "symbol_precision s = 0")
  case False
  then have "symbol_to_string fuel m b s True = None" for fuel
    by (induction fuel) simp_all
  with False show ?thesis by simp
qed simp

section \<open>Codecs\<close>

interpretation symbol_code_codec: codec "prim_enc \<circ> code_raw" "\<lambda>_. True"
  ser_symbol_code deser_symbol_code "Symbol_code 0"
proof -
  have "ser_symbol_code = ser_class code_raw ser_primitive"
      "deser_symbol_code = deser_class code_raw Symbol_code deser_primitive"
    by (simp_all add: fun_eq_iff ser_symbol_code_def deser_symbol_code_def ser_class_def deser_class_def
        ser_primitive_def deser_primitive_def bindr_assoc split_def)
  then show "codec (prim_enc \<circ> code_raw) (\<lambda>_. True) ser_symbol_code deser_symbol_code (Symbol_code 0)"
    using codec_class [OF prim64.codec_axioms, of Symbol_code code_raw "Symbol_code 0"] by (simp add: comp_def)
qed

interpretation symbol_codec: codec "prim_enc \<circ> symbol_raw" "\<lambda>_. True" ser_symbol deser_symbol "Symbol 0"
proof -
  have "ser_symbol = ser_class symbol_raw ser_primitive" "deser_symbol = deser_class symbol_raw Symbol deser_primitive"
    by (simp_all add: fun_eq_iff ser_symbol_def deser_symbol_def ser_class_def deser_class_def
        ser_primitive_def deser_primitive_def bindr_assoc split_def)
  then show "codec (prim_enc \<circ> symbol_raw) (\<lambda>_. True) ser_symbol deser_symbol (Symbol 0)"
    using codec_class [OF prim64.codec_axioms, of Symbol symbol_raw "Symbol 0"] by (simp add: comp_def)
qed

end
