(* ===== verification/Asset.thy ===== *)
theory Asset
  imports Symbol
begin

text \<open>
  Amounts of a currency: \<^verbatim>\<open>libraries/wasmlib/core/asset.hpp\<close>. The amount is a
  64-bit signed integer, kept as a word and read with \<open>sint\<close>; an operation whose
  mathematical result does not fit is undefined in C++ and yields \<open>Undefined\<close>,
  unless the source widens to 128 bits or checks first.
\<close>

section \<open>Assets\<close>

record asset =
  amount :: u64
  asset_symbol :: symbol

definition max_amount :: int where
  "max_amount = 2 ^ 62 - 1"

definition is_amount_within_range :: "asset \<Rightarrow> bool" where
  "is_amount_within_range a = (- max_amount \<le> sint (amount a) \<and> sint (amount a) \<le> max_amount)"

definition asset_default :: asset where
  "asset_default = \<lparr>amount = 0, asset_symbol = Symbol 0\<rparr>"

definition asset_make :: "u64 \<Rightarrow> symbol \<Rightarrow> asset res" where
  "asset_make v s =
     (let a = \<lparr>amount = v, asset_symbol = s\<rparr> in
      bindr (check (is_amount_within_range a) ''magnitude of asset amount must be less than 2^62'') (\<lambda>_.
      bindr (check (symbol_is_valid (asset_symbol a)) ''invalid symbol name'') (\<lambda>_. Inr a)))"

definition asset_is_valid :: "asset \<Rightarrow> bool" where
  "asset_is_valid a = (is_amount_within_range a \<and> symbol_is_valid (asset_symbol a))"

definition set_amount :: "asset \<Rightarrow> u64 \<Rightarrow> asset res" where
  "set_amount a v =
     (let a' = a\<lparr>amount := v\<rparr> in
      bindr (check (is_amount_within_range a') ''magnitude of asset amount must be less than 2^62'') (\<lambda>_. Inr a'))"

definition asset_neg :: "asset \<Rightarrow> asset res" where
  "asset_neg a = bindr (signed64 (- sint (amount a))) (\<lambda>v. Inr (a\<lparr>amount := v\<rparr>))"

definition asset_sub_assign :: "asset \<Rightarrow> asset \<Rightarrow> asset res" where
  "asset_sub_assign self a =
     bindr (check (symbol_eq (asset_symbol a) (asset_symbol self)) ''attempt to subtract asset with different symbol'') (\<lambda>_.
     bindr (signed64 (sint (amount self) - sint (amount a))) (\<lambda>v.
     bindr (check (- max_amount \<le> sint v) ''subtraction underflow'') (\<lambda>_.
     bindr (check (sint v \<le> max_amount) ''subtraction overflow'') (\<lambda>_.
       Inr (self\<lparr>amount := v\<rparr>)))))"

definition asset_add_assign :: "asset \<Rightarrow> asset \<Rightarrow> asset res" where
  "asset_add_assign self a =
     bindr (check (symbol_eq (asset_symbol a) (asset_symbol self)) ''attempt to add asset with different symbol'') (\<lambda>_.
     bindr (signed64 (sint (amount self) + sint (amount a))) (\<lambda>v.
     bindr (check (- max_amount \<le> sint v) ''addition underflow'') (\<lambda>_.
     bindr (check (sint v \<le> max_amount) ''addition overflow'') (\<lambda>_.
       Inr (self\<lparr>amount := v\<rparr>)))))"

definition asset_add :: "asset \<Rightarrow> asset \<Rightarrow> asset res" where
  "asset_add a b = asset_add_assign a b"

definition asset_sub :: "asset \<Rightarrow> asset \<Rightarrow> asset res" where
  "asset_sub a b = asset_sub_assign a b"

text \<open>The product of two 64-bit integers always fits in the 128 bits it is computed in.\<close>

definition asset_mul_assign :: "asset \<Rightarrow> u64 \<Rightarrow> asset res" where
  "asset_mul_assign self a =
     (let tmp = sint (amount self) * sint a in
      bindr (check (tmp \<le> max_amount) ''multiplication overflow'') (\<lambda>_.
      bindr (check (tmp \<ge> - max_amount) ''multiplication underflow'') (\<lambda>_.
        Inr (self\<lparr>amount := word_of_int tmp\<rparr>))))"

definition asset_mul :: "asset \<Rightarrow> u64 \<Rightarrow> asset res" where
  "asset_mul a b = asset_mul_assign a b"

definition asset_mul_left :: "u64 \<Rightarrow> asset \<Rightarrow> asset res" where
  "asset_mul_left b a = asset_mul_assign a b"

definition asset_div_assign :: "asset \<Rightarrow> u64 \<Rightarrow> asset res" where
  "asset_div_assign self a =
     bindr (check (sint a \<noteq> 0) ''divide by zero'') (\<lambda>_.
     bindr (check (\<not> (sint (amount self) = int64_min \<and> sint a = - 1)) ''signed division overflow'') (\<lambda>_.
     bindr (signed64 (sint (amount self) sdiv sint a)) (\<lambda>v. Inr (self\<lparr>amount := v\<rparr>))))"

definition asset_div :: "asset \<Rightarrow> u64 \<Rightarrow> asset res" where
  "asset_div a b = asset_div_assign a b"

definition asset_ratio :: "asset \<Rightarrow> asset \<Rightarrow> u64 res" where
  "asset_ratio a b =
     bindr (check (sint (amount b) \<noteq> 0) ''divide by zero'') (\<lambda>_.
     bindr (check (symbol_eq (asset_symbol a) (asset_symbol b)) ''comparison of assets with different symbols is not allowed'') (\<lambda>_.
       signed64 (sint (amount a) sdiv sint (amount b))))"

definition same_symbol :: "asset \<Rightarrow> asset \<Rightarrow> unit res" where
  "same_symbol a b =
     check (symbol_eq (asset_symbol a) (asset_symbol b)) ''comparison of assets with different symbols is not allowed''"

definition asset_eq :: "asset \<Rightarrow> asset \<Rightarrow> bool res" where
  "asset_eq a b = bindr (same_symbol a b) (\<lambda>_. Inr (amount a = amount b))"

definition asset_neq :: "asset \<Rightarrow> asset \<Rightarrow> bool res" where
  "asset_neq a b = mapr Not (asset_eq a b)"

definition asset_less :: "asset \<Rightarrow> asset \<Rightarrow> bool res" where
  "asset_less a b = bindr (same_symbol a b) (\<lambda>_. Inr (sint (amount a) < sint (amount b)))"

definition asset_leq :: "asset \<Rightarrow> asset \<Rightarrow> bool res" where
  "asset_leq a b = bindr (same_symbol a b) (\<lambda>_. Inr (sint (amount a) \<le> sint (amount b)))"

definition asset_greater :: "asset \<Rightarrow> asset \<Rightarrow> bool res" where
  "asset_greater a b = bindr (same_symbol a b) (\<lambda>_. Inr (sint (amount a) > sint (amount b)))"

definition asset_geq :: "asset \<Rightarrow> asset \<Rightarrow> bool res" where
  "asset_geq a b = bindr (same_symbol a b) (\<lambda>_. Inr (sint (amount a) \<ge> sint (amount b)))"

definition asset_less_int :: "asset \<Rightarrow> u64 \<Rightarrow> bool" where
  "asset_less_int a b = (sint (amount a) < sint b)"

definition asset_leq_int :: "asset \<Rightarrow> u64 \<Rightarrow> bool" where
  "asset_leq_int a b = (sint (amount a) \<le> sint b)"

definition asset_greater_int :: "asset \<Rightarrow> u64 \<Rightarrow> bool" where
  "asset_greater_int a b = (sint (amount a) > sint b)"

definition asset_geq_int :: "asset \<Rightarrow> u64 \<Rightarrow> bool" where
  "asset_geq_int a b = (sint (amount a) \<ge> sint b)"

section \<open>Conversion to and from strings\<close>

fun int_p10_loop :: "u64 \<Rightarrow> nat \<Rightarrow> u64 res" where
  "int_p10_loop p10 0 = Inr p10"
| "int_p10_loop p10 (Suc p) = bindr (signed64 (sint p10 * 10)) (\<lambda>p10'. int_p10_loop p10' p)"

text \<open>The digits of the fraction, last one first, in front of those already written.\<close>

fun fraction_loop :: "int \<Rightarrow> nat \<Rightarrow> string \<Rightarrow> string" where
  "fraction_loop change 0 acc = acc"
| "fraction_loop change (Suc i) acc =
     fraction_loop (change sdiv 10) i (char_of (nat (change smod 10 + of_char (CHR ''0''))) # acc)"

text \<open>
  The buffer of \<open>p + 32\<close> characters given to \<^verbatim>\<open>snprintf\<close> keeps at most \<open>p + 31\<close>.
  The arguments \<open>m\<close> and \<open>b\<close> are the memory and the address of the buffer in which the
  code is printed.
\<close>

definition asset_to_string :: "mem \<Rightarrow> u32 \<Rightarrow> asset \<Rightarrow> string res" where
  "asset_to_string m b a =
     (let p = unat (symbol_precision (asset_symbol a)) in
      bindr (int_p10_loop 1 p) (\<lambda>p10.
        let invert = (if sint (amount a) < 0 then - 1 else 1 :: int);
            change = (sint (amount a) smod sint p10) * invert;
            fraction = fraction_loop change p []
        in Inr (take (p + 31)
             (show_int (sint (amount a) sdiv sint p10)
              @ (if fraction \<noteq> [] then ''.'' else '''')
              @ c_str fraction
              @ '' '' @ c_str (code_to_string m b (symbol_get_code (asset_symbol a)))))))"

definition size_of :: "string \<Rightarrow> u32" where
  "size_of s = of_nat (length s)"

text \<open>The position of a character as a \<^verbatim>\<open>size_t\<close>, \<^verbatim>\<open>npos\<close> being the largest one.\<close>

definition find_pos :: "char \<Rightarrow> string \<Rightarrow> u32" where
  "find_pos c s = (case find_char c s of Some p \<Rightarrow> of_nat p | None \<Rightarrow> - 1)"

definition asset_from_string :: "string \<Rightarrow> asset res" where
  "asset_from_string from =
     (let s = trim from; space_pos = find_char (CHR '' '') s in
      bindr (check (space_pos \<noteq> None)
        ''Asset's amount and symbol should be separated with space. ex. 98.00000000 WICC'') (\<lambda>_.
      let symbol_str = trim (drop (the space_pos + 1) s);
          amount_str = take (the space_pos) s;
          dot_pos = find_pos (CHR ''.'') amount_str;
          has_dot = (find_char (CHR ''.'') amount_str \<noteq> None)
      in bindr (if has_dot
           then check (dot_pos \<noteq> size_of amount_str - 1)
                  ''Missing decimal fraction after decimal point. ex. 98.00000000 WICC''
           else Inr ()) (\<lambda>_.
         bindr (symbol_of_string symbol_str (ucast (size_of amount_str - dot_pos - 1))) (\<lambda>symb.
         bindr (if has_dot
           then bindr (atoi (c_str (take (unat dot_pos) amount_str))) (\<lambda>int_part.
                bindr (atoi (c_str (drop (unat dot_pos + 1) amount_str))) (\<lambda>fract_part.
                  Inr (int_part, if c_char amount_str 0 = CHR ''-'' then fract_part * - 1 else fract_part)))
           else bindr (atoi (c_str amount_str)) (\<lambda>int_part. Inr (int_part, 0))) (\<lambda>(int_part, fract_part).
         bindr (precision_in_10 symb) (\<lambda>p10.
         let amount1 = (word_of_int int_part :: u64) * p10 in
         bindr (signed64 (sint amount1 + fract_part)) (\<lambda>amount2.
           asset_make amount2 symb)))))))"

definition ser_asset :: "asset \<Rightarrow> sink \<Rightarrow> sink res" where
  "ser_asset a ds = bindr (ser_primitive (amount a) ds) (ser_symbol (asset_symbol a))"

definition deser_asset :: "asset \<Rightarrow> datastream \<Rightarrow> (asset \<times> datastream) res" where
  "deser_asset a ds =
     bindr (deser_primitive (amount a) ds) (\<lambda>(v, ds').
       bindr (deser_symbol (asset_symbol a) ds') (\<lambda>(s, ds'').
         Inr (\<lparr>amount = v, asset_symbol = s\<rparr>, ds'')))"

section \<open>Extended assets\<close>

record extended_asset =
  quantity :: asset
  contract :: name

definition get_extended_symbol :: "extended_asset \<Rightarrow> extended_symbol" where
  "get_extended_symbol e = extended_symbol_make (asset_symbol (quantity e)) (contract e)"

definition extended_asset_default :: extended_asset where
  "extended_asset_default = \<lparr>quantity = asset_default, contract = Name 0\<rparr>"

definition extended_asset_of_amount :: "u64 \<Rightarrow> extended_symbol \<Rightarrow> extended_asset res" where
  "extended_asset_of_amount v s =
     bindr (asset_make v (es_symbol s)) (\<lambda>a. Inr \<lparr>quantity = a, contract = es_contract s\<rparr>)"

definition extended_asset_of_asset :: "asset \<Rightarrow> name \<Rightarrow> extended_asset" where
  "extended_asset_of_asset a c = \<lparr>quantity = a, contract = c\<rparr>"

definition extended_asset_neg :: "extended_asset \<Rightarrow> extended_asset res" where
  "extended_asset_neg e = bindr (asset_neg (quantity e)) (\<lambda>q. Inr (extended_asset_of_asset q (contract e)))"

definition same_contract :: "extended_asset \<Rightarrow> extended_asset \<Rightarrow> unit res" where
  "same_contract a b = check (name_eq (contract a) (contract b)) ''type mismatch''"

definition extended_asset_sub :: "extended_asset \<Rightarrow> extended_asset \<Rightarrow> extended_asset res" where
  "extended_asset_sub a b = bindr (same_contract a b) (\<lambda>_.
     bindr (asset_sub (quantity a) (quantity b)) (\<lambda>q. Inr (extended_asset_of_asset q (contract a))))"

definition extended_asset_add :: "extended_asset \<Rightarrow> extended_asset \<Rightarrow> extended_asset res" where
  "extended_asset_add a b = bindr (same_contract a b) (\<lambda>_.
     bindr (asset_add (quantity a) (quantity b)) (\<lambda>q. Inr (extended_asset_of_asset q (contract a))))"

definition extended_asset_add_assign :: "extended_asset \<Rightarrow> extended_asset \<Rightarrow> extended_asset res" where
  "extended_asset_add_assign a b = bindr (same_contract a b) (\<lambda>_.
     bindr (asset_add_assign (quantity a) (quantity b)) (\<lambda>q. Inr (a\<lparr>quantity := q\<rparr>)))"

definition extended_asset_sub_assign :: "extended_asset \<Rightarrow> extended_asset \<Rightarrow> extended_asset res" where
  "extended_asset_sub_assign a b = bindr (same_contract a b) (\<lambda>_.
     bindr (asset_sub_assign (quantity a) (quantity b)) (\<lambda>q. Inr (a\<lparr>quantity := q\<rparr>)))"

definition extended_asset_less :: "extended_asset \<Rightarrow> extended_asset \<Rightarrow> bool res" where
  "extended_asset_less a b = bindr (same_contract a b) (\<lambda>_. asset_less (quantity a) (quantity b))"

text \<open>The tuple comparison compares the quantities first, and the contracts only if these are equal.\<close>

definition extended_asset_eq :: "extended_asset \<Rightarrow> extended_asset \<Rightarrow> bool res" where
  "extended_asset_eq a b = bindr (asset_eq (quantity a) (quantity b)) (\<lambda>q.
     if q then Inr (name_eq (contract a) (contract b)) else Inr False)"

definition extended_asset_neq :: "extended_asset \<Rightarrow> extended_asset \<Rightarrow> bool res" where
  "extended_asset_neq a b = mapr Not (extended_asset_eq a b)"

definition extended_asset_leq :: "extended_asset \<Rightarrow> extended_asset \<Rightarrow> bool res" where
  "extended_asset_leq a b = bindr (same_contract a b) (\<lambda>_. asset_leq (quantity a) (quantity b))"

definition extended_asset_geq :: "extended_asset \<Rightarrow> extended_asset \<Rightarrow> bool res" where
  "extended_asset_geq a b = bindr (same_contract a b) (\<lambda>_. asset_geq (quantity a) (quantity b))"

definition ser_extended_asset :: "extended_asset \<Rightarrow> sink \<Rightarrow> sink res" where
  "ser_extended_asset e ds = bindr (ser_asset (quantity e) ds) (ser_name (contract e))"

definition deser_extended_asset :: "extended_asset \<Rightarrow> datastream \<Rightarrow> (extended_asset \<times> datastream) res" where
  "deser_extended_asset e ds =
     bindr (deser_asset (quantity e) ds) (\<lambda>(q, ds').
       bindr (deser_name (contract e) ds') (\<lambda>(c, ds'').
         Inr (\<lparr>quantity = q, contract = c\<rparr>, ds'')))"

section \<open>Exact arithmetic on valid assets\<close>

lemma valid_amount: "asset_is_valid a \<Longrightarrow> - max_amount \<le> sint (amount a) \<and> sint (amount a) \<le> max_amount"
  by (simp add: asset_is_valid_def is_amount_within_range_def)

text \<open>What an operation with the exact integer result \<open>i\<close> returns for an asset with symbol \<open>s\<close>.\<close>

definition in_range :: "string \<Rightarrow> string \<Rightarrow> int \<Rightarrow> symbol \<Rightarrow> asset res" where
  "in_range low high i s =
     (if i < - max_amount then Inl (Assert low)
      else if max_amount < i then Inl (Assert high)
      else Inr \<lparr>amount = word_of_int i, asset_symbol = s\<rparr>)"

lemma in_range_valid:
  assumes "in_range u v i s = Inr r" "symbol_is_valid s"
  shows "asset_is_valid r \<and> sint (amount r) = i \<and> asset_symbol r = s"
proof -
  have i: "- max_amount \<le> i" "i \<le> max_amount" and r: "r = \<lparr>amount = word_of_int i, asset_symbol = s\<rparr>"
    using assms(1) by (auto simp: in_range_def split: if_splits)
  then have "sint (word_of_int i :: u64) = i"
    by (intro sint_of_fits64) (simp add: fits64_def int64_min_def max_amount_def)
  with i r assms(2) show ?thesis
    by (simp add: asset_is_valid_def is_amount_within_range_def)
qed

lemma symbol_eq_iff [simp]: "symbol_eq s t \<longleftrightarrow> s = t"
  by (cases s; cases t) (simp add: symbol_eq_def)

lemma asset_update_amount: "a\<lparr>amount := v\<rparr> = \<lparr>amount = v, asset_symbol = asset_symbol a\<rparr>"
  by (cases a) simp

lemma checked_sum:
  assumes "- 2 * max_amount \<le> i" "i \<le> 2 * max_amount"
  shows "bindr (signed64 i) (\<lambda>v. bindr (check (- max_amount \<le> sint v) u) (\<lambda>_.
           bindr (check (sint v \<le> max_amount) w) (\<lambda>_. Inr (a\<lparr>amount := v\<rparr>)))) =
         in_range u w i (asset_symbol a)"
proof -
  have "fits64 i" using assms by (simp add: fits64_def int64_min_def max_amount_def)
  then show ?thesis
    by (simp add: signed64_eq sint_of_fits64 bindr_check in_range_def asset_update_amount)
qed

lemma abs_sdiv_le: "\<bar>i sdiv j\<bar> \<le> \<bar>i\<bar>" for i j :: int
proof (cases "j = 0")
  case False
  then have "\<bar>i\<bar> div \<bar>j\<bar> \<le> \<bar>i\<bar>" using zdiv_mono2 [of "\<bar>i\<bar>" 1 "\<bar>j\<bar>"] by simp
  moreover have "0 \<le> \<bar>i\<bar> div \<bar>j\<bar>" by (intro div_int_pos_iff [THEN iffD2]) simp
  ultimately show ?thesis
    by (auto simp: signed_divide_int_def abs_mult sgn_if)
qed (simp add: signed_divide_int_def)

lemma asset_div_eq:
  assumes "asset_is_valid a"
  shows "asset_div a n = (if n = 0 then Inl (Assert ''divide by zero'')
    else in_range [] [] (sint (amount a) sdiv sint n) (asset_symbol a))"
proof -
  have "\<bar>sint (amount a)\<bar> \<le> max_amount"
    using valid_amount [OF assms] by linarith
  then have q: "\<bar>sint (amount a) sdiv sint n\<bar> \<le> max_amount"
    using abs_sdiv_le [of "sint (amount a)" "sint n"] by linarith
  then have "fits64 (sint (amount a) sdiv sint n)"
    unfolding fits64_def int64_min_def max_amount_def by (simp add: abs_le_iff)
  moreover have "sint (amount a) \<noteq> int64_min"
    using valid_amount [OF assms] by (simp add: int64_min_def max_amount_def)
  moreover have "sint n = 0 \<longleftrightarrow> n = 0" using sint_injectD [of n 0] by auto
  ultimately show ?thesis
    using q by (auto simp: asset_div_def asset_div_assign_def bindr_check signed64_eq in_range_def asset_update_amount)
qed

lemma asset_neg_eq:
  assumes "asset_is_valid a"
  shows "asset_neg a = in_range [] [] (- sint (amount a)) (asset_symbol a)"
proof -
  have "fits64 (- sint (amount a))"
    using valid_amount [OF assms] by (simp add: fits64_def int64_min_def max_amount_def)
  then show ?thesis
    using valid_amount [OF assms] by (simp add: asset_neg_def signed64_eq in_range_def asset_update_amount)
qed

lemma asset_mul_eq:
  "asset_mul a n = in_range ''multiplication underflow'' ''multiplication overflow''
     (sint (amount a) * sint n) (asset_symbol a)"
  by (simp add: asset_mul_def asset_mul_assign_def bindr_check in_range_def asset_update_amount Let_def max_amount_def)

lemma asset_add_eq:
  assumes "asset_is_valid a" "asset_is_valid b"
  shows "asset_add a b = (if asset_symbol a \<noteq> asset_symbol b
      then Inl (Assert ''attempt to add asset with different symbol'')
      else in_range ''addition underflow'' ''addition overflow'' (sint (amount a) + sint (amount b)) (asset_symbol a))"
  using checked_sum [of "sint (amount a) + sint (amount b)" "''addition underflow''" "''addition overflow''" a]
    valid_amount [OF assms(1)] valid_amount [OF assms(2)]
  by (simp add: asset_add_def asset_add_assign_def bindr_check)

lemma asset_sub_eq:
  assumes "asset_is_valid a" "asset_is_valid b"
  shows "asset_sub a b = (if asset_symbol a \<noteq> asset_symbol b
      then Inl (Assert ''attempt to subtract asset with different symbol'')
      else in_range ''subtraction underflow'' ''subtraction overflow'' (sint (amount a) - sint (amount b)) (asset_symbol a))"
  using checked_sum [of "sint (amount a) - sint (amount b)" "''subtraction underflow''" "''subtraction overflow''" a]
    valid_amount [OF assms(1)] valid_amount [OF assms(2)]
  by (simp add: asset_sub_def asset_sub_assign_def bindr_check)

lemmas asset_op_eqs = asset_add_eq asset_sub_eq asset_mul_eq asset_div_eq asset_neg_eq

text \<open>
  C35. Exact arithmetic. On valid assets no operation overflows the machine integer:
  addition and subtraction abort for different symbols, and otherwise abort exactly
  when the integer result is outside the amounts allowed, as multiplication does;
  division aborts only for a zero divisor, and negation never.
\<close>

theorem asset_arithmetic_exact:
  assumes "asset_is_valid a" "asset_is_valid b"
  shows "asset_add a b = (if asset_symbol a \<noteq> asset_symbol b
           then Inl (Assert ''attempt to add asset with different symbol'')
           else in_range ''addition underflow'' ''addition overflow''
                  (sint (amount a) + sint (amount b)) (asset_symbol a))
       \<and> asset_sub a b = (if asset_symbol a \<noteq> asset_symbol b
           then Inl (Assert ''attempt to subtract asset with different symbol'')
           else in_range ''subtraction underflow'' ''subtraction overflow''
                  (sint (amount a) - sint (amount b)) (asset_symbol a))
       \<and> asset_mul a n = in_range ''multiplication underflow'' ''multiplication overflow''
           (sint (amount a) * sint n) (asset_symbol a)
       \<and> asset_div a n = (if n = 0 then Inl (Assert ''divide by zero'')
           else Inr \<lparr>amount = word_of_int (sint (amount a) sdiv sint n), asset_symbol = asset_symbol a\<rparr>)
       \<and> asset_neg a = Inr \<lparr>amount = word_of_int (- sint (amount a)), asset_symbol = asset_symbol a\<rparr>"
proof -
  have "\<bar>sint (amount a) sdiv sint n\<bar> \<le> max_amount"
    using abs_sdiv_le [of "sint (amount a)" "sint n"] valid_amount [OF assms(1)] by linarith
  then show ?thesis
    using assms valid_amount [OF assms(1)] by (simp add: asset_op_eqs) (auto simp: in_range_def)
qed

theorem asset_arithmetic_exact_witness:
  "asset_add \<lparr>amount = 2 ^ 62 - 1, asset_symbol = Symbol 0x4304\<rparr> \<lparr>amount = 1, asset_symbol = Symbol 0x4304\<rparr> =
     Inl (Assert ''addition overflow'')"
proof -
  have v: "asset_is_valid \<lparr>amount = 2 ^ 62 - 1, asset_symbol = Symbol 0x4304\<rparr>"
          "asset_is_valid \<lparr>amount = 1, asset_symbol = Symbol 0x4304\<rparr>"
    by code_simp+
  have "sint (2 ^ 62 - 1 :: u64) + sint (1 :: u64) = 2 ^ 62" by code_simp
  then show ?thesis
    using asset_arithmetic_exact [OF v, of 0] by (simp add: in_range_def max_amount_def)
qed

text \<open>
  C36. Validity is an invariant of the arithmetic: whatever an operation returns for
  valid operands is a valid asset with the exact integer result and the operand's
  symbol, the constructor and \<open>set_amount\<close> return only valid assets, and the quotient
  of two valid assets is defined whenever the divisor is not zero.
\<close>

theorem asset_arithmetic_valid:
  assumes "asset_is_valid a" "asset_is_valid b"
  shows "(asset_add a b = Inr r \<longrightarrow> asset_is_valid r \<and> sint (amount r) = sint (amount a) + sint (amount b) \<and> asset_symbol r = asset_symbol a)
       \<and> (asset_sub a b = Inr r \<longrightarrow> asset_is_valid r \<and> sint (amount r) = sint (amount a) - sint (amount b) \<and> asset_symbol r = asset_symbol a)
       \<and> (asset_mul a n = Inr r \<longrightarrow> asset_is_valid r \<and> sint (amount r) = sint (amount a) * sint n \<and> asset_symbol r = asset_symbol a)
       \<and> (asset_div a n = Inr r \<longrightarrow> asset_is_valid r \<and> sint (amount r) = sint (amount a) sdiv sint n \<and> asset_symbol r = asset_symbol a)
       \<and> (asset_neg a = Inr r \<longrightarrow> asset_is_valid r \<and> sint (amount r) = - sint (amount a) \<and> asset_symbol r = asset_symbol a)
       \<and> (set_amount a n = Inr r \<longrightarrow> asset_is_valid r \<and> amount r = n \<and> asset_symbol r = asset_symbol a)
       \<and> (asset_make n s = Inr r \<longrightarrow> asset_is_valid r \<and> r = \<lparr>amount = n, asset_symbol = s\<rparr>)
       \<and> (sint (amount b) \<noteq> 0 \<and> asset_symbol a = asset_symbol b \<longrightarrow>
            asset_ratio a b = Inr (word_of_int (sint (amount a) sdiv sint (amount b))))"
proof -
  have sym_ok: "symbol_is_valid (asset_symbol a)" using assms(1) by (simp add: asset_is_valid_def)
  note res = in_range_valid [OF _ sym_ok]
  have "\<bar>sint (amount a) sdiv sint (amount b)\<bar> \<le> max_amount"
    using abs_sdiv_le [of "sint (amount a)" "sint (amount b)"] valid_amount [OF assms(1)] by linarith
  then have "fits64 (sint (amount a) sdiv sint (amount b))"
    unfolding fits64_def int64_min_def max_amount_def by (simp add: abs_le_iff)
  then have ratio: "sint (amount b) \<noteq> 0 \<and> asset_symbol a = asset_symbol b \<longrightarrow>
      asset_ratio a b = Inr (word_of_int (sint (amount a) sdiv sint (amount b)))"
    by (simp add: asset_ratio_def bindr_check signed64_eq)
  have make: "asset_make n s = Inr r \<longrightarrow> asset_is_valid r \<and> r = \<lparr>amount = n, asset_symbol = s\<rparr>"
    by (auto simp: asset_make_def Let_def bindr_check asset_is_valid_def split: if_splits)
  have set: "set_amount a n = Inr r \<longrightarrow> asset_is_valid r \<and> amount r = n \<and> asset_symbol r = asset_symbol a"
    using sym_ok by (auto simp: set_amount_def Let_def bindr_check asset_is_valid_def split: if_splits)
  show ?thesis
    by (intro conjI ratio make set) (simp_all add: asset_add_eq [OF assms] asset_sub_eq [OF assms] asset_mul_eq asset_div_eq [OF assms(1)] asset_neg_eq [OF assms(1)] res split: if_split)
qed

theorem asset_arithmetic_valid_witness:
  "asset_is_valid \<lparr>amount = 7, asset_symbol = Symbol 0x4304\<rparr> \<and>
   asset_ratio \<lparr>amount = 7, asset_symbol = Symbol 0x4304\<rparr> \<lparr>amount = - 2, asset_symbol = Symbol 0x4304\<rparr> = Inr (- 3)"
proof -
  have v: "asset_is_valid \<lparr>amount = 7, asset_symbol = Symbol 0x4304\<rparr>"
          "asset_is_valid \<lparr>amount = - 2, asset_symbol = Symbol 0x4304\<rparr>"
    by code_simp+
  have "sint (- 2 :: u64) \<noteq> 0" by code_simp
  moreover have "(word_of_int (sint (7 :: u64) sdiv sint (- 2 :: u64)) :: u64) = - 3" by code_simp
  ultimately show ?thesis
    using asset_arithmetic_valid [OF v, of "\<lparr>amount = 7, asset_symbol = Symbol 0x4304\<rparr>" 7 "Symbol 0x4304"] v by simp
qed

section \<open>Printing and parsing\<close>

lemma int_p10_loop_eq:
  assumes "unat p10 * 10 ^ p < 2 ^ 63"
  shows "\<exists>r. int_p10_loop p10 p = Inr r \<and> unat r = unat p10 * 10 ^ p"
  using assms
proof (induction p arbitrary: p10)
  case (Suc p)
  have "unat p10 * 10 \<le> unat p10 * 10 ^ Suc p" by simp
  then have b: "unat p10 * 10 < 2 ^ 63" using Suc.prems by linarith
  then have s: "sint p10 = int (unat p10)" by (simp add: sint_eq_unat)
  have "fits64 (sint p10 * 10)" using b unfolding s fits64_def int64_min_def by (simp del: of_nat_unat uint_nat)
  moreover have m: "unat (p10 * 10) = unat p10 * 10" using b by (simp add: unat_word_ariths)
  moreover have "word_of_int (sint p10 * 10) = p10 * 10" by simp
  ultimately show ?case
    using Suc.IH [of "p10 * 10"] Suc.prems by (simp add: signed64_eq mult.assoc)
qed simp

lemma p10_int64:
  assumes "p \<le> 18"
  shows "\<exists>r. int_p10_loop 1 p = Inr r \<and> sint r = 10 ^ p"
proof -
  have "(10 :: nat) ^ p \<le> 10 ^ 18" using assms by (intro power_increasing) simp_all
  then have b: "(10 :: nat) ^ p < 2 ^ 63" by simp
  then obtain r where r: "int_p10_loop 1 p = Inr r" "unat r = 10 ^ p"
    using int_p10_loop_eq [of 1 p] by auto
  then have "sint r = int (unat r)" using b by (simp add: sint_eq_unat)
  with r show ?thesis by simp
qed

lemma fraction_digit:
  assumes "0 \<le> change"
  shows "char_of (nat (change smod 10 + 48)) = digit_char (nat change mod 10)"
proof -
  have "change smod 10 = change mod 10" using assms by (simp add: signed_modulo_int_def signed_divide_int_def sgn_if minus_div_mult_eq_mod [symmetric])
  then show ?thesis using assms by (simp add: digit_char_def nat_add_distrib nat_mod_distrib add.commute)
qed

lemma fraction_loop_eq:
  assumes "0 \<le> change" "change < 10 ^ n"
  shows "\<exists>ds. fraction_loop change n acc = ds @ acc \<and> length ds = n \<and> (\<forall>c\<in>set ds. is_digit c) \<and> int (dec_val ds) = change"
  using assms
proof (induction n arbitrary: change acc)
  case (Suc n)
  have d: "change sdiv 10 = change div 10" using Suc.prems(1) by (simp add: signed_divide_int_def sgn_if)
  have "0 \<le> change div 10" "change div 10 < 10 ^ n" using Suc.prems by simp_all
  from Suc.IH [OF this, of "digit_char (nat change mod 10) # acc"]
  obtain ds where ds: "fraction_loop (change div 10) n (digit_char (nat change mod 10) # acc) =
      ds @ digit_char (nat change mod 10) # acc"
      "length ds = n" "\<forall>c\<in>set ds. is_digit c" "int (dec_val ds) = change div 10" by blast
  have "int (dec_val (ds @ [digit_char (nat change mod 10)])) = change"
    using ds(4) Suc.prems(1) by (simp add: zmod_int)
  then show ?case
    using ds Suc.prems(1) by (intro exI [of _ "ds @ [digit_char (nat change mod 10)]"]) (simp add: fraction_digit d)
qed simp

lemma smod_abs:
  fixes A P :: int
  assumes "0 < P"
  shows "(A smod P) * (if A < 0 then - 1 else 1) = \<bar>A\<bar> mod P"
proof (cases "A < 0")
  case True
  then show ?thesis
    using assms mod_div_mult_eq [of "- A" P]
    by (simp add: signed_modulo_int_def signed_divide_int_def)
next
  case False
  then show ?thesis
    using assms mod_div_mult_eq [of A P]
    by (cases "A = 0") (simp_all add: signed_modulo_int_def signed_divide_int_def)
qed

lemma length_show_int: "fits64 i \<Longrightarrow> length (show_int i) \<le> 20"
proof -
  assume "fits64 i"
  then have "nat i < 10 ^ Suc 18" "nat (- i) < 10 ^ Suc 18"
    unfolding fits64_def int64_min_def by simp_all linarith+
  from this [THEN length_show_nat] show ?thesis by (simp add: show_int_def)
qed

lemma digits_no_null: "(\<forall>c\<in>set ds. is_digit c) \<Longrightarrow> c_str ds = ds"
  by (auto simp: c_str_def takeWhile_eq_all_conv is_digit_def less_eq_char_def)

lemma symbol_chars_no_null: "\<forall>c\<in>set ss. valid_character_in_symbol_name c \<Longrightarrow> c_str ss = ss"
  unfolding c_str_def takeWhile_eq_all_conv
  using valid_char_small(2) [of "CHR 0x00"] by (auto simp: byte_of_char_def)

text \<open>A valid symbol is given by a precision of at most 18 and a name of one to seven characters.\<close>

lemma symbol_valid_parts:
  assumes "symbol_is_valid s"
  obtains ss where "ss \<noteq> []" "length ss \<le> 7" "\<forall>c\<in>set ss. valid_character_in_symbol_name c"
    "symbol_get_code s = Symbol_code (code_bytes ss)" "unat (symbol_precision s) \<le> 18"
    "symbol_of_string ss (symbol_precision s) = Inr s"
proof -
  have v: "code_is_valid (symbol_get_code s)" and p: "symbol_precision s \<le> max_precision"
    using assms by (simp_all add: symbol_is_valid_def)
  have "unat (code_raw (symbol_get_code s)) < 2 ^ 56"
    using unat_u64_less [of "symbol_raw s"]
    by (simp add: symbol_get_code_def unat_drop_bit div_less_iff_less_mult del: unat_u64_less)
  from code_valid_string [OF v this]
  obtain ss where ss: "ss \<noteq> []" "length ss \<le> 7" "\<forall>c\<in>set ss. valid_character_in_symbol_name c"
    "symbol_get_code s = Symbol_code (code_bytes ss)" by blast
  have "symbol_code_of_string ss = Inr (Symbol_code (code_bytes ss))"
    using ss by (simp add: symbol_code_of_string_eq Let_def)
  then have "symbol_of_string ss (symbol_precision s) =
      Inr (Symbol (push_bit 8 (code_bytes ss) OR ucast (symbol_precision s)))"
    using p by (simp add: symbol_of_string_eq)
  moreover have "push_bit 8 (drop_bit 8 r) OR ucast (ucast (r AND 0xFF) :: u8) = r" for r :: u64
  proof -
    have "push_bit 8 (drop_bit 8 r) OR ucast (ucast (r AND mask 8) :: u8) = r"
      by (rule bit_word_eqI) (auto simp: bit_simps, metis le_add_diff_inverse not_less)
    then show ?thesis by (simp add: mask_eq_exp_minus_1)
  qed
  then have "Symbol (push_bit 8 (code_bytes ss) OR ucast (symbol_precision s)) = s"
    using ss(4) unfolding symbol_get_code_def symbol_precision_def
    by (metis symbol.collapse symbol_code.inject)
  ultimately show ?thesis
    using ss p that by (simp add: max_precision_def word_le_nat_alt)
qed

lemma asset_to_string_eq:
  assumes "asset_symbol a = s" "symbol_get_code s = Symbol_code (code_bytes ss)" "length ss \<le> 7"
    and "\<forall>c\<in>set ss. valid_character_in_symbol_name c" "unat (symbol_precision s) = p" "p \<le> 18"
    and "unat b + 7 < 2 ^ 32" "asset_is_valid a"
  shows "\<exists>fr. length fr = p \<and> (\<forall>c\<in>set fr. is_digit c) \<and> int (dec_val fr) = \<bar>sint (amount a)\<bar> mod 10 ^ p
    \<and> asset_to_string m b a = Inr (show_int (sint (amount a) sdiv 10 ^ p) @ (if p = 0 then [] else ''.'' @ fr) @ '' '' @ ss)"
proof -
  let ?A = "sint (amount a)"
  obtain r where r: "int_p10_loop 1 p = Inr r" "sint r = 10 ^ p" using p10_int64 [OF assms(6)] by blast
  obtain fr where fr: "fraction_loop (\<bar>?A\<bar> mod 10 ^ p) p [] = fr" "length fr = p"
      "\<forall>c\<in>set fr. is_digit c" "int (dec_val fr) = \<bar>?A\<bar> mod 10 ^ p"
    using fraction_loop_eq [of "\<bar>?A\<bar> mod 10 ^ p" p "[]"] by auto
  have "\<bar>?A sdiv 10 ^ p\<bar> \<le> max_amount"
    using valid_amount [OF assms(8)] abs_sdiv_le [of ?A "10 ^ p"] by linarith
  then have "fits64 (?A sdiv 10 ^ p)"
    unfolding fits64_def int64_min_def max_amount_def by (simp add: abs_le_iff)
  then have "length (show_int (?A sdiv 10 ^ p)) \<le> 20" by (rule length_show_int)
  moreover have "code_to_string m b (symbol_get_code (asset_symbol a)) = ss"
    using assms by (simp add: code_to_string_bytes)
  ultimately show ?thesis
    using r fr assms smod_abs [of "10 ^ p" ?A]
    by (intro exI [of _ fr]) (auto simp: asset_to_string_def Let_def digits_no_null symbol_chars_no_null)
qed

lemma asset_to_string_total:
  assumes "asset_is_valid a" "unat b + 7 < 2 ^ 32"
  shows "\<exists>str. asset_to_string m b a = Inr str"
proof (rule symbol_valid_parts)
  show "symbol_is_valid (asset_symbol a)" using assms(1) by (simp add: asset_is_valid_def)
next
  fix ss
  assume "length ss \<le> 7" "\<forall>c\<in>set ss. valid_character_in_symbol_name c"
    "symbol_get_code (asset_symbol a) = Symbol_code (code_bytes ss)" "unat (symbol_precision (asset_symbol a)) \<le> 18"
  then show ?thesis
    using asset_to_string_eq [OF refl _ _ _ refl _ assms(2,1), of ss m] by blast
qed

lemma find_pos_eq: "find_char c s = Some n \<Longrightarrow> find_pos c s = of_nat n"
  by (simp add: find_pos_def)

lemma asset_from_string_dot:
  assumes "CHR '' '' \<notin> set is" "CHR ''.'' \<notin> set is" "fr \<noteq> []" "\<forall>c\<in>set fr. is_digit c"
    and "length is + length fr < 2 ^ 31"
  shows "asset_from_string (is @ ''.'' @ fr @ '' '' @ ss) =
    bindr (symbol_of_string ss (of_nat (length fr))) (\<lambda>symb.
    bindr (atoi (c_str is)) (\<lambda>i. bindr (atoi fr) (\<lambda>f.
    bindr (precision_in_10 symb) (\<lambda>p10.
    bindr (signed64 (sint (word_of_int i * p10 :: u64) + (if c_char is 0 = CHR ''-'' then - f else f))) (\<lambda>v.
      asset_make v symb)))))"
proof -
  let ?amt = "is @ CHR ''.'' # fr"
  have no_sp: "CHR '' '' \<notin> set ?amt" using assms(1,4) digit_not_special by auto
  then have sp: "find_char (CHR '' '') (?amt @ CHR '' '' # ss) = Some (length ?amt)"
    by (rule find_char_split [THEN iffD2])
  then have sp': "find_char (CHR '' '') (is @ CHR ''.'' # fr @ CHR '' '' # ss) = Some (length ?amt)" by simp
  have dot: "find_char (CHR ''.'') ?amt = Some (length is)" using assms(2) by (rule find_char_split [THEN iffD2])
  have n: "unat (of_nat (length is) :: u32) = length is" using assms(5) by (intro unat_of_nat_u32) simp
  have size: "size_of ?amt - of_nat (length is) - 1 = of_nat (length fr)" by (simp add: size_of_def)
  have "(of_nat (length fr) :: u32) \<noteq> 0"
  proof
    assume "(of_nat (length fr) :: u32) = 0"
    moreover have "unat (of_nat (length fr) :: u32) = length fr" using assms(5) by (intro unat_of_nat_u32) simp
    ultimately show False using assms(3) by simp
  qed
  then have ne: "of_nat (length is) \<noteq> size_of ?amt - 1" using size by auto
  have uc: "ucast (of_nat (length fr) :: u32) = (of_nat (length fr) :: u8)"
    by (simp add: unsigned_of_nat of_nat_take_bit take_bit_word_eq_self)
  have "c_char ?amt 0 = CHR ''-'' \<longleftrightarrow> c_char is 0 = CHR ''-''" by (cases "is") (simp_all add: c_char_def)
  moreover have "take (length ?amt) (is @ CHR ''.'' # fr @ CHR '' '' # ss) = ?amt"
     "drop (Suc (length ?amt)) (is @ CHR ''.'' # fr @ CHR '' '' # ss) = ss" by simp_all
  moreover have "c_str fr = fr" using assms(4) by (rule digits_no_null)
  ultimately show ?thesis
    using sp' dot n ne find_pos_eq [OF dot] size uc
    by (simp add: asset_from_string_def Let_def bindr_check bindr_assoc if_distrib [of Inr] cong: if_cong)
qed

lemma show_int_sign: "c_char (show_int i) 0 = CHR ''-'' \<longleftrightarrow> i < 0"
proof (cases "i < 0")
  case False
  obtain c cs where "show_nat (nat i) = c # cs" "is_digit c"
    using show_nat_digits [of "nat i"] by (cases "show_nat (nat i)") auto
  with False show ?thesis using digit_not_special [of c] by (simp add: show_int_def c_char_def)
qed (simp add: show_int_def c_char_def)

lemma show_int_chars:
  "CHR '' '' \<notin> set (show_int i)" "CHR ''.'' \<notin> set (show_int i)" "c_str (show_int i) = show_int i"
proof -
  have "\<forall>c\<in>set (show_int i). is_digit c \<or> c = CHR ''-''"
    using show_nat_digits [of "nat i"] show_nat_digits [of "nat (- i)"] by (auto simp: show_int_def)
  then show "CHR '' '' \<notin> set (show_int i)" "CHR ''.'' \<notin> set (show_int i)" "c_str (show_int i) = show_int i"
    using digit_not_special by (fastforce simp: c_str_def takeWhile_eq_all_conv is_digit_def less_eq_char_def)+
qed

text \<open>Putting the integer part and the fraction together again.\<close>

lemma sdiv_fraction:
  fixes A P :: int
  assumes "0 < P"
  shows "A sdiv P * P + (if A sdiv P < 0 then - (\<bar>A\<bar> mod P) else \<bar>A\<bar> mod P) = (if - P < A \<and> A < 0 then - A else A)"
proof (cases "A < 0")
  case True
  define D M where "D = - A div P" and "M = - A mod P"
  have "P * D + M = - A" unfolding D_def M_def by (rule mult_div_mod_eq)
  moreover have "A sdiv P = - D" using True assms by (simp add: signed_divide_int_def D_def)
  moreover have "D = 0 \<longleftrightarrow> - P < A" using True assms by (auto simp: zdiv_eq_0_iff D_def)
  moreover have "0 \<le> D" using True assms by (simp add: pos_imp_zdiv_nonneg_iff D_def)
  moreover have "\<bar>A\<bar> mod P = M" using True by (simp add: M_def)
  ultimately show ?thesis
    using True by (auto simp: mult.commute)
next
  case False
  then have "A sdiv P = A div P" "0 \<le> A div P"
    using assms by (cases "A = 0"; simp add: signed_divide_int_def pos_imp_zdiv_nonneg_iff)+
  with False show ?thesis by simp
qed

lemma sdiv_mult_fits:
  fixes A P :: int
  assumes "\<bar>A\<bar> \<le> max_amount" "0 < P"
  shows "\<bar>A sdiv P * P\<bar> \<le> max_amount"
proof -
  have "\<bar>A\<bar> div P * P \<le> \<bar>A\<bar>" using div_mult_mod_eq [of "\<bar>A\<bar>" P] pos_mod_sign [OF assms(2), of "\<bar>A\<bar>"] by linarith
  moreover have "\<bar>A sdiv P * P\<bar> \<le> \<bar>A\<bar> div P * P"
    using assms(2) by (simp add: signed_divide_int_def abs_mult sgn_if pos_imp_zdiv_nonneg_iff)
  ultimately show ?thesis using assms(1) by linarith
qed

lemma sdiv_bound:
  fixes A P n :: int
  assumes "\<bar>A\<bar> < n * P" "0 < P"
  shows "\<bar>A sdiv P\<bar> < n"
proof -
  have "0 \<le> \<bar>A\<bar> mod P" using assms(2) by simp
  then have "\<bar>A\<bar> div P * P \<le> \<bar>A\<bar>" using div_mult_mod_eq [of "\<bar>A\<bar>" P] by linarith
  then have "\<bar>A\<bar> div P * P < n * P" using assms(1) by linarith
  then have "\<bar>A\<bar> div P < n" using assms(2) by (simp only: mult_less_cancel_right_pos)
  moreover have "\<bar>A sdiv P\<bar> \<le> \<bar>A\<bar> div P"
    using assms(2) by (simp add: signed_divide_int_def abs_mult sgn_if pos_imp_zdiv_nonneg_iff)
  ultimately show ?thesis by linarith
qed

lemma precision_word:
  assumes "symbol_is_valid s" "unat (symbol_precision s) = p"
  shows "precision_in_10 s = Inr (word_of_int (10 ^ p))"
proof -
  have "symbol_precision s \<le> max_precision" using assms(1) by (simp add: symbol_is_valid_def)
  then obtain p10 where "precision_in_10 s = Inr p10" "unat p10 = 10 ^ p"
    using precision_in_10_eq assms(2) by auto
  moreover from this(2) have "p10 = of_nat (10 ^ p)" by (rule word_eq_of_natI)
  ultimately show ?thesis by simp
qed

text \<open>
  C37. Printing and parsing an asset. For a precision from one to nine and an integer
  part that fits in 32 bits, parsing the printed form of a valid asset gives the asset
  back, except when the amount is negative and its integer part is zero: the sign is
  then not printed, and the negated asset is read.
\<close>

theorem asset_string_roundtrip:
  fixes a :: asset
  defines "p \<equiv> unat (symbol_precision (asset_symbol a))"
  assumes "asset_is_valid a" "1 \<le> p" "p \<le> 9" "\<bar>sint (amount a)\<bar> < 2 ^ 31 * 10 ^ p" "unat b + 7 < 2 ^ 32"
  shows "\<exists>str. asset_to_string m b a = Inr str \<and>
    asset_from_string str = (if - (10 ^ p) < sint (amount a) \<and> sint (amount a) < 0 then asset_neg a else Inr a)"
proof -
  let ?A = "sint (amount a)" and ?P = "10 ^ p :: int"
  let ?r = "if - ?P < ?A \<and> ?A < 0 then - ?A else ?A"
  have valid: "symbol_is_valid (asset_symbol a)" using assms(2) by (simp add: asset_is_valid_def)
  obtain ss where ss: "length ss \<le> 7" "\<forall>c\<in>set ss. valid_character_in_symbol_name c"
      "symbol_get_code (asset_symbol a) = Symbol_code (code_bytes ss)"
      "symbol_of_string ss (symbol_precision (asset_symbol a)) = Inr (asset_symbol a)"
    using symbol_valid_parts [OF valid] by metis
  obtain fr where fr: "length fr = p" "\<forall>c\<in>set fr. is_digit c" "int (dec_val fr) = \<bar>?A\<bar> mod ?P"
      "asset_to_string m b a = Inr (show_int (?A sdiv ?P) @ ''.'' @ fr @ '' '' @ ss)"
    using asset_to_string_eq [OF refl ss(3,1,2) p_def [THEN meta_eq_to_obj_eq, symmetric] _ assms(6,2), of m] assms(3,4) by auto
  have "\<bar>?A\<bar> \<le> max_amount" using valid_amount [OF assms(2)] by linarith
  then have big: "\<bar>?A sdiv ?P * ?P\<bar> \<le> max_amount" "\<bar>?A sdiv ?P\<bar> \<le> max_amount"
    using sdiv_mult_fits [of ?A ?P] abs_sdiv_le [of ?A ?P] by auto
  have "\<bar>?A sdiv ?P\<bar> < 2 ^ 31" using assms(5) by (intro sdiv_bound) simp_all
  then have int_part: "atoi (c_str (show_int (?A sdiv ?P))) = Inr (?A sdiv ?P)"
    unfolding show_int_chars by (intro atoi_show_int) linarith+
  have "?P \<le> 1000000000" using power_increasing [OF assms(4), of "10 :: int"] by simp
  moreover have "\<bar>?A\<bar> mod ?P < ?P" by simp
  ultimately have "int (dec_val fr) < 2147483648" using fr(3) by linarith
  then have fract: "atoi fr = Inr (\<bar>?A\<bar> mod ?P)" using atoi_digits [OF fr(2)] fr(3) by simp
  have prod: "sint (word_of_int (?A sdiv ?P) * word_of_int ?P :: u64) = ?A sdiv ?P * ?P"
    using big(1) sint_of_fits64 [of "?A sdiv ?P * ?P"] unfolding fits64_def int64_min_def max_amount_def
    by (simp add: abs_le_iff)
  have "fits64 ?r" using valid_amount [OF assms(2)] by (auto simp: fits64_def int64_min_def max_amount_def)
  then have sum: "signed64 (?A sdiv ?P * ?P + (if ?A sdiv ?P < 0 then - (\<bar>?A\<bar> mod ?P) else \<bar>?A\<bar> mod ?P)) = Inr (word_of_int ?r)"
    by (simp add: sdiv_fraction signed64_eq)
  have "length (show_int (?A sdiv ?P)) \<le> 20"
    using big(2) by (intro length_show_int) (simp add: fits64_def int64_min_def max_amount_def abs_le_iff)
  then have "asset_from_string (show_int (?A sdiv ?P) @ ''.'' @ fr @ '' '' @ ss) = asset_make (word_of_int ?r) (asset_symbol a)"
    using fr(1,2) assms(3,4) ss(4) int_part fract prod sum precision_word [OF valid p_def [THEN meta_eq_to_obj_eq, symmetric]] show_int_chars
    by (subst asset_from_string_dot) (auto simp: show_int_sign p_def)
  moreover have "asset_make (word_of_int ?r) (asset_symbol a) = in_range [] [] ?r (asset_symbol a)"
    using valid valid_amount [OF assms(2)] sint_of_fits64 [OF \<open>fits64 ?r\<close>]
    by (auto simp: asset_make_def Let_def bindr_check is_amount_within_range_def in_range_def)
  moreover have "in_range [] [] ?A (asset_symbol a) = Inr a"
    using valid_amount [OF assms(2)] by (simp add: in_range_def)
  ultimately show ?thesis
    using fr(4) assms(2) by (auto simp: asset_neg_eq)
qed

theorem asset_string_roundtrip_witness:
  "\<exists>str. asset_to_string (\<lambda>_. 0) 0 \<lparr>amount = - 5, asset_symbol = Symbol 0x4302\<rparr> = Inr str \<and>
     asset_from_string str = Inr \<lparr>amount = 5, asset_symbol = Symbol 0x4302\<rparr>"
proof -
  let ?a = "\<lparr>amount = - 5, asset_symbol = Symbol 0x4302\<rparr>"
  have p: "unat (symbol_precision (asset_symbol ?a)) = 2" by code_simp
  have v: "asset_is_valid ?a" by code_simp
  have "sint (amount ?a) = - 5" by code_simp
  moreover have "asset_neg ?a = Inr \<lparr>amount = 5, asset_symbol = Symbol 0x4302\<rparr>" by code_simp
  ultimately show ?thesis
    using asset_string_roundtrip [of ?a 0 "\<lambda>_. 0"] v unfolding p by simp
qed

lemma asset_from_string_no_dot:
  assumes "length (show_int n) \<le> 18" "- (2 ^ 31) \<le> n" "n < 2 ^ 31"
  shows "asset_from_string (show_int n @ '' '' @ ss) =
    bindr (symbol_of_string ss (of_nat (length (show_int n)))) (\<lambda>symb.
    bindr (precision_in_10 symb) (\<lambda>p10.
    bindr (signed64 (sint (word_of_int n * p10 :: u64))) (\<lambda>v. asset_make v symb)))"
proof -
  let ?amt = "show_int n"
  have sp: "find_char (CHR '' '') (?amt @ CHR '' '' # ss) = Some (length ?amt)"
    using show_int_chars(1) by (rule find_char_split [THEN iffD2])
  have dot: "find_char (CHR ''.'') ?amt = None" using show_int_chars(2) by (simp add: find_char_None)
  have uc: "ucast (of_nat (length ?amt) :: u32) = (of_nat (length ?amt) :: u8)"
    by (simp add: unsigned_of_nat of_nat_take_bit take_bit_word_eq_self)
  show ?thesis
    using sp dot uc atoi_show_int [OF assms(2,3)]
    by (simp add: asset_from_string_def Let_def bindr_check bindr_assoc find_pos_def size_of_def show_int_chars)
qed

text \<open>
  Parsing an asset without a decimal point. The search result for the missing
  point enters the computation of the precision, which becomes the number of
  characters of the amount: a valid asset of precision zero never parses back, but
  becomes the amount with that many more decimals.
\<close>

theorem asset_precision_from_length:
  assumes "asset_is_valid a" "symbol_precision (asset_symbol a) = 0" "\<bar>sint (amount a)\<bar> < 10 ^ 6" "unat b + 7 < 2 ^ 32"
  shows "\<exists>str r. asset_to_string m b a = Inr str \<and> asset_from_string str = Inr r
    \<and> symbol_get_code (asset_symbol r) = symbol_get_code (asset_symbol a)
    \<and> unat (symbol_precision (asset_symbol r)) = length (show_int (sint (amount a)))
    \<and> sint (amount r) = sint (amount a) * 10 ^ length (show_int (sint (amount a))) \<and> r \<noteq> a"
proof -
  let ?A = "sint (amount a)" let ?n = "length (show_int ?A)"
  have valid: "symbol_is_valid (asset_symbol a)" using assms(1) by (simp add: asset_is_valid_def)
  obtain ss where ss: "ss \<noteq> []" "length ss \<le> 7" "\<forall>c\<in>set ss. valid_character_in_symbol_name c"
      "symbol_get_code (asset_symbol a) = Symbol_code (code_bytes ss)"
    using symbol_valid_parts [OF valid] by metis
  have str: "asset_to_string m b a = Inr (show_int ?A @ '' '' @ ss)"
    using asset_to_string_eq [OF refl ss(4,2,3), of 0 b m] assms by (auto simp: signed_divide_int_def sgn_mult_abs)
  have "nat ?A < 10 ^ Suc 5" "nat (- ?A) < 10 ^ Suc 5" using assms(3) by simp_all
  then have n: "?n \<le> 7" using length_show_nat [of "nat ?A" 5] length_show_nat [of "nat (- ?A)" 5] by (simp add: show_int_def)
  have pos: "?n \<noteq> 0" using show_nat_digits by (simp add: show_int_def)
  have u: "unat (of_nat ?n :: u8) = ?n" using n by (intro unat_of_nat_small) simp
  have "symbol_code_of_string ss = Inr (Symbol_code (code_bytes ss))"
    using ss by (simp add: symbol_code_of_string_eq Let_def)
  then obtain s where s: "symbol_of_string ss (of_nat ?n) = Inr s"
    using u n by (simp add: symbol_of_string_eq max_precision_def word_le_nat_alt)
  note sv = symbol_of_string_valid [OF s ss(1)]
  have p10: "precision_in_10 s = Inr (word_of_int (10 ^ ?n))" using sv u by (intro precision_word) simp_all
  have "(10 :: int) ^ ?n \<le> 10 ^ 7" using n by (intro power_increasing) simp_all
  then have "\<bar>?A\<bar> * 10 ^ ?n \<le> 10 ^ 6 * 10 ^ 7" using assms(3) by (intro mult_mono) simp_all
  then have r: "\<bar>?A * 10 ^ ?n\<bar> \<le> max_amount" by (simp add: abs_mult max_amount_def)
  then have fits: "fits64 (?A * 10 ^ ?n)" by (simp add: fits64_def int64_min_def max_amount_def abs_le_iff)
  have "sint (word_of_int ?A * word_of_int (10 ^ ?n) :: u64) = ?A * 10 ^ ?n"
    using sint_of_fits64 [OF fits] by simp
  then have "asset_from_string (show_int ?A @ '' '' @ ss) = asset_make (word_of_int (?A * 10 ^ ?n)) s"
    using n assms(3) s p10 fits by (subst asset_from_string_no_dot) (auto simp: signed64_eq)
  also have "\<dots> = Inr \<lparr>amount = word_of_int (?A * 10 ^ ?n), asset_symbol = s\<rparr>"
    using sv(1) r sint_of_fits64 [OF fits] by (simp add: asset_make_def Let_def bindr_check is_amount_within_range_def abs_le_iff)
  finally have parsed: "asset_from_string (show_int ?A @ '' '' @ ss) =
    Inr \<lparr>amount = word_of_int (?A * 10 ^ ?n), asset_symbol = s\<rparr>" .
  have "symbol_precision s \<noteq> 0" using sv(2) u pos by (metis unsigned_0)
  then have "\<lparr>amount = word_of_int (?A * 10 ^ ?n), asset_symbol = s\<rparr> \<noteq> a"
    using assms(2) by (metis asset.select_convs(2))
  then show ?thesis
    using parsed str sv(2,3) u ss(4) sint_of_fits64 [OF fits] by (intro exI conjI) (assumption | simp only: asset.select_convs)+
qed

theorem asset_precision_from_length_witness:
  "\<exists>str r. asset_to_string (\<lambda>_. 0) 0 \<lparr>amount = 5, asset_symbol = Symbol 0x4300\<rparr> = Inr str \<and>
     asset_from_string str = Inr r \<and> sint (amount r) = 50"
proof -
  let ?a = "\<lparr>amount = 5, asset_symbol = Symbol 0x4300\<rparr>"
  have v: "asset_is_valid ?a" "symbol_precision (asset_symbol ?a) = 0" by code_simp+
  have "sint (amount ?a) = 5" "length (show_int 5) = 1" by code_simp+
  then show ?thesis
    using asset_precision_from_length [OF v, of 0 "\<lambda>_. 0"] by auto
qed

section \<open>Codecs\<close>

definition asset_enc :: "asset \<Rightarrow> byte list" where
  "asset_enc a = prim_enc (amount a) @ prim_enc (symbol_raw (asset_symbol a))"

interpretation asset_codec: codec asset_enc "\<lambda>_. True" ser_asset deser_asset asset_default
proof -
  have "codec (\<lambda>v. prim_enc (amount v) @ (prim_enc \<circ> symbol_raw) (asset_symbol v)) (\<lambda>v. True \<and> True) ser_asset deser_asset asset_default"
    by (rule codec_of_two_fields [OF prim64.codec_axioms symbol_codec.codec_axioms])
      (simp_all add: asset_default_def ser_asset_def deser_asset_def)
  then show "codec asset_enc (\<lambda>_. True) ser_asset deser_asset asset_default"
    by (simp add: asset_enc_def [abs_def])
qed

definition extended_asset_enc :: "extended_asset \<Rightarrow> byte list" where
  "extended_asset_enc e = asset_enc (quantity e) @ prim_enc (name_value (contract e))"

interpretation extended_asset_codec: codec extended_asset_enc "\<lambda>_. True"
  ser_extended_asset deser_extended_asset extended_asset_default
proof -
  have "codec (\<lambda>v. asset_enc (quantity v) @ (prim_enc \<circ> name_value) (contract v)) (\<lambda>v. True \<and> True)
      ser_extended_asset deser_extended_asset extended_asset_default"
    by (rule codec_of_two_fields [OF asset_codec.codec_axioms name_codec.codec_axioms])
      (simp_all add: extended_asset_default_def ser_extended_asset_def deser_extended_asset_def)
  then show "codec extended_asset_enc (\<lambda>_. True) ser_extended_asset deser_extended_asset extended_asset_default"
    by (simp add: extended_asset_enc_def [abs_def])
qed

end
