(* ===== verification/Token.thy ===== *)
theory Token
  imports Inline_Transaction Asset
begin

text \<open>
  The token contract \<^verbatim>\<open>examples/V4/token\<close>: creation, issue, retirement and transfer of
  a currency over the two tables \<^verbatim>\<open>accounts\<close> (scoped by owner) and \<^verbatim>\<open>stat\<close> (scoped by
  symbol), the library's main client. Every action is a function of the host \<open>ch\<close>, the
  memory and address of the temporary vectors, the account of the contract and the
  world; an abort is \<open>Inl\<close> and discards the world, as the chain does.
\<close>

section \<open>Rows\<close>

record account =
  acc_owner :: regid
  acc_balance :: asset

record currency_stats =
  st_supply :: asset
  st_max_supply :: asset
  st_issuer :: regid

definition code_key :: "asset \<Rightarrow> u64" where
  "code_key a = code_raw (symbol_get_code (asset_symbol a))"

definition account_default :: account where
  "account_default = \<lparr>acc_owner = regid_default, acc_balance = asset_default\<rparr>"

definition stats_default :: currency_stats where
  "stats_default = \<lparr>st_supply = asset_default, st_max_supply = asset_default, st_issuer = regid_default\<rparr>"

definition ser_account :: "account \<Rightarrow> sink \<Rightarrow> sink res" where
  "ser_account r ds = bindr (ser_regid (acc_owner r) ds) (ser_asset (acc_balance r))"

definition deser_account :: "account \<Rightarrow> datastream \<Rightarrow> (account \<times> datastream) res" where
  "deser_account r ds =
     bindr (deser_regid (acc_owner r) ds) (\<lambda>(ow, ds'). bindr (deser_asset (acc_balance r) ds') (\<lambda>(b, ds'').
       Inr (\<lparr>acc_owner = ow, acc_balance = b\<rparr>, ds'')))"

definition ser_stats :: "currency_stats \<Rightarrow> sink \<Rightarrow> sink res" where
  "ser_stats r ds =
     bindr (ser_asset (st_supply r) ds) (\<lambda>ds'. bindr (ser_asset (st_max_supply r) ds') (ser_regid (st_issuer r)))"

definition deser_stats :: "currency_stats \<Rightarrow> datastream \<Rightarrow> (currency_stats \<times> datastream) res" where
  "deser_stats r ds =
     bindr (deser_asset (st_supply r) ds) (\<lambda>(s, ds1). bindr (deser_asset (st_max_supply r) ds1) (\<lambda>(x, ds2).
     bindr (deser_regid (st_issuer r) ds2) (\<lambda>(i, ds3).
       Inr (\<lparr>st_supply = s, st_max_supply = x, st_issuer = i\<rparr>, ds3))))"

definition accounts :: "account row_type" where
  "accounts = \<lparr>row_table = name_literal ''accounts'', row_ser = ser_account, row_deser = deser_account,
     row_default = account_default, row_key = \<lambda>r. code_key (acc_balance r)\<rparr>"

definition stats :: "currency_stats row_type" where
  "stats = \<lparr>row_table = name_literal ''stat'', row_ser = ser_stats, row_deser = deser_stats,
     row_default = stats_default, row_key = \<lambda>r. code_key (st_supply r)\<rparr>"

section \<open>Balances\<close>

definition sub_balance :: "'w chain \<Rightarrow> mem \<Rightarrow> u32 \<Rightarrow> regid \<Rightarrow> regid \<Rightarrow> asset \<Rightarrow> 'w \<Rightarrow> 'w res" where
  "sub_balance ch m a self owner val w =
     (let from_acnts = table_make self (regid_value owner) in
      bindr (table_get (chain_db ch) m a accounts from_acnts account_default (code_key val) w) (\<lambda>(found, from).
      bindr (check found ''no balance object found'') (\<lambda>_.
      bindr (asset_to_string m a (acc_balance from)) (\<lambda>s1.
      bindr (asset_to_string m a val) (\<lambda>s2.
      bindr (check (sint (amount (acc_balance from)) \<ge> sint (amount val))
        (''overdrawn balance from.balance:'' @ s1 @ ''value:'' @ s2)) (\<lambda>_.
      bindr (table_modify (chain_db ch) m a accounts from_acnts from owner
        (\<lambda>r. bindr (asset_sub_assign (acc_balance r) val) (\<lambda>b. Inr (r\<lparr>acc_balance := b\<rparr>))) w) (\<lambda>(_, w').
        Inr w')))))))"

definition add_balance :: "'w chain \<Rightarrow> mem \<Rightarrow> u32 \<Rightarrow> regid \<Rightarrow> regid \<Rightarrow> asset \<Rightarrow> regid \<Rightarrow> 'w \<Rightarrow> 'w res" where
  "add_balance ch m a self owner val payer w =
     (let to_acnts = table_make self (regid_value owner) in
      bindr (table_get (chain_db ch) m a accounts to_acnts account_default (code_key val) w) (\<lambda>(found, to).
      if \<not> found
      then table_emplace (chain_db ch) m a accounts to_acnts payer
             (\<lambda>r. Inr (r\<lparr>acc_owner := owner, acc_balance := val\<rparr>)) w
      else bindr (table_modify (chain_db ch) m a accounts to_acnts to no_payer
             (\<lambda>r. bindr (asset_add_assign (acc_balance r) val) (\<lambda>b. Inr (r\<lparr>acc_balance := b\<rparr>))) w) (\<lambda>(_, w').
           Inr w')))"

definition get_supply :: "'w chain \<Rightarrow> mem \<Rightarrow> u32 \<Rightarrow> regid \<Rightarrow> symbol_code \<Rightarrow> 'w \<Rightarrow> asset res" where
  "get_supply ch m a token_contract_account sym_code w =
     bindr (table_get (chain_db ch) m a stats (table_make token_contract_account (code_raw sym_code))
       stats_default (code_raw sym_code) w) (\<lambda>(_, st). Inr (st_supply st))"

definition get_balance :: "'w chain \<Rightarrow> mem \<Rightarrow> u32 \<Rightarrow> regid \<Rightarrow> regid \<Rightarrow> symbol_code \<Rightarrow> 'w \<Rightarrow> asset res" where
  "get_balance ch m a token_contract_account owner sym_code w =
     bindr (table_get (chain_db ch) m a accounts (table_make token_contract_account (regid_value owner))
       account_default (code_raw sym_code) w) (\<lambda>(_, ac). Inr (acc_balance ac))"

section \<open>Actions\<close>

definition get_stats :: "'w chain \<Rightarrow> mem \<Rightarrow> u32 \<Rightarrow> regid \<Rightarrow> symbol \<Rightarrow> 'w \<Rightarrow> (bool \<times> currency_stats) res" where
  "get_stats ch m a self symb w =
     table_get (chain_db ch) m a stats (table_make self (code_raw (symbol_get_code symb))) stats_default
       (code_raw (symbol_get_code symb)) w"

definition token_create :: "'w chain \<Rightarrow> mem \<Rightarrow> u32 \<Rightarrow> regid \<Rightarrow> regid \<Rightarrow> asset \<Rightarrow> 'w \<Rightarrow> 'w res" where
  "token_create ch m a self issuer maximum_supply w =
     bindr (require_auth ch issuer w) (\<lambda>_.
     bindr (check (regid_eq issuer (get_maintainer ch self w)) ''issuer not contract maintainer'') (\<lambda>_.
     let symb = asset_symbol maximum_supply in
     bindr (check (symbol_is_valid symb) ''invalid symbol name'') (\<lambda>_.
     bindr (check (asset_is_valid maximum_supply) ''invalid supply'') (\<lambda>_.
     bindr (check (sint (amount maximum_supply) > 0) ''max-supply must be positive'') (\<lambda>_.
     bindr (get_stats ch m a self symb w) (\<lambda>(found, st).
     bindr (check (\<not> found) ''token with symbol already exists'') (\<lambda>_.
       table_emplace (chain_db ch) m a stats (table_make self (code_raw (symbol_get_code symb))) self
         (\<lambda>s. Inr (s\<lparr>st_supply := (st_supply s)\<lparr>asset_symbol := asset_symbol maximum_supply\<rparr>,
                    st_max_supply := maximum_supply, st_issuer := issuer\<rparr>)) w)))))))"

definition transfer_args :: "regid \<times> regid \<times> asset \<times> string \<times> unit \<Rightarrow> sink \<Rightarrow> sink res" where
  "transfer_args = ser_tuple ser_regid (ser_tuple ser_regid (ser_tuple ser_asset (ser_tuple ser_string ser_tuple_nil)))"

definition token_issue :: "'w chain \<Rightarrow> mem \<Rightarrow> u32 \<Rightarrow> regid \<Rightarrow> regid \<Rightarrow> asset \<Rightarrow> string \<Rightarrow> 'w \<Rightarrow> 'w res" where
  "token_issue ch m a self to qty memo w =
     (let symb = asset_symbol qty; statstable = table_make self (code_raw (symbol_get_code symb)) in
     bindr (check (symbol_is_valid symb) ''invalid symbol name'') (\<lambda>_.
     bindr (check (length memo \<le> 256) ''memo has more than 256 bytes'') (\<lambda>_.
     bindr (get_stats ch m a self symb w) (\<lambda>(found, st).
     bindr (check found ''token with symbol does not exist, create token before issue'') (\<lambda>_.
     bindr (require_auth ch (st_issuer st) w) (\<lambda>_.
     bindr (check (asset_is_valid qty) ''invalid quantity'') (\<lambda>_.
     bindr (check (sint (amount qty) > 0) ''must issue positive quantity'') (\<lambda>_.
     bindr (check (symbol_eq (asset_symbol qty) (asset_symbol (st_supply st))) ''symbol precision mismatch'') (\<lambda>_.
     bindr (signed64 (sint (amount (st_max_supply st)) - sint (amount (st_supply st)))) (\<lambda>available.
     bindr (check (sint (amount qty) \<le> sint available) ''quantity exceeds available supply'') (\<lambda>_.
     bindr (table_modify (chain_db ch) m a stats statstable st no_payer
       (\<lambda>s. bindr (asset_add_assign (st_supply s) qty) (\<lambda>b. Inr (s\<lparr>st_supply := b\<rparr>))) w) (\<lambda>(st, w).
     bindr (add_balance ch m a self (st_issuer st) qty (st_issuer st) w) (\<lambda>w.
     if regid_neq to (st_issuer st)
     then bindr (transaction_make m a transfer_args self (name_literal ''transfer'')
            [\<lparr>perm_account = st_issuer st, perm_name = name_literal ''wasmio_owner''\<rparr>] (st_issuer st, to, qty, memo, ()))
            (\<lambda>inline_trx. transaction_send ch m a inline_trx w)
     else Inr w)))))))))))))"

definition token_retire :: "'w chain \<Rightarrow> mem \<Rightarrow> u32 \<Rightarrow> regid \<Rightarrow> asset \<Rightarrow> string \<Rightarrow> 'w \<Rightarrow> 'w res" where
  "token_retire ch m a self qty memo w =
     (let symb = asset_symbol qty; statstable = table_make self (code_raw (symbol_get_code symb)) in
     bindr (check (symbol_is_valid symb) ''invalid symbol name'') (\<lambda>_.
     bindr (check (length memo \<le> 256) ''memo has more than 256 bytes'') (\<lambda>_.
     bindr (get_stats ch m a self symb w) (\<lambda>(found, st).
     bindr (check found ''token with symbol does not exist'') (\<lambda>_.
     bindr (require_auth ch (st_issuer st) w) (\<lambda>_.
     bindr (check (asset_is_valid qty) ''invalid quantity'') (\<lambda>_.
     bindr (check (sint (amount qty) > 0) ''must retire positive quantity'') (\<lambda>_.
     bindr (check (symbol_eq (asset_symbol qty) (asset_symbol (st_supply st))) ''symbol precision mismatch'') (\<lambda>_.
     bindr (table_modify (chain_db ch) m a stats statstable st no_payer
       (\<lambda>s. bindr (asset_sub_assign (st_supply s) qty) (\<lambda>b. Inr (s\<lparr>st_supply := b\<rparr>))) w) (\<lambda>(st, w).
       sub_balance ch m a self (st_issuer st) qty w))))))))))"

definition token_transfer :: "'w chain \<Rightarrow> mem \<Rightarrow> u32 \<Rightarrow> regid \<Rightarrow> regid \<Rightarrow> regid \<Rightarrow> asset \<Rightarrow> string \<Rightarrow> 'w \<Rightarrow> 'w res" where
  "token_transfer ch m a self from to qty memo w =
     bindr (check (regid_neq from to) ''cannot transfer to self'') (\<lambda>_.
     bindr (require_auth ch from w) (\<lambda>_.
     bindr (check (is_account ch to w) ''to account does not exist'') (\<lambda>_.
     bindr (get_stats ch m a self (asset_symbol qty) w) (\<lambda>(_, st).
     bindr (notify_recipient ch from w) (\<lambda>w.
     bindr (notify_recipient ch to w) (\<lambda>w.
     bindr (check (asset_is_valid qty) ''invalid quantity'') (\<lambda>_.
     bindr (check (sint (amount qty) > 0) ''must transfer positive quantity'') (\<lambda>_.
     bindr (check (symbol_eq (asset_symbol qty) (asset_symbol (st_supply st))) ''symbol precision mismatch'') (\<lambda>_.
     bindr (check (length memo \<le> 256) ''memo has more than 256 bytes'') (\<lambda>_.
     let payer = (if has_auth ch to w then to else from) in
     bindr (sub_balance ch m a self from qty w) (\<lambda>w.
       add_balance ch m a self to qty payer w)))))))))))"

definition token_open :: "'w chain \<Rightarrow> mem \<Rightarrow> u32 \<Rightarrow> regid \<Rightarrow> regid \<Rightarrow> symbol \<Rightarrow> regid \<Rightarrow> 'w \<Rightarrow> 'w res" where
  "token_open ch m a self owner symb payer w =
     bindr (require_auth ch payer w) (\<lambda>_.
     bindr (get_stats ch m a self symb w) (\<lambda>(found, st).
     bindr (check found ''symbol does not exist'') (\<lambda>_.
     bindr (check (symbol_eq (asset_symbol (st_supply st)) symb) ''symbol precision mismatch'') (\<lambda>_.
     let acnts = table_make self (regid_value owner) in
     bindr (table_get (chain_db ch) m a accounts acnts account_default (code_raw (symbol_get_code symb)) w) (\<lambda>(found, _).
     if \<not> found
     then table_emplace (chain_db ch) m a accounts acnts payer
            (\<lambda>r. bindr (asset_make 0 symb) (\<lambda>b. Inr (r\<lparr>acc_owner := owner, acc_balance := b\<rparr>))) w
     else Inr w)))))"

definition token_close :: "'w chain \<Rightarrow> mem \<Rightarrow> u32 \<Rightarrow> regid \<Rightarrow> regid \<Rightarrow> symbol \<Rightarrow> 'w \<Rightarrow> 'w res" where
  "token_close ch m a self owner symb w =
     bindr (require_auth ch owner w) (\<lambda>_.
     let acnts = table_make self (regid_value owner) in
     bindr (table_get (chain_db ch) m a accounts acnts account_default (code_raw (symbol_get_code symb)) w) (\<lambda>(found, ac).
     bindr (check found ''Balance row already deleted or never existed. Action won't have any effect.'') (\<lambda>_.
     bindr (check (sint (amount (acc_balance ac)) = 0) ''Cannot close because the balance is not zero.'') (\<lambda>_.
       table_erase (chain_db ch) m a accounts acnts ac no_payer w))))"

definition token_balance_of :: "'w chain \<Rightarrow> mem \<Rightarrow> u32 \<Rightarrow> regid \<Rightarrow> regid \<Rightarrow> symbol \<Rightarrow> 'w \<Rightarrow> (u64 \<times> 'w) res" where
  "token_balance_of ch m a self owner symb w =
     bindr (get_stats ch m a self symb w) (\<lambda>(_, st).
     bindr (check (symbol_eq symb (asset_symbol (st_supply st))) ''symbol precision mismatch'') (\<lambda>_.
     bindr (table_get (chain_db ch) m a accounts (table_make self (regid_value owner)) account_default
       (code_raw (symbol_get_code symb)) w) (\<lambda>(found, from).
     bindr (check found ''no balance object found'') (\<lambda>_.
     bindr (pack m a ser_account from) (\<lambda>row.
     bindr (make_log ch owner ''account'' row w) (\<lambda>w.
     bindr (pack m a ser_asset (acc_balance from)) (\<lambda>bal.
     bindr (set_return ch bal w) (\<lambda>w.
       Inr (amount (acc_balance from), w)))))))))"

section \<open>The rows are codecs\<close>

definition account_enc :: "account \<Rightarrow> byte list" where
  "account_enc r = prim_enc (regid_value (acc_owner r)) @ asset_enc (acc_balance r)"

definition stats_enc :: "currency_stats \<Rightarrow> byte list" where
  "stats_enc r = asset_enc (st_supply r) @ asset_enc (st_max_supply r) @ prim_enc (regid_value (st_issuer r))"

lemma row_fields [simp]:
  "row_ser accounts = ser_account" "row_deser accounts = deser_account" "row_default accounts = account_default"
  "row_key accounts r = code_key (acc_balance r)"
  "row_ser stats = ser_stats" "row_deser stats = deser_stats" "row_default stats = stats_default"
  "row_key stats t = code_key (st_supply t)"
  by (simp_all add: accounts_def stats_def)

lemma table_names_differ: "row_table accounts \<noteq> row_table stats"
  by code_simp

interpretation account_rows: row_codec accounts account_enc
proof -
  have "codec (\<lambda>v. (prim_enc \<circ> regid_value) (acc_owner v) @ asset_enc (acc_balance v)) (\<lambda>v. True \<and> True)
      ser_account deser_account account_default"
    by (rule codec_of_two_fields [OF regid_codec.codec_axioms asset_codec.codec_axioms])
      (simp_all add: account_default_def regid_default_def ser_account_def deser_account_def)
  then have "codec account_enc (\<lambda>_. True) ser_account deser_account account_default"
    by (simp add: account_enc_def [abs_def])
  then show "row_codec accounts account_enc"
    by (intro row_codec.intro row_codec_axioms.intro) (simp_all add: account_enc_def asset_enc_def)
qed

interpretation stats_rows: row_codec stats stats_enc
proof -
  have "codec2 asset_enc (\<lambda>_. True) ser_asset deser_asset asset_default
      (prim_enc \<circ> regid_value) (\<lambda>_. True) ser_regid deser_regid (Regid 0)"
    by (intro codec2.intro asset_codec.codec_axioms regid_codec.codec_axioms)
  note rest = codec2.codec_tuple [OF this]
  have "codec (\<lambda>v. asset_enc (st_supply v) @ pair_enc asset_enc (prim_enc \<circ> regid_value) (st_max_supply v, st_issuer v))
      (\<lambda>v. True \<and> pair_ok (\<lambda>_. True) (\<lambda>_. True) (st_max_supply v, st_issuer v)) ser_stats deser_stats stats_default"
    by (rule codec_of_two_fields [OF asset_codec.codec_axioms rest,
          where mk = "\<lambda>s (x, i). \<lparr>st_supply = s, st_max_supply = x, st_issuer = i\<rparr>"])
      (simp_all add: stats_default_def regid_default_def ser_stats_def ser_tuple_def [abs_def] deser_stats_def
        deser_tuple_def bindr_assoc split_def)
  then have "codec stats_enc (\<lambda>_. True) ser_stats deser_stats stats_default"
    by (simp add: stats_enc_def [abs_def] pair_enc_def pair_ok_def)
  then show "row_codec stats stats_enc"
    by (intro row_codec.intro row_codec_axioms.intro) (simp_all add: stats_enc_def asset_enc_def)
qed

text \<open>
  C11. Tables refine maps. When the database holds the rows of a map from owners and
  symbol codes to accounts, \<open>get\<close> finds exactly the row of its key; after a successful
  \<open>emplace\<close> or \<open>modify\<close> the database holds the map with the constructed or updated row at
  its key, after \<open>erase\<close> the map without the row, and nothing else has changed.
\<close>

theorem accounts_refine_map:
  assumes "db_laws h" "holds_rows h accounts account_enc rows w" "unat a + 1024 < 2 ^ 32"
  shows "table_get h m a accounts (table_make code s) r k w =
      Inr (case rows s k of None \<Rightarrow> (False, r) | Some r' \<Rightarrow> (True, r'))
    \<and> (table_emplace h m a accounts (table_make code s) payer f w = Inr w' \<longrightarrow>
        (\<exists>r'. f account_default = Inr r' \<and> holds_rows h accounts account_enc (set_row rows s (code_key (acc_balance r')) (Some r')) w'))
    \<and> (table_modify h m a accounts (table_make code s) r payer f w = Inr (r', w') \<longrightarrow>
        f r = Inr r' \<and> holds_rows h accounts account_enc (set_row rows s (code_key (acc_balance r')) (Some r')) w')
    \<and> (table_erase h m a accounts (table_make code s) r payer w = Inr w' \<longrightarrow>
        holds_rows h accounts account_enc (set_row rows s (code_key (acc_balance r)) None) w')"
proof (intro conjI impI)
  show "table_get h m a accounts (table_make code s) r k w =
      Inr (case rows s k of None \<Rightarrow> (False, r) | Some r' \<Rightarrow> (True, r'))"
    using account_rows.get_row [OF assms(2,3)] by (simp add: table_make_def)
next
  assume "table_emplace h m a accounts (table_make code s) payer f w = Inr w'"
  then show "\<exists>r'. f account_default = Inr r' \<and>
      holds_rows h accounts account_enc (set_row rows s (code_key (acc_balance r')) (Some r')) w'"
    by (rule account_rows.emplace_row [OF assms]) (auto simp: table_make_def)
next
  assume "table_modify h m a accounts (table_make code s) r payer f w = Inr (r', w')"
  note mod = account_rows.modify_row [OF assms this]
  show "f r = Inr r'" by (rule mod(1))
  show "holds_rows h accounts account_enc (set_row rows s (code_key (acc_balance r')) (Some r')) w'"
    using mod(2) by (simp add: table_make_def)
next
  assume "table_erase h m a accounts (table_make code s) r payer w = Inr w'"
  from account_rows.erase_row(1) [OF assms this]
  show "holds_rows h accounts account_enc (set_row rows s (code_key (acc_balance r)) None) w'"
    by (simp add: table_make_def)
qed

theorem accounts_refine_map_witness:
  "holds_rows map_database accounts account_enc (\<lambda>_ _. None) (\<lambda>_. []) \<and>
   (\<exists>w'. table_emplace map_database (\<lambda>_. 0) 0 accounts (table_make (Regid 9) 5) (Regid 5) (\<lambda>r. Inr (r\<lparr>acc_owner := Regid 5\<rparr>)) (\<lambda>_. []) = Inr w' \<and>
     holds_rows map_database accounts account_enc (set_row (\<lambda>_ _. None) 5 0 (Some (account_default\<lparr>acc_owner := Regid 5\<rparr>))) w')"
proof -
  have empty: "holds_rows map_database accounts account_enc (\<lambda>_ _. None) (\<lambda>_. [])"
    by (simp add: holds_rows_def map_database_def)
  have room: "unat (0 :: u32) + 1024 < 2 ^ 32" by simp
  let ?f = "\<lambda>r. Inr (r\<lparr>acc_owner := Regid 5\<rparr>) :: account res"
  obtain w' where w': "table_emplace map_database (\<lambda>_. 0) 0 accounts (table_make (Regid 9) 5) (Regid 5) ?f (\<lambda>_. []) = Inr w'"
    using account_rows.emplace_total [of map_database "\<lambda>_. []" 0 ?f _ "\<lambda>_. 0" "table_make (Regid 9) 5" "Regid 5"] room
    by (auto simp: map_database_def)
  moreover have "code_key (acc_balance (account_default\<lparr>acc_owner := Regid 5\<rparr>)) = 0" by code_simp
  ultimately show ?thesis
    using accounts_refine_map [OF map_database_laws empty room] empty by fastforce
qed

section \<open>The ledger\<close>

text \<open>The abstract state: the rows of both tables; the relation to the world.\<close>

definition token_rel :: "'w chain \<Rightarrow> account rows \<Rightarrow> currency_stats rows \<Rightarrow> 'w \<Rightarrow> bool" where
  "token_rel ch ac st w \<longleftrightarrow>
     holds_rows (chain_db ch) accounts account_enc ac w \<and> holds_rows (chain_db ch) stats stats_enc st w"

definition held :: "account rows \<Rightarrow> u64 \<Rightarrow> u64 \<Rightarrow> int" where
  "held ac s k = (case ac s k of None \<Rightarrow> 0 | Some r \<Rightarrow> sint (amount (acc_balance r)))"

definition supplied :: "currency_stats rows \<Rightarrow> u64 \<Rightarrow> int" where
  "supplied st k = (case st k k of None \<Rightarrow> 0 | Some t \<Rightarrow> sint (amount (st_supply t)))"

definition stat_ok :: "u64 \<Rightarrow> currency_stats \<Rightarrow> bool" where
  "stat_ok k t \<longleftrightarrow> symbol_is_valid (asset_symbol (st_supply t)) \<and> asset_symbol (st_max_supply t) = asset_symbol (st_supply t)
     \<and> code_key (st_supply t) = k \<and> 0 \<le> sint (amount (st_supply t))
     \<and> sint (amount (st_supply t)) \<le> sint (amount (st_max_supply t)) \<and> sint (amount (st_max_supply t)) \<le> max_amount"

definition account_ok :: "currency_stats rows \<Rightarrow> u64 \<Rightarrow> u64 \<Rightarrow> account \<Rightarrow> bool" where
  "account_ok st s k r \<longleftrightarrow> acc_owner r = Regid s \<and> 0 \<le> sint (amount (acc_balance r)) \<and>
     (\<exists>t. st k k = Some t \<and> asset_symbol (acc_balance r) = asset_symbol (st_supply t))"

text \<open>
  The invariant, with the difference \<open>off k\<close> between supply and balances that an action
  has built up for the symbol \<open>k\<close> between its two writes.
\<close>

definition ledger_off :: "(u64 \<Rightarrow> int) \<Rightarrow> account rows \<Rightarrow> currency_stats rows \<Rightarrow> bool" where
  "ledger_off off ac st \<longleftrightarrow>
     (\<forall>s k t. st s k = Some t \<longrightarrow> s = k \<and> stat_ok k t) \<and>
     (\<forall>s k r. ac s k = Some r \<longrightarrow> account_ok st s k r) \<and>
     (\<forall>k. (\<Sum>s\<in>UNIV. held ac s k) + off k = supplied st k)"

definition token_inv :: "'w chain \<Rightarrow> 'w \<Rightarrow> bool" where
  "token_inv ch w \<longleftrightarrow> (\<exists>ac st. token_rel ch ac st w \<and> ledger_off (\<lambda>_. 0) ac st)"

lemma sum_held_set:
  "(\<Sum>s'\<in>UNIV. held (set_row ac s k r) s' k') =
    (\<Sum>s'\<in>UNIV. held ac s' k') + (if k' = k then (case r of None \<Rightarrow> 0 | Some r \<Rightarrow> sint (amount (acc_balance r))) - held ac s k else 0)"
proof (cases "k' = k")
  case True
  have "(\<Sum>s'\<in>UNIV. held (set_row ac s k r) s' k) = held (set_row ac s k r) s k + (\<Sum>s'\<in>UNIV - {s}. held (set_row ac s k r) s' k)"
    by (rule sum.remove) simp_all
  also have "(\<Sum>s'\<in>UNIV - {s}. held (set_row ac s k r) s' k) = (\<Sum>s'\<in>UNIV - {s}. held ac s' k)"
    by (rule sum.cong) (simp_all add: held_def set_row_apply)
  also have "\<dots> = (\<Sum>s'\<in>UNIV. held ac s' k) - held ac s k"
    using sum.remove [of "UNIV :: u64 set" s "\<lambda>s'. held ac s' k"] by simp
  finally show ?thesis using True by (simp add: held_def set_row_apply)
next
  case False
  then have "held (set_row ac s k r) s' k' = held ac s' k'" for s' by (simp add: held_def set_row_apply)
  with False show ?thesis by simp
qed

lemma ledger_set_account:
  assumes "ledger_off off ac st" "account_ok st s k r"
  shows "ledger_off (off(k := off k + held ac s k - sint (amount (acc_balance r)))) (set_row ac s k (Some r)) st"
  using assms by (simp add: ledger_off_def sum_held_set set_row_apply)

lemma ledger_erase_account:
  assumes "ledger_off off ac st" "held ac s k = 0"
  shows "ledger_off off (set_row ac s k None) st"
  using assms by (simp add: ledger_off_def sum_held_set set_row_apply)

lemma ledger_set_stat:
  assumes "ledger_off off ac st" "st k k = Some t" "stat_ok k t'" "asset_symbol (st_supply t') = asset_symbol (st_supply t)"
  shows "ledger_off (off(k := off k + sint (amount (st_supply t')) - supplied st k)) ac (set_row st k k (Some t'))"
proof -
  have "account_ok (set_row st k k (Some t')) s k' r" if "account_ok st s k' r" for s k' r
    using that assms(2,4) by (auto simp: account_ok_def set_row_apply)
  moreover have "(\<Sum>s\<in>UNIV. held ac s k') + (off(k := off k + sint (amount (st_supply t')) - supplied st k)) k' =
      supplied (set_row st k k (Some t')) k'" for k'
    using assms(1) by (simp add: ledger_off_def supplied_def set_row_apply algebra_simps)
  ultimately show ?thesis
    using assms by (simp add: ledger_off_def set_row_apply)
qed

lemma ledger_new_stat:
  assumes "ledger_off (\<lambda>_. 0) ac st" "st k k = None" "stat_ok k t" "sint (amount (st_supply t)) = 0"
  shows "ledger_off (\<lambda>_. 0) ac (set_row st k k (Some t))"
proof -
  have "account_ok (set_row st k k (Some t)) s k' r" if "account_ok st s k' r" for s k' r
    using that assms(2) by (auto simp: account_ok_def set_row_apply)
  moreover have "supplied (set_row st k k (Some t)) k' = supplied st k'" for k'
    using assms(2,4) by (simp add: supplied_def set_row_apply)
  ultimately show ?thesis
    using assms(1,3) by (auto simp: ledger_off_def set_row_apply)
qed

section \<open>The actions on the rows\<close>

lemma asset_add_assign_Inr:
  assumes "asset_add_assign x q = Inr r"
  shows "asset_symbol q = asset_symbol x" "asset_symbol r = asset_symbol x"
    "sint (amount r) = sint (amount x) + sint (amount q)" "sint (amount r) \<le> max_amount"
  using assms sint_of_fits64 [of "sint (amount x) + sint (amount q)"]
  by (auto simp: asset_add_assign_def signed64_def check_def sint_of_fits64 res_simps split: if_splits)

lemma asset_sub_assign_Inr:
  assumes "asset_sub_assign x q = Inr r"
  shows "asset_symbol q = asset_symbol x" "asset_symbol r = asset_symbol x"
    "sint (amount r) = sint (amount x) - sint (amount q)"
  using assms sint_of_fits64 [of "sint (amount x) - sint (amount q)"]
  by (auto simp: asset_sub_assign_def signed64_def check_def sint_of_fits64 res_simps split: if_splits)

lemma code_key_cong: "asset_symbol x = asset_symbol y \<Longrightarrow> code_key x = code_key y"
  by (simp add: code_key_def)

lemma table_make_scope [simp]: "table_scope (table_make code s) = s"
  by (simp add: table_make_def)

lemma token_rel_account:
  assumes "token_rel ch ac st w" "holds_rows (chain_db ch) accounts account_enc ac' w'"
    and "\<And>k'. k' \<noteq> key_bytes (row_table accounts) s k \<Longrightarrow> db_get (chain_db ch) k' w' = db_get (chain_db ch) k' w"
  shows "token_rel ch ac' st w'"
  using assms holds_rows_frame [OF _ table_names_differ [symmetric] assms(3)] by (simp add: token_rel_def)

lemma token_rel_stat:
  assumes "token_rel ch ac st w" "holds_rows (chain_db ch) stats stats_enc st' w'"
    and "\<And>k'. k' \<noteq> key_bytes (row_table stats) s k \<Longrightarrow> db_get (chain_db ch) k' w' = db_get (chain_db ch) k' w"
  shows "token_rel ch ac st' w'"
  using assms holds_rows_frame [OF _ table_names_differ assms(3)] by (simp add: token_rel_def)

lemma get_account:
  assumes "token_rel ch ac st w" "unat a + 1024 < 2 ^ 32"
  shows "table_get (chain_db ch) m a accounts (table_make self s) r k w =
    Inr (case ac s k of None \<Rightarrow> (False, r) | Some r' \<Rightarrow> (True, r'))"
  using account_rows.get_row [of "chain_db ch" ac w a m "table_make self s" r k] assms by (simp add: token_rel_def)

lemma get_stat:
  assumes "token_rel ch ac st w" "unat a + 1024 < 2 ^ 32"
  shows "table_get (chain_db ch) m a stats (table_make self s) t k w =
    Inr (case st s k of None \<Rightarrow> (False, t) | Some t' \<Rightarrow> (True, t'))"
  using stats_rows.get_row [of "chain_db ch" st w a m "table_make self s" t k] assms by (simp add: token_rel_def)

lemma modify_account:
  assumes "db_laws (chain_db ch)" "token_rel ch ac st w" "unat a + 1024 < 2 ^ 32"
    and "table_modify (chain_db ch) m a accounts (table_make self s) r payer upd w = Inr (r', w')"
  shows "upd r = Inr r'" "token_rel ch (set_row ac s (code_key (acc_balance r')) (Some r')) st w'"
proof -
  have h: "holds_rows (chain_db ch) accounts account_enc ac w" using assms(2) by (simp add: token_rel_def)
  note mod = account_rows.modify_row [OF assms(1) h assms(3,4)]
  show "upd r = Inr r'" by (rule mod(1))
  show "token_rel ch (set_row ac s (code_key (acc_balance r')) (Some r')) st w'"
    using token_rel_account [OF assms(2) mod(2,3)] by simp
qed

lemma modify_stat:
  assumes "db_laws (chain_db ch)" "token_rel ch ac st w" "unat a + 1024 < 2 ^ 32"
    and "table_modify (chain_db ch) m a stats (table_make self s) t payer upd w = Inr (t', w')"
  shows "upd t = Inr t'" "token_rel ch ac (set_row st s (code_key (st_supply t')) (Some t')) w'"
proof -
  have h: "holds_rows (chain_db ch) stats stats_enc st w" using assms(2) by (simp add: token_rel_def)
  note mod = stats_rows.modify_row [OF assms(1) h assms(3,4)]
  show "upd t = Inr t'" by (rule mod(1))
  show "token_rel ch ac (set_row st s (code_key (st_supply t')) (Some t')) w'"
    using token_rel_stat [OF assms(2) mod(2,3)] by simp
qed

lemma emplace_account:
  assumes "db_laws (chain_db ch)" "token_rel ch ac st w" "unat a + 1024 < 2 ^ 32"
    and "table_emplace (chain_db ch) m a accounts (table_make self s) payer ctor w = Inr w'"
  obtains r where "ctor account_default = Inr r" "token_rel ch (set_row ac s (code_key (acc_balance r)) (Some r)) st w'"
proof -
  have h: "holds_rows (chain_db ch) accounts account_enc ac w" using assms(2) by (simp add: token_rel_def)
  show ?thesis
  proof (rule account_rows.emplace_row [OF assms(1) h assms(3,4)])
    fix r assume "ctor (row_default accounts) = Inr r" and n: "holds_rows (chain_db ch) accounts account_enc
        (set_row ac (table_scope (table_make self s)) (row_key accounts r) (Some r)) w'"
      "\<And>k'. k' \<noteq> key_bytes (row_table accounts) (table_scope (table_make self s)) (row_key accounts r) \<Longrightarrow>
        db_get (chain_db ch) k' w' = db_get (chain_db ch) k' w"
    then show thesis using token_rel_account [OF assms(2) n] by (intro that) simp_all
  qed
qed

lemma emplace_stat:
  assumes "db_laws (chain_db ch)" "token_rel ch ac st w" "unat a + 1024 < 2 ^ 32"
    and "table_emplace (chain_db ch) m a stats (table_make self s) payer ctor w = Inr w'"
  obtains t where "ctor stats_default = Inr t" "token_rel ch ac (set_row st s (code_key (st_supply t)) (Some t)) w'"
proof -
  have h: "holds_rows (chain_db ch) stats stats_enc st w" using assms(2) by (simp add: token_rel_def)
  show ?thesis
  proof (rule stats_rows.emplace_row [OF assms(1) h assms(3,4)])
    fix t assume "ctor (row_default stats) = Inr t" and n: "holds_rows (chain_db ch) stats stats_enc
        (set_row st (table_scope (table_make self s)) (row_key stats t) (Some t)) w'"
      "\<And>k'. k' \<noteq> key_bytes (row_table stats) (table_scope (table_make self s)) (row_key stats t) \<Longrightarrow>
        db_get (chain_db ch) k' w' = db_get (chain_db ch) k' w"
    then show thesis using token_rel_stat [OF assms(2) n] by (intro that) simp_all
  qed
qed

lemma sub_balance_rows:
  assumes "db_laws (chain_db ch)" "token_rel ch ac st w" "unat a + 1024 < 2 ^ 32"
    and "sub_balance ch m a self owner q w = Inr w'"
  obtains r b where "ac (regid_value owner) (code_key q) = Some r" "sint (amount q) \<le> sint (amount (acc_balance r))"
    "asset_sub_assign (acc_balance r) q = Inr b"
    "token_rel ch (set_row ac (regid_value owner) (code_key q) (Some (r\<lparr>acc_balance := b\<rparr>))) st w'"
proof -
  obtain r r' where r: "ac (regid_value owner) (code_key q) = Some r" "sint (amount q) \<le> sint (amount (acc_balance r))"
      and mod: "table_modify (chain_db ch) m a accounts (table_make self (regid_value owner)) r owner
        (\<lambda>r. bindr (asset_sub_assign (acc_balance r) q) (\<lambda>b. Inr (r\<lparr>acc_balance := b\<rparr>))) w = Inr (r', w')"
    using assms(2-4)
    by (auto simp: sub_balance_def get_account check_def res_simps Let_def split: option.splits if_splits)
  from modify_account [OF assms(1-3) mod] obtain b where b: "asset_sub_assign (acc_balance r) q = Inr b"
      "r' = r\<lparr>acc_balance := b\<rparr>"
    by (auto simp: res_simps)
  moreover have "code_key b = code_key q" using asset_sub_assign_Inr [OF b(1)] by (simp add: code_key_def)
  ultimately show thesis using r that modify_account(2) [OF assms(1-3) mod] by simp
qed

lemma add_balance_rows:
  assumes "db_laws (chain_db ch)" "token_rel ch ac st w" "unat a + 1024 < 2 ^ 32"
    and "add_balance ch m a self owner q payer w = Inr w'"
  obtains (fresh) "ac (regid_value owner) (code_key q) = None"
      "token_rel ch (set_row ac (regid_value owner) (code_key q) (Some \<lparr>acc_owner = owner, acc_balance = q\<rparr>)) st w'"
    | (present) r b where "ac (regid_value owner) (code_key q) = Some r" "asset_add_assign (acc_balance r) q = Inr b"
      "token_rel ch (set_row ac (regid_value owner) (code_key q) (Some (r\<lparr>acc_balance := b\<rparr>))) st w'"
proof (cases "ac (regid_value owner) (code_key q)")
  case None
  then have "table_emplace (chain_db ch) m a accounts (table_make self (regid_value owner)) payer
      (\<lambda>r. Inr (r\<lparr>acc_owner := owner, acc_balance := q\<rparr>)) w = Inr w'"
    using assms(2-4) by (simp add: add_balance_def get_account)
  from emplace_account [OF assms(1-3) this] None fresh show thesis by (auto simp: account_default_def)
next
  case (Some r)
  then obtain r' where mod: "table_modify (chain_db ch) m a accounts (table_make self (regid_value owner)) r no_payer
        (\<lambda>r. bindr (asset_add_assign (acc_balance r) q) (\<lambda>b. Inr (r\<lparr>acc_balance := b\<rparr>))) w = Inr (r', w')"
    using assms(2-4) by (auto simp: add_balance_def get_account res_simps)
  from modify_account [OF assms(1-3) mod] obtain b where b: "asset_add_assign (acc_balance r) q = Inr b"
      "r' = r\<lparr>acc_balance := b\<rparr>"
    by (auto simp: res_simps)
  moreover have "code_key b = code_key q" using asset_add_assign_Inr [OF b(1)] by (simp add: code_key_def)
  ultimately show thesis using Some present modify_account(2) [OF assms(1-3) mod] by simp
qed

text \<open>What the two balance changes do to the ledger: \<open>off\<close> records the quantity in flight.\<close>

lemma sub_balance_ledger:
  assumes "db_laws (chain_db ch)" "token_rel ch ac st w" "unat a + 1024 < 2 ^ 32" "ledger_off off ac st"
    and "sub_balance ch m a self owner q w = Inr w'"
  obtains ac' where "token_rel ch ac' st w'" "sint (amount q) \<le> held ac (regid_value owner) (code_key q)"
    "ledger_off (off(code_key q := off (code_key q) + sint (amount q))) ac' st"
    "\<And>s k. held ac' s k = held ac s k - (if s = regid_value owner \<and> k = code_key q then sint (amount q) else 0)"
proof (rule sub_balance_rows [OF assms(1-3,5)])
  fix r b
  assume r: "ac (regid_value owner) (code_key q) = Some r" "sint (amount q) \<le> sint (amount (acc_balance r))"
    and b: "asset_sub_assign (acc_balance r) q = Inr b"
    and rel: "token_rel ch (set_row ac (regid_value owner) (code_key q) (Some (r\<lparr>acc_balance := b\<rparr>))) st w'"
  have "account_ok st (regid_value owner) (code_key q) r" using assms(4) r(1) by (simp add: ledger_off_def)
  with asset_sub_assign_Inr [OF b] r(2) have "account_ok st (regid_value owner) (code_key q) (r\<lparr>acc_balance := b\<rparr>)"
    by (simp add: account_ok_def)
  from ledger_set_account [OF assms(4) this] asset_sub_assign_Inr [OF b] r show thesis
    by (intro that [OF rel]) (auto simp: held_def set_row_apply)
qed

lemma add_balance_ledger:
  assumes "db_laws (chain_db ch)" "token_rel ch ac st w" "unat a + 1024 < 2 ^ 32" "ledger_off off ac st"
    and "st (code_key q) (code_key q) = Some t" "asset_symbol q = asset_symbol (st_supply t)" "0 \<le> sint (amount q)"
    and "add_balance ch m a self owner q payer w = Inr w'"
  obtains ac' where "token_rel ch ac' st w'"
    "ledger_off (off(code_key q := off (code_key q) - sint (amount q))) ac' st"
    "\<And>s k. held ac' s k = held ac s k + (if s = regid_value owner \<and> k = code_key q then sint (amount q) else 0)"
proof (cases rule: add_balance_rows [OF assms(1-3,8)])
  case 1
  have "account_ok st (regid_value owner) (code_key q) \<lparr>acc_owner = owner, acc_balance = q\<rparr>"
    using assms(5-7) by (simp add: account_ok_def)
  from ledger_set_account [OF assms(4) this] 1 show thesis
    by (intro that [OF 1(2)]) (auto simp: held_def set_row_apply)
next
  case (2 r b)
  have "account_ok st (regid_value owner) (code_key q) r" using assms(4) 2(1) by (simp add: ledger_off_def)
  with asset_add_assign_Inr [OF 2(2)] assms(7)
  have "account_ok st (regid_value owner) (code_key q) (r\<lparr>acc_balance := b\<rparr>)"
    by (simp add: account_ok_def)
  from ledger_set_account [OF assms(4) this] asset_add_assign_Inr [OF 2(2)] 2 show thesis
    by (intro that [OF 2(3)]) (auto simp: held_def set_row_apply)
qed

lemma token_rel_same_db:
  assumes "token_rel ch ac st w" "\<And>k. db_get (chain_db ch) k w' = db_get (chain_db ch) k w"
  shows "token_rel ch ac st w'"
  using assms by (simp add: token_rel_def holds_rows_def)

lemma get_stats_eq:
  assumes "token_rel ch ac st w" "unat a + 1024 < 2 ^ 32"
  shows "get_stats ch m a self (asset_symbol q) w =
    Inr (case st (code_key q) (code_key q) of None \<Rightarrow> (False, stats_default) | Some t \<Rightarrow> (True, t))"
  using get_stat [OF assms] by (simp add: get_stats_def code_key_def)

lemma default_symbol_invalid: "\<not> symbol_is_valid (asset_symbol (st_supply stats_default))"
  by code_simp

lemma require_auth_has: "chain_laws ch \<Longrightarrow> require_auth ch n w = Inr u \<Longrightarrow> has_auth ch n w"
  by (simp add: chain_laws_def require_auth_def has_auth_def)

lemma regid_value_inject: "regid_value x = regid_value y \<longleftrightarrow> x = y"
  by (cases x; cases y) simp

lemma regid_neq_iff [simp]: "regid_neq x y \<longleftrightarrow> x \<noteq> y"
  by (cases x; cases y) (simp add: regid_neq_def)

lemma token_transfer_rows:
  assumes "chain_laws ch" "token_rel ch ac st w" "unat a + 1024 < 2 ^ 32" "ledger_off (\<lambda>_. 0) ac st"
    and "token_transfer ch m a self from to q memo w = Inr w'"
  obtains ac' where "token_rel ch ac' st w'" "ledger_off (\<lambda>_. 0) ac' st"
    "has_auth ch from w" "from \<noteq> to" "0 < sint (amount q)" "sint (amount q) \<le> held ac (regid_value from) (code_key q)"
    "\<And>s k. held ac' s k = held ac s k + (if k \<noteq> code_key q then 0 else if s = regid_value from then - sint (amount q)
       else if s = regid_value to then sint (amount q) else 0)"
proof -
  have db: "db_laws (chain_db ch)" using assms(1) by (simp add: chain_laws_def)
  obtain t w1 w2 w3 payer where 1: "from \<noteq> to" "has_auth ch from w"
      "notify_recipient ch from w = Inr w1" "notify_recipient ch to w1 = Inr w2"
      "0 < sint (amount q)" "st (code_key q) (code_key q) = Some t" "asset_symbol q = asset_symbol (st_supply t)"
      "sub_balance ch m a self from q w2 = Inr w3" "add_balance ch m a self to q payer w3 = Inr w'"
    using assms(5) default_symbol_invalid
    by (auto simp: token_transfer_def get_stats_eq [OF assms(2,3)] check_def asset_is_valid_def res_simps Let_def
        split: option.splits if_splits dest: require_auth_has [OF assms(1)])
  have "token_rel ch ac st w2"
    using 1(3,4) assms(1) by (intro token_rel_same_db [OF assms(2)]) (simp add: notify_recipient_def chain_laws_def)
  from sub_balance_ledger [OF db this assms(3,4) 1(8)] obtain ac1 where 2: "token_rel ch ac1 st w3"
      "sint (amount q) \<le> held ac (regid_value from) (code_key q)"
      "ledger_off ((\<lambda>_. 0)(code_key q := sint (amount q))) ac1 st"
      "\<And>s k. held ac1 s k = held ac s k - (if s = regid_value from \<and> k = code_key q then sint (amount q) else 0)"
    by auto
  from add_balance_ledger [OF db 2(1) assms(3) 2(3) 1(6,7) _ 1(9)] 1(5) obtain ac2 where 3: "token_rel ch ac2 st w'"
      "ledger_off (\<lambda>_. 0) ac2 st"
      "\<And>s k. held ac2 s k = held ac1 s k + (if s = regid_value to \<and> k = code_key q then sint (amount q) else 0)"
    by (auto simp: fun_upd_idem)
  show thesis
    by (rule that [OF 3(1,2) 1(2,1,5) 2(2)]) (use 1(1) in \<open>auto simp: 2(4) 3(3) regid.expand\<close>)
qed

lemma transaction_send_db:
  "chain_laws ch \<Longrightarrow> transaction_send ch m a trx w = Inr w' \<Longrightarrow> \<forall>k. db_get (chain_db ch) k w' = db_get (chain_db ch) k w"
  by (auto simp: transaction_send_def chain_laws_def res_simps)

lemma token_issue_rows:
  assumes "chain_laws ch" "token_rel ch ac st w" "unat a + 1024 < 2 ^ 32" "ledger_off (\<lambda>_. 0) ac st"
    and "token_issue ch m a self to q memo w = Inr w'"
  obtains t b ac' where "st (code_key q) (code_key q) = Some t" "has_auth ch (st_issuer t) w" "0 < sint (amount q)"
    "asset_add_assign (st_supply t) q = Inr b" "sint (amount b) \<le> sint (amount (st_max_supply t))"
    "token_rel ch ac' (set_row st (code_key q) (code_key q) (Some (t\<lparr>st_supply := b\<rparr>))) w'"
    "ledger_off (\<lambda>_. 0) ac' (set_row st (code_key q) (code_key q) (Some (t\<lparr>st_supply := b\<rparr>)))"
    "\<And>s k. held ac' s k = held ac s k + (if s = regid_value (st_issuer t) \<and> k = code_key q then sint (amount q) else 0)"
proof -
  let ?k = "code_key q"
  have db: "db_laws (chain_db ch)" using assms(1) by (simp add: chain_laws_def)
  obtain t t' w1 w2 where 1: "st ?k ?k = Some t" "has_auth ch (st_issuer t) w" "0 < sint (amount q)"
      "asset_symbol q = asset_symbol (st_supply t)" "fits64 (sint (amount (st_max_supply t)) - sint (amount (st_supply t)))"
      "sint (amount q) \<le> sint (word_of_int (sint (amount (st_max_supply t)) - sint (amount (st_supply t))) :: u64)"
      "table_modify (chain_db ch) m a stats (table_make self ?k) t no_payer
        (\<lambda>s. bindr (asset_add_assign (st_supply s) q) (\<lambda>b. Inr (s\<lparr>st_supply := b\<rparr>))) w = Inr (t', w1)"
      "add_balance ch m a self (st_issuer t') q (st_issuer t') w1 = Inr w2"
      "\<forall>k. db_get (chain_db ch) k w' = db_get (chain_db ch) k w2"
    using assms(5)
    by (auto simp: token_issue_def get_stats_eq [OF assms(2,3)] check_def signed64_def res_simps Let_def
        code_key_def [symmetric] simp del: of_int_diff split: option.splits if_splits
        dest!: require_auth_has [OF assms(1)] transaction_send_db [OF assms(1)])
  obtain b where b: "asset_add_assign (st_supply t) q = Inr b" "t' = t\<lparr>st_supply := b\<rparr>"
    using modify_stat(1) [OF db assms(2,3) 1(7)] by (auto simp: res_simps)
  note sum = asset_add_assign_Inr [OF b(1)]
  let ?st = "set_row st ?k ?k (Some t')"
  have rel1: "token_rel ch ac ?st w1"
    using modify_stat(2) [OF db assms(2,3) 1(7)] sum b(2) by (simp add: code_key_def)
  have le: "sint (amount b) \<le> sint (amount (st_max_supply t))"
    using 1(6) sum(3) sint_of_fits64 [OF 1(5)] by linarith
  have "stat_ok ?k t" using assms(4) 1(1) by (simp add: ledger_off_def)
  with 1(3) sum le b(2) have "stat_ok ?k t'" by (simp add: stat_ok_def code_key_def)
  from ledger_set_stat [OF assms(4) 1(1) this] sum b(2) 1(1)
  have "ledger_off ((\<lambda>_. 0)(?k := sint (amount q))) ac ?st" by (simp add: supplied_def)
  from add_balance_ledger [OF db rel1 assms(3) this _ _ _ 1(8), of t'] 1(3) sum b(2) obtain ac' where 2:
      "token_rel ch ac' ?st w2" "ledger_off (\<lambda>_. 0) ac' ?st"
      "\<And>s k. held ac' s k = held ac s k + (if s = regid_value (st_issuer t) \<and> k = ?k then sint (amount q) else 0)"
    by (auto simp: fun_upd_idem set_row_apply)
  have "token_rel ch ac' ?st w'"
    using 1(9) by (intro token_rel_same_db [OF 2(1)]) simp
  then show thesis using that 1(1-3) b le 2(2,3) by simp
qed

lemma ledger_held_le:
  assumes "ledger_off (\<lambda>_. 0) ac st"
  shows "0 \<le> held ac s k" "held ac s k \<le> supplied st k"
proof -
  have nonneg: "0 \<le> held ac s k" for s
    using assms by (auto simp: ledger_off_def held_def account_ok_def split: option.splits)
  then show "0 \<le> held ac s k" .
  have "held ac s k \<le> (\<Sum>s\<in>UNIV. held ac s k)" by (rule member_le_sum) (simp_all add: nonneg)
  with assms show "held ac s k \<le> supplied st k" by (simp add: ledger_off_def)
qed

lemma token_retire_rows:
  assumes "chain_laws ch" "token_rel ch ac st w" "unat a + 1024 < 2 ^ 32" "ledger_off (\<lambda>_. 0) ac st"
    and "token_retire ch m a self q memo w = Inr w'"
  obtains t b ac' where "st (code_key q) (code_key q) = Some t" "has_auth ch (st_issuer t) w" "0 < sint (amount q)"
    "asset_sub_assign (st_supply t) q = Inr b"
    "token_rel ch ac' (set_row st (code_key q) (code_key q) (Some (t\<lparr>st_supply := b\<rparr>))) w'"
    "ledger_off (\<lambda>_. 0) ac' (set_row st (code_key q) (code_key q) (Some (t\<lparr>st_supply := b\<rparr>)))"
    "\<And>s k. held ac' s k = held ac s k + (if s = regid_value (st_issuer t) \<and> k = code_key q then - sint (amount q) else 0)"
proof -
  let ?k = "code_key q"
  have db: "db_laws (chain_db ch)" using assms(1) by (simp add: chain_laws_def)
  obtain t t' w1 where 1: "st ?k ?k = Some t" "has_auth ch (st_issuer t) w" "0 < sint (amount q)"
      "asset_symbol q = asset_symbol (st_supply t)"
      "table_modify (chain_db ch) m a stats (table_make self ?k) t no_payer
        (\<lambda>s. bindr (asset_sub_assign (st_supply s) q) (\<lambda>b. Inr (s\<lparr>st_supply := b\<rparr>))) w = Inr (t', w1)"
      "sub_balance ch m a self (st_issuer t') q w1 = Inr w'"
    using assms(5)
    by (auto simp: token_retire_def get_stats_eq [OF assms(2,3)] check_def res_simps Let_def
        code_key_def [symmetric] split: option.splits if_splits dest: require_auth_has [OF assms(1)])
  obtain b where b: "asset_sub_assign (st_supply t) q = Inr b" "t' = t\<lparr>st_supply := b\<rparr>"
    using modify_stat(1) [OF db assms(2,3) 1(5)] by (auto simp: res_simps)
  note diff = asset_sub_assign_Inr [OF b(1)]
  let ?st = "set_row st ?k ?k (Some t')"
  have rel1: "token_rel ch ac ?st w1"
    using modify_stat(2) [OF db assms(2,3) 1(5)] diff b(2) by (simp add: code_key_def)
  have "sint (amount q) \<le> held ac (regid_value (st_issuer t')) ?k"
    by (rule sub_balance_rows [OF db rel1 assms(3) 1(6)]) (simp add: held_def)
  also have "\<dots> \<le> sint (amount (st_supply t))"
    using ledger_held_le(2) [OF assms(4)] 1(1) by (metis supplied_def option.simps(5))
  finally have le: "sint (amount q) \<le> sint (amount (st_supply t))" .
  have "stat_ok ?k t" using assms(4) 1(1) by (simp add: ledger_off_def)
  with 1(3) diff le b(2) have "stat_ok ?k t'" by (simp add: stat_ok_def code_key_def)
  from ledger_set_stat [OF assms(4) 1(1) this] diff b(2) 1(1)
  have "ledger_off ((\<lambda>_. 0)(?k := - sint (amount q))) ac ?st" by (simp add: supplied_def)
  then show thesis
  proof (rule sub_balance_ledger [OF db rel1 assms(3) _ 1(6)])
    fix ac' assume "token_rel ch ac' ?st w'"
      and "ledger_off (((\<lambda>_. 0)(?k := - sint (amount q)))(?k := ((\<lambda>_. 0)(?k := - sint (amount q))) ?k + sint (amount q))) ac' ?st"
      and "\<And>s k. held ac' s k = held ac s k - (if s = regid_value (st_issuer t') \<and> k = ?k then sint (amount q) else 0)"
    with that [of t b ac'] 1(1-3) b show thesis by (simp add: fun_upd_idem)
  qed
qed

lemma token_create_rows:
  assumes "chain_laws ch" "token_rel ch ac st w" "unat a + 1024 < 2 ^ 32" "ledger_off (\<lambda>_. 0) ac st"
    and "token_create ch m a self issuer mx w = Inr w'"
  obtains t where "token_rel ch ac (set_row st (code_key mx) (code_key mx) (Some t)) w'"
    "ledger_off (\<lambda>_. 0) ac (set_row st (code_key mx) (code_key mx) (Some t))"
    "st (code_key mx) (code_key mx) = None" "st_max_supply t = mx" "st_issuer t = issuer" "has_auth ch issuer w"
proof -
  let ?k = "code_key mx"
  have db: "db_laws (chain_db ch)" using assms(1) by (simp add: chain_laws_def)
  have 1: "st ?k ?k = None" "asset_is_valid mx" "0 < sint (amount mx)" "has_auth ch issuer w"
      "table_emplace (chain_db ch) m a stats (table_make self ?k) self
         (\<lambda>s. Inr (s\<lparr>st_supply := (st_supply s)\<lparr>asset_symbol := asset_symbol mx\<rparr>, st_max_supply := mx, st_issuer := issuer\<rparr>)) w = Inr w'"
    using assms(5)
    by (auto simp: token_create_def get_stats_eq [OF assms(2,3)] check_def res_simps Let_def
        code_key_def [symmetric] split: option.splits if_splits dest: require_auth_has [OF assms(1)])
  obtain t where t: "t = \<lparr>st_supply = \<lparr>amount = 0, asset_symbol = asset_symbol mx\<rparr>, st_max_supply = mx, st_issuer = issuer\<rparr>"
      "token_rel ch ac (set_row st ?k (code_key (st_supply t)) (Some t)) w'"
    by (rule emplace_stat [OF db assms(2,3) 1(5)]) (auto simp: stats_default_def asset_default_def)
  then have "stat_ok ?k t"
    using 1(2,3) valid_amount [OF 1(2)] by (simp add: stat_ok_def code_key_def asset_is_valid_def)
  from ledger_new_stat [OF assms(4) 1(1) this] t have "ledger_off (\<lambda>_. 0) ac (set_row st ?k ?k (Some t))" by simp
  with that [of t] t 1(1,4) show thesis by (simp add: code_key_def)
qed

lemma token_open_rows:
  assumes "chain_laws ch" "token_rel ch ac st w" "unat a + 1024 < 2 ^ 32" "ledger_off (\<lambda>_. 0) ac st"
    and "token_open ch m a self owner symb payer w = Inr w'"
  obtains ac' where "token_rel ch ac' st w'" "ledger_off (\<lambda>_. 0) ac' st" "\<And>s k. held ac' s k = held ac s k"
proof -
  let ?k = "code_raw (symbol_get_code symb)" and ?o = "regid_value owner"
  have db: "db_laws (chain_db ch)" using assms(1) by (simp add: chain_laws_def)
  obtain t where t: "st ?k ?k = Some t" "asset_symbol (st_supply t) = symb"
      and w': "w' = (if ac ?o ?k = None then w' else w)"
      "ac ?o ?k = None \<Longrightarrow> table_emplace (chain_db ch) m a accounts (table_make self ?o) payer
            (\<lambda>r. bindr (asset_make 0 symb) (\<lambda>b. Inr (r\<lparr>acc_owner := owner, acc_balance := b\<rparr>))) w = Inr w'"
    using assms(5)
    by (auto simp: token_open_def get_stats_def get_stat [OF assms(2,3)] get_account [OF assms(2,3)] check_def
        res_simps Let_def split: option.splits if_splits)
  show thesis
  proof (cases "ac ?o ?k")
    case None
    obtain r where r: "r = \<lparr>acc_owner = owner, acc_balance = \<lparr>amount = 0, asset_symbol = symb\<rparr>\<rparr>"
        "token_rel ch (set_row ac ?o (code_key (acc_balance r)) (Some r)) st w'"
      by (rule emplace_account [OF db assms(2,3) w'(2) [OF None]])
        (auto simp: account_default_def asset_make_def check_def Let_def res_simps split: if_splits)
    have "account_ok st ?o ?k r" using t r(1) by (simp add: account_ok_def)
    from ledger_set_account [OF assms(4) this] r None
    have "ledger_off (\<lambda>_. 0) (set_row ac ?o ?k (Some r)) st" by (simp add: held_def fun_upd_idem)
    with r None show thesis
      by (intro that [of "set_row ac ?o ?k (Some r)"]) (simp_all add: code_key_def held_def set_row_apply)
  next
    case (Some r)
    then show thesis using w'(1) assms(2,4) by (intro that [of ac]) simp_all
  qed
qed

lemma token_close_rows:
  assumes "chain_laws ch" "token_rel ch ac st w" "unat a + 1024 < 2 ^ 32" "ledger_off (\<lambda>_. 0) ac st"
    and "token_close ch m a self owner symb w = Inr w'"
  obtains ac' where "token_rel ch ac' st w'" "ledger_off (\<lambda>_. 0) ac' st" "\<And>s k. held ac' s k = held ac s k"
proof -
  let ?k = "code_raw (symbol_get_code symb)" and ?o = "regid_value owner"
  have db: "db_laws (chain_db ch)" using assms(1) by (simp add: chain_laws_def)
  obtain r where r: "ac ?o ?k = Some r" "sint (amount (acc_balance r)) = 0"
      "table_erase (chain_db ch) m a accounts (table_make self ?o) r no_payer w = Inr w'"
    using assms(5)
    by (auto simp: token_close_def get_account [OF assms(2,3)] check_def res_simps Let_def split: option.splits if_splits)
  have "account_ok st ?o ?k r" using assms(4) r(1) by (simp add: ledger_off_def)
  then obtain t where "st ?k ?k = Some t" "asset_symbol (acc_balance r) = asset_symbol (st_supply t)"
    by (auto simp: account_ok_def)
  then have k: "code_key (acc_balance r) = ?k" using assms(4) by (simp add: ledger_off_def stat_ok_def code_key_def)
  have h: "holds_rows (chain_db ch) accounts account_enc ac w" using assms(2) by (simp add: token_rel_def)
  note erased = account_rows.erase_row [OF db h assms(3) r(3)]
  have "token_rel ch (set_row ac ?o ?k None) st w'"
    using token_rel_account [OF assms(2) erased] k by simp
  moreover have zero: "held ac ?o ?k = 0" using r by (simp add: held_def)
  ultimately show thesis
    using that [OF _ ledger_erase_account [OF assms(4) zero]] by (simp add: held_def set_row_apply)
qed

lemma token_balance_of_rows:
  assumes "chain_laws ch" "token_rel ch ac st w" "token_balance_of ch m a self owner symb w = Inr (v, w')"
  shows "token_rel ch ac st w'"
proof (rule token_rel_same_db [OF assms(2)])
  fix k
  obtain w1 row bal where "host_make_log ch 0 (regid_value owner) ''account'' row w = Inr w1"
      "host_set_return ch bal w1 = Inr w'"
    using assms(3) by (auto simp: token_balance_of_def make_log_def set_return_def res_simps)
  with assms(1) show "db_get (chain_db ch) k w' = db_get (chain_db ch) k w" by (simp add: chain_laws_def)
qed

section \<open>The contract as a state machine\<close>

text \<open>
  A step of the chain is an action of the contract that does not abort, or anything
  that leaves the database of the contract as it is: other contracts, new blocks and
  new authorisations. The chain starts with empty tables.
\<close>

inductive token_step :: "'w chain \<Rightarrow> regid \<Rightarrow> 'w \<Rightarrow> 'w \<Rightarrow> bool" for ch self where
  create: "unat a + 1024 < 2 ^ 32 \<Longrightarrow> token_create ch m a self issuer mx w = Inr w' \<Longrightarrow> token_step ch self w w'"
| issue: "unat a + 1024 < 2 ^ 32 \<Longrightarrow> token_issue ch m a self to q memo w = Inr w' \<Longrightarrow> token_step ch self w w'"
| retire: "unat a + 1024 < 2 ^ 32 \<Longrightarrow> token_retire ch m a self q memo w = Inr w' \<Longrightarrow> token_step ch self w w'"
| transfer: "unat a + 1024 < 2 ^ 32 \<Longrightarrow> token_transfer ch m a self from to q memo w = Inr w' \<Longrightarrow> token_step ch self w w'"
| open_row: "unat a + 1024 < 2 ^ 32 \<Longrightarrow> token_open ch m a self owner symb payer w = Inr w' \<Longrightarrow> token_step ch self w w'"
| close_row: "unat a + 1024 < 2 ^ 32 \<Longrightarrow> token_close ch m a self owner symb w = Inr w' \<Longrightarrow> token_step ch self w w'"
| balance_of: "token_balance_of ch m a self owner symb w = Inr (v, w') \<Longrightarrow> token_step ch self w w'"
| environment: "(\<And>k. db_get (chain_db ch) k w' = db_get (chain_db ch) k w) \<Longrightarrow> token_step ch self w w'"

inductive token_reachable :: "'w chain \<Rightarrow> regid \<Rightarrow> 'w \<Rightarrow> bool" for ch self where
  init: "token_rel ch (\<lambda>_ _. None) (\<lambda>_ _. None) w \<Longrightarrow> token_reachable ch self w"
| step: "token_reachable ch self w \<Longrightarrow> token_step ch self w w' \<Longrightarrow> token_reachable ch self w'"

lemma token_invI: "token_rel ch ac st w \<Longrightarrow> ledger_off (\<lambda>_. 0) ac st \<Longrightarrow> token_inv ch w"
  by (auto simp: token_inv_def)

lemma token_inv_step:
  assumes "token_step ch self w w'" "chain_laws ch" "token_inv ch w"
  shows "token_inv ch w'"
proof -
  obtain ac st where inv: "token_rel ch ac st w" "ledger_off (\<lambda>_. 0) ac st" using assms(3) by (auto simp: token_inv_def)
  from assms(1) show ?thesis
  proof cases
    case create
    then show ?thesis
      by (rule token_create_rows [OF assms(2) inv(1) _ inv(2)]) (rule token_invI)
  next
    case issue
    then show ?thesis
      by (rule token_issue_rows [OF assms(2) inv(1) _ inv(2)]) (rule token_invI)
  next
    case retire
    then show ?thesis
      by (rule token_retire_rows [OF assms(2) inv(1) _ inv(2)]) (rule token_invI)
  next
    case transfer
    then show ?thesis
      by (rule token_transfer_rows [OF assms(2) inv(1) _ inv(2)]) (rule token_invI)
  next
    case open_row
    then show ?thesis
      by (rule token_open_rows [OF assms(2) inv(1) _ inv(2)]) (rule token_invI)
  next
    case close_row
    then show ?thesis
      by (rule token_close_rows [OF assms(2) inv(1) _ inv(2)]) (rule token_invI)
  next
    case balance_of
    then show ?thesis
      by (rule token_invI [OF token_balance_of_rows [OF assms(2) inv(1)] inv(2)])
  next
    case environment
    then show ?thesis
      by (rule token_invI [OF token_rel_same_db [OF inv(1)] inv(2)])
  qed
qed

lemma token_inv_reachable:
  assumes "token_reachable ch self w" "chain_laws ch"
  shows "token_inv ch w"
  using assms
proof (induction rule: token_reachable.induct)
  case (init w)
  have "ledger_off (\<lambda>_. 0) (\<lambda>_ _. None) (\<lambda>_ _. None)" by (simp add: ledger_off_def held_def supplied_def)
  with init show ?case by (intro token_invI)
next
  case (step w w')
  then show ?case by (auto intro: token_inv_step)
qed

lemma get_supply_eq:
  assumes "token_rel ch ac st w" "unat a + 1024 < 2 ^ 32"
  shows "\<exists>x. get_supply ch m a self c w = Inr x \<and> sint (amount x) = supplied st (code_raw c)"
  by (auto simp: get_supply_def get_stat [OF assms] supplied_def stats_default_def asset_default_def split: option.split)

lemma get_balance_eq:
  assumes "token_rel ch ac st w" "unat a + 1024 < 2 ^ 32"
  shows "\<exists>x. get_balance ch m a self owner c w = Inr x \<and> sint (amount x) = held ac (regid_value owner) (code_raw c)"
  by (auto simp: get_balance_def get_account [OF assms] held_def account_default_def asset_default_def split: option.split)

text \<open>
  C1. Conservation of the currency. In every state that the contract can reach, for every
  symbol code: the supply and every balance can be read, no balance is negative, the
  balances of all owners add up to the supply, and the supply is at most the maximum
  supply set at creation, itself at most \<open>2^62 - 1\<close>.
\<close>

theorem token_conservation:
  assumes "chain_laws ch" "token_reachable ch self w" "unat a + 1024 < 2 ^ 32"
  shows "\<exists>bal sup. get_supply ch m a self c w = Inr sup
    \<and> (\<forall>owner. get_balance ch m a self owner c w = Inr (bal owner) \<and> 0 \<le> sint (amount (bal owner)))
    \<and> (\<Sum>v\<in>UNIV. sint (amount (bal (Regid v)))) = sint (amount sup)
    \<and> (\<forall>symb t. get_stats ch m a self symb w = Inr (True, t) \<longrightarrow>
         sint (amount (st_supply t)) \<le> sint (amount (st_max_supply t)) \<and> sint (amount (st_max_supply t)) \<le> max_amount)"
proof -
  obtain ac st where inv: "token_rel ch ac st w" "ledger_off (\<lambda>_. 0) ac st"
    using token_inv_reachable [OF assms(2,1)] by (auto simp: token_inv_def)
  obtain sup where sup: "get_supply ch m a self c w = Inr sup" "sint (amount sup) = supplied st (code_raw c)"
    using get_supply_eq [OF inv(1) assms(3)] by blast
  define bal where "bal owner = projr (get_balance ch m a self owner c w)" for owner
  have bal: "get_balance ch m a self owner c w = Inr (bal owner)
      \<and> sint (amount (bal owner)) = held ac (regid_value owner) (code_raw c)" for owner
    using get_balance_eq [OF inv(1) assms(3), of m self owner c] by (auto simp: bal_def)
  have "(\<Sum>v\<in>UNIV. sint (amount (bal (Regid v)))) = sint (amount sup)"
    using inv(2) by (simp add: bal sup(2) ledger_off_def)
  moreover have "sint (amount (st_supply t)) \<le> sint (amount (st_max_supply t)) \<and> sint (amount (st_max_supply t)) \<le> max_amount"
    if "get_stats ch m a self symb w = Inr (True, t)" for symb t
    using that inv(2) by (auto simp: get_stats_def get_stat [OF inv(1) assms(3)] ledger_off_def stat_ok_def split: option.splits)
  ultimately show ?thesis
    using sup(1) bal ledger_held_le(1) [OF inv(2)] by (intro exI [of _ bal] exI [of _ sup]) simp
qed

text \<open>
  C7. Transfers. A transfer that goes through was authorised by the sender, moves a
  positive quantity that the sender held, takes it from the sender, gives it to another
  account, and leaves every other balance and every supply as it was.
\<close>

theorem token_transfer_moves:
  assumes "chain_laws ch" "token_reachable ch self w" "unat a + 1024 < 2 ^ 32"
    and "token_transfer ch m a self from to q memo w = Inr w'"
  shows "has_auth ch from w \<and> from \<noteq> to \<and> 0 < sint (amount q)
    \<and> (\<exists>x. get_balance ch m a self from (symbol_get_code (asset_symbol q)) w = Inr x \<and> sint (amount q) \<le> sint (amount x))
    \<and> (\<forall>owner c. \<exists>x y. get_balance ch m a self owner c w = Inr x \<and> get_balance ch m a self owner c w' = Inr y
        \<and> sint (amount y) = sint (amount x) +
            (if code_raw c \<noteq> code_key q then 0 else if owner = from then - sint (amount q)
             else if owner = to then sint (amount q) else 0))
    \<and> (\<forall>c. get_supply ch m a self c w' = get_supply ch m a self c w)"
proof -
  obtain ac st where inv: "token_rel ch ac st w" "ledger_off (\<lambda>_. 0) ac st"
    using token_inv_reachable [OF assms(2,1)] by (auto simp: token_inv_def)
  obtain ac' where t: "token_rel ch ac' st w'" "has_auth ch from w" "from \<noteq> to" "0 < sint (amount q)"
      "sint (amount q) \<le> held ac (regid_value from) (code_key q)"
      "\<And>s k. held ac' s k = held ac s k + (if k \<noteq> code_key q then 0 else if s = regid_value from then - sint (amount q)
         else if s = regid_value to then sint (amount q) else 0)"
    using token_transfer_rows [OF assms(1) inv(1) assms(3) inv(2) assms(4)] by blast
  have "\<exists>x. get_balance ch m a self from (symbol_get_code (asset_symbol q)) w = Inr x \<and> sint (amount q) \<le> sint (amount x)"
    using get_balance_eq [OF inv(1) assms(3), of m self "from" "symbol_get_code (asset_symbol q)"] t(5)
    by (auto simp: code_key_def)
  moreover have "\<exists>x y. get_balance ch m a self owner c w = Inr x \<and> get_balance ch m a self owner c w' = Inr y
      \<and> sint (amount y) = sint (amount x) + (if code_raw c \<noteq> code_key q then 0 else if owner = from then - sint (amount q)
           else if owner = to then sint (amount q) else 0)" for owner c
    using get_balance_eq [OF inv(1) assms(3), of m self owner c] get_balance_eq [OF t(1) assms(3), of m self owner c]
    by (auto simp: t(6) regid_value_inject)
  moreover have "get_supply ch m a self c w' = get_supply ch m a self c w" for c
    using get_stat [OF inv(1) assms(3)] get_stat [OF t(1) assms(3)] by (simp add: get_supply_def)
  ultimately show ?thesis using t(2-4) by blast
qed

text \<open>A host that keeps the laws: every account exists and has authorised the transaction.\<close>

definition map_chain :: "u64 \<Rightarrow> (byte list \<Rightarrow> byte list) chain" where
  "map_chain maintainer = \<lparr>chain_db = map_database, host_require_auth = \<lambda>_ _. Inr (), host_has_auth = \<lambda>_ _. True,
     host_is_account = \<lambda>_ _. True, host_notify_recipient = \<lambda>_ w. Inr w, host_send_inline = \<lambda>_ w. Inr w,
     host_call = \<lambda>_ w. Inr (0, w), host_call_with_return = \<lambda>_ w. Inr (0, w), host_get_maintainer = \<lambda>_ _. maintainer,
     host_set_return = \<lambda>_ w. Inr w, host_make_log = \<lambda>_ _ _ _ w. Inr w,
     host_action_data = \<lambda>_. [], host_current_receiver = \<lambda>_. 0, host_get_return = \<lambda>_ _. [], host_current_time = \<lambda>_. 0,
     host_active_producers = \<lambda>_. [], host_txid = \<lambda>_. replicate 32 0, host_system_asset_price = \<lambda>_ _ _. [],
     host_emit_result = \<lambda>_ _ _ w. Inr w\<rparr>"

lemma map_chain_laws: "chain_laws (map_chain x)"
  by (simp add: chain_laws_def map_chain_def map_database_laws)

text \<open>
  C9. Issue and retirement. Only the issuer recorded for the symbol can change the
  supply: an issue adds the positive quantity to the supply, which stays within the
  maximum, and to the issuer's balance; a retirement takes it from both. No other
  balance changes.
\<close>

theorem token_supply_changes:
  assumes "chain_laws ch" "token_reachable ch self w" "unat a + 1024 < 2 ^ 32"
    and "token_issue ch m a self to q memo w = Inr w' \<and> d = sint (amount q)
       \<or> token_retire ch m a self q memo w = Inr w' \<and> d = - sint (amount q)"
  shows "\<exists>t. get_stats ch m a self (asset_symbol q) w = Inr (True, t) \<and> has_auth ch (st_issuer t) w \<and> 0 < sint (amount q)
    \<and> (\<exists>x. get_supply ch m a self (symbol_get_code (asset_symbol q)) w' = Inr x
          \<and> sint (amount x) = sint (amount (st_supply t)) + d \<and> sint (amount x) \<le> sint (amount (st_max_supply t)))
    \<and> (\<forall>owner c. \<exists>x y. get_balance ch m a self owner c w = Inr x \<and> get_balance ch m a self owner c w' = Inr y
          \<and> sint (amount y) = sint (amount x) + (if owner = st_issuer t \<and> code_raw c = code_key q then d else 0))"
proof -
  obtain ac st where inv: "token_rel ch ac st w" "ledger_off (\<lambda>_. 0) ac st"
    using token_inv_reachable [OF assms(2,1)] by (auto simp: token_inv_def)
  note here = assms(1) inv(1) assms(3) inv(2)
  obtain t b ac' where 1: "st (code_key q) (code_key q) = Some t" "has_auth ch (st_issuer t) w" "0 < sint (amount q)"
      "sint (amount b) = sint (amount (st_supply t)) + d"
      "token_rel ch ac' (set_row st (code_key q) (code_key q) (Some (t\<lparr>st_supply := b\<rparr>))) w'"
      "ledger_off (\<lambda>_. 0) ac' (set_row st (code_key q) (code_key q) (Some (t\<lparr>st_supply := b\<rparr>)))"
      "\<And>s k. held ac' s k = held ac s k + (if s = regid_value (st_issuer t) \<and> k = code_key q then d else 0)"
    using assms(4)
  proof (elim disjE conjE)
    assume "token_issue ch m a self to q memo w = Inr w'" "d = sint (amount q)"
    then show thesis
      using asset_add_assign_Inr(3)
      by (elim token_issue_rows [OF here]) (rule that, assumption+, simp, assumption+, simp only:)
  next
    assume "token_retire ch m a self q memo w = Inr w'" "d = - sint (amount q)"
    then show thesis
      using asset_sub_assign_Inr(3)
      by (elim token_retire_rows [OF here]) (rule that, assumption+, simp, assumption+, simp only:)
  qed
  have "sint (amount b) \<le> sint (amount (st_max_supply t))"
    using 1(6) by (auto simp: ledger_off_def stat_ok_def set_row_apply split: if_splits)
  moreover have "get_supply ch m a self (symbol_get_code (asset_symbol q)) w' = Inr b"
    using get_stat [OF 1(5) assms(3)] by (simp add: get_supply_def code_key_def set_row_apply)
  moreover have "\<exists>x y. get_balance ch m a self owner c w = Inr x \<and> get_balance ch m a self owner c w' = Inr y
      \<and> sint (amount y) = sint (amount x) + (if owner = st_issuer t \<and> code_raw c = code_key q then d else 0)" for owner c
    using get_balance_eq [OF inv(1) assms(3), of m self owner c] get_balance_eq [OF 1(5) assms(3), of m self owner c]
    by (auto simp: 1(7) regid_value_inject)
  ultimately show ?thesis
    using 1(1-4) get_stats_eq [OF inv(1) assms(3), of m self q] by auto
qed

section \<open>Transfers go through\<close>

text \<open>The host accepts every write and every notification.\<close>

definition chain_accepts :: "'w chain \<Rightarrow> bool" where
  "chain_accepts ch \<longleftrightarrow> (\<forall>p k v w. \<exists>w'. db_store (chain_db ch) p k v w = Inr w') \<and>
     (\<forall>p k v w. \<exists>w'. db_update (chain_db ch) p k v w = Inr w') \<and> (\<forall>n w. \<exists>w'. host_notify_recipient ch n w = Inr w')"

lemma asset_sum_total:
  assumes "asset_is_valid x" "asset_is_valid q" "asset_symbol x = asset_symbol q" "sint (amount x) + sint (amount q) \<le> max_amount"
    "0 \<le> sint (amount q)"
  shows "\<exists>b. asset_add_assign x q = Inr b"
  using asset_add_eq [OF assms(1,2)] valid_amount [OF assms(1)] assms(3-5) by (simp add: asset_add_def in_range_def)

lemma asset_difference_total:
  assumes "asset_is_valid x" "asset_is_valid q" "asset_symbol x = asset_symbol q" "sint (amount q) \<le> sint (amount x)"
    "0 \<le> sint (amount q)"
  shows "\<exists>b. asset_sub_assign x q = Inr b"
proof -
  have "sint (amount x) - sint (amount q) \<le> max_amount" "- max_amount \<le> sint (amount x) - sint (amount q)"
    using valid_amount [OF assms(1)] assms(4,5) by (simp_all add: max_amount_def)
  with asset_sub_eq [OF assms(1,2)] assms(3) show ?thesis by (simp add: asset_sub_def in_range_def)
qed

lemma account_valid:
  assumes "ledger_off (\<lambda>_. 0) ac st" "ac s k = Some r"
  shows "asset_is_valid (acc_balance r)" "sint (amount (acc_balance r)) = held ac s k"
    "\<exists>t. st k k = Some t \<and> asset_symbol (acc_balance r) = asset_symbol (st_supply t) \<and> sint (amount (st_supply t)) \<le> max_amount"
proof -
  have r: "account_ok st s k r" using assms by (simp add: ledger_off_def)
  then obtain t where t: "st k k = Some t" "asset_symbol (acc_balance r) = asset_symbol (st_supply t)"
    by (auto simp: account_ok_def)
  then have "stat_ok k t" using assms(1) by (simp add: ledger_off_def)
  moreover show h: "sint (amount (acc_balance r)) = held ac s k" using assms(2) by (simp add: held_def)
  moreover have "held ac s k \<le> sint (amount (st_supply t))"
    using ledger_held_le(2) [OF assms(1), of s k] t(1) by (simp add: supplied_def)
  ultimately show "asset_is_valid (acc_balance r)"
      "\<exists>t. st k k = Some t \<and> asset_symbol (acc_balance r) = asset_symbol (st_supply t) \<and> sint (amount (st_supply t)) \<le> max_amount"
    using t ledger_held_le(1) [OF assms(1), of s k]
    by (auto simp: stat_ok_def asset_is_valid_def is_amount_within_range_def max_amount_def)
qed

lemma sub_balance_total:
  assumes "chain_accepts ch" "token_rel ch ac st w" "unat a + 1024 < 2 ^ 32"
    and "ac (regid_value owner) (code_key q) = Some r" "asset_is_valid (acc_balance r)" "asset_is_valid q"
    and "asset_symbol (acc_balance r) = asset_symbol q" "sint (amount q) \<le> sint (amount (acc_balance r))" "0 \<le> sint (amount q)"
  shows "\<exists>w'. sub_balance ch m a self owner q w = Inr w'"
proof -
  have room: "unat a + 7 < 2 ^ 32" using assms(3) by simp
  obtain b where b: "asset_sub_assign (acc_balance r) q = Inr b" using asset_difference_total [OF assms(5-9)] by blast
  have "\<exists>w'. table_modify (chain_db ch) m a accounts (table_make self (regid_value owner)) r owner
        (\<lambda>r. bindr (asset_sub_assign (acc_balance r) q) (\<lambda>b. Inr (r\<lparr>acc_balance := b\<rparr>))) w = Inr (r\<lparr>acc_balance := b\<rparr>, w')"
    using assms(1,3) b by (intro account_rows.modify_total) (simp_all add: chain_accepts_def)
  then show ?thesis
    using asset_to_string_total [OF assms(5) room, of m] asset_to_string_total [OF assms(6) room, of m] assms(4,8)
    by (auto simp: sub_balance_def get_account [OF assms(2,3)] check_def)
qed

lemma add_balance_total:
  assumes "chain_accepts ch" "token_rel ch ac st w" "unat a + 1024 < 2 ^ 32"
    and "\<And>r. ac (regid_value owner) (code_key q) = Some r \<Longrightarrow> asset_is_valid (acc_balance r) \<and>
      asset_symbol (acc_balance r) = asset_symbol q \<and> sint (amount (acc_balance r)) + sint (amount q) \<le> max_amount"
    and "asset_is_valid q" "0 \<le> sint (amount q)"
  shows "\<exists>w'. add_balance ch m a self owner q payer w = Inr w'"
proof (cases "ac (regid_value owner) (code_key q)")
  case None
  have "\<exists>w'. table_emplace (chain_db ch) m a accounts (table_make self (regid_value owner)) payer
      (\<lambda>r. Inr (r\<lparr>acc_owner := owner, acc_balance := q\<rparr>)) w = Inr w'"
    using assms(1,3) by (intro account_rows.emplace_total) (auto simp: chain_accepts_def)
  with None show ?thesis by (simp add: add_balance_def get_account [OF assms(2,3)])
next
  case (Some r)
  with assms(4-6) asset_sum_total [of "acc_balance r" q] obtain b where b: "asset_add_assign (acc_balance r) q = Inr b" by auto
  have "\<exists>w'. table_modify (chain_db ch) m a accounts (table_make self (regid_value owner)) r no_payer
        (\<lambda>r. bindr (asset_add_assign (acc_balance r) q) (\<lambda>b. Inr (r\<lparr>acc_balance := b\<rparr>))) w = Inr (r\<lparr>acc_balance := b\<rparr>, w')"
    using assms(1,3) b by (intro account_rows.modify_total) (simp_all add: chain_accepts_def)
  with Some show ?thesis by (auto simp: add_balance_def get_account [OF assms(2,3)])
qed

lemma ledger_two_held:
  assumes "ledger_off (\<lambda>_. 0) ac st" "s \<noteq> s'"
  shows "held ac s k + held ac s' k \<le> supplied st k"
proof -
  have "(\<Sum>x\<in>{s, s'}. held ac x k) \<le> (\<Sum>x\<in>UNIV. held ac x k)"
    using ledger_held_le(1) [OF assms(1)] by (intro sum_mono2) simp_all
  with assms show ?thesis by (simp add: ledger_off_def)
qed

lemma get_balance_row:
  assumes "token_rel ch ac st w" "unat a + 1024 < 2 ^ 32"
    and "get_balance ch m a self owner (symbol_get_code (asset_symbol q)) w = Inr x" "symbol_is_valid (asset_symbol x)"
  obtains r where "ac (regid_value owner) (code_key q) = Some r" "acc_balance r = x"
proof (cases "ac (regid_value owner) (code_key q)")
  case None
  then have "asset_symbol x = asset_symbol (st_supply stats_default)"
    using assms(3) by (auto simp: get_balance_def get_account [OF assms(1,2)] code_key_def account_default_def stats_default_def)
  then show thesis using assms(4) default_symbol_invalid by simp
next
  case (Some r)
  then show thesis using assms(3) that by (simp add: get_balance_def get_account [OF assms(1,2)] code_key_def)
qed

lemma token_transfer_total:
  assumes "chain_laws ch" "chain_accepts ch" "token_rel ch ac st w" "ledger_off (\<lambda>_. 0) ac st" "unat a + 1024 < 2 ^ 32"
    and "require_auth ch from w = Inr ()" "is_account ch to w" "from \<noteq> to" "length memo \<le> 256"
    and "asset_is_valid q" "0 < sint (amount q)" "ac (regid_value from) (code_key q) = Some r"
      "asset_symbol (acc_balance r) = asset_symbol q" "sint (amount q) \<le> sint (amount (acc_balance r))"
  shows "\<exists>w'. token_transfer ch m a self from to q memo w = Inr w'"
proof -
  let ?k = "code_key q"
  have db: "db_laws (chain_db ch)" using assms(1) by (simp add: chain_laws_def)
  note valid = account_valid [OF assms(4,12)]
  obtain t where t: "st ?k ?k = Some t" "asset_symbol q = asset_symbol (st_supply t)" "sint (amount (st_supply t)) \<le> max_amount"
    using valid(3) assms(13) by auto
  obtain w1 w2 where n: "notify_recipient ch from w = Inr w1" "notify_recipient ch to w1 = Inr w2"
    using assms(2) unfolding chain_accepts_def notify_recipient_def by metis
  have rel2: "token_rel ch ac st w2"
    using n assms(1) by (intro token_rel_same_db [OF assms(3)]) (simp add: notify_recipient_def chain_laws_def)
  obtain w3 where w3: "sub_balance ch m a self from q w2 = Inr w3"
    using sub_balance_total [OF assms(2) rel2 assms(5,12) valid(1) assms(10,13,14)] assms(11) by auto
  obtain ac1 where ac1: "token_rel ch ac1 st w3" "ac1 (regid_value to) ?k = ac (regid_value to) ?k"
    by (rule sub_balance_rows [OF db rel2 assms(5) w3]) (use assms(8) in \<open>auto simp: set_row_apply regid_value_inject\<close>)
  have "held ac (regid_value from) ?k + held ac (regid_value to) ?k \<le> sint (amount (st_supply t))"
    using ledger_two_held [OF assms(4)] assms(8) t(1) by (metis supplied_def option.simps(5) regid.expand)
  then have room: "held ac (regid_value to) ?k + sint (amount q) \<le> max_amount" using t(3) valid(2) assms(14) by linarith
  have "\<exists>w'. add_balance ch m a self to q payer w3 = Inr w'" for payer
  proof (rule add_balance_total [OF assms(2) ac1(1) assms(5) _ assms(10)])
    show "0 \<le> sint (amount q)" using assms(11) by simp
    show "asset_is_valid (acc_balance r') \<and> asset_symbol (acc_balance r') = asset_symbol q \<and>
        sint (amount (acc_balance r')) + sint (amount q) \<le> max_amount"
      if "ac1 (regid_value to) ?k = Some r'" for r'
      using account_valid [OF assms(4), of "regid_value to" ?k r'] that ac1(2) room t(1,2) by auto
  qed
  moreover have "get_stats ch m a self (asset_symbol q) w = Inr (True, t)"
    using t(1) by (simp add: get_stats_eq [OF assms(3,5)])
  ultimately show ?thesis
    using assms(6-11) n w3 t(2) by (simp add: token_transfer_def check_def)
qed

text \<open>
  C8. Transfers go through. In a reachable state, on a host that accepts writes and
  notifications, a transfer of a valid positive quantity to another, existing account,
  authorised by a sender who holds it, with a memo of at most 256 bytes, never aborts:
  the conservation of the currency rules out the overflow of the receiver's balance.
\<close>

theorem token_transfer_succeeds:
  assumes "chain_laws ch" "chain_accepts ch" "token_reachable ch self w" "unat a + 1024 < 2 ^ 32"
    and "require_auth ch from w = Inr ()" "is_account ch to w" "from \<noteq> to" "length memo \<le> 256"
    and "asset_is_valid q" "0 < sint (amount q)"
    and "get_balance ch m a self from (symbol_get_code (asset_symbol q)) w = Inr x"
      "asset_symbol x = asset_symbol q" "sint (amount q) \<le> sint (amount x)"
  shows "\<exists>w'. token_transfer ch m a self from to q memo w = Inr w'"
proof -
  obtain ac st where inv: "token_rel ch ac st w" "ledger_off (\<lambda>_. 0) ac st"
    using token_inv_reachable [OF assms(3,1)] by (auto simp: token_inv_def)
  have "symbol_is_valid (asset_symbol x)" using assms(9,12) by (simp add: asset_is_valid_def)
  from get_balance_row [OF inv(1) assms(4,11) this] obtain r where "ac (regid_value from) (code_key q) = Some r" "acc_balance r = x" .
  with assms show ?thesis
    by (intro token_transfer_total [OF assms(1,2) inv assms(4-10)]) auto
qed

section \<open>A run of the contract\<close>

text \<open>
  Account 5, the maintainer of contract 9, creates the symbol "4,C" with a maximum of
  1000 and issues 100 to itself; the temporary vectors are at address \<open>a\<close>.
\<close>

definition run_asset :: "u64 \<Rightarrow> asset" where
  "run_asset v = \<lparr>amount = v, asset_symbol = Symbol 0x4304\<rparr>"

definition run_created :: "u32 \<Rightarrow> (byte list \<Rightarrow> byte list) res" where
  "run_created a = token_create (map_chain 5) (\<lambda>_. 0) a (Regid 9) (Regid 5) (run_asset 1000) (\<lambda>_. [])"

definition run_issued :: "u32 \<Rightarrow> (byte list \<Rightarrow> byte list) res" where
  "run_issued a = bindr (run_created a) (token_issue (map_chain 5) (\<lambda>_. 0) a (Regid 9) (Regid 5) (run_asset 100) ''memo'')"

lemma run_reachable:
  obtains w w0 where "run_issued 0 = Inr w" "token_reachable (map_chain 5) (Regid 9) w"
    "token_reachable (map_chain 5) (Regid 9) w0"
    "token_issue (map_chain 5) (\<lambda>_. 0) 0 (Regid 9) (Regid 5) (run_asset 100) ''memo'' w0 = Inr w"
proof -
  have "\<not> isl (run_issued 0)" by code_simp
  then obtain w where w: "run_issued 0 = Inr w" by (cases "run_issued 0") simp_all
  then obtain w0 where w0: "run_created 0 = Inr w0"
      "token_issue (map_chain 5) (\<lambda>_. 0) 0 (Regid 9) (Regid 5) (run_asset 100) ''memo'' w0 = Inr w"
    by (auto simp: run_issued_def res_simps)
  have room: "unat (0 :: u32) + 1024 < 2 ^ 32" by simp
  have "token_reachable (map_chain 5) (Regid 9) (\<lambda>_. [])"
    by (rule token_reachable.init) (simp add: token_rel_def holds_rows_def map_chain_def map_database_def)
  from token_reachable.step [OF this token_step.create [OF room w0(1) [unfolded run_created_def]]]
  have "token_reachable (map_chain 5) (Regid 9) w0" .
  from that [OF w token_reachable.step [OF this token_step.issue [OF room w0(2)]] this w0(2)] show thesis .
qed

lemma map_chain_auth: "host_require_auth (map_chain x) n w = Inr ()" "host_is_account (map_chain x) n w"
  by (simp_all add: map_chain_def)

lemma map_chain_accepts: "chain_accepts (map_chain x)"
  by (simp add: chain_accepts_def map_chain_def map_database_def)

lemma run_balance:
  assumes "run_issued 0 = Inr w"
  shows "get_balance (map_chain 5) (\<lambda>_. 0) 0 (Regid 9) (Regid 5) (symbol_get_code (Symbol 0x4304)) w = Inr (run_asset 100)"
proof -
  have "bindr (run_issued 0) (get_balance (map_chain 5) (\<lambda>_. 0) 0 (Regid 9) (Regid 5) (symbol_get_code (Symbol 0x4304))) =
      Inr (run_asset 100)"
    by code_simp
  with assms show ?thesis by simp
qed

theorem token_conservation_witness:
  "\<exists>w bal. run_issued 0 = Inr w \<and>
     (\<forall>owner. get_balance (map_chain 5) (\<lambda>_. 0) 0 (Regid 9) owner (Symbol_code 0x43) w = Inr (bal owner)) \<and>
     (\<Sum>v\<in>UNIV. sint (amount (bal (Regid v)))) = 100"
proof -
  obtain w where w: "run_issued 0 = Inr w" "token_reachable (map_chain 5) (Regid 9) w" by (rule run_reachable)
  have room: "unat (0 :: u32) + 1024 < 2 ^ 32" by simp
  have "bindr (run_issued 0) (get_supply (map_chain 5) (\<lambda>_. 0) 0 (Regid 9) (Symbol_code 0x43)) = Inr (run_asset 100)"
    by code_simp
  with w(1) have "get_supply (map_chain 5) (\<lambda>_. 0) 0 (Regid 9) (Symbol_code 0x43) w = Inr (run_asset 100)" by simp
  moreover have "sint (amount (run_asset 100)) = 100" by code_simp
  ultimately show ?thesis
    using token_conservation [OF map_chain_laws w(2) room, of "\<lambda>_. 0" "Symbol_code 0x43"] w(1) by auto
qed

text \<open>The transfer of 30 to account 7.\<close>

theorem token_transfer_succeeds_witness:
  "\<exists>w w'. run_issued 0 = Inr w \<and>
     token_transfer (map_chain 5) (\<lambda>_. 0) 0 (Regid 9) (Regid 5) (Regid 7) (run_asset 30) ''memo'' w = Inr w'"
proof -
  obtain w where w: "run_issued 0 = Inr w" "token_reachable (map_chain 5) (Regid 9) w" by (rule run_reachable)
  have room: "unat (0 :: u32) + 1024 < 2 ^ 32" by simp
  have q: "asset_is_valid (run_asset 30)" "0 < sint (amount (run_asset 30))"
    "sint (amount (run_asset 30)) \<le> sint (amount (run_asset 100))" by code_simp+
  from token_transfer_succeeds [OF map_chain_laws map_chain_accepts w(2) room, of "Regid 5" "Regid 7" "''memo''"
      "run_asset 30" "\<lambda>_. 0" "run_asset 100"] run_balance [OF w(1)] q w(1)
  show ?thesis by (auto simp: require_auth_def is_account_def map_chain_auth run_asset_def)
qed

theorem token_transfer_moves_witness:
  "\<exists>w w' x y. run_issued 0 = Inr w \<and>
     token_transfer (map_chain 5) (\<lambda>_. 0) 0 (Regid 9) (Regid 5) (Regid 7) (run_asset 30) ''memo'' w = Inr w' \<and>
     get_balance (map_chain 5) (\<lambda>_. 0) 0 (Regid 9) (Regid 7) (Symbol_code 0x43) w = Inr x \<and>
     get_balance (map_chain 5) (\<lambda>_. 0) 0 (Regid 9) (Regid 7) (Symbol_code 0x43) w' = Inr y \<and>
     sint (amount y) = sint (amount x) + 30"
proof -
  obtain w where w: "run_issued 0 = Inr w" "token_reachable (map_chain 5) (Regid 9) w" by (rule run_reachable)
  have room: "unat (0 :: u32) + 1024 < 2 ^ 32" by simp
  obtain ac st where inv: "token_rel (map_chain 5) ac st w" "ledger_off (\<lambda>_. 0) ac st"
    using token_inv_reachable [OF w(2) map_chain_laws] by (auto simp: token_inv_def)
  have v: "symbol_is_valid (asset_symbol (run_asset 100))" "asset_is_valid (run_asset 30)" "0 < sint (amount (run_asset 30))"
    "sint (amount (run_asset 30)) \<le> sint (amount (run_asset 100))" "sint (amount (run_asset 30)) = 30"
    "code_key (run_asset 30) = 0x43" by code_simp+
  obtain r where "ac 5 (code_key (run_asset 30)) = Some r" "acc_balance r = run_asset 100"
    using get_balance_row [OF inv(1) room _ v(1), of "\<lambda>_. 0" "Regid 9" "Regid 5" "run_asset 30"] run_balance [OF w(1)]
    by (auto simp: run_asset_def)
  then obtain w' where w': "token_transfer (map_chain 5) (\<lambda>_. 0) 0 (Regid 9) (Regid 5) (Regid 7) (run_asset 30) ''memo'' w = Inr w'"
    using token_transfer_total [OF map_chain_laws map_chain_accepts inv room, of "Regid 5" "Regid 7" "''memo''" "run_asset 30" r
        "\<lambda>_. 0" "Regid 9"] v
    by (auto simp: require_auth_def is_account_def map_chain_auth run_asset_def)
  have "\<exists>x y. get_balance (map_chain 5) (\<lambda>_. 0) 0 (Regid 9) (Regid 7) (Symbol_code 0x43) w = Inr x \<and>
      get_balance (map_chain 5) (\<lambda>_. 0) 0 (Regid 9) (Regid 7) (Symbol_code 0x43) w' = Inr y \<and>
      sint (amount y) = sint (amount x) + (if code_raw (Symbol_code 0x43) \<noteq> code_key (run_asset 30) then 0
        else if Regid 7 = Regid 5 then - sint (amount (run_asset 30)) else if Regid 7 = Regid 7 then sint (amount (run_asset 30)) else 0)"
    using token_transfer_moves [OF map_chain_laws w(2) room w'] by blast
  then show ?thesis using w(1) w' v(5,6) by (auto simp del: of_int_numeral)
qed

theorem token_supply_changes_witness:
  "\<exists>w0 w t x. token_issue (map_chain 5) (\<lambda>_. 0) 0 (Regid 9) (Regid 5) (run_asset 100) ''memo'' w0 = Inr w \<and>
     get_stats (map_chain 5) (\<lambda>_. 0) 0 (Regid 9) (asset_symbol (run_asset 100)) w0 = Inr (True, t) \<and>
     get_supply (map_chain 5) (\<lambda>_. 0) 0 (Regid 9) (symbol_get_code (asset_symbol (run_asset 100))) w = Inr x \<and>
     sint (amount x) = sint (amount (st_supply t)) + 100"
proof -
  obtain w w0 where w: "token_reachable (map_chain 5) (Regid 9) w0"
      "token_issue (map_chain 5) (\<lambda>_. 0) 0 (Regid 9) (Regid 5) (run_asset 100) ''memo'' w0 = Inr w"
    by (rule run_reachable)
  have room: "unat (0 :: u32) + 1024 < 2 ^ 32" by simp
  have "100 = sint (amount (run_asset 100))" by code_simp
  with token_supply_changes [OF map_chain_laws w(1) room disjI1 [OF conjI [OF w(2)]], of 100] w(2)
  show ?thesis by blast
qed

end
