(* ===== verification/Dispatcher.thy ===== *)
theory Dispatcher
  imports Inline_Transaction
begin

text \<open>
  The base class of contracts and the dispatcher,
  \<^verbatim>\<open>libraries/wasmlib/contracts/contract.hpp\<close> and \<^verbatim>\<open>dispatcher.hpp\<close>: the data of the
  current action are read into a buffer, the tuple of the handler's arguments is unpacked
  from it, the contract object is constructed and the handler called. The handler is a
  parameter; so are the virtual methods called before and after it. The buffer is at
  address \<open>a\<close>; whether it is on the stack or allocated makes no other difference.
\<close>

section \<open>Contracts\<close>

record contract =
  contract_self :: regid
  contract_first_receiver :: regid
  contract_ds :: datastream

definition contract_make :: "regid \<Rightarrow> regid \<Rightarrow> datastream \<Rightarrow> contract" where
  "contract_make self first_receiver ds =
     \<lparr>contract_self = self, contract_first_receiver = first_receiver, contract_ds = ds\<rparr>"

definition pre_action :: "contract \<Rightarrow> 'w \<Rightarrow> (contract \<times> 'w) res" where
  "pre_action inst w = Inr (inst, w)"

definition post_action :: "contract \<Rightarrow> 'w \<Rightarrow> (contract \<times> 'w) res" where
  "post_action inst w = Inr (inst, w)"

definition get_self :: "contract \<Rightarrow> regid" where
  "get_self inst = contract_self inst"

definition get_first_receiver :: "contract \<Rightarrow> regid" where
  "get_first_receiver inst = contract_first_receiver inst"

section \<open>Execution of an action\<close>

text \<open>Reading the arguments; an action without data leaves the buffer a null pointer.\<close>

definition action_args ::
  "'w chain \<Rightarrow> mem \<Rightarrow> u32 \<Rightarrow> ('t \<Rightarrow> datastream \<Rightarrow> ('t \<times> datastream) res) \<Rightarrow> 't \<Rightarrow> 'w \<Rightarrow> ('t \<times> datastream) res" where
  "action_args ch m a deser dflt w =
     (let size = action_data_size ch w;
          buffer = (if size > 0 then a else 0);
          m' = (if size > 0 then read_action_data ch m a size w else m)
      in deser dflt (ds_make m' buffer size))"

text \<open>The lambda that calls the handler is defined before \<^verbatim>\<open>post_action\<close> and applied after it.\<close>

definition execute_action ::
  "'w chain \<Rightarrow> mem \<Rightarrow> u32 \<Rightarrow> ('t \<Rightarrow> datastream \<Rightarrow> ('t \<times> datastream) res) \<Rightarrow> 't \<Rightarrow>
   (contract \<Rightarrow> 'w \<Rightarrow> (contract \<times> 'w) res) \<Rightarrow> (contract \<Rightarrow> 'w \<Rightarrow> (contract \<times> 'w) res) \<Rightarrow>
   (contract \<Rightarrow> 't \<Rightarrow> 'w \<Rightarrow> 'w res) \<Rightarrow> regid \<Rightarrow> regid \<Rightarrow> 'w \<Rightarrow> (bool \<times> 'w) res" where
  "execute_action ch m a deser dflt pre post func self code w =
     bindr (action_args ch m a deser dflt w) (\<lambda>(args, ds).
     bindr (pre (contract_make self code ds) w) (\<lambda>(inst, w).
     bindr (post inst w) (\<lambda>(inst, w).
     bindr (func inst args w) (\<lambda>w. Inr (True, w)))))"

definition execute_action_with_return ::
  "'w chain \<Rightarrow> mem \<Rightarrow> u32 \<Rightarrow> ('t \<Rightarrow> datastream \<Rightarrow> ('t \<times> datastream) res) \<Rightarrow> 't \<Rightarrow>
   (contract \<Rightarrow> 't \<Rightarrow> 'w \<Rightarrow> (u64 \<times> 'w) res) \<Rightarrow> regid \<Rightarrow> regid \<Rightarrow> 'w \<Rightarrow> (u64 \<times> 'w) res" where
  "execute_action_with_return ch m a deser dflt func self code w =
     bindr (action_args ch m a deser dflt w) (\<lambda>(args, ds). func (contract_make self code ds) args w)"

section \<open>Dispatch\<close>

text \<open>
  The \<^verbatim>\<open>apply\<close> functions the two macros generate for a sequence of members: a switch on
  the name of the action, without a default, whose cases execute the member.
\<close>

fun wasm_dispatch_any :: "(string \<times> (regid \<Rightarrow> regid \<Rightarrow> 'w \<Rightarrow> (bool \<times> 'w) res)) list \<Rightarrow> u64 \<Rightarrow> u64 \<Rightarrow> u64 \<Rightarrow> 'w \<Rightarrow> 'w res" where
  "wasm_dispatch_any [] receiver code action w = Inr w"
| "wasm_dispatch_any ((elem, exec) # members) receiver code action w =
     (if action = name_value (name_literal elem) then mapr snd (exec (Regid receiver) (Regid code) w)
      else wasm_dispatch_any members receiver code action w)"

definition wasm_dispatch :: "(string \<times> (regid \<Rightarrow> regid \<Rightarrow> 'w \<Rightarrow> (bool \<times> 'w) res)) list \<Rightarrow> u64 \<Rightarrow> u64 \<Rightarrow> u64 \<Rightarrow> 'w \<Rightarrow> 'w res" where
  "wasm_dispatch members receiver code action w =
     (if code = receiver then wasm_dispatch_any members receiver code action w else Inr w)"

section \<open>Packed arguments reach the handler\<close>

context codec
begin

lemma action_args_enc:
  assumes "host_action_data ch w = enc v" "ok v" "length (enc v) < 2 ^ 31" "unat a + length (enc v) < 2 ^ 32"
  obtains ds where "action_args ch m a deser dflt w = Inr (v, ds)"
proof -
  let ?n = "of_nat (length (enc v)) :: u32"
  have n: "unat ?n = length (enc v)" using assms(3) by (intro unat_of_nat_u32) simp
  show thesis
  proof (cases "0 < ?n")
    case True
    let ?ds = "ds_make (mem_write m a (enc v)) a ?n"
    have "wf_ds ?ds" using n assms(3,4) by (intro ds_make_wf) simp_all
    moreover have "ds_avail ?ds = enc v @ []" using assms(3,4) by (simp add: ds_make_avail)
    ultimately show thesis
      using deser_enc [of ?ds v "[]"] assms(1,2) True n that
      by (simp add: action_args_def action_data_size_def read_action_data_def)
  next
    case False
    then have "enc v = []" using n by (simp add: word_neq_0_conv [symmetric])
    moreover have "wf_ds (ds_make m 0 0)" by (intro ds_make_wf) simp_all
    moreover have "ds_avail (ds_make m 0 0) = []" using ds_make_avail [of "[]" 0 m] by simp
    ultimately show thesis
      using deser_enc [of "ds_make m 0 0" v "[]"] assms(1,2) that
      by (simp add: action_args_def action_data_size_def)
  qed
qed

text \<open>Arguments that \<open>pack\<close> wrote, as the sender of an inline transaction does.\<close>

lemma args_packed:
  assumes "pack m' a' ser v = Inr (host_action_data ch w)" "ok v" "length (enc v) \<le> 1024"
    and "unat a' + 1024 < 2 ^ 32" "unat a + 1024 < 2 ^ 32"
  obtains ds where "action_args ch m a deser dflt w = Inr (v, ds)"
proof -
  have "pack m' a' ser v = Inr (enc v)" using assms(2-4) by (intro pack_enc) simp_all
  then have "host_action_data ch w = enc v" using assms(1) by simp
  moreover have "length (enc v) < 2 ^ 31" "unat a + length (enc v) < 2 ^ 32" using assms(3,5) by simp_all
  ultimately show thesis using assms(2) that by (metis action_args_enc)
qed

lemma execute_packed:
  assumes "pack m' a' ser v = Inr (host_action_data ch w)" "ok v" "length (enc v) \<le> 1024"
    and "unat a' + 1024 < 2 ^ 32" "unat a + 1024 < 2 ^ 32" "\<And>inst. func inst v w = run (get_self inst)"
  shows "execute_action ch m a deser dflt pre_action post_action func self code w = mapr (Pair True) (run self)"
proof -
  obtain ds where "action_args ch m a deser dflt w = Inr (v, ds)" by (rule args_packed [OF assms(1-5)])
  with assms(6) show ?thesis
    by (simp add: execute_action_def pre_action_def post_action_def get_self_def contract_make_def mapr_def)
qed

lemma execute_packed_with_return:
  assumes "pack m' a' ser v = Inr (host_action_data ch w)" "ok v" "length (enc v) \<le> 1024"
    and "unat a' + 1024 < 2 ^ 32" "unat a + 1024 < 2 ^ 32" "\<And>inst. func inst v w = run (get_self inst)"
  shows "execute_action_with_return ch m a deser dflt func self code w = run self"
proof -
  obtain ds where "action_args ch m a deser dflt w = Inr (v, ds)" by (rule args_packed [OF assms(1-5)])
  with assms(6) show ?thesis by (simp add: execute_action_with_return_def get_self_def contract_make_def)
qed

end

end
