(* ===== verification/Token_Dispatch.thy ===== *)
theory Token_Dispatch
  imports Token Dispatcher
begin

text \<open>
  The entry point \<^verbatim>\<open>apply\<close> of the token contract, \<^verbatim>\<open>examples/V4/token/src/token.cpp\<close>,
  over the dispatcher of the library: the composition of the serialization of the
  arguments, the dispatcher and the actions. The buffer of the action data is at address
  \<open>a\<close>, the temporary vectors of the action at \<open>b\<close>.
\<close>

definition token_apply :: "'w chain \<Rightarrow> mem \<Rightarrow> u32 \<Rightarrow> u32 \<Rightarrow> u64 \<Rightarrow> u64 \<Rightarrow> u64 \<Rightarrow> 'w \<Rightarrow> (u64 \<times> 'w) res" where
  "token_apply ch m a b receiver code action w =
     (let done = mapr (\<lambda>r. (0, snd r)) in
      if action = name_value (name_literal ''create'')
      then done (execute_action ch m a (deser_tuple deser_regid (deser_tuple deser_asset deser_tuple_nil))
             (regid_default, asset_default, ()) pre_action post_action
             (\<lambda>inst (issuer, maximum_supply, _). token_create ch m b (get_self inst) issuer maximum_supply) (Regid receiver) (Regid code) w)
      else if action = name_value (name_literal ''issue'')
      then done (execute_action ch m a (deser_tuple deser_regid (deser_tuple deser_asset (deser_tuple deser_string deser_tuple_nil)))
             (regid_default, asset_default, [], ()) pre_action post_action
             (\<lambda>inst (to, qty, memo, _). token_issue ch m b (get_self inst) to qty memo) (Regid receiver) (Regid code) w)
      else if action = name_value (name_literal ''retire'')
      then done (execute_action ch m a (deser_tuple deser_asset (deser_tuple deser_string deser_tuple_nil))
             (asset_default, [], ()) pre_action post_action
             (\<lambda>inst (qty, memo, _). token_retire ch m b (get_self inst) qty memo) (Regid receiver) (Regid code) w)
      else if action = name_value (name_literal ''transfer'')
      then done (execute_action ch m a (deser_tuple deser_regid (deser_tuple deser_regid (deser_tuple deser_asset (deser_tuple deser_string deser_tuple_nil))))
             (regid_default, regid_default, asset_default, [], ()) pre_action post_action
             (\<lambda>inst (from, to, qty, memo, _). token_transfer ch m b (get_self inst) from to qty memo) (Regid receiver) (Regid code) w)
      else if action = name_value (name_literal ''open'')
      then done (execute_action ch m a (deser_tuple deser_regid (deser_tuple deser_symbol (deser_tuple deser_regid deser_tuple_nil)))
             (regid_default, Symbol 0, regid_default, ()) pre_action post_action
             (\<lambda>inst (owner, symb, payer, _). token_open ch m b (get_self inst) owner symb payer) (Regid receiver) (Regid code) w)
      else if action = name_value (name_literal ''close'')
      then done (execute_action ch m a (deser_tuple deser_regid (deser_tuple deser_symbol deser_tuple_nil))
             (regid_default, Symbol 0, ()) pre_action post_action
             (\<lambda>inst (owner, symb, _). token_close ch m b (get_self inst) owner symb) (Regid receiver) (Regid code) w)
      else if action = name_value (name_literal ''balance_of'')
      then execute_action_with_return ch m a (deser_tuple deser_regid (deser_tuple deser_symbol deser_tuple_nil))
             (regid_default, Symbol 0, ())
             (\<lambda>inst (owner, symb, _). token_balance_of ch m b (get_self inst) owner symb) (Regid receiver) (Regid code) w
      else bindr (check False ''action did not exist!'') (\<lambda>_. Inr (0, w)))"

lemma action_names:
  "name_value (name_literal ''create'') = 5031766152489992192"
  "name_value (name_literal ''issue'') = 8516769789752901632"
  "name_value (name_literal ''retire'') = 13453074143696125952"
  "name_value (name_literal ''transfer'') = 14829575313431724032"
  "name_value (name_literal ''open'') = 11913481165836648448"
  "name_value (name_literal ''close'') = 4929617502180212736"
  "name_value (name_literal ''balance_of'') = 4152997947684077568"
  by code_simp+

section \<open>Arguments\<close>

lemmas codec_cons = codec2.codec_tuple [OF codec2.intro]

lemma string_enc_small: "length s \<le> 256 \<Longrightarrow> seq_ok (\<lambda>_. True) s \<and> length (string_enc s) \<le> 300"
  using length_varuint_u32 [of "of_nat (length s)"]
  by (simp add: seq_ok_def string_enc_def seq_enc_def size_enc_def unsigned_int_enc_def unat_of_nat_u32 length_concat comp_def)

lemmas dispatch_simps = token_apply_def action_names regid_default_def mapr_mapr comp_def
  pair_enc_def pair_ok_def asset_enc_def

lemmas memo_codec = codec_cons [OF codec_string tuple_nil.codec_axioms]
lemmas qty_memo_codec = codec_cons [OF asset_codec.codec_axioms memo_codec]
lemmas to_qty_memo_codec = codec_cons [OF regid_codec.codec_axioms qty_memo_codec]
lemmas transfer_codec = codec_cons [OF regid_codec.codec_axioms to_qty_memo_codec]
lemmas create_codec = codec_cons [OF regid_codec.codec_axioms codec_cons [OF asset_codec.codec_axioms tuple_nil.codec_axioms]]
lemmas close_codec = codec_cons [OF regid_codec.codec_axioms codec_cons [OF symbol_codec.codec_axioms tuple_nil.codec_axioms]]
lemmas open_codec = codec_cons [OF regid_codec.codec_axioms codec_cons [OF symbol_codec.codec_axioms
    codec_cons [OF regid_codec.codec_axioms tuple_nil.codec_axioms]]]

text \<open>
  C10. Dispatch. When the data of the current action are what \<open>pack\<close> makes of the arguments
  of an action, with a memo of at most 256 bytes, the entry point of the contract runs
  exactly that action, with these arguments and as the account that received the
  transaction, whichever account the code belongs to; every other action aborts.
\<close>

theorem token_apply_runs:
  assumes room: "unat a' + 1024 < 2 ^ 32" "unat a + 1024 < 2 ^ 32" and memo: "length memo \<le> 256"
  shows "(pack m' a' transfer_args (from, to, q, memo, ()) = Inr (host_action_data ch w) \<longrightarrow>
      token_apply ch m a b self code (name_value (name_literal ''transfer'')) w =
        mapr (Pair 0) (token_transfer ch m b (Regid self) from to q memo w))
    \<and> (pack m' a' (ser_tuple ser_regid (ser_tuple ser_asset (ser_tuple ser_string ser_tuple_nil))) (to, q, memo, ()) =
          Inr (host_action_data ch w) \<longrightarrow>
        token_apply ch m a b self code (name_value (name_literal ''issue'')) w =
          mapr (Pair 0) (token_issue ch m b (Regid self) to q memo w))
    \<and> (pack m' a' (ser_tuple ser_asset (ser_tuple ser_string ser_tuple_nil)) (q, memo, ()) = Inr (host_action_data ch w) \<longrightarrow>
        token_apply ch m a b self code (name_value (name_literal ''retire'')) w =
          mapr (Pair 0) (token_retire ch m b (Regid self) q memo w))
    \<and> (pack m' a' (ser_tuple ser_regid (ser_tuple ser_asset ser_tuple_nil)) (issuer, q, ()) = Inr (host_action_data ch w) \<longrightarrow>
        token_apply ch m a b self code (name_value (name_literal ''create'')) w =
          mapr (Pair 0) (token_create ch m b (Regid self) issuer q w))
    \<and> (pack m' a' (ser_tuple ser_regid (ser_tuple ser_symbol (ser_tuple ser_regid ser_tuple_nil))) (owner, symb, payer, ()) =
          Inr (host_action_data ch w) \<longrightarrow>
        token_apply ch m a b self code (name_value (name_literal ''open'')) w =
          mapr (Pair 0) (token_open ch m b (Regid self) owner symb payer w))
    \<and> (pack m' a' (ser_tuple ser_regid (ser_tuple ser_symbol ser_tuple_nil)) (owner, symb, ()) = Inr (host_action_data ch w) \<longrightarrow>
        token_apply ch m a b self code (name_value (name_literal ''close'')) w =
          mapr (Pair 0) (token_close ch m b (Regid self) owner symb w)
        \<and> token_apply ch m a b self code (name_value (name_literal ''balance_of'')) w =
          token_balance_of ch m b (Regid self) owner symb w)
    \<and> (action \<notin> (name_value \<circ> name_literal) ` {''create'', ''issue'', ''retire'', ''transfer'', ''open'', ''close'', ''balance_of''} \<longrightarrow>
        token_apply ch m a b self code action w = Inl (Assert ''action did not exist!''))"
proof (intro conjI impI)
  assume args: "pack m' a' transfer_args (from, to, q, memo, ()) = Inr (host_action_data ch w)"
  show "token_apply ch m a b self code (name_value (name_literal ''transfer'')) w =
      mapr (Pair 0) (token_transfer ch m b (Regid self) from to q memo w)"
    using string_enc_small [OF memo] by (simp add: codec.execute_packed [OF transfer_codec args [unfolded transfer_args_def] _ _ room, where run = "\<lambda>s. token_transfer ch m b s from to q memo w"]
        dispatch_simps)
next
  assume args: "pack m' a' (ser_tuple ser_regid (ser_tuple ser_asset (ser_tuple ser_string ser_tuple_nil))) (to, q, memo, ()) = Inr (host_action_data ch w)"
  show "token_apply ch m a b self code (name_value (name_literal ''issue'')) w =
      mapr (Pair 0) (token_issue ch m b (Regid self) to q memo w)"
    using string_enc_small [OF memo] by (simp add: codec.execute_packed [OF to_qty_memo_codec args _ _ room, where run = "\<lambda>s. token_issue ch m b s to q memo w"]
        dispatch_simps)
next
  assume args: "pack m' a' (ser_tuple ser_asset (ser_tuple ser_string ser_tuple_nil)) (q, memo, ()) = Inr (host_action_data ch w)"
  show "token_apply ch m a b self code (name_value (name_literal ''retire'')) w =
      mapr (Pair 0) (token_retire ch m b (Regid self) q memo w)"
    using string_enc_small [OF memo] by (simp add: codec.execute_packed [OF qty_memo_codec args _ _ room, where run = "\<lambda>s. token_retire ch m b s q memo w"]
        dispatch_simps)
next
  assume args: "pack m' a' (ser_tuple ser_regid (ser_tuple ser_asset ser_tuple_nil)) (issuer, q, ()) = Inr (host_action_data ch w)"
  show "token_apply ch m a b self code (name_value (name_literal ''create'')) w =
      mapr (Pair 0) (token_create ch m b (Regid self) issuer q w)"
    using string_enc_small [OF memo] by (simp add: codec.execute_packed [OF create_codec args _ _ room, where run = "\<lambda>s. token_create ch m b s issuer q w"]
        dispatch_simps)
next
  assume args: "pack m' a' (ser_tuple ser_regid (ser_tuple ser_symbol (ser_tuple ser_regid ser_tuple_nil))) (owner, symb, payer, ()) = Inr (host_action_data ch w)"
  show "token_apply ch m a b self code (name_value (name_literal ''open'')) w =
      mapr (Pair 0) (token_open ch m b (Regid self) owner symb payer w)"
    using string_enc_small [OF memo] by (simp add: codec.execute_packed [OF open_codec args _ _ room, where run = "\<lambda>s. token_open ch m b s owner symb payer w"]
        dispatch_simps)
next
  assume args: "pack m' a' (ser_tuple ser_regid (ser_tuple ser_symbol ser_tuple_nil)) (owner, symb, ()) = Inr (host_action_data ch w)"
  show "token_apply ch m a b self code (name_value (name_literal ''close'')) w =
      mapr (Pair 0) (token_close ch m b (Regid self) owner symb w)"
    using string_enc_small [OF memo] by (simp add: codec.execute_packed [OF close_codec args _ _ room, where run = "\<lambda>s. token_close ch m b s owner symb w"]
        dispatch_simps)
next
  assume args: "pack m' a' (ser_tuple ser_regid (ser_tuple ser_symbol ser_tuple_nil)) (owner, symb, ()) = Inr (host_action_data ch w)"
  show "token_apply ch m a b self code (name_value (name_literal ''balance_of'')) w =
      token_balance_of ch m b (Regid self) owner symb w"
    using string_enc_small [OF memo] by (simp add: codec.execute_packed_with_return [OF close_codec args _ _ room,
          where run = "\<lambda>s. token_balance_of ch m b s owner symb w"] dispatch_simps)
next
  assume "action \<notin> (name_value \<circ> name_literal) ` {''create'', ''issue'', ''retire'', ''transfer'', ''open'', ''close'', ''balance_of''}"
  then show "token_apply ch m a b self code action w = Inl (Assert ''action did not exist!'')"
    by (simp add: token_apply_def check_def)
qed

definition packed_transfer :: "byte list" where
  "packed_transfer = (case pack (\<lambda>_. 0) 0 transfer_args (Regid 5, Regid 7, run_asset 30, ''hello'', ()) of Inr bs \<Rightarrow> bs | Inl _ \<Rightarrow> [])"

text \<open>The host of the run with the packed arguments of a transfer as action data.\<close>

definition run_chain :: "(byte list \<Rightarrow> byte list) chain" where
  "run_chain = (map_chain 5)\<lparr>host_action_data := \<lambda>_. packed_transfer\<rparr>"

theorem token_apply_runs_witness:
  "length packed_transfer = 38 \<and> token_apply run_chain (\<lambda>_. 0) 64 4096 9 9 (name_value (name_literal ''transfer'')) (\<lambda>_. []) =
     mapr (Pair 0) (token_transfer run_chain (\<lambda>_. 0) 4096 (Regid 9) (Regid 5) (Regid 7) (run_asset 30) ''hello'' (\<lambda>_. []))"
proof -
  have room: "unat (0 :: u32) + 1024 < 2 ^ 32" "unat (64 :: u32) + 1024 < 2 ^ 32" "length ''hello'' \<le> 256" by simp_all
  have packed: "pack (\<lambda>_. 0) 0 transfer_args (Regid 5, Regid 7, run_asset 30, ''hello'', ()) = Inr packed_transfer"
    "length packed_transfer = 38"
    by code_simp+
  have "host_action_data run_chain (\<lambda>_. []) = packed_transfer" by (simp add: run_chain_def)
  with packed show ?thesis
    by (intro conjI token_apply_runs [OF room, THEN conjunct1, THEN mp]) simp_all
qed

end
