(* ===== verification/Malloc.thy ===== *)
theory Malloc
  imports Memory Wasm_Check
begin

text \<open>
  The allocator \<^verbatim>\<open>libraries/wasmlib/malloc.cpp\<close> of a \<^verbatim>\<open>wasm32\<close> module. The state is the
  linear memory with its number of pages and the variables of \<^verbatim>\<open>sbrk\<close> and of the single
  \<^verbatim>\<open>memory_manager\<close>. An access beyond the last page traps. A loop that never ends is an
  \<open>Undefined\<close> outcome too; the loops are partial functions whose value \<open>None\<close> means that.

  The platform is a record: whether the host grants more pages, the address of the
  static array \<^verbatim>\<open>_initial_heap\<close>, and the conversion of a pointer to \<^verbatim>\<open>int64_t\<close>, which C++
  leaves to the implementation (clang extends with zeros).
\<close>

section \<open>The linear memory\<close>

record lmem =
  lm_bytes :: mem
  lm_pages :: u32

definition in_memory :: "lmem \<Rightarrow> u32 \<Rightarrow> nat \<Rightarrow> bool" where
  "in_memory lm a n = (uint a + int n \<le> uint (lm_pages lm) * 65536)"

definition load_size :: "lmem \<Rightarrow> u32 \<Rightarrow> u32 res" where
  "load_size lm a =
     (if in_memory lm a 4 then Inr (le_word (mem_read (lm_bytes lm) a 4))
      else Inl (Undefined ''out of bounds memory access''))"

definition store_size :: "lmem \<Rightarrow> u32 \<Rightarrow> u32 \<Rightarrow> lmem res" where
  "store_size lm a v =
     (if in_memory lm a 4 then Inr (lm\<lparr>lm_bytes := mem_write (lm_bytes lm) a (le_bytes 4 v)\<rparr>)
      else Inl (Undefined ''out of bounds memory access''))"

definition terminating :: "'a res option \<Rightarrow> 'a res" where
  "terminating r = (case r of None \<Rightarrow> Inl (Undefined ''endless loop'') | Some x \<Rightarrow> x)"

section \<open>Buffers\<close>

definition size_marker :: u32 where
  "size_marker = 4"

definition alloc_memory_mask :: u32 where
  "alloc_memory_mask = 0x80000000"

record buffer_ptr =
  bp_ptr :: u32
  bp_size :: u32
  bp_heap_end :: u32

definition buffer_at :: "lmem \<Rightarrow> u32 \<Rightarrow> u32 \<Rightarrow> buffer_ptr res" where
  "buffer_at lm ptr heap_end =
     bindr (load_size lm (ptr - size_marker)) (\<lambda>v.
       Inr \<lparr>bp_ptr = ptr, bp_size = v AND NOT alloc_memory_mask, bp_heap_end = heap_end\<rparr>)"

definition buffer_set_size :: "lmem \<Rightarrow> buffer_ptr \<Rightarrow> u32 \<Rightarrow> (buffer_ptr \<times> lmem) res" where
  "buffer_set_size lm b val =
     bindr (load_size lm (bp_ptr b - size_marker)) (\<lambda>v.
     let memory_state = v AND alloc_memory_mask in
     bindr (store_size lm (bp_ptr b - size_marker) (val OR memory_state)) (\<lambda>lm.
       Inr (b\<lparr>bp_size := val\<rparr>, lm)))"

definition buffer_make :: "lmem \<Rightarrow> u32 \<Rightarrow> u32 \<Rightarrow> u32 \<Rightarrow> (buffer_ptr \<times> lmem) res" where
  "buffer_make lm ptr buff_size heap_end =
     buffer_set_size lm \<lparr>bp_ptr = ptr, bp_size = 0, bp_heap_end = heap_end\<rparr> buff_size"

definition buffer_end :: "buffer_ptr \<Rightarrow> u32" where
  "buffer_end b = bp_ptr b + bp_size b"

definition buffer_next_ptr :: "buffer_ptr \<Rightarrow> u32" where
  "buffer_next_ptr b = (let next = buffer_end b + size_marker in if next \<ge> bp_heap_end b then 0 else next)"

definition mark_alloc :: "lmem \<Rightarrow> buffer_ptr \<Rightarrow> lmem res" where
  "mark_alloc lm b =
     bindr (load_size lm (bp_ptr b - size_marker)) (\<lambda>v. store_size lm (bp_ptr b - size_marker) (v OR alloc_memory_mask))"

definition mark_free :: "lmem \<Rightarrow> buffer_ptr \<Rightarrow> lmem res" where
  "mark_free lm b =
     bindr (load_size lm (bp_ptr b - size_marker)) (\<lambda>v. store_size lm (bp_ptr b - size_marker) (v AND NOT alloc_memory_mask))"

definition is_alloc :: "lmem \<Rightarrow> buffer_ptr \<Rightarrow> bool res" where
  "is_alloc lm b = bindr (load_size lm (bp_ptr b - size_marker)) (\<lambda>v. Inr (v AND alloc_memory_mask \<noteq> 0))"

partial_function (option) merge_loop :: "lmem \<Rightarrow> u32 \<Rightarrow> u32 \<Rightarrow> u32 \<Rightarrow> u32 \<Rightarrow> u32 res option" where
  "merge_loop lm ptr heap_end needed_size possible_size =
     (if possible_size < needed_size \<and> ptr + possible_size < heap_end
      then (case load_size lm (ptr + possible_size) of
          Inl e \<Rightarrow> Some (Inl e)
        | Inr next_mem_flag_size \<Rightarrow>
            if next_mem_flag_size AND alloc_memory_mask \<noteq> 0 then Some (Inr possible_size)
            else merge_loop lm ptr heap_end needed_size
                   (possible_size + ((next_mem_flag_size AND NOT alloc_memory_mask) + size_marker)))
      else Some (Inr possible_size))"

declare merge_loop.simps [code]

definition merge_contiguous :: "lmem \<Rightarrow> buffer_ptr \<Rightarrow> u32 \<Rightarrow> bool \<Rightarrow> (bool \<times> buffer_ptr \<times> lmem) res" where
  "merge_contiguous lm b needed_size all_or_nothing =
     (if all_or_nothing \<and> bp_heap_end b - bp_ptr b < needed_size then Inr (False, b, lm)
      else bindr (terminating (merge_loop lm (bp_ptr b) (bp_heap_end b) needed_size (bp_size b))) (\<lambda>possible_size.
        if all_or_nothing \<and> possible_size < needed_size then Inr (False, b, lm)
        else
          let new_size = (if possible_size < needed_size then possible_size else needed_size) in
          bindr (buffer_set_size lm b new_size) (\<lambda>(b, lm).
          bindr (if possible_size > needed_size
                 then let freed_size = possible_size - needed_size - size_marker in
                   bindr (buffer_make lm (bp_ptr b + needed_size + size_marker) freed_size (bp_heap_end b))
                     (\<lambda>(freed_remainder, lm). mark_free lm freed_remainder)
                 else Inr lm) (\<lambda>lm.
            Inr (new_size = needed_size, b, lm)))))"

section \<open>One heap\<close>

record heap =
  heap_size :: u32
  heap_base :: u32
  heap_offset :: u32

definition heap_default :: heap where
  "heap_default = \<lparr>heap_size = 0, heap_base = 0, heap_offset = 0\<rparr>"

definition heap_init :: "heap \<Rightarrow> u32 \<Rightarrow> u32 \<Rightarrow> heap" where
  "heap_init h mem_heap sz = h\<lparr>heap_size := sz, heap_base := mem_heap\<rparr>"

definition is_init :: "heap \<Rightarrow> bool" where
  "is_init h = (heap_base h \<noteq> 0)"

definition is_in_heap :: "heap \<Rightarrow> u32 \<Rightarrow> bool" where
  "is_in_heap h ptr =
     (let end_of_buffer = heap_base h + heap_size h; first_ptr_of_buffer = heap_base h + size_marker in
      ptr \<ge> first_ptr_of_buffer \<and> ptr < end_of_buffer)"

definition is_capacity_remaining :: "heap \<Rightarrow> bool" where
  "is_capacity_remaining h = (heap_offset h + size_marker < heap_size h)"

definition heap_malloc :: "lmem \<Rightarrow> heap \<Rightarrow> u32 \<Rightarrow> (u32 \<times> heap \<times> lmem) res" where
  "heap_malloc lm h sz =
     (let used_up_size = heap_offset h + sz + size_marker in
      if used_up_size > heap_size h then Inr (0, h, lm)
      else bindr (buffer_make lm (heap_base h + (heap_offset h + size_marker)) sz (heap_base h + heap_size h)) (\<lambda>(new_buff, lm).
        let h = h\<lparr>heap_offset := heap_offset h + (sz + size_marker)\<rparr> in
        bindr (mark_alloc lm new_buff) (\<lambda>lm. Inr (bp_ptr new_buff, h, lm))))"

partial_function (option) from_freed_loop :: "lmem \<Rightarrow> heap \<Rightarrow> u32 \<Rightarrow> u32 \<Rightarrow> (u32 \<times> lmem) res option" where
  "from_freed_loop lm h sz current =
     (if current = 0 then Some (Inr (0, lm))
      else case bindr (buffer_at lm current (heap_base h + heap_size h)) (\<lambda>b.
             bindr (is_alloc lm b) (\<lambda>al.
             if \<not> al then merge_contiguous lm b sz False else Inr (False, b, lm))) of
          Inl e \<Rightarrow> Some (Inl e)
        | Inr (enough, b, lm) \<Rightarrow>
            if enough then Some (bindr (mark_alloc lm b) (\<lambda>lm. Inr (current, lm)))
            else from_freed_loop lm h sz (buffer_next_ptr b))"

declare from_freed_loop.simps [code]

definition malloc_from_freed :: "lmem \<Rightarrow> heap \<Rightarrow> u32 \<Rightarrow> (u32 \<times> lmem) res" where
  "malloc_from_freed lm h sz =
     bindr (check (heap_offset h = heap_size h)
       ''malloc_from_freed was designed to only be called after _heap was completely allocated'') (\<lambda>_.
       terminating (from_freed_loop lm h sz (heap_base h + size_marker)))"

text \<open>The result is the pointer or null, the original sz, the heap and the memory.\<close>

definition realloc_in_place :: "lmem \<Rightarrow> heap \<Rightarrow> u32 \<Rightarrow> u32 \<Rightarrow> (u32 \<times> u32 \<times> heap \<times> lmem) res" where
  "realloc_in_place lm h ptr sz =
     (let end_of_buffer = heap_base h + heap_size h in
      bindr (buffer_at lm ptr end_of_buffer) (\<lambda>orig_buffer.
      let orig_ptr_size = bp_size orig_buffer; orig_buffer_end = buffer_end orig_buffer in
      if orig_buffer_end > end_of_buffer then Inr (0, 0, h, lm)
      else if ptr > end_of_buffer - sz then Inr (0, orig_ptr_size, h, lm)
      else if orig_ptr_size > sz
      then bindr (buffer_make lm (ptr + sz + size_marker) (orig_ptr_size - sz) end_of_buffer) (\<lambda>(excess_to_free, lm).
           bindr (mark_free lm excess_to_free) (\<lambda>lm. Inr (ptr, orig_ptr_size, h, lm)))
      else if orig_buffer_end = heap_base h + heap_offset h
      then bindr (buffer_set_size lm orig_buffer sz) (\<lambda>(_, lm).
           Inr (ptr, orig_ptr_size, h\<lparr>heap_offset := heap_offset h + (sz - orig_ptr_size)\<rparr>, lm))
      else if sz = orig_ptr_size then Inr (ptr, orig_ptr_size, h, lm)
      else bindr (merge_contiguous lm orig_buffer sz True) (\<lambda>(ok, orig_buffer, lm).
           if \<not> ok then Inr (0, orig_ptr_size, h, lm)
           else bindr (mark_alloc lm orig_buffer) (\<lambda>lm. Inr (ptr, orig_ptr_size, h, lm)))))"

definition heap_free :: "lmem \<Rightarrow> heap \<Rightarrow> u32 \<Rightarrow> lmem res" where
  "heap_free lm h ptr = bindr (buffer_at lm ptr (heap_base h + heap_size h)) (mark_free lm)"

definition cleanup_remaining :: "lmem \<Rightarrow> heap \<Rightarrow> (heap \<times> lmem) res" where
  "cleanup_remaining lm h =
     (if heap_offset h = heap_size h then Inr (h, lm)
      else
        let sz = heap_size h - heap_offset h - size_marker in
        bindr (buffer_make lm (heap_base h + (heap_offset h + size_marker)) sz (heap_base h + heap_size h)) (\<lambda>(new_buff, lm).
        let h = h\<lparr>heap_offset := heap_size h\<rparr> in
        bindr (mark_free lm new_buff) (\<lambda>lm. Inr (h, lm))))"

definition expand_memory :: "heap \<Rightarrow> u32 \<Rightarrow> u32 \<Rightarrow> bool \<times> heap" where
  "expand_memory h exp_mem sz =
     (if heap_base h + heap_size h \<noteq> exp_mem then (False, h) else (True, h\<lparr>heap_size := heap_size h + sz\<rparr>))"

section \<open>The memory manager\<close>

record platform =
  pf_grow :: "u32 \<Rightarrow> u32 \<Rightarrow> bool"
  pf_initial_heap :: u32
  pf_int64 :: "u32 \<Rightarrow> u64"

record memory_manager =
  mm_lm :: lmem
  mm_sbrk_initialized :: bool
  mm_sbrk_bytes :: u32
  mm_heaps :: "heap list"
  mm_heaps_actual_size :: u32
  mm_active_heap :: u32
  mm_active_free_heap :: u32

definition heaps_size :: u32 where
  "heaps_size = 16"

definition initial_heap_size :: u32 where
  "initial_heap_size = 8192"

definition mm_initial :: "lmem \<Rightarrow> memory_manager" where
  "mm_initial lm = \<lparr>mm_lm = lm, mm_sbrk_initialized = False, mm_sbrk_bytes = 0,
     mm_heaps = replicate (unat heaps_size) heap_default, mm_heaps_actual_size = 0, mm_active_heap = 0, mm_active_free_heap = 0\<rparr>"

definition sbrk :: "platform \<Rightarrow> u32 \<Rightarrow> memory_manager \<Rightarrow> u32 \<times> memory_manager" where
  "sbrk pf num_bytes st =
     (let st = (if mm_sbrk_initialized st then st
                else st\<lparr>mm_sbrk_bytes := lm_pages (mm_lm st) * 65536, mm_sbrk_initialized := True\<rparr>) in
      if num_bytes > 0x7FFFFFFF then (- 1, st)
      else
        let prev_num_bytes = mm_sbrk_bytes st; current_pages = lm_pages (mm_lm st);
            num_bytes = (num_bytes + 7) AND NOT 7;
            num_desired_pages = drop_bit 16 (mm_sbrk_bytes st + num_bytes + 65536 - 1) in
        if num_desired_pages > current_pages \<and> \<not> pf_grow pf current_pages (num_desired_pages - current_pages)
        then (- 1, st)
        else
          let st = (if num_desired_pages > current_pages
                    then st\<lparr>mm_lm := (mm_lm st)\<lparr>lm_pages := current_pages + (num_desired_pages - current_pages)\<rparr>\<rparr> else st) in
          (prev_num_bytes, st\<lparr>mm_sbrk_bytes := mm_sbrk_bytes st + num_bytes\<rparr>))"

definition get_heap :: "memory_manager \<Rightarrow> u32 \<Rightarrow> heap res" where
  "get_heap st i =
     (if unat i < length (mm_heaps st) then Inr (mm_heaps st ! unat i) else Inl (Undefined ''index out of range''))"

definition put_heap :: "memory_manager \<Rightarrow> u32 \<Rightarrow> heap \<times> lmem \<Rightarrow> memory_manager" where
  "put_heap st i r = st\<lparr>mm_heaps := (mm_heaps st)[unat i := fst r], mm_lm := snd r\<rparr>"

text \<open>The result is the index of the heap, or nothing for the null pointer.\<close>

definition next_active_heap :: "platform \<Rightarrow> memory_manager \<Rightarrow> (u32 option \<times> memory_manager) res" where
  "next_active_heap pf st =
     (let current = mm_active_heap st;
          (current_memory_size, st) = sbrk pf 0 st in
      if sint (ucast current_memory_size :: u64) < 0 then Inr (None, st)
      else
        let heap_adj = (if current_memory_size mod 65536 \<le> 65536 - 1024
              then (current_memory_size + 65536) - (current_memory_size mod 65536) - current_memory_size
              else (current_memory_size + 65536 * 2) - (current_memory_size mod (65536 * 2)) - current_memory_size);
            (new_memory_start, st) = sbrk pf heap_adj st in
        if pf_int64 pf new_memory_start = - 1
        then bindr (get_heap st current) (\<lambda>h.
             bindr (cleanup_remaining (mm_lm st) h) (\<lambda>r.
             let st = put_heap st current r;
                 st = st\<lparr>mm_active_heap := mm_active_heap st + 1\<rparr> in
             Inr (None, st\<lparr>mm_heaps_actual_size := mm_active_heap st\<rparr>)))
        else bindr (get_heap st current) (\<lambda>h.
             let (expanded, h') = expand_memory h new_memory_start heap_adj in
             if expanded then Inr (Some current, put_heap st current (h', mm_lm st))
             else bindr (cleanup_remaining (mm_lm st) h) (\<lambda>r.
               let st = put_heap st current r;
                   st = st\<lparr>mm_active_heap := mm_active_heap st + 1\<rparr> in
               bindr (get_heap st (mm_active_heap st)) (\<lambda>h.
                 Inr (Some (mm_active_heap st),
                   put_heap st (mm_active_heap st) (heap_init h new_memory_start heap_adj, mm_lm st))))))"

definition adjust_to_mem_block :: "u32 \<Rightarrow> u32" where
  "adjust_to_mem_block sz =
     (let remainder = (sz + size_marker) AND 7 in if remainder > 0 then sz + (8 - remainder) else sz)"

partial_function (option) malloc_loop :: "platform \<Rightarrow> u32 \<Rightarrow> u32 option \<Rightarrow> memory_manager \<Rightarrow> (u32 \<times> memory_manager) res option" where
  "malloc_loop pf sz current st =
     (case current of
        None \<Rightarrow> Some (Inr (0, st))
      | Some i \<Rightarrow>
          (case bindr (get_heap st i) (\<lambda>h. bindr (heap_malloc (mm_lm st) h sz) (\<lambda>(buffer, r). Inr (buffer, put_heap st i r))) of
             Inl e \<Rightarrow> Some (Inl e)
           | Inr (buffer, st) \<Rightarrow>
               if buffer \<noteq> 0 then Some (Inr (buffer, st))
               else (case next_active_heap pf st of
                   Inl e \<Rightarrow> Some (Inl e)
                 | Inr (current, st) \<Rightarrow> malloc_loop pf sz current st)))"

declare malloc_loop.simps [code]

partial_function (option) freed_loop :: "u32 \<Rightarrow> u32 \<Rightarrow> memory_manager \<Rightarrow> (u32 \<times> memory_manager) res option" where
  "freed_loop sz end_free_heap st =
     (case bindr (get_heap st (mm_active_free_heap st)) (\<lambda>h.
             bindr (malloc_from_freed (mm_lm st) h sz) (\<lambda>(buffer, lm). Inr (buffer, st\<lparr>mm_lm := lm\<rparr>))) of
        Inl e \<Rightarrow> Some (Inl e)
      | Inr (buffer, st) \<Rightarrow>
          if buffer \<noteq> 0 then Some (Inr (buffer, st))
          else
            let st = st\<lparr>mm_active_free_heap := mm_active_free_heap st + 1\<rparr>;
                st = (if mm_active_free_heap st = mm_heaps_actual_size st then st\<lparr>mm_active_free_heap := 0\<rparr> else st) in
            if mm_active_free_heap st \<noteq> end_free_heap then freed_loop sz end_free_heap st
            else Some (Inr (0, st)))"

declare freed_loop.simps [code]

text \<open>The slot that the first pass of the loop starts with; only heap 0 may not be initialised.\<close>

definition start_heap :: "platform \<Rightarrow> memory_manager \<Rightarrow> (u32 option \<times> memory_manager) res" where
  "start_heap pf st =
     (if mm_active_heap st < mm_heaps_actual_size st
      then bindr (get_heap st (mm_active_heap st)) (\<lambda>h.
        Inr (Some (mm_active_heap st),
          if mm_active_heap st = 0 \<and> \<not> is_init h
          then put_heap st 0 (heap_init h (pf_initial_heap pf) initial_heap_size, mm_lm st) else st))
      else Inr (None, st))"

definition mm_malloc :: "platform \<Rightarrow> u32 \<Rightarrow> memory_manager \<Rightarrow> (u32 \<times> memory_manager) res" where
  "mm_malloc pf sz st =
     (if sz = 0 then Inr (0, st)
      else
        let st = (if mm_heaps_actual_size st = 0 then st\<lparr>mm_heaps_actual_size := heaps_size\<rparr> else st);
            sz = adjust_to_mem_block sz in
        bindr (start_heap pf st) (\<lambda>(current, st).
        bindr (terminating (malloc_loop pf sz current st)) (\<lambda>(buffer, st).
        if buffer = 0 then terminating (freed_loop sz (mm_active_free_heap st) st) else Inr (buffer, st))))"

text \<open>The search for the heap of a pointer, from index \<open>i\<close> on.\<close>

function find_heap :: "memory_manager \<Rightarrow> u32 \<Rightarrow> nat \<Rightarrow> nat option" where
  "find_heap st ptr i =
     (if i < unat (mm_heaps_actual_size st) \<and> i < length (mm_heaps st) \<and> is_init (mm_heaps st ! i)
      then if is_in_heap (mm_heaps st ! i) ptr then Some i else find_heap st ptr (Suc i)
      else None)"
  by pat_completeness auto
termination
  by (relation "measure (\<lambda>(st, ptr, i). length (mm_heaps st) - i)") auto

declare find_heap.simps [simp del]

definition mm_free :: "u32 \<Rightarrow> memory_manager \<Rightarrow> memory_manager res" where
  "mm_free ptr st =
     (if ptr = 0 then Inr st
      else case find_heap st ptr 0 of
          None \<Rightarrow> Inr st
        | Some i \<Rightarrow> bindr (heap_free (mm_lm st) (mm_heaps st ! i) ptr) (\<lambda>lm. Inr (st\<lparr>mm_lm := lm\<rparr>)))"

definition lm_copy :: "lmem \<Rightarrow> u32 \<Rightarrow> u32 \<Rightarrow> u32 \<Rightarrow> lmem res" where
  "lm_copy lm dest src n =
     (if in_memory lm dest (unat n) \<and> in_memory lm src (unat n)
      then Inr (lm\<lparr>lm_bytes := memcpy (lm_bytes lm) dest src n\<rparr>)
      else Inl (Undefined ''out of bounds memory access''))"

definition mm_realloc :: "platform \<Rightarrow> u32 \<Rightarrow> u32 \<Rightarrow> memory_manager \<Rightarrow> (u32 \<times> memory_manager) res" where
  "mm_realloc pf ptr sz st =
     (if sz = 0 then bindr (mm_free ptr st) (\<lambda>st. Inr (0, st))
      else
        let sz = adjust_to_mem_block sz in
        bindr (if ptr = 0 then Inr (0, 0, st)
               else case find_heap st ptr 0 of
                   None \<Rightarrow> Inr (0, 0, st)
                 | Some i \<Rightarrow> bindr (realloc_in_place (mm_lm st) (mm_heaps st ! i) ptr sz) (\<lambda>(p, orig_ptr_size, r).
                     Inr (p, orig_ptr_size, put_heap st (of_nat i) r))) (\<lambda>(realloc_ptr, orig_ptr_size, st).
        if realloc_ptr \<noteq> 0 then Inr (realloc_ptr, st)
        else bindr (mm_malloc pf sz st) (\<lambda>(new_alloc, st).
          if new_alloc = 0 then Inr (0, st)
          else
            let copy_size = (if sz < orig_ptr_size then sz else orig_ptr_size) in
            if copy_size > 0
            then bindr (lm_copy (mm_lm st) new_alloc ptr copy_size) (\<lambda>lm.
                 bindr (mm_free ptr (st\<lparr>mm_lm := lm\<rparr>)) (\<lambda>st. Inr (new_alloc, st)))
            else Inr (new_alloc, st))))"

section \<open>The C functions\<close>

definition lm_set :: "lmem \<Rightarrow> u32 \<Rightarrow> u32 \<Rightarrow> u32 \<Rightarrow> lmem res" where
  "lm_set lm ptr c n =
     (if in_memory lm ptr (unat n) then Inr (lm\<lparr>lm_bytes := memset (lm_bytes lm) ptr c n\<rparr>)
      else Inl (Undefined ''out of bounds memory access''))"

definition malloc :: "platform \<Rightarrow> u32 \<Rightarrow> memory_manager \<Rightarrow> (u32 \<times> memory_manager) res" where
  "malloc pf sz st = mm_malloc pf sz st"

definition calloc :: "platform \<Rightarrow> u32 \<Rightarrow> u32 \<Rightarrow> memory_manager \<Rightarrow> (u32 \<times> memory_manager) res" where
  "calloc pf count sz st =
     bindr (mm_malloc pf (count * sz) st) (\<lambda>(ptr, st).
     bindr (lm_set (mm_lm st) ptr 0 (count * sz)) (\<lambda>lm. Inr (ptr, st\<lparr>mm_lm := lm\<rparr>)))"

definition realloc :: "platform \<Rightarrow> u32 \<Rightarrow> u32 \<Rightarrow> memory_manager \<Rightarrow> (u32 \<times> memory_manager) res" where
  "realloc pf ptr sz st = mm_realloc pf ptr sz st"

definition free :: "u32 \<Rightarrow> memory_manager \<Rightarrow> memory_manager res" where
  "free ptr st = mm_free ptr st"

end
