(* ===== verification/Malloc_Chunks.thy ===== *)
theory Malloc_Chunks
  imports Malloc
begin

text \<open>
  The chunks of a heap: a header word with a size and an allocation bit, followed by so
  many bytes. A stretch of memory is tiled by a list of chunks; addresses are natural
  numbers here, which is what they are as long as nothing wraps. The lemmas say what
  changing one header or one run of chunks does to a tiling.
\<close>

section \<open>Headers\<close>

definition hdr :: "mem \<Rightarrow> nat \<Rightarrow> u32" where
  "hdr m x = le_word (mem_read m (of_nat x) 4)"

definition addresses :: "nat set" where
  "addresses = {..<4294967296}"

definition same_on :: "nat set \<Rightarrow> mem \<Rightarrow> mem \<Rightarrow> bool" where
  "same_on S m m' = (\<forall>y\<in>S. m' (of_nat y) = m (of_nat y))"

definition wrote :: "lmem \<Rightarrow> lmem \<Rightarrow> nat \<Rightarrow> u32 \<Rightarrow> bool" where
  "wrote lm lm' x v \<longleftrightarrow> lm_pages lm' = lm_pages lm \<and> hdr (lm_bytes lm') x = v
     \<and> same_on (addresses - {x..<x + 4}) (lm_bytes lm) (lm_bytes lm')"

definition room :: "lmem \<Rightarrow> nat \<Rightarrow> bool" where
  "room lm x \<longleftrightarrow> x + 4 \<le> unat (lm_pages lm) * 65536 \<and> x + 4 < 4294967296"

lemma in_memory_iff: "in_memory lm a n \<longleftrightarrow> unat a + n \<le> unat (lm_pages lm) * 65536"
proof -
  have "in_memory lm a n \<longleftrightarrow> int (unat a + n) \<le> int (unat (lm_pages lm) * 65536)"
    by (simp add: in_memory_def)
  then show ?thesis by (simp only: of_nat_le_iff)
qed

lemma less_of_nat32: "x < 4294967296 \<Longrightarrow> y < 4294967296 \<Longrightarrow> (of_nat x :: u32) < of_nat y \<longleftrightarrow> x < y"
  by (simp add: word_less_nat_alt unat_of_nat_u32)

lemma le_of_nat32: "x < 4294967296 \<Longrightarrow> y < 4294967296 \<Longrightarrow> (of_nat x :: u32) \<le> of_nat y \<longleftrightarrow> x \<le> y"
  by (simp add: word_le_nat_alt unat_of_nat_u32)

lemma of_nat32_eq_0: "x < 4294967296 \<Longrightarrow> (of_nat x :: u32) = 0 \<longleftrightarrow> x = 0"
  using of_nat_u32_eq_iff [of x 0] by simp

lemma addresses_iff: "x \<in> addresses \<longleftrightarrow> x < 4294967296"
  by (simp add: addresses_def)

lemma same_on_refl [simp]: "same_on S m m"
  by (simp add: same_on_def)

lemma same_on_trans: "same_on S m m' \<Longrightarrow> same_on S m' m'' \<Longrightarrow> same_on S m m''"
  by (simp add: same_on_def)

lemma same_on_subset: "same_on T m m' \<Longrightarrow> S \<subseteq> T \<Longrightarrow> same_on S m m'"
  by (auto simp: same_on_def)

lemma hdr_cong:
  assumes "same_on {x..<x + 4} m m'"
  shows "hdr m' x = hdr m x"
proof -
  have "m' (of_nat x + of_nat i) = m (of_nat x + of_nat i)" if "i < 4" for i
    using assms that by (simp add: same_on_def flip: of_nat_add)
  then show ?thesis unfolding hdr_def by (intro arg_cong [where f = le_word] mem_read_cong) simp
qed

lemma load_room: "room lm x \<Longrightarrow> load_size lm (of_nat x) = Inr (hdr (lm_bytes lm) x)"
  by (simp add: load_size_def in_memory_iff room_def unat_of_nat_u32 hdr_def)

lemma store_room:
  assumes "room lm x"
  shows "\<exists>lm'. store_size lm (of_nat x) v = Inr lm' \<and> wrote lm lm' x v"
proof -
  let ?m = "mem_write (lm_bytes lm) (of_nat x) (le_bytes 4 v)"
  have "mem_read ?m (of_nat x) 4 = le_bytes 4 v"
    using mem_read_write [of "le_bytes 4 v" "lm_bytes lm" "of_nat x"] by simp
  then have "hdr ?m x = v" by (simp add: hdr_def le_word_le_bytes)
  moreover have "?m (of_nat y) = lm_bytes lm (of_nat y)" if "y < 4294967296" "y \<notin> {x..<x + 4}" for y
  proof (rule mem_write_outside)
    fix i assume "i < length (le_bytes 4 v)"
    then show "(of_nat y :: u32) \<noteq> of_nat x + of_nat i"
      using that assms of_nat_u32_eq_iff [of y "x + i"] by (auto simp: room_def simp flip: of_nat_add)
  qed
  ultimately show ?thesis
    using assms by (auto simp: store_size_def in_memory_iff room_def unat_of_nat_u32 wrote_def same_on_def addresses_iff)
qed

lemma wrote_trans: "wrote lm lm1 x v \<Longrightarrow> wrote lm1 lm2 x v' \<Longrightarrow> wrote lm lm2 x v'"
  by (auto simp: wrote_def intro: same_on_trans)

lemma wrote_room: "wrote lm lm' x v \<Longrightarrow> room lm' y = room lm y"
  by (simp add: wrote_def room_def)

section \<open>Sizes and the allocation bit\<close>

definition hword :: "nat \<Rightarrow> bool \<Rightarrow> u32" where
  "hword n al = of_nat n OR (if al then alloc_memory_mask else 0)"

lemma bit_alloc_mask: "bit alloc_memory_mask k \<longleftrightarrow> k = 31"
proof -
  have "bit (2 ^ 31 :: u32) k \<longleftrightarrow> k = 31" by (simp only: bit_exp_iff) auto
  then show ?thesis by (simp add: alloc_memory_mask_def)
qed

lemma small_top_bit: "n < 2147483648 \<Longrightarrow> \<not> bit (of_nat n :: u32) 31"
  using top_bit_iff [of "of_nat n :: u32"] by (simp add: unat_of_nat_u32)

lemma hword_bits:
  assumes "n < 2147483648"
  shows "hword n al AND NOT alloc_memory_mask = of_nat n"
    and "hword n al AND alloc_memory_mask \<noteq> 0 \<longleftrightarrow> al"
    and "hword n al OR alloc_memory_mask = hword n True"
    and "hword n al AND NOT alloc_memory_mask = hword n False"
    and "of_nat n OR (hword k al AND alloc_memory_mask) = hword n (bit (hword k al) 31)"
    and "of_nat n OR (w AND alloc_memory_mask) = hword n (bit w 31)"
proof -
  note small = small_top_bit [OF assms]
  show "hword n al AND NOT alloc_memory_mask = of_nat n"
    by (rule bit_word_eqI) (use small in \<open>auto simp: hword_def bit_simps bit_alloc_mask\<close>)
  then show "hword n al AND NOT alloc_memory_mask = hword n False" by (simp add: hword_def)
  have "hword n al AND alloc_memory_mask = (if al then alloc_memory_mask else 0)"
    by (rule bit_word_eqI) (use small in \<open>auto simp: hword_def bit_simps bit_alloc_mask\<close>)
  then show "hword n al AND alloc_memory_mask \<noteq> 0 \<longleftrightarrow> al" by (simp add: alloc_memory_mask_def)
  show "hword n al OR alloc_memory_mask = hword n True"
    by (rule bit_word_eqI) (auto simp: hword_def bit_simps bit_alloc_mask)
  have *: "of_nat n OR (v AND alloc_memory_mask) = hword n (bit v 31)" for v
    by (rule bit_word_eqI) (auto simp: hword_def bit_simps bit_alloc_mask)
  then show "of_nat n OR (w AND alloc_memory_mask) = hword n (bit w 31)" .
  show "of_nat n OR (hword k al AND alloc_memory_mask) = hword n (bit (hword k al) 31)" by (rule *)
qed

section \<open>Operations on one header\<close>

lemma ptr_header: "of_nat (x + 4) - size_marker = (of_nat x :: u32)"
  by (simp add: size_marker_def)

lemma buffer_at_room:
  assumes "room lm x" "hdr (lm_bytes lm) x = hword n al" "n < 2147483648"
  shows "buffer_at lm (of_nat (x + 4)) e = Inr \<lparr>bp_ptr = of_nat (x + 4), bp_size = of_nat n, bp_heap_end = e\<rparr>"
  using assms by (simp only: buffer_at_def ptr_header load_room bindr_simps hword_bits)

lemma is_alloc_room:
  assumes "room lm x" "hdr (lm_bytes lm) x = hword n al" "n < 2147483648" "bp_ptr b = of_nat (x + 4)"
  shows "is_alloc lm b = Inr al"
  using assms by (simp only: is_alloc_def ptr_header load_room bindr_simps hword_bits)

lemma buffer_set_size_room:
  assumes "room lm x" "bp_ptr b = of_nat (x + 4)" "n < 2147483648"
  shows "\<exists>lm'. buffer_set_size lm b (of_nat n) = Inr (b\<lparr>bp_size := of_nat n\<rparr>, lm')
    \<and> wrote lm lm' x (hword n (bit (hdr (lm_bytes lm) x) 31))"
  using store_room [OF assms(1), of "of_nat n OR (hdr (lm_bytes lm) x AND alloc_memory_mask)"] assms
  by (auto simp only: buffer_set_size_def ptr_header load_room bindr_simps hword_bits Let_def)

lemma mark_alloc_room:
  assumes "room lm x" "hdr (lm_bytes lm) x = hword n al" "n < 2147483648" "bp_ptr b = of_nat (x + 4)"
  shows "\<exists>lm'. mark_alloc lm b = Inr lm' \<and> wrote lm lm' x (hword n True)"
  using store_room [OF assms(1), of "hword n al OR alloc_memory_mask"] assms
  by (simp only: mark_alloc_def ptr_header load_room bindr_simps hword_bits)

lemma mark_free_room:
  assumes "room lm x" "hdr (lm_bytes lm) x = hword n al" "n < 2147483648" "bp_ptr b = of_nat (x + 4)"
  shows "\<exists>lm'. mark_free lm b = Inr lm' \<and> wrote lm lm' x (hword n False)"
proof -
  have "hword n al AND NOT alloc_memory_mask = hword n False" by (rule hword_bits(4) [OF assms(3)])
  with store_room [OF assms(1), of "hword n al AND NOT alloc_memory_mask"] assms show ?thesis
    by (simp only: mark_free_def ptr_header load_room bindr_simps)
qed

text \<open>A new header: made, then marked.\<close>

lemma make_alloc_room:
  assumes "room lm x" "n < 2147483648"
  shows "\<exists>lm1 lm2 b. buffer_make lm (of_nat (x + 4)) (of_nat n) e = Inr (b, lm1) \<and> mark_alloc lm1 b = Inr lm2
    \<and> bp_ptr b = of_nat (x + 4) \<and> wrote lm lm2 x (hword n True)"
proof -
  let ?b = "\<lparr>bp_ptr = of_nat (x + 4), bp_size = 0, bp_heap_end = e\<rparr>"
  obtain lm1 where 1: "buffer_make lm (of_nat (x + 4)) (of_nat n) e = Inr (?b\<lparr>bp_size := of_nat n\<rparr>, lm1)"
      "wrote lm lm1 x (hword n (bit (hdr (lm_bytes lm) x) 31))"
    using buffer_set_size_room [OF assms(1), of ?b n] assms(2) unfolding buffer_make_def by auto
  then have "room lm1 x" "hdr (lm_bytes lm1) x = hword n (bit (hdr (lm_bytes lm) x) 31)"
    using assms(1) by (simp_all add: wrote_room) (simp add: wrote_def)
  from mark_alloc_room [OF this assms(2), of "?b\<lparr>bp_size := of_nat n\<rparr>"] obtain lm2 where
      "mark_alloc lm1 (?b\<lparr>bp_size := of_nat n\<rparr>) = Inr lm2" "wrote lm1 lm2 x (hword n True)"
    by auto
  with 1 wrote_trans [OF 1(2)] show ?thesis
    by (intro exI [of _ lm1] exI [of _ lm2] exI [of _ "?b\<lparr>bp_size := of_nat n\<rparr>"]) simp
qed

lemma make_free_room:
  assumes "room lm x" "n < 2147483648"
  shows "\<exists>lm1 lm2 b. buffer_make lm (of_nat (x + 4)) (of_nat n) e = Inr (b, lm1) \<and> mark_free lm1 b = Inr lm2
    \<and> bp_ptr b = of_nat (x + 4) \<and> wrote lm lm2 x (hword n False)"
proof -
  let ?b = "\<lparr>bp_ptr = of_nat (x + 4), bp_size = 0, bp_heap_end = e\<rparr>"
  obtain lm1 where 1: "buffer_make lm (of_nat (x + 4)) (of_nat n) e = Inr (?b\<lparr>bp_size := of_nat n\<rparr>, lm1)"
      "wrote lm lm1 x (hword n (bit (hdr (lm_bytes lm) x) 31))"
    using buffer_set_size_room [OF assms(1), of ?b n] assms(2) unfolding buffer_make_def by auto
  then have "room lm1 x" "hdr (lm_bytes lm1) x = hword n (bit (hdr (lm_bytes lm) x) 31)"
    using assms(1) by (simp_all add: wrote_room) (simp add: wrote_def)
  from mark_free_room [OF this assms(2), of "?b\<lparr>bp_size := of_nat n\<rparr>"] obtain lm2 where
      "mark_free lm1 (?b\<lparr>bp_size := of_nat n\<rparr>) = Inr lm2" "wrote lm1 lm2 x (hword n False)"
    by auto
  with 1 wrote_trans [OF 1(2)] show ?thesis
    by (intro exI [of _ lm1] exI [of _ lm2] exI [of _ "?b\<lparr>bp_size := of_nat n\<rparr>"]) simp
qed

section \<open>Tilings\<close>

type_synonym chunk = "nat \<times> bool"

definition chunk_ok :: "chunk \<Rightarrow> bool" where
  "chunk_ok c \<longleftrightarrow> fst c mod 8 = 4 \<and> fst c < 2147483648"

definition extent :: "chunk list \<Rightarrow> nat" where
  "extent cs = (\<Sum>c\<leftarrow>cs. fst c + 4)"

primrec tiled :: "mem \<Rightarrow> nat \<Rightarrow> chunk list \<Rightarrow> bool" where
  "tiled m a [] = True"
| "tiled m a (c # cs) = (hdr m a = hword (fst c) (snd c) \<and> chunk_ok c \<and> tiled m (a + (fst c + 4)) cs)"

text \<open>The allocated chunks, as pairs of the pointer a client holds and the size.\<close>

primrec allocs :: "nat \<Rightarrow> chunk list \<Rightarrow> (nat \<times> nat) set" where
  "allocs a [] = {}"
| "allocs a (c # cs) = (if snd c then {(a + 4, fst c)} else {}) \<union> allocs (a + (fst c + 4)) cs"

lemma extent_simps [simp]:
  "extent [] = 0" "extent (c # cs) = fst c + 4 + extent cs" "extent (xs @ ys) = extent xs + extent ys"
  by (simp_all add: extent_def)

lemma tiled_append: "tiled m a (xs @ ys) \<longleftrightarrow> tiled m a xs \<and> tiled m (a + extent xs) ys"
  by (induction xs arbitrary: a) (auto simp: add.assoc)

lemma allocs_append: "allocs a (xs @ ys) = allocs a xs \<union> allocs (a + extent xs) ys"
  by (induction xs arbitrary: a) (auto simp: add.assoc)

lemma tiled_cong:
  assumes "tiled m a cs" "same_on {a..<a + extent cs} m m'"
  shows "tiled m' a cs"
  using assms
proof (induction cs arbitrary: a)
  case (Cons c cs)
  have "hdr m' a = hdr m a"
    by (rule hdr_cong) (rule same_on_subset [OF Cons.prems(2)], auto)
  moreover have "tiled m' (a + (fst c + 4)) cs"
    by (rule Cons.IH) (use Cons.prems in \<open>auto intro: same_on_subset\<close>)
  ultimately show ?case using Cons.prems(1) by simp
qed simp

lemma allocs_ConsE:
  assumes "(p, n) \<in> allocs a (c # cs)"
  obtains "snd c" "p = a + 4" "n = fst c" | "(p, n) \<in> allocs (a + (fst c + 4)) cs"
  using assms by (auto split: if_splits)

lemma allocs_range: "(p, n) \<in> allocs a cs \<Longrightarrow> a + 4 \<le> p \<and> p + n \<le> a + extent cs"
proof (induction cs arbitrary: a)
  case (Cons c cs)
  from Cons.prems show ?case
  proof (cases rule: allocs_ConsE)
    case 2
    from Cons.IH [OF this] show ?thesis by simp
  qed simp
qed simp

text \<open>Only the headers matter: the contents of allocated chunks may change.\<close>

definition alloc_data :: "(nat \<times> nat) set \<Rightarrow> nat set" where
  "alloc_data A = (\<Union>(p, n)\<in>A. {p..<p + n})"

lemma alloc_data_Un: "alloc_data (A \<union> B) = alloc_data A \<union> alloc_data B"
  by (simp add: alloc_data_def)

lemma alloc_data_range: "alloc_data (allocs a cs) \<subseteq> {a + 4..<a + extent cs}"
  using allocs_range by (fastforce simp: alloc_data_def)

lemma tiled_data:
  assumes "tiled m a cs" "same_on ({a..<a + extent cs} - alloc_data (allocs a cs)) m m'"
  shows "tiled m' a cs"
  using assms
proof (induction cs arbitrary: a)
  case (Cons c cs)
  let ?b = "a + (fst c + 4)"
  have rest: "alloc_data (allocs ?b cs) \<subseteq> {?b + 4..<?b + extent cs}" by (rule alloc_data_range)
  have own: "alloc_data (if snd c then {(a + 4, fst c)} else {}) \<subseteq> {a + 4..<?b}" by (auto simp: alloc_data_def)
  have "hdr m' a = hdr m a"
    by (rule hdr_cong, rule same_on_subset [OF Cons.prems(2)]) (use rest own in \<open>auto simp: alloc_data_Un\<close>)
  moreover have "tiled m' ?b cs"
    by (rule Cons.IH) (use Cons.prems own in \<open>auto simp: alloc_data_Un intro!: same_on_subset [OF Cons.prems(2)]\<close>)
  ultimately show ?case using Cons.prems(1) by simp
qed simp

lemma allocs_split:
  assumes "(p, n) \<in> allocs a cs"
  obtains xs ys where "cs = xs @ (n, True) # ys" "p = a + extent xs + 4"
  using assms
proof (induction cs arbitrary: a thesis)
  case (Cons c cs)
  show ?case
  proof (cases "snd c \<and> p = a + 4 \<and> n = fst c")
    case True
    then show ?thesis using Cons.prems(1) [of "[]" cs] by (cases c) auto
  next
    case False
    then have "(p, n) \<in> allocs (a + (fst c + 4)) cs" using Cons.prems(2) by (auto split: if_splits)
    from Cons.IH [OF _ this] obtain xs ys where "cs = xs @ (n, True) # ys" "p = a + (fst c + 4) + extent xs + 4" .
    then show ?thesis using Cons.prems(1) [of "c # xs" ys] by simp
  qed
qed simp

lemma allocs_disjoint:
  assumes "(p, n) \<in> allocs a cs" "(q, k) \<in> allocs a cs"
  shows "(p, n) = (q, k) \<or> p + n + 4 \<le> q \<or> q + k + 4 \<le> p"
  using assms
proof (induction cs arbitrary: a)
  case (Cons c cs)
  let ?b = "a + (fst c + 4)"
  note range = allocs_range [of _ _ ?b cs]
  from Cons.prems(1) show ?case
  proof (cases rule: allocs_ConsE)
    case 1
    from Cons.prems(2) show ?thesis
      by (cases rule: allocs_ConsE) (use 1 range [of q k] in auto)
  next
    case 2
    from Cons.prems(2) show ?thesis
      by (cases rule: allocs_ConsE) (use 2 range [of p n] Cons.IH [of ?b] in auto)
  qed
qed simp

text \<open>Replacing a run of chunks by another of the same extent.\<close>

lemma tiled_splice:
  assumes "tiled m a (xs @ zs @ ys)" "extent zs' = extent zs" "tiled m' (a + extent xs) zs'"
    and "same_on ({a..<a + extent (xs @ zs @ ys)} - {a + extent xs..<a + extent xs + extent zs}) m m'"
  shows "tiled m' a (xs @ zs' @ ys)"
proof -
  have "tiled m' a xs"
    by (rule tiled_cong [of m]) (use assms(1) in \<open>auto simp: tiled_append intro!: same_on_subset [OF assms(4)]\<close>)
  moreover have "tiled m' (a + extent xs + extent zs) ys"
    by (rule tiled_cong [of m]) (use assms(1) in \<open>auto simp: tiled_append add.assoc intro!: same_on_subset [OF assms(4)]\<close>)
  ultimately show ?thesis using assms(2,3) by (simp add: tiled_append)
qed

end
