(* ===== verification/Malloc_Heap.thy ===== *)
theory Malloc_Heap
  imports Malloc_Chunks
begin

text \<open>
  One heap of the allocator of \<^verbatim>\<open>malloc.cpp\<close>: what each of its operations does to the
  tiling of the heap, to the allocated chunks and to the rest of the memory.
\<close>

section \<open>The heap invariant\<close>

definition heap_of :: "nat \<Rightarrow> nat \<Rightarrow> chunk list \<Rightarrow> heap" where
  "heap_of a s cs = \<lparr>heap_size = of_nat s, heap_base = of_nat a, heap_offset = of_nat (extent cs)\<rparr>"

definition heap_ok :: "lmem \<Rightarrow> nat \<Rightarrow> nat \<Rightarrow> chunk list \<Rightarrow> bool" where
  "heap_ok lm a s cs \<longleftrightarrow> 0 < a \<and> extent cs \<le> s \<and> s mod 8 = 0 \<and> a + s \<le> unat (lm_pages lm) * 65536 \<and> a + s < 2147483648
     \<and> tiled (lm_bytes lm) a cs"

text \<open>
  What an operation on the heap at \<open>a\<close> may change: bytes of the heap outside the
  allocated chunks.
\<close>

definition quiet :: "nat \<Rightarrow> nat \<Rightarrow> (nat \<times> nat) set \<Rightarrow> lmem \<Rightarrow> lmem \<Rightarrow> bool" where
  "quiet a s A lm lm' \<longleftrightarrow> lm_pages lm' = lm_pages lm
     \<and> same_on (addresses - ({a..<a + s} - alloc_data A)) (lm_bytes lm) (lm_bytes lm')"

lemma heap_of_simps [simp]:
  "heap_size (heap_of a s cs) = of_nat s" "heap_base (heap_of a s cs) = of_nat a"
  "heap_offset (heap_of a s cs) = of_nat (extent cs)"
  by (simp_all add: heap_of_def)

lemma extent_mod8: "tiled m a cs \<Longrightarrow> extent cs mod 8 = 0"
proof (induction cs arbitrary: a)
  case (Cons c cs)
  then have "extent cs mod 8 = 0" "fst c mod 8 = 4" by (auto simp: chunk_ok_def)
  then show ?case by (simp add: mod_eq_0_iff_dvd) presburger
qed simp

lemma quiet_trans:
  assumes "quiet a s A lm lm1" "quiet a s A' lm1 lm2" "A \<subseteq> A'"
  shows "quiet a s A lm lm2"
proof -
  have "alloc_data A \<subseteq> alloc_data A'" using assms(3) by (auto simp: alloc_data_def)
  then have "addresses - ({a..<a + s} - alloc_data A) \<subseteq> addresses - ({a..<a + s} - alloc_data A')" by blast
  then have "same_on (addresses - ({a..<a + s} - alloc_data A)) (lm_bytes lm1) (lm_bytes lm2)"
    using assms(2) same_on_subset unfolding quiet_def by blast
  then show ?thesis using assms(1,2) same_on_trans unfolding quiet_def by metis
qed

lemma wrote_quiet:
  assumes "wrote lm lm' x v" "a \<le> x" "x + 4 \<le> a + s" "{x..<x + 4} \<inter> alloc_data A = {}"
  shows "quiet a s A lm lm'"
proof -
  have "{x..<x + 4} \<subseteq> {a..<a + s}" using assms(2,3) by auto
  then have "addresses - ({a..<a + s} - alloc_data A) \<subseteq> addresses - {x..<x + 4}" using assms(4) by blast
  from same_on_subset [OF _ this] assms(1) show ?thesis unfolding wrote_def quiet_def by blast
qed

lemma wrote_same:
  assumes "wrote lm lm' x v" "{x..<x + 4} \<inter> S = {}" "S \<subseteq> addresses"
  shows "same_on S (lm_bytes lm) (lm_bytes lm')"
proof -
  have "S \<subseteq> addresses - {x..<x + 4}" using assms(2,3) by blast
  from same_on_subset [OF _ this] assms(1) show ?thesis unfolding wrote_def by blast
qed

lemma heap_ok_room:
  assumes "heap_ok lm a s cs" "x + 4 \<le> s"
  shows "room lm (a + x)"
  using assms by (simp add: heap_ok_def room_def)

lemma heap_ok_bounds:
  assumes "heap_ok lm a s cs"
  shows "0 < a" "extent cs \<le> s" "a + s < 2147483648"
  using assms by (simp_all add: heap_ok_def)

section \<open>Allocation at the end\<close>

lemma alloc_data_before: "{a + extent cs..<a + extent cs + 4} \<inter> alloc_data (allocs a cs) = {}"
  using alloc_data_range [of a cs] by auto

text \<open>A header written at the end of the tiling extends it.\<close>

lemma heap_extend:
  assumes "heap_ok lm a s cs" "wrote lm lm' (a + extent cs) (hword n al)" "chunk_ok (n, al)" "extent cs + n + 4 \<le> s"
  shows "heap_ok lm' a s (cs @ [(n, al)]) \<and> quiet a s (allocs a cs) lm lm'"
proof -
  have bound: "a + s < 2147483648" using assms(1) by (simp add: heap_ok_def)
  have "same_on {a..<a + extent cs} (lm_bytes lm) (lm_bytes lm')"
  proof (rule wrote_same [OF assms(2)])
    show "{a + extent cs..<a + extent cs + 4} \<inter> {a..<a + extent cs} = {}" by auto
    show "{a..<a + extent cs} \<subseteq> addresses" using assms(4) bound by (simp add: addresses_def subset_iff)
  qed
  then have "tiled (lm_bytes lm') a cs"
    using assms(1) tiled_cong unfolding heap_ok_def by blast
  moreover have "quiet a s (allocs a cs) lm lm'"
    using assms(4) by (intro wrote_quiet [OF assms(2)] alloc_data_before) simp_all
  ultimately show ?thesis
    using assms by (auto simp: heap_ok_def wrote_def tiled_append)
qed

lemma heap_malloc_full:
  assumes "heap_ok lm a s cs" "s < extent cs + n + 4" "n + 4 \<le> 2147483648"
  shows "heap_malloc lm (heap_of a s cs) (of_nat n) = Inr (0, heap_of a s cs, lm)"
proof -
  have "(of_nat s :: u32) < of_nat (extent cs + n + 4)"
    using assms heap_ok_bounds [OF assms(1)] by (subst less_of_nat32) linarith+
  then show ?thesis by (simp add: heap_malloc_def size_marker_def)
qed

lemma heap_malloc_room:
  assumes "heap_ok lm a s cs" "extent cs + n + 4 \<le> s" "chunk_ok (n, True)"
  shows "\<exists>lm'. heap_malloc lm (heap_of a s cs) (of_nat n) =
      Inr (of_nat (a + extent cs + 4), heap_of a s (cs @ [(n, True)]), lm')
    \<and> heap_ok lm' a s (cs @ [(n, True)]) \<and> quiet a s (allocs a cs) lm lm'"
proof -
  have n: "n < 2147483648" using assms(3) by (simp add: chunk_ok_def)
  have "room lm (a + extent cs)" using assms(2) by (intro heap_ok_room [OF assms(1)]) linarith
  from make_alloc_room [OF this n, of "of_nat a + of_nat s"] obtain lm1 lm2 b where
      b: "buffer_make lm (of_nat (a + extent cs + 4)) (of_nat n) (of_nat a + of_nat s) = Inr (b, lm1)"
      "mark_alloc lm1 b = Inr lm2" "bp_ptr b = of_nat (a + extent cs + 4)"
      and w: "wrote lm lm2 (a + extent cs) (hword n True)" by blast
  have "\<not> (of_nat s :: u32) < of_nat (extent cs + n + 4)"
    using assms(2) heap_ok_bounds [OF assms(1)] by (subst less_of_nat32) linarith+
  then have "heap_malloc lm (heap_of a s cs) (of_nat n) =
      Inr (of_nat (a + extent cs + 4), heap_of a s (cs @ [(n, True)]), lm2)"
    using b by (simp add: heap_malloc_def size_marker_def heap_of_def add.assoc)
  with heap_extend [OF assms(1) w assms(3,2)] show ?thesis by blast
qed

lemma mod8_gap:
  fixes x y :: nat
  assumes "x mod 8 = 0" "y mod 8 = 0" "x < y"
  shows "x + 8 \<le> y" "(y - x - 4) mod 8 = 4"
proof -
  obtain j k where jk: "x = 8 * j" "y = 8 * k" using assms(1,2) by (metis mod_0_imp_dvd dvdE)
  then have "j < k" using assms(3) by simp
  then obtain i where "k = Suc (j + i)" using less_imp_Suc_add by blast
  then have "y - x - 4 = 4 + 8 * i" "x + 8 \<le> y" using jk by simp_all
  then show "x + 8 \<le> y" "(y - x - 4) mod 8 = 4" by simp_all
qed

lemma cleanup_ok:
  assumes "heap_ok lm a s cs"
  shows "\<exists>lm' cs'. cleanup_remaining lm (heap_of a s cs) = Inr (heap_of a s cs', lm') \<and> heap_ok lm' a s cs'
    \<and> extent cs' = s \<and> allocs a cs' = allocs a cs \<and> quiet a s (allocs a cs) lm lm'"
proof (cases "extent cs = s")
  case True
  then show ?thesis
    using assms by (intro exI [of _ lm] exI [of _ cs]) (simp add: cleanup_remaining_def quiet_def)
next
  case False
  have bounds: "extent cs < s" "s < 2147483648" using False assms by (auto simp: heap_ok_def)
  have mod8: "extent cs mod 8 = 0" "s mod 8 = 0"
    using assms extent_mod8 by (auto simp: heap_ok_def)
  then have gap: "extent cs + 8 \<le> s" using bounds(1) by (rule mod8_gap)
  define n where "n = s - extent cs - 4"
  have "n mod 8 = 4" unfolding n_def using mod8 bounds(1) by (rule mod8_gap)
  then have n: "chunk_ok (n, False)" "extent cs + n + 4 = s" "n < 2147483648"
    using gap bounds by (simp_all add: n_def chunk_ok_def)
  have "room lm (a + extent cs)" using n(2) by (intro heap_ok_room [OF assms]) linarith
  from make_free_room [OF this n(3), of "of_nat a + of_nat s"] obtain lm1 lm2 b where
      b: "buffer_make lm (of_nat (a + extent cs + 4)) (of_nat n) (of_nat a + of_nat s) = Inr (b, lm1)"
      "mark_free lm1 b = Inr lm2"
      and w: "wrote lm lm2 (a + extent cs) (hword n False)" by blast
  have "(of_nat s :: u32) - of_nat (extent cs) - 4 = of_nat n"
    using gap by (simp add: n_def of_nat_diff)
  moreover have "(of_nat (extent cs) :: u32) \<noteq> of_nat s"
    using False bounds of_nat_u32_eq_iff [of "extent cs" s] by simp
  ultimately have "cleanup_remaining lm (heap_of a s cs) = Inr (heap_of a s (cs @ [(n, False)]), lm2)"
    using b n(2) by (simp add: cleanup_remaining_def size_marker_def heap_of_def add.assoc)
  with heap_extend [OF assms w n(1)] n(2) show ?thesis
    by (intro exI [of _ lm2] exI [of _ "cs @ [(n, False)]"]) (simp add: allocs_append)
qed

section \<open>Changing chunks in the middle\<close>

lemma alloc_data_run:
  assumes "\<forall>c\<in>set zs. \<not> snd c"
  shows "{a + extent xs..<a + extent xs + extent zs} \<inter> alloc_data (allocs a (xs @ zs @ ys)) = {}"
proof -
  have "allocs b zs = {}" for b using assms by (induction zs arbitrary: b) auto
  then show ?thesis
    using alloc_data_range [of a xs] alloc_data_range [of "a + extent xs + extent zs" ys]
    by (fastforce simp: allocs_append alloc_data_Un add.assoc)
qed

lemma alloc_data_header: "{a + extent xs..<a + extent xs + 4} \<inter> alloc_data (allocs a (xs @ c # ys)) = {}"
proof -
  let ?b = "a + extent xs + (fst c + 4)"
  have "alloc_data (if snd c then {(a + extent xs + 4, fst c)} else {}) \<subseteq> {a + extent xs + 4..<?b}"
    by (auto simp: alloc_data_def)
  then show ?thesis
    using alloc_data_range [of a xs] alloc_data_range [of ?b ys]
    by (fastforce simp: allocs_append alloc_data_Un)
qed

lemma heap_splice:
  assumes "heap_ok lm a s (xs @ zs @ ys)" "extent zs' = extent zs" "tiled (lm_bytes lm') (a + extent xs) zs'"
    and "lm_pages lm' = lm_pages lm"
    and "same_on (addresses - {a + extent xs..<a + extent xs + extent zs}) (lm_bytes lm) (lm_bytes lm')"
  shows "heap_ok lm' a s (xs @ zs' @ ys)"
proof -
  have bound: "a + extent (xs @ zs @ ys) < 2147483648" using heap_ok_bounds [OF assms(1)] by linarith
  have "same_on ({a..<a + extent (xs @ zs @ ys)} - {a + extent xs..<a + extent xs + extent zs}) (lm_bytes lm) (lm_bytes lm')"
    by (rule same_on_subset [OF assms(5)]) (use bound in \<open>auto simp: addresses_iff\<close>)
  from tiled_splice [OF _ assms(2,3) this] assms(1,2,4) show ?thesis by (simp add: heap_ok_def)
qed

lemma heap_set_flag:
  assumes "heap_ok lm a s (xs @ (n, al) # ys)" "wrote lm lm' (a + extent xs) (hword n al')"
  shows "heap_ok lm' a s (xs @ (n, al') # ys) \<and> quiet a s (allocs a (xs @ (n, al) # ys)) lm lm'"
proof
  have c: "chunk_ok (n, al)" using assms(1) by (simp add: heap_ok_def tiled_append)
  have "heap_ok lm' a s (xs @ [(n, al')] @ ys)"
  proof (rule heap_splice [of lm a s xs "[(n, al)]"])
    show "heap_ok lm a s (xs @ [(n, al)] @ ys)" using assms(1) by simp
    show "tiled (lm_bytes lm') (a + extent xs) [(n, al')]" using assms(2) c by (simp add: wrote_def chunk_ok_def)
    show "same_on (addresses - {a + extent xs..<a + extent xs + extent [(n, al)]}) (lm_bytes lm) (lm_bytes lm')"
      by (rule same_on_subset [of "addresses - {a + extent xs..<a + extent xs + 4}"]) (use assms(2) in \<open>auto simp: wrote_def\<close>)
  qed (use assms(2) in \<open>simp_all add: wrote_def\<close>)
  then show "heap_ok lm' a s (xs @ (n, al') # ys)" by simp
  show "quiet a s (allocs a (xs @ (n, al) # ys)) lm lm'"
    using heap_ok_bounds [OF assms(1)] by (intro wrote_quiet [OF assms(2)] alloc_data_header) simp_all
qed

lemma chunk_header:
  assumes "heap_ok lm a s (xs @ (n, al) # ys)"
  shows "room lm (a + extent xs)" "hdr (lm_bytes lm) (a + extent xs) = hword n al" "n < 2147483648"
  using assms heap_ok_bounds [OF assms] heap_ok_room [OF assms, of "extent xs"]
  by (simp_all add: heap_ok_def tiled_append chunk_ok_def)

lemma allocs_flag:
  assumes "tiled m a (xs @ (n, True) # ys)"
  shows "allocs a (xs @ (n, False) # ys) = allocs a (xs @ (n, True) # ys) - {(a + extent xs + 4, n)}"
proof -
  have "(a + extent xs + 4, n) \<notin> allocs a xs" "(a + extent xs + 4, n) \<notin> allocs (a + extent xs + (n + 4)) ys"
    using allocs_range [of "a + extent xs + 4" n a xs] allocs_range [of "a + extent xs + 4" n "a + extent xs + (n + 4)" ys] assms
    by (auto simp: tiled_append chunk_ok_def)
  then show ?thesis by (auto simp: allocs_append)
qed

lemma heap_free_ok:
  assumes "heap_ok lm a s cs" "(p, n) \<in> allocs a cs"
  shows "\<exists>lm' cs'. heap_free lm (heap_of a s cs) (of_nat p) = Inr lm' \<and> heap_ok lm' a s cs' \<and> extent cs' = extent cs
    \<and> allocs a cs' = allocs a cs - {(p, n)} \<and> quiet a s (allocs a cs) lm lm'"
proof -
  obtain xs ys where cs: "cs = xs @ (n, True) # ys" "p = a + extent xs + 4" by (rule allocs_split [OF assms(2)])
  note h = chunk_header [OF assms(1) [unfolded cs(1)]]
  obtain lm' where lm': "mark_free lm \<lparr>bp_ptr = of_nat p, bp_size = of_nat n, bp_heap_end = of_nat a + of_nat s\<rparr> = Inr lm'"
      "wrote lm lm' (a + extent xs) (hword n False)"
    using mark_free_room [OF h, of "\<lparr>bp_ptr = of_nat p, bp_size = of_nat n, bp_heap_end = of_nat a + of_nat s\<rparr>"] cs(2)
    by auto
  have "heap_free lm (heap_of a s cs) (of_nat p) = Inr lm'"
    using lm'(1) buffer_at_room [OF h, of "of_nat a + of_nat s"] cs(2) by (simp add: heap_free_def)
  with heap_set_flag [OF assms(1) [unfolded cs(1)] lm'(2)] allocs_flag [of "lm_bytes lm" a xs n ys] assms(1) cs show ?thesis
    by (intro exI [of _ lm'] exI [of _ "xs @ (n, False) # ys"]) (simp add: heap_ok_def)
qed

section \<open>Merging free chunks\<close>

text \<open>
  The loop of \<open>merge_contiguous\<close> over the chunks \<open>ys\<close> that follow the one at \<open>P\<close>, when
  they reach to the end of the heap: it collects a run of free chunks.
\<close>

lemma merge_loop_run:
  assumes "tiled (lm_bytes lm) (P + k) ys" "P + k + extent ys \<le> unat (lm_pages lm) * 65536"
    "P + k + extent ys < 2147483648" "needed < 2147483648"
  shows "\<exists>fs rest. ys = fs @ rest \<and> (\<forall>c\<in>set fs. \<not> snd c)
    \<and> merge_loop lm (of_nat P) (of_nat (P + k + extent ys)) (of_nat needed) (of_nat k) = Some (Inr (of_nat (k + extent fs)))
    \<and> (needed \<le> k + extent fs \<or> rest = [] \<or> snd (hd rest))"
  using assms
proof (induction ys arbitrary: k)
  case Nil
  then have "merge_loop lm (of_nat P) (of_nat (P + k)) (of_nat needed) (of_nat k) = Some (Inr (of_nat k))"
    by (subst merge_loop.simps) (simp flip: of_nat_add)
  then show ?case by simp
next
  case (Cons c ys)
  obtain n al where c [simp]: "c = (n, al)" by (cases c)
  have n: "n < 2147483648" "hdr (lm_bytes lm) (P + k) = hword n al" using Cons.prems(1) by (auto simp: chunk_ok_def)
  have guard: "(of_nat k :: u32) < of_nat needed \<longleftrightarrow> k < needed"
    "(of_nat P + of_nat k :: u32) < of_nat (P + k + extent (c # ys))"
    using Cons.prems(3,4) by (simp_all add: less_of_nat32 flip: of_nat_add)
  have "room lm (P + k)" using Cons.prems(2,3) by (simp add: room_def)
  then have load: "load_size lm (of_nat P + of_nat k) = Inr (hword n al)" using load_room n(2) by (simp flip: of_nat_add)
  let ?loop = "merge_loop lm (of_nat P) (of_nat (P + k + extent (c # ys))) (of_nat needed)"
  show ?case
  proof (cases "k < needed \<and> \<not> al")
    case False
    then have "?loop (of_nat k) = Some (Inr (of_nat k))"
      using guard load hword_bits(2) [OF n(1)] by (subst merge_loop.simps) auto
    then show ?thesis using False by (intro exI [of _ "[]"] exI [of _ "c # ys"]) auto
  next
    case True
    let ?k = "k + (n + 4)"
    have same: "P + ?k + extent ys = P + k + extent (c # ys)" by simp
    have "?loop (of_nat k) = ?loop (of_nat ?k)"
      using guard load hword_bits(1,2) [OF n(1)] True by (subst merge_loop.simps) (simp add: size_marker_def)
    moreover have "tiled (lm_bytes lm) (P + ?k) ys" "P + ?k + extent ys \<le> unat (lm_pages lm) * 65536"
        "P + ?k + extent ys < 2147483648"
      using Cons.prems(1-3) by (simp_all add: add.assoc)
    from Cons.IH [OF this Cons.prems(4)] obtain fs rest where "ys = fs @ rest" "\<forall>c\<in>set fs. \<not> snd c"
        "merge_loop lm (of_nat P) (of_nat (P + ?k + extent ys)) (of_nat needed) (of_nat ?k) = Some (Inr (of_nat (?k + extent fs)))"
        "needed \<le> ?k + extent fs \<or> rest = [] \<or> snd (hd rest)"
      by blast
    ultimately show ?thesis
      unfolding same using True by (intro exI [of _ "c # fs"] exI [of _ rest]) (simp add: add.assoc)
  qed
qed

text \<open>
  Merging at a chunk: the run of free chunks behind it becomes part of it, up to the
  needed size, and the remainder a free chunk of its own.
\<close>

lemma bit_hword: "n < 2147483648 \<Longrightarrow> bit (hword n al) 31 = al"
  using small_top_bit [of n] by (simp add: hword_def bit_simps bit_alloc_mask)

lemma split_chunk:
  assumes "heap_ok lm a s (xs @ (n, al) # fs @ rest)" "\<forall>c\<in>set fs. \<not> snd c"
    and needed: "needed mod 8 = 4" and pos: "pos = n + extent fs"
    and b: "bp_ptr b = of_nat (a + extent xs + 4)"
  shows "\<exists>lm' zs. bindr (buffer_set_size lm b (of_nat (min needed pos))) (\<lambda>(b, lm).
      bindr (if pos > needed
             then bindr (buffer_make lm (bp_ptr b + of_nat needed + 4) (of_nat pos - of_nat needed - 4) (bp_heap_end b))
               (\<lambda>(freed_remainder, lm). mark_free lm freed_remainder)
             else Inr lm) (\<lambda>lm. Inr (ok, b, lm))) = Inr (ok, b\<lparr>bp_size := of_nat (min needed pos)\<rparr>, lm')
    \<and> extent zs + min needed pos = pos \<and> (\<forall>c\<in>set zs. \<not> snd c) \<and> lm_pages lm' = lm_pages lm
    \<and> tiled (lm_bytes lm') (a + extent xs) ((min needed pos, al) # zs)
    \<and> same_on (addresses - ({a + extent xs..<a + extent xs + 4} \<union> {a + extent xs + 4 + needed..<a + extent xs + 4 + pos}))
        (lm_bytes lm) (lm_bytes lm')"
proof -
  let ?x = "a + extent xs"
  have bound: "?x + 4 + pos \<le> a + s" "a + s < 2147483648" using heap_ok_bounds [OF assms(1)] pos by auto
  have "tiled (lm_bytes lm) (?x + (n + 4)) fs" "chunk_ok (n, al)" using assms(1) by (simp_all add: heap_ok_def tiled_append)
  then have pos4: "(pos + 4) mod 8 = 0" using extent_mod8 [of "lm_bytes lm" "?x + (n + 4)" fs]
    by (simp add: pos chunk_ok_def mod_eq_0_iff_dvd) presburger
  have posmod: "pos mod 8 = 4" using pos4 by presburger
  note h = chunk_header [OF assms(1)]
  have small: "min needed pos < 2147483648" using bound by linarith
  obtain lm1 where 1: "buffer_set_size lm b (of_nat (min needed pos)) = Inr (b\<lparr>bp_size := of_nat (min needed pos)\<rparr>, lm1)"
      "wrote lm lm1 ?x (hword (min needed pos) al)"
    using buffer_set_size_room [OF h(1) b small] bit_hword [OF h(3)] h(2) by auto
  have chunk: "chunk_ok (min needed pos, al)" using posmod needed small by (simp add: chunk_ok_def min_def)
  let ?out = "addresses - ({?x..<?x + 4} \<union> {?x + 4 + needed..<?x + 4 + pos})"
  have out1: "same_on ?out (lm_bytes lm) (lm_bytes lm1)"
    using 1(2) by (auto simp: wrote_def intro: same_on_subset)
  show ?thesis
  proof (cases "pos > needed")
    case False
    then show ?thesis
      using 1 chunk out1 by (intro exI [of _ lm1] exI [of _ "[]"]) (simp add: wrote_def)
  next
    case True
    have "(needed + 4) mod 8 = 0" using needed by presburger
    note gap = mod8_gap [OF this pos4]
    have gap: "needed + 8 \<le> pos" "(pos - needed - 4) mod 8 = 4" using gap True by simp_all
    have room1: "room lm1 (?x + 4 + needed)"
      using heap_ok_room [OF assms(1), of "extent xs + 4 + needed"] gap(1) bound wrote_room [OF 1(2)] by (simp add: add.assoc)
    have less: "pos - needed - 4 < 2147483648" using bound by linarith
    obtain lm2 lm3 b2 where 2: "buffer_make lm1 (of_nat (?x + 4 + needed + 4)) (of_nat (pos - needed - 4)) (bp_heap_end b) = Inr (b2, lm2)"
        "mark_free lm2 b2 = Inr lm3" "wrote lm1 lm3 (?x + 4 + needed) (hword (pos - needed - 4) False)"
      using make_free_room [OF room1 less] by blast
    have "(of_nat pos :: u32) - of_nat needed - 4 = of_nat (pos - needed - 4)" using gap(1) by (simp add: of_nat_diff)
    moreover have "bp_ptr b + of_nat needed + 4 = of_nat (?x + 4 + needed + 4)" using b by (simp add: add.assoc)
    ultimately have run: "buffer_make lm1 (bp_ptr b + of_nat needed + 4) (of_nat pos - of_nat needed - 4) (bp_heap_end b) = Inr (b2, lm2)"
      using 2(1) by (simp only:)
    have "tiled (lm_bytes lm3) (?x + (needed + 4)) [(pos - needed - 4, False)]"
      using 2(3) gap(2) less by (simp add: wrote_def chunk_ok_def add.commute add.left_commute)
    moreover have "hdr (lm_bytes lm3) ?x = hword needed al"
      using hdr_cong [OF wrote_same [OF 2(3), of "{?x..<?x + 4}"]] 1(2) bound True
      by (simp add: wrote_def addresses_def subset_iff)
    moreover have "same_on ?out (lm_bytes lm1) (lm_bytes lm3)"
      using gap(1) by (intro wrote_same [OF 2(3)]) auto
    ultimately show ?thesis
      using 1 2(2,3) run chunk gap(1) True same_on_trans [OF out1]
      by (intro exI [of _ lm3] exI [of _ "[(pos - needed - 4, False)]"]) (simp add: wrote_def min_def)
  qed
qed

lemma merge_ok:
  assumes ok: "heap_ok lm a s (xs @ (n, al) # ys)" and full: "extent (xs @ (n, al) # ys) = s"
    and needed: "needed mod 8 = 4" "needed < 2147483648"
    and b: "b = \<lparr>bp_ptr = of_nat (a + extent xs + 4), bp_size = of_nat n, bp_heap_end = of_nat a + of_nat s\<rparr>"
  obtains (fails) "aon" "merge_contiguous lm b (of_nat needed) aon = Inr (False, b, lm)"
  | (merges) fs rest zs lm' where "ys = fs @ rest" "\<forall>c\<in>set fs. \<not> snd c" "aon \<longrightarrow> needed \<le> n + extent fs"
    "merge_contiguous lm b (of_nat needed) aon =
       Inr (needed \<le> n + extent fs, b\<lparr>bp_size := of_nat (min needed (n + extent fs))\<rparr>, lm')"
    "extent zs + min needed (n + extent fs) = n + extent fs" "\<forall>c\<in>set zs. \<not> snd c" "lm_pages lm' = lm_pages lm"
    "tiled (lm_bytes lm') (a + extent xs) ((min needed (n + extent fs), al) # zs)"
    "same_on (addresses - ({a + extent xs..<a + extent xs + 4} \<union> {a + extent xs + 4 + needed..<a + extent xs + 4 + (n + extent fs)}))
        (lm_bytes lm) (lm_bytes lm')"
proof -
  let ?P = "a + extent xs + 4"
  have bound: "a + s < 2147483648" "?P + n + extent ys = a + s" "a + s \<le> unat (lm_pages lm) * 65536"
    using ok full by (auto simp: heap_ok_def)
  have "tiled (lm_bytes lm) (?P + n) ys" using ok by (simp add: heap_ok_def tiled_append add.assoc add.commute [of 4])
  from merge_loop_run [OF this _ _ needed(2)] bound obtain fs rest where ys: "ys = fs @ rest" "\<forall>c\<in>set fs. \<not> snd c"
      and loop: "merge_loop lm (of_nat ?P) (of_nat (a + s)) (of_nat needed) (of_nat n) = Some (Inr (of_nat (n + extent fs)))"
    by auto
  let ?pos = "n + extent fs"
  have pos: "?pos \<le> n + extent ys" "?pos < 2147483648" using ys(1) bound by auto
  have less: "(of_nat ?pos :: u32) < of_nat needed \<longleftrightarrow> ?pos < needed" "(of_nat needed :: u32) < of_nat ?pos \<longleftrightarrow> needed < ?pos"
    using pos(2) needed(2) by (subst less_of_nat32; simp)+
  have "(of_nat a + of_nat s) - of_nat ?P = (of_nat (n + extent ys) :: u32)" using arg_cong [OF bound(2), of "of_nat :: nat \<Rightarrow> u32"]
    by (simp add: algebra_simps)
  moreover have "(of_nat (n + extent ys) :: u32) < of_nat needed \<longleftrightarrow> n + extent ys < needed"
    using bound needed(2) by (subst less_of_nat32) auto
  ultimately have avail: "bp_heap_end b - bp_ptr b < of_nat needed \<longleftrightarrow> n + extent ys < needed" using b by simp
  show thesis
  proof (cases "aon \<and> ?pos < needed")
    case True
    have "merge_contiguous lm b (of_nat needed) aon = Inr (False, b, lm)"
      using True loop less b by (simp add: merge_contiguous_def terminating_def)
    then show thesis using True fails by blast
  next
    case False
    obtain lm' zs where res: "bindr (buffer_set_size lm b (of_nat (min needed ?pos))) (\<lambda>(b, lm).
      bindr (if ?pos > needed
             then bindr (buffer_make lm (bp_ptr b + of_nat needed + 4) (of_nat ?pos - of_nat needed - 4) (bp_heap_end b))
               (\<lambda>(freed_remainder, lm). mark_free lm freed_remainder)
             else Inr lm) (\<lambda>lm. Inr (needed \<le> ?pos, b, lm))) = Inr (needed \<le> ?pos, b\<lparr>bp_size := of_nat (min needed ?pos)\<rparr>, lm')"
      and rest: "extent zs + min needed ?pos = ?pos" "\<forall>c\<in>set zs. \<not> snd c" "lm_pages lm' = lm_pages lm"
        "tiled (lm_bytes lm') (a + extent xs) ((min needed ?pos, al) # zs)"
        "same_on (addresses - ({a + extent xs..<a + extent xs + 4} \<union> {a + extent xs + 4 + needed..<a + extent xs + 4 + ?pos}))
          (lm_bytes lm) (lm_bytes lm')"
      using split_chunk [OF ok [unfolded ys(1)] ys(2) needed(1) refl, of b "needed \<le> ?pos"] b by auto
    have size: "(if ?pos < needed then of_nat ?pos else of_nat needed) = (of_nat (min needed ?pos) :: u32)"
      by (simp add: min_def)
    have eq: "(of_nat (min needed ?pos) :: u32) = of_nat needed \<longleftrightarrow> needed \<le> ?pos"
      using needed(2) by (subst of_nat_u32_eq_iff) auto
    have "\<not> (aon \<and> n + extent ys < needed)" using False pos(1) by linarith
    then have "merge_contiguous lm b (of_nat needed) aon =
        bindr (buffer_set_size lm b (of_nat (min needed ?pos))) (\<lambda>(b, lm).
        bindr (if ?pos > needed
             then bindr (buffer_make lm (bp_ptr b + of_nat needed + 4) (of_nat ?pos - of_nat needed - 4) (bp_heap_end b))
               (\<lambda>(freed_remainder, lm). mark_free lm freed_remainder)
             else Inr lm) (\<lambda>lm. Inr (needed \<le> ?pos, b, lm)))"
      using False loop b
      unfolding merge_contiguous_def avail terminating_def
      by (simp only: buffer_ptr.simps of_nat_add [symmetric] option.simps bindr_simps less size eq Let_def size_marker_def if_False)
    then have run: "merge_contiguous lm b (of_nat needed) aon =
        Inr (needed \<le> ?pos, b\<lparr>bp_size := of_nat (min needed ?pos)\<rparr>, lm')" by (simp only: res)
    have "aon \<longrightarrow> needed \<le> ?pos" using False by linarith
    from merges [OF ys this run rest] show thesis .
  qed
qed

text \<open>The heap after a merge: the chunks up to the end of the run are replaced.\<close>

lemma merged_heap:
  assumes "heap_ok lm a s (xs @ (n, al) # fs @ rest)" "extent (xs @ (n, al) # fs @ rest) = s" "\<forall>c\<in>set fs. \<not> snd c"
    and "extent zs + k = n + extent fs" "\<forall>c\<in>set zs. \<not> snd c" "lm_pages lm' = lm_pages lm"
    and "tiled (lm_bytes lm') (a + extent xs) ((k, al) # zs)" "k \<le> needed"
    and "same_on (addresses - ({a + extent xs..<a + extent xs + 4} \<union> {a + extent xs + 4 + needed..<a + extent xs + 4 + (n + extent fs)}))
        (lm_bytes lm) (lm_bytes lm')"
  shows "heap_ok lm' a s (xs @ (k, al) # zs @ rest)" "extent (xs @ (k, al) # zs @ rest) = s"
    "allocs a (xs @ (k, False) # zs @ rest) = allocs a (xs @ (n, False) # fs @ rest)"
    "n \<le> needed \<or> \<not> al \<Longrightarrow> quiet a s (allocs a (xs @ (n, al) # fs @ rest)) lm lm'"
proof -
  let ?x = "a + extent xs" and ?R = "{a + extent xs..<a + extent xs + extent ((n, al) # fs)}"
  have ext: "extent ((k, al) # zs) = extent ((n, al) # fs)" using assms(4) by simp
  have CR: "{?x..<?x + 4} \<union> {?x + 4 + needed..<?x + 4 + (n + extent fs)} \<subseteq> ?R" by auto
  then have out: "same_on (addresses - ?R) (lm_bytes lm) (lm_bytes lm')"
    by (intro same_on_subset [OF assms(9)]) auto
  have "heap_ok lm' a s (xs @ ((k, al) # zs) @ rest)"
    by (rule heap_splice [OF _ ext assms(7,6) out]) (use assms(1) in simp)
  then show "heap_ok lm' a s (xs @ (k, al) # zs @ rest)" by simp
  show "extent (xs @ (k, al) # zs @ rest) = s" using assms(2,4) by simp
  have free: "allocs c fs = {}" "allocs c zs = {}" for c
    using assms(3,5) by (induction fs arbitrary: c; induction zs arbitrary: c; simp)+
  have "?x + (k + 4) + extent zs = ?x + (n + 4) + extent fs" using assms(4) by simp
  from arg_cong [OF this, of "\<lambda>b. allocs b rest"]
  show "allocs a (xs @ (k, False) # zs @ rest) = allocs a (xs @ (n, False) # fs @ rest)"
    using free by (simp add: allocs_append)
  assume safe: "n \<le> needed \<or> \<not> al"
  let ?A = "allocs a (xs @ (n, al) # fs @ rest)" and ?C = "{?x..<?x + 4} \<union> {?x + 4 + needed..<?x + 4 + (n + extent fs)}"
  have "?C \<inter> alloc_data ?A = {}"
  proof (cases al)
    case True
    have "{?x + (n + 4)..<?x + (n + 4) + extent fs} \<inter> alloc_data ?A = {}"
      using alloc_data_run [OF assms(3), of a "xs @ [(n, al)]" rest] by (simp add: add.assoc)
    moreover have "{?x + 4 + needed..<?x + 4 + (n + extent fs)} \<subseteq> {?x + (n + 4)..<?x + (n + 4) + extent fs}"
      using safe True by simp
    ultimately show ?thesis using alloc_data_header [of a xs "(n, al)" "fs @ rest"] by blast
  next
    case False
    then have "\<forall>c\<in>set ((n, al) # fs). \<not> snd c" using assms(3) by simp
    from alloc_data_run [OF this, of a xs rest] have "?R \<inter> alloc_data ?A = {}" by simp
    with CR show ?thesis by blast
  qed
  moreover have "?C \<subseteq> {a..<a + s}" using assms(2) by auto
  ultimately have "addresses - ({a..<a + s} - alloc_data ?A) \<subseteq> addresses - ?C" by blast
  from same_on_subset [OF assms(9) this] assms(6) show "quiet a s ?A lm lm'" by (simp add: quiet_def)
qed

section \<open>Allocation from freed memory\<close>

lemma next_ptr_chunk:
  assumes "heap_ok lm a s (xs @ (k, al) # rest)" "extent (xs @ (k, al) # rest) = s"
    and "bp_ptr b = of_nat (a + extent xs + 4)" "bp_size b = of_nat k" "bp_heap_end b = of_nat a + of_nat s"
  shows "buffer_next_ptr b = (if rest = [] then 0 else of_nat (a + extent (xs @ [(k, al)]) + 4))"
proof -
  let ?n = "a + extent (xs @ [(k, al)]) + 4"
  have n: "buffer_end b + size_marker = of_nat ?n" using assms(3,4) by (simp add: buffer_end_def size_marker_def algebra_simps)
  have bound: "a + s < 2147483648" using heap_ok_bounds [OF assms(1)] by simp
  have "(of_nat (a + s) :: u32) \<le> of_nat ?n \<longleftrightarrow> rest = []"
  proof (cases rest)
    case Nil
    then show ?thesis using assms(2) bound by (subst le_of_nat32) auto
  next
    case (Cons c cs)
    then have "0 < fst c" using assms(1) by (auto simp: heap_ok_def tiled_append chunk_ok_def intro: Nat.gr0I)
    then show ?thesis using Cons assms(2) bound by (subst le_of_nat32) auto
  qed
  then show ?thesis using assms(5) by (simp only: buffer_next_ptr_def n Let_def of_nat_add)
qed

definition freed_result :: "nat \<Rightarrow> nat \<Rightarrow> nat \<Rightarrow> (nat \<times> nat) set \<Rightarrow> lmem \<Rightarrow> nat \<Rightarrow> lmem \<Rightarrow> bool" where
  "freed_result a s sz A lm r lm' \<longleftrightarrow> (\<exists>cs'. heap_ok lm' a s cs' \<and> extent cs' = s \<and> quiet a s A lm lm'
     \<and> (r = 0 \<and> allocs a cs' = A \<or> 0 < r \<and> r < 2147483648 \<and> allocs a cs' = insert (r, sz) A \<and> (r, sz) \<notin> A))"

lemma freed_result_trans:
  assumes "quiet a s A lm lm1" "freed_result a s sz A lm1 r lm2"
  shows "freed_result a s sz A lm r lm2"
  using assms quiet_trans [OF assms(1)] unfolding freed_result_def by blast

text \<open>
  The search for freed memory from the chunk behind \<open>xs\<close> on: it ends, and either finds
  nothing and keeps the allocated chunks, or turns a stretch of free memory into a new one.
\<close>

lemma from_freed_run:
  assumes "heap_ok lm a s (xs @ ys)" "extent (xs @ ys) = s" "sz mod 8 = 4" "sz < 2147483648"
  shows "\<exists>r lm'. from_freed_loop lm (heap_of a s cs) (of_nat sz) (if ys = [] then 0 else of_nat (a + extent xs + 4)) =
      Some (Inr (of_nat r, lm')) \<and> freed_result a s sz (allocs a (xs @ ys)) lm r lm'"
  using assms(1-2)
proof (induction "length ys" arbitrary: lm xs ys rule: less_induct)
  case less
  show ?case
  proof (cases ys)
    case Nil
    then have "from_freed_loop lm (heap_of a s cs) (of_nat sz) 0 = Some (Inr (of_nat 0, lm))"
      by (subst from_freed_loop.simps) simp
    then show ?thesis
      using less.prems Nil by (intro exI [of _ 0] exI [of _ lm]) (auto simp: freed_result_def quiet_def)
  next
    case (Cons c ys')
    then obtain n al where ys: "ys = (n, al) # ys'" by (cases c) auto
    let ?p = "a + extent xs + 4" and ?A = "allocs a (xs @ ys)"
    let ?b = "\<lparr>bp_ptr = of_nat (a + extent xs + 4), bp_size = of_nat n, bp_heap_end = of_nat a + of_nat s\<rparr>"
    let ?loop = "\<lambda>lm. from_freed_loop lm (heap_of a s cs) (of_nat sz)"
    note ok = less.prems(1) [unfolded ys] and full = less.prems(2) [unfolded ys]
    note h = chunk_header [OF ok]
    have p0: "(of_nat ?p :: u32) \<noteq> 0" "?p < 2147483648"
      using heap_ok_bounds [OF ok] full of_nat32_eq_0 [of ?p] by auto
    have start: "buffer_at lm (of_nat ?p) (of_nat a + of_nat s) = Inr ?b" "is_alloc lm ?b = Inr al"
      using buffer_at_room [OF h] is_alloc_room [OF h, of ?b] by auto
    have cont: "\<exists>r lm'. ?loop lm1 (buffer_next_ptr b1) = Some (Inr (of_nat r, lm')) \<and> freed_result a s sz ?A lm r lm'"
      if "heap_ok lm1 a s (xs @ (k, al) # rest)" "extent (xs @ (k, al) # rest) = s" "length rest \<le> length ys'"
        "bp_ptr b1 = of_nat ?p" "bp_size b1 = of_nat k" "bp_heap_end b1 = of_nat a + of_nat s"
        "allocs a (xs @ (k, al) # rest) = ?A" "quiet a s ?A lm lm1" for lm1 k rest b1
    proof -
      have "heap_ok lm1 a s ((xs @ [(k, al)]) @ rest)" "extent ((xs @ [(k, al)]) @ rest) = s" "length rest < length ys"
        using that(1-3) ys by simp_all
      from less.hyps [OF this(3,1,2)] next_ptr_chunk [OF that(1,2,4-6)] that(7) show ?thesis
        using freed_result_trans [OF that(8)] by fastforce
    qed
    show ?thesis
    proof (cases al)
      case True
      then have "?loop lm (of_nat ?p) = ?loop lm (buffer_next_ptr ?b)"
        using p0 start by (subst from_freed_loop.simps) simp
      with cont [OF ok full] ys show ?thesis by (simp add: quiet_def)
    next
      case False
      show ?thesis
      proof (cases rule: merge_ok [OF ok full assms(3,4) refl, where aon = False])
        case merges: (2 fs rest zs lm')
        let ?k = "min sz (n + extent fs)"
        let ?b' = "?b\<lparr>bp_size := of_nat ?k\<rparr>"
        note m = merged_heap [OF ok [unfolded merges(1)] full [unfolded merges(1)] merges(2,5-8) min.cobounded1 merges(9)]
        have q: "quiet a s ?A lm lm'" using m(4) False ys merges(1) by simp
        have same: "allocs a (xs @ (?k, False) # zs @ rest) = ?A" using m(3) False ys merges(1) by simp
        show ?thesis
        proof (cases "sz \<le> n + extent fs")
          case enough: True
          then have k: "?k = sz" by simp
          note h' = chunk_header [OF m(1)]
          obtain lm2 where lm2: "mark_alloc lm' ?b' = Inr lm2" "wrote lm' lm2 (a + extent xs) (hword ?k True)"
            using mark_alloc_room [OF h', of ?b'] by auto
          have loop: "?loop lm (of_nat ?p) = Some (Inr (of_nat ?p, lm2))"
            using p0 start merges(4) lm2(1) False enough by (subst from_freed_loop.simps) simp
          note flag = heap_set_flag [OF m(1) lm2(2)]
          have "allocs a (xs @ (?k, False) # zs @ rest) = allocs a (xs @ (?k, True) # zs @ rest) - {(?p, ?k)}"
            by (rule allocs_flag [of "lm_bytes lm2"]) (use flag in \<open>simp add: heap_ok_def\<close>)
          moreover have "(?p, ?k) \<in> allocs a (xs @ (?k, True) # zs @ rest)" by (simp add: allocs_append)
          ultimately have "allocs a (xs @ (?k, True) # zs @ rest) = insert (?p, ?k) ?A" "(?p, ?k) \<notin> ?A"
            using same by auto
          moreover have "quiet a s ?A lm lm2" using quiet_trans [OF q, of ?A lm2] flag False same by simp
          ultimately have "freed_result a s sz ?A lm ?p lm2"
            using flag m(2) p0(2) k unfolding freed_result_def by (intro exI [of _ "xs @ (?k, True) # zs @ rest"]) simp
          with loop ys show ?thesis by (intro exI [of _ ?p] exI [of _ lm2]) simp
        next
          case short: False
          then have "zs = []" using merges(5) by (cases zs) auto
          have "?loop lm (of_nat ?p) = ?loop lm' (buffer_next_ptr ?b')"
            using p0 start merges(4) False short by (subst from_freed_loop.simps) simp
          moreover have "\<exists>r lm2. ?loop lm' (buffer_next_ptr ?b') = Some (Inr (of_nat r, lm2)) \<and> freed_result a s sz ?A lm r lm2"
            by (rule cont [of lm' ?k rest]) (use m(1,2) same q False merges(1) \<open>zs = []\<close> in simp_all)
          ultimately show ?thesis using ys by simp
        qed
      qed simp
    qed
  qed
qed

lemma malloc_from_freed_ok:
  assumes "heap_ok lm a s cs" "extent cs = s" "0 < s" "sz mod 8 = 4" "sz < 2147483648"
  shows "\<exists>r lm'. malloc_from_freed lm (heap_of a s cs) (of_nat sz) = Inr (of_nat r, lm')
    \<and> freed_result a s sz (allocs a cs) lm r lm'"
proof -
  have "cs \<noteq> []" using assms(2,3) by auto
  then show ?thesis
    using from_freed_run [of lm a s "[]" cs sz cs] assms
    by (auto simp: malloc_from_freed_def check_def terminating_def size_marker_def)
qed

end
