(* ===== verification/Malloc_Manager.thy ===== *)
theory Malloc_Manager
  imports Malloc_Heap
begin

text \<open>
  The memory manager of \<^verbatim>\<open>malloc.cpp\<close> as a whole: the invariant of its heaps and its
  preservation by \<open>malloc\<close>, \<open>calloc\<close> and \<open>free\<close>.
\<close>

section \<open>The invariant\<close>

type_synonym heap_state = "nat \<times> nat \<times> chunk list"

definition heaps_of :: "heap_state list \<Rightarrow> heap list" where
  "heaps_of hs = map (\<lambda>(a, s, cs). heap_of a s cs) hs @ replicate (16 - length hs) heap_default"

definition all_allocs :: "heap_state list \<Rightarrow> (nat \<times> nat) set" where
  "all_allocs hs = (\<Union>(a, s, cs)\<in>set hs. allocs a cs)"

definition full :: "heap_state \<Rightarrow> bool" where
  "full h = (case h of (a, s, cs) \<Rightarrow> extent cs = s)"

primrec ordered :: "nat \<Rightarrow> heap_state list \<Rightarrow> nat \<Rightarrow> bool" where
  "ordered lo [] hi = (lo \<le> hi)"
| "ordered lo (h # hs) hi = (case h of (a, s, cs) \<Rightarrow> lo \<le> a \<and> ordered (a + s) hs hi)"

definition limit :: "lmem \<Rightarrow> nat" where
  "limit lm = unat (lm_pages lm) * 65536"

text \<open>
  What is assumed of the platform: it never grants more than 2 GiB, the static heap has
  an address, and no address below 2 GiB converts to \<open>-1\<close>, whichever way the conversion
  extends.
\<close>

definition platform_laws :: "platform \<Rightarrow> bool" where
  "platform_laws pf \<longleftrightarrow> (\<forall>p d. pf_grow pf p d \<longrightarrow> unat p + unat d \<le> 32767) \<and> pf_initial_heap pf \<noteq> 0
     \<and> (\<forall>p. unat p < 2147483648 \<longrightarrow> pf_int64 pf p \<noteq> - 1)"

definition heaps_base :: "platform \<Rightarrow> memory_manager \<Rightarrow> heap_state list \<Rightarrow> bool" where
  "heaps_base pf st hs \<longleftrightarrow> mm_heaps st = heaps_of hs \<and> length hs \<le> 2
     \<and> (\<forall>a s cs. (a, s, cs) \<in> set hs \<longrightarrow> heap_ok (mm_lm st) a s cs \<and> 0 < s) \<and> ordered 0 hs (limit (mm_lm st))
     \<and> unat (lm_pages (mm_lm st)) \<le> 32767
     \<and> (if mm_sbrk_initialized st then mm_sbrk_bytes st = of_nat (limit (mm_lm st)) else length hs \<le> 1)
     \<and> unat (pf_initial_heap pf) + 8192 \<le> limit (mm_lm st)"

text \<open>The second heap reaches to the end of the memory.\<close>

definition heaps_ok :: "platform \<Rightarrow> memory_manager \<Rightarrow> heap_state list \<Rightarrow> bool" where
  "heaps_ok pf st hs \<longleftrightarrow> heaps_base pf st hs
     \<and> (length hs = 2 \<longrightarrow> (case hs ! 1 of (a, s, cs) \<Rightarrow> a + s = limit (mm_lm st)))"

text \<open>Before the first allocation, while the last heap has room, and when memory is exhausted.\<close>

definition unused :: "memory_manager \<Rightarrow> heap_state list \<Rightarrow> bool" where
  "unused st hs \<longleftrightarrow> hs = [] \<and> mm_active_heap st = 0 \<and> (mm_heaps_actual_size st = 0 \<or> mm_heaps_actual_size st = 16)
     \<and> mm_active_free_heap st = 0"

definition running :: "memory_manager \<Rightarrow> heap_state list \<Rightarrow> bool" where
  "running st hs \<longleftrightarrow> hs \<noteq> [] \<and> mm_active_heap st = of_nat (length hs - 1) \<and> mm_heaps_actual_size st = 16
     \<and> mm_active_free_heap st = 0 \<and> (\<forall>h\<in>set (butlast hs). full h)"

definition exhausted :: "memory_manager \<Rightarrow> heap_state list \<Rightarrow> bool" where
  "exhausted st hs \<longleftrightarrow> hs \<noteq> [] \<and> mm_active_heap st = of_nat (length hs) \<and> mm_heaps_actual_size st = of_nat (length hs)
     \<and> unat (mm_active_free_heap st) < length hs \<and> (\<forall>h\<in>set hs. full h)"

definition blocks :: "platform \<Rightarrow> memory_manager \<Rightarrow> (nat \<times> nat) set \<Rightarrow> bool" where
  "blocks pf st A \<longleftrightarrow> (\<exists>hs. heaps_ok pf st hs \<and> (unused st hs \<or> running st hs \<or> exhausted st hs) \<and> A = all_allocs hs)"

text \<open>Blocks keep their contents.\<close>

definition kept :: "(nat \<times> nat) set \<Rightarrow> memory_manager \<Rightarrow> memory_manager \<Rightarrow> bool" where
  "kept A st st' \<longleftrightarrow> same_on (alloc_data A) (lm_bytes (mm_lm st)) (lm_bytes (mm_lm st'))
     \<and> lm_pages (mm_lm st) \<le> lm_pages (mm_lm st')"

section \<open>Heaps in order\<close>

lemma ordered_bound: "ordered lo hs hi \<Longrightarrow> lo \<le> hi"
  by (induction hs arbitrary: lo) (fastforce split: prod.splits)+

lemma ordered_mono: "ordered lo hs hi \<Longrightarrow> hi \<le> hi' \<Longrightarrow> ordered lo hs hi'"
  by (induction hs arbitrary: lo) (auto split: prod.splits)

lemma ordered_append: "ordered lo (hs @ hs') hi \<longleftrightarrow> (\<exists>mid. ordered lo hs mid \<and> ordered mid hs' hi)"
proof (induction hs arbitrary: lo)
  case Nil
  show ?case
  proof
    assume "ordered lo ([] @ hs') hi"
    then show "\<exists>mid. ordered lo [] mid \<and> ordered mid hs' hi" by auto
  next
    assume "\<exists>mid. ordered lo [] mid \<and> ordered mid hs' hi"
    then obtain mid where "lo \<le> mid" "ordered mid hs' hi" by auto
    then show "ordered lo ([] @ hs') hi" by (cases hs') (auto split: prod.splits)
  qed
qed (auto split: prod.splits)

lemma ordered_heap: "ordered lo hs hi \<Longrightarrow> (a, s, cs) \<in> set hs \<Longrightarrow> lo \<le> a \<and> a + s \<le> hi"
proof (induction hs arbitrary: lo)
  case (Cons h hs)
  obtain a' s' cs' where h: "h = (a', s', cs')" by (cases h)
  have "lo \<le> a'" "ordered (a' + s') hs hi" using Cons.prems(1) h by auto
  then show ?case using Cons.IH [of "a' + s'"] Cons.prems(2) h ordered_bound [of "a' + s'" hs hi] by auto
qed simp

lemma all_allocsE:
  assumes "(p, n) \<in> all_allocs hs"
  obtains a s cs where "(a, s, cs) \<in> set hs" "(p, n) \<in> allocs a cs"
  using assms unfolding all_allocs_def by auto

lemma heap_alloc_range:
  assumes "heap_ok lm a s cs" "(p, n) \<in> allocs a cs"
  shows "a + 4 \<le> p" "p + n \<le> a + s"
  using allocs_range [OF assms(2)] heap_ok_bounds [OF assms(1)] by auto

lemma all_allocs_disjoint:
  assumes "\<forall>a s cs. (a, s, cs) \<in> set hs \<longrightarrow> heap_ok lm a s cs \<and> 0 < s" "ordered lo hs hi"
    and "(p, n) \<in> all_allocs hs" "(q, k) \<in> all_allocs hs"
  shows "(p, n) = (q, k) \<or> p + n + 4 \<le> q \<or> q + k + 4 \<le> p"
  using assms
proof (induction hs arbitrary: lo)
  case (Cons h hs)
  obtain a s cs where h: "h = (a, s, cs)" by (cases h)
  have ok: "heap_ok lm a s cs" and ord: "ordered (a + s) hs hi" using Cons.prems(1,2) h by auto
  have all: "all_allocs (h # hs) = allocs a cs \<union> all_allocs hs" by (simp add: all_allocs_def h)
  have rest: "a + s + 4 \<le> r" if "(r, j) \<in> all_allocs hs" for r j
  proof -
    obtain a' s' cs' where "(a', s', cs') \<in> set hs" "(r, j) \<in> allocs a' cs'" using \<open>(r, j) \<in> all_allocs hs\<close> by (auto simp: all_allocs_def)
    then show ?thesis using ordered_heap [OF ord, of a' s' cs'] allocs_range [of r j a' cs'] by auto
  qed
  have IH: "(p, n) = (q, k) \<or> p + n + 4 \<le> q \<or> q + k + 4 \<le> p" if "(p, n) \<in> all_allocs hs" "(q, k) \<in> all_allocs hs"
    by (rule Cons.IH [OF _ ord that]) (use Cons.prems(1) in simp)
  consider "(p, n) \<in> allocs a cs" "(q, k) \<in> allocs a cs" | "(p, n) \<in> allocs a cs" "(q, k) \<in> all_allocs hs"
    | "(p, n) \<in> all_allocs hs" "(q, k) \<in> allocs a cs" | "(p, n) \<in> all_allocs hs" "(q, k) \<in> all_allocs hs"
    using Cons.prems(3,4) unfolding all by blast
  then show ?case
  proof cases
    case 1
    then show ?thesis by (rule allocs_disjoint)
  next
    case 2
    then show ?thesis using heap_alloc_range(2) [OF ok 2(1)] rest [OF 2(2)] by linarith
  next
    case 3
    then show ?thesis using heap_alloc_range(2) [OF ok 3(2)] rest [OF 3(1)] by linarith
  next
    case 4
    then show ?thesis by (rule IH)
  qed
qed (simp add: all_allocs_def)

section \<open>Changing one heap\<close>

lemma heaps_of_update: "length bs + length es < 16 \<Longrightarrow>
  (heaps_of (bs @ (a, s, cs) # es))[length bs := heap_of a s' cs'] = heaps_of (bs @ (a, s', cs') # es)"
  by (simp add: heaps_of_def list_update_append)

lemma heaps_of_new: "length hs < 16 \<Longrightarrow> (heaps_of hs)[length hs := heap_of a s []] = heaps_of (hs @ [(a, s, [])])"
  by (simp add: heaps_of_def list_update_append Suc_diff_Suc [symmetric] del: replicate_Suc) 
    (simp add: Suc_diff_Suc [symmetric])

lemma heaps_of_nth: "length bs + length es < 16 \<Longrightarrow> heaps_of (bs @ (a, s, cs) # es) ! length bs = heap_of a s cs"
  by (simp add: heaps_of_def nth_append)

lemma heaps_of_length [simp]: "length hs \<le> 16 \<Longrightarrow> length (heaps_of hs) = 16"
  by (simp add: heaps_of_def)

lemma same_ordered:
  assumes "ordered lo (bs @ (a, s, cs) # es) hi" "(a', s', cs') \<in> set bs \<union> set es"
  shows "{a'..<a' + s'} \<inter> {a..<a + s} = {}"
proof -
  obtain mid where bs: "ordered lo bs mid" "mid \<le> a" and es: "ordered (a + s) es hi"
    using assms(1) by (auto simp: ordered_append)
  from assms(2) consider "(a', s', cs') \<in> set bs" | "(a', s', cs') \<in> set es" by blast
  then have "a' + s' \<le> a \<or> a + s \<le> a'"
  proof cases
    case 1
    then show ?thesis using ordered_heap [OF bs(1)] bs(2) by fastforce
  next
    case 2
    then show ?thesis using ordered_heap [OF es] by fastforce
  qed
  then show ?thesis by auto
qed

lemma quiet_heap:
  assumes "quiet a s A lm lm'" "heap_ok lm a' s' cs'" "{a'..<a' + s'} \<inter> {a..<a + s} = {}"
  shows "heap_ok lm' a' s' cs'"
proof -
  note b = heap_ok_bounds [OF assms(2)]
  have "{a'..<a' + extent cs'} \<subseteq> {a'..<a' + s'}" using b by auto
  moreover have "{a'..<a' + s'} \<subseteq> addresses" using b by (simp add: addresses_def subset_iff)
  ultimately have "{a'..<a' + extent cs'} \<subseteq> addresses - ({a..<a + s} - alloc_data A)" using assms(3) by blast
  then have "same_on {a'..<a' + extent cs'} (lm_bytes lm) (lm_bytes lm')"
    using assms(1) same_on_subset unfolding quiet_def by blast
  with assms(1,2) show ?thesis using tiled_cong unfolding heap_ok_def quiet_def by metis
qed

lemma heap_data_range:
  assumes "heap_ok lm a s cs"
  shows "alloc_data (allocs a cs) \<subseteq> {a..<a + s}" "{a..<a + s} \<subseteq> addresses"
proof -
  have "{a + 4..<a + extent cs} \<subseteq> {a..<a + s}" using heap_ok_bounds [OF assms] by auto
  then show "alloc_data (allocs a cs) \<subseteq> {a..<a + s}" using alloc_data_range by blast
  show "{a..<a + s} \<subseteq> addresses" using heap_ok_bounds [OF assms] by (simp add: addresses_def subset_iff)
qed

lemma all_allocs_simps:
  "all_allocs [] = {}" "all_allocs (bs @ es) = all_allocs bs \<union> all_allocs es"
  "all_allocs ((a, s, cs) # es) = allocs a cs \<union> all_allocs es"
  by (simp_all add: all_allocs_def)

lemma quiet_kept:
  assumes hs: "\<forall>a' s' cs'. (a', s', cs') \<in> set (bs @ (a, s, cs) # es) \<longrightarrow> heap_ok (mm_lm st) a' s' cs' \<and> 0 < s'"
    and ord: "ordered lo (bs @ (a, s, cs) # es) hi" and q: "quiet a s (allocs a cs) (mm_lm st) (mm_lm st')"
  shows "kept (all_allocs (bs @ (a, s, cs) # es)) st st'"
proof -
  have "{p..<p + n} \<subseteq> addresses - ({a..<a + s} - alloc_data (allocs a cs))" if pn: "(p, n) \<in> all_allocs (bs @ (a, s, cs) # es)" for p n
  proof -
    obtain a1 s1 cs1 where "(a1, s1, cs1) \<in> set (bs @ (a, s, cs) # es)" "(p, n) \<in> allocs a1 cs1"
      using pn by (rule all_allocsE)
    then consider "(p, n) \<in> allocs a cs" | a' s' cs' where "(a', s', cs') \<in> set bs \<union> set es" "(p, n) \<in> allocs a' cs'"
      by fastforce
    then show ?thesis
    proof cases
      case 1
      then have "{p..<p + n} \<subseteq> alloc_data (allocs a cs)" by (auto simp: alloc_data_def)
      then show ?thesis using heap_data_range [of "mm_lm st" a s cs] hs by auto
    next
      case 2
      have "heap_ok (mm_lm st) a' s' cs'" using hs 2(1) by auto
      moreover have "{p..<p + n} \<subseteq> alloc_data (allocs a' cs')" using 2(2) by (auto simp: alloc_data_def)
      ultimately show ?thesis using heap_data_range [of "mm_lm st" a' s' cs'] same_ordered [OF ord 2(1)] by blast
    qed
  qed
  then have "alloc_data (all_allocs (bs @ (a, s, cs) # es)) \<subseteq> addresses - ({a..<a + s} - alloc_data (allocs a cs))"
    unfolding alloc_data_def by blast
  with q show ?thesis unfolding kept_def quiet_def by (auto intro: same_on_subset)
qed

lemma heaps_base_change:
  assumes "heaps_base pf st (bs @ (a, s, cs) # es)" "heap_ok lm' a s cs'" "quiet a s (allocs a cs) (mm_lm st) lm'"
  shows "heaps_base pf (put_heap st (of_nat (length bs)) (heap_of a s cs', lm')) (bs @ (a, s, cs') # es)"
    and "kept (all_allocs (bs @ (a, s, cs) # es)) st (put_heap st i (h', lm'))"
proof -
  let ?hs = "bs @ (a, s, cs) # es" and ?hs' = "bs @ (a, s, cs') # es"
  have ord: "ordered 0 ?hs (limit (mm_lm st))"
    and hs: "\<forall>a' s' cs'. (a', s', cs') \<in> set ?hs \<longrightarrow> heap_ok (mm_lm st) a' s' cs' \<and> 0 < s'"
    and len: "length ?hs \<le> 2" and heaps: "mm_heaps st = heaps_of ?hs" using assms(1) by (simp_all add: heaps_base_def)
  have pages: "lm_pages lm' = lm_pages (mm_lm st)" using assms(3) by (simp add: quiet_def)
  then have lim: "limit lm' = limit (mm_lm st)" by (simp add: limit_def)
  have "heap_ok lm' a' s' cs'' \<and> 0 < s'" if h: "(a', s', cs'') \<in> set ?hs'" for a' s' cs''
  proof (cases "(a', s', cs'') \<in> set bs \<union> set es")
    case True
    then have "heap_ok (mm_lm st) a' s' cs'' \<and> 0 < s'" using hs by auto
    then show ?thesis using quiet_heap [OF assms(3) _ same_ordered [OF ord True]] by blast
  next
    case False
    then show ?thesis using h hs assms(2) by auto
  qed
  then have "\<forall>a' s' cs''. (a', s', cs'') \<in> set ?hs' \<longrightarrow> heap_ok lm' a' s' cs'' \<and> 0 < s'" by blast
  moreover have "ordered 0 ?hs' hi = ordered 0 ?hs hi" for hi by (simp add: ordered_append)
  moreover have "(mm_heaps st)[length bs := heap_of a s cs'] = heaps_of ?hs'"
    unfolding heaps using len by (intro heaps_of_update) simp
  moreover have "unat (of_nat (length bs) :: u32) = length bs" using len by (simp add: unat_of_nat_u32)
  ultimately show "heaps_base pf (put_heap st (of_nat (length bs)) (heap_of a s cs', lm')) ?hs'"
    using assms(1) ord unfolding heaps_base_def put_heap_def by (auto simp: lim pages)
  show "kept (all_allocs ?hs) st (put_heap st i (h', lm'))"
    by (rule quiet_kept [OF hs ord]) (use assms(3) in \<open>simp add: put_heap_def\<close>)
qed

lemma heaps_ok_change:
  assumes "heaps_ok pf st (bs @ (a, s, cs) # es)" "heap_ok lm' a s cs'" "quiet a s (allocs a cs) (mm_lm st) lm'"
  shows "heaps_ok pf (put_heap st (of_nat (length bs)) (heap_of a s cs', lm')) (bs @ (a, s, cs') # es)"
    and "kept (all_allocs (bs @ (a, s, cs) # es)) st (put_heap st i (h', lm'))"
proof -
  let ?hs = "bs @ (a, s, cs) # es" and ?hs' = "bs @ (a, s, cs') # es"
  have base: "heaps_base pf st ?hs" using assms(1) by (simp add: heaps_ok_def)
  have lim: "limit lm' = limit (mm_lm st)" using assms(3) by (simp add: quiet_def limit_def)
  have "(case ?hs' ! 1 of (a, s, cs) \<Rightarrow> a + s = x) = (case ?hs ! 1 of (a, s, cs) \<Rightarrow> a + s = x)" for x
    by (cases bs) (auto simp: nth_append nth_Cons')
  then show "heaps_ok pf (put_heap st (of_nat (length bs)) (heap_of a s cs', lm')) ?hs'"
    using assms(1) heaps_base_change(1) [OF base assms(2,3)] unfolding heaps_ok_def by (simp add: put_heap_def lim)
  show "kept (all_allocs ?hs) st (put_heap st i (h', lm'))" by (rule heaps_base_change(2) [OF base assms(2,3)])
qed

text \<open>A heap behind the others.\<close>

lemma heaps_base_new:
  assumes "heaps_base pf st hs" "length hs \<le> 1" "hs = [] \<or> mm_sbrk_initialized st" "ordered 0 hs a" "0 < a"
    and "a + s \<le> limit (mm_lm st)" "0 < s" "s mod 8 = 0"
  shows "heaps_base pf (put_heap st (of_nat (length hs)) (heap_of a s [], mm_lm st)) (hs @ [(a, s, [])])"
proof -
  have "limit (mm_lm st) < 2147483648" using assms(1) by (simp add: heaps_base_def limit_def)
  then have "heap_ok (mm_lm st) a s []" using assms by (simp add: heap_ok_def limit_def)
  moreover have "unat (of_nat (length hs) :: u32) = length hs" using assms(2) by (simp add: unat_of_nat_u32)
  moreover have "ordered 0 (hs @ [(a, s, [])]) (limit (mm_lm st))" using assms(4,6) by (auto simp: ordered_append)
  moreover have "(mm_heaps st)[length hs := heap_of a s []] = heaps_of (hs @ [(a, s, [])])"
    using assms(1,2) heaps_of_new [of hs a s] by (simp add: heaps_base_def)
  ultimately show ?thesis
    using assms unfolding heaps_base_def put_heap_def by auto
qed

text \<open>The last heap grows.\<close>

lemma heaps_base_expand:
  assumes "heaps_base pf st (bs @ [(a, s, cs)])" "a + s + d \<le> limit (mm_lm st)" "d mod 8 = 0"
  shows "heaps_base pf (put_heap st (of_nat (length bs)) (heap_of a (s + d) cs, mm_lm st)) (bs @ [(a, s + d, cs)])"
proof -
  let ?hs = "bs @ [(a, s, cs)]" and ?hs' = "bs @ [(a, s + d, cs)]"
  have "limit (mm_lm st) < 2147483648" using assms(1) by (simp add: heaps_base_def limit_def)
  moreover have ok: "heap_ok (mm_lm st) a s cs" "0 < s" using assms(1) by (simp_all add: heaps_base_def)
  moreover have "(s + d) mod 8 = 0"
    using ok(1) assms(3) unfolding heap_ok_def by (metis add.right_neutral mod_add_eq mod_0)
  ultimately have "heap_ok (mm_lm st) a (s + d) cs" using assms(2) by (simp add: heap_ok_def limit_def)
  moreover have "unat (of_nat (length bs) :: u32) = length bs" using assms(1) by (simp add: heaps_base_def unat_of_nat_u32)
  moreover have "ordered 0 ?hs' (limit (mm_lm st))" using assms(1,2) by (auto simp: heaps_base_def ordered_append)
  moreover have "(mm_heaps st)[length bs := heap_of a (s + d) cs] = heaps_of ?hs'"
    using assms(1) by (simp add: heaps_base_def heaps_of_update)
  ultimately show ?thesis
    using assms ok unfolding heaps_base_def put_heap_def by auto
qed

lemma kept_trans: "kept A st st1 \<Longrightarrow> kept B st1 st2 \<Longrightarrow> A \<subseteq> B \<Longrightarrow> kept A st st2"
proof -
  assume *: "kept A st st1" "kept B st1 st2" "A \<subseteq> B"
  have "alloc_data A \<subseteq> alloc_data B" using *(3) by (auto simp: alloc_data_def)
  with * show ?thesis unfolding kept_def using same_on_trans same_on_subset by (metis order_trans)
qed

lemma kept_same: "mm_lm st' = mm_lm st \<Longrightarrow> kept A st st'"
  by (simp add: kept_def)

section \<open>sbrk\<close>

definition sbrk_ok :: "memory_manager \<Rightarrow> bool" where
  "sbrk_ok st \<longleftrightarrow> unat (lm_pages (mm_lm st)) \<le> 32767
     \<and> (mm_sbrk_initialized st \<longrightarrow> mm_sbrk_bytes st = of_nat (limit (mm_lm st)))"

definition sbrk_done :: "memory_manager \<Rightarrow> memory_manager" where
  "sbrk_done st = st\<lparr>mm_sbrk_bytes := of_nat (limit (mm_lm st)), mm_sbrk_initialized := True\<rparr>"

definition one_page :: "memory_manager \<Rightarrow> memory_manager" where
  "one_page st = st\<lparr>mm_lm := (mm_lm st)\<lparr>lm_pages := lm_pages (mm_lm st) + 1\<rparr>, mm_sbrk_bytes := of_nat (limit (mm_lm st) + 65536)\<rparr>"

lemma pages_shift:
  assumes "n \<le> 32768"
  shows "drop_bit 16 (of_nat (n * 65536 + 65535) :: u32) = of_nat n"
proof (rule word_unat_eq_iff [THEN iffD2])
  have "unat (of_nat (n * 65536 + 65535) :: u32) = n * 65536 + 65535" "unat (of_nat n :: u32) = n"
    by (rule unat_of_nat_u32, use assms in simp)+
  then show "unat (drop_bit 16 (of_nat (n * 65536 + 65535) :: u32)) = unat (of_nat n :: u32)"
    by (simp only: unat_drop_bit_eq) (simp add: drop_bit_eq_div)
qed

lemma limit_word: "lm_pages lm * 65536 = of_nat (limit lm)"
  by (simp add: limit_def)

lemma sbrk_zero:
  assumes "sbrk_ok st"
  shows "sbrk pf 0 st = (of_nat (limit (mm_lm st)), sbrk_done st)"
proof -
  have "(of_nat (limit (mm_lm st)) + 65536 - 1 :: u32) = of_nat (unat (lm_pages (mm_lm st)) * 65536 + 65535)"
    by (simp add: limit_def)
  then have shift: "drop_bit 16 (65535 + of_nat (limit (mm_lm st)) :: u32) = lm_pages (mm_lm st)"
    using assms pages_shift [of "unat (lm_pages (mm_lm st))"] by (simp add: sbrk_ok_def add.commute)
  then show ?thesis
    using assms unfolding sbrk_def
    by (cases "mm_sbrk_initialized st") (simp_all add: sbrk_ok_def limit_word sbrk_done_def Let_def)
qed

lemma sbrk_page:
  assumes "sbrk_ok st"
  shows "sbrk pf 65536 (sbrk_done st) =
    (if pf_grow pf (lm_pages (mm_lm st)) 1 then (of_nat (limit (mm_lm st)), one_page (sbrk_done st)) else (- 1, sbrk_done st))"
proof -
  let ?n = "unat (lm_pages (mm_lm st))"
  have n: "?n \<le> 32767" using assms by (simp add: sbrk_ok_def)
  have "(of_nat (limit (mm_lm st)) + 65536 + 65536 - 1 :: u32) = of_nat (Suc ?n * 65536 + 65535)"
    by (simp add: limit_def)
  then have shift: "drop_bit 16 (of_nat (limit (mm_lm st)) + 65536 + 65536 - 1 :: u32) = lm_pages (mm_lm st) + 1"
    using pages_shift [of "Suc ?n"] n by (simp add: add.commute)
  have less: "lm_pages (mm_lm st) < lm_pages (mm_lm st) + 1"
    using n less_of_nat32 [of ?n "Suc ?n"] by (simp add: add.commute)
  have "(65536 + 7 :: u32) AND NOT 7 = 65536" by simp
  with shift less show ?thesis
    unfolding sbrk_def by (simp add: sbrk_done_def one_page_def Let_def limit_word)
qed

lemma limit_one_page:
  assumes "unat (lm_pages (mm_lm st)) \<le> 32766"
  shows "unat (lm_pages (mm_lm (one_page st))) = Suc (unat (lm_pages (mm_lm st)))"
    "limit (mm_lm (one_page st)) = limit (mm_lm st) + 65536"
proof -
  have "lm_pages (mm_lm (one_page st)) = of_nat (Suc (unat (lm_pages (mm_lm st))))"
    by (simp add: one_page_def)
  then show *: "unat (lm_pages (mm_lm (one_page st))) = Suc (unat (lm_pages (mm_lm st)))"
    using assms unat_of_nat_u32 [of "Suc (unat (lm_pages (mm_lm st)))"] by (simp only:) simp
  show "limit (mm_lm (one_page st)) = limit (mm_lm st) + 65536" unfolding limit_def * by simp
qed

lemma heaps_base_done: "heaps_base pf st hs \<Longrightarrow> heaps_base pf (sbrk_done st) hs"
  by (simp add: heaps_base_def sbrk_done_def)

lemma heaps_base_page:
  assumes "heaps_base pf st hs" "mm_sbrk_initialized st" "unat (lm_pages (mm_lm st)) \<le> 32766"
  shows "heaps_base pf (one_page st) hs"
proof -
  note lim = limit_one_page [OF assms(3)]
  have "heap_ok (mm_lm (one_page st)) a s cs" if "heap_ok (mm_lm st) a s cs" for a s cs
    using that lim by (simp add: heap_ok_def) (simp add: one_page_def)
  moreover have "ordered 0 hs (limit (mm_lm (one_page st)))"
    using assms(1) lim(2) by (auto simp: heaps_base_def intro: ordered_mono)
  moreover have "mm_sbrk_bytes (one_page st) = of_nat (limit (mm_lm (one_page st)))"
    unfolding lim(2) by (simp add: one_page_def)
  moreover have "mm_heaps (one_page st) = mm_heaps st" "mm_sbrk_initialized (one_page st) = mm_sbrk_initialized st"
    by (simp_all add: one_page_def)
  ultimately show ?thesis
    using assms lim unfolding heaps_base_def by auto
qed

section \<open>The next heap\<close>

lemma ucast_nonneg: "\<not> sint (ucast (w :: u32) :: u64) < 0"
proof -
  have "\<not> bit (ucast w :: u64) 63" using bit_imp_le_length [of w 63] by (auto simp: bit_simps)
  then show ?thesis by (simp add: word_sless_alt flip: bit_last_iff)
qed

lemma limit_mod: "(of_nat (limit lm) :: u32) mod 65536 = 0"
proof -
  have "unat (of_nat (limit lm) :: u32) mod 65536 = 0"
    unfolding unat_of_nat limit_def by (simp add: mod_mult_mult2 mod_mod_cancel)
  then show ?thesis by (simp add: word_unat_eq_iff unat_mod)
qed

text \<open>Every heap is extended by one page, or memory is exhausted.\<close>

lemma next_active_heap_unfold:
  assumes "sbrk_ok st" "mm_heaps st = heaps_of (bs @ [(a, s, cs)])" "length bs \<le> 1" "mm_active_heap st = of_nat (length bs)"
  shows "next_active_heap pf st =
    (let (start, st) = (if pf_grow pf (lm_pages (mm_lm st)) 1 then (of_nat (limit (mm_lm st)), one_page (sbrk_done st))
                        else (- 1, sbrk_done st));
         current = of_nat (length bs); h = heap_of a s cs in
     if pf_int64 pf start = - 1
     then bindr (cleanup_remaining (mm_lm st) h) (\<lambda>r.
          let st = put_heap st current r; st = st\<lparr>mm_active_heap := mm_active_heap st + 1\<rparr> in
          Inr (None, st\<lparr>mm_heaps_actual_size := mm_active_heap st\<rparr>))
     else if of_nat (a + s) = start then Inr (Some current, put_heap st current (heap_of a (s + 65536) cs, mm_lm st))
     else bindr (cleanup_remaining (mm_lm st) h) (\<lambda>r.
          let st = put_heap st current r; st = st\<lparr>mm_active_heap := mm_active_heap st + 1\<rparr> in
          Inr (Some (of_nat (length bs) + 1),
            put_heap st (of_nat (length bs) + 1) (\<lparr>heap_size = 65536, heap_base = start, heap_offset = 0\<rparr>, mm_lm st))))"
proof -
  have get: "get_heap (one_page (sbrk_done st)) (of_nat (length bs)) = Inr (heap_of a s cs)"
    "get_heap (sbrk_done st) (of_nat (length bs)) = Inr (heap_of a s cs)"
    using assms(2,3) by (simp_all add: get_heap_def one_page_def sbrk_done_def heaps_of_nth unat_of_nat_u32)
  have new: "get_heap (put_heap st' (of_nat (length bs)) r\<lparr>mm_active_heap := x\<rparr>) (of_nat (length bs) + 1) = Inr heap_default"
    if "mm_heaps st' = heaps_of (bs @ [(a, s, cs)])" for st' r x
  proof -
    have "unat (of_nat (Suc (length bs)) :: u32) = Suc (length bs)" using assms(3) by (intro unat_of_nat_u32) simp
    moreover have "unat (of_nat (length bs) :: u32) = length bs" using assms(3) by (intro unat_of_nat_u32) simp
    ultimately show ?thesis
      using assms(3) that by (simp add: get_heap_def put_heap_def heaps_of_def nth_append add.commute list_update_append)
  qed
  have fields: "mm_active_heap (one_page st') = mm_active_heap st'" "mm_heaps (one_page st') = mm_heaps st'"
    "mm_active_heap (sbrk_done st') = mm_active_heap st'" "mm_heaps (sbrk_done st') = mm_heaps st'" 
    "mm_active_heap (put_heap st' i r) = mm_active_heap st'" for st' i r
    by (simp_all add: one_page_def sbrk_done_def put_heap_def)
  have "expand_memory (heap_of a s cs) start 65536 = (if of_nat (a + s) = start then (True, heap_of a (s + 65536) cs) else (False, heap_of a s cs))" for start
    by (simp add: expand_memory_def heap_of_def)
  note simps = get new this fields assms(2,4) ucast_nonneg sbrk_page [OF assms(1)] heap_init_def heap_default_def
  show ?thesis
    unfolding next_active_heap_def Let_def sbrk_zero [OF assms(1)] split limit_mod
    by (cases "pf_grow pf (lm_pages (mm_lm st)) 1"; cases "of_nat (a + s) = of_nat (limit (mm_lm st))") (simp_all add: simps)
qed

lemma put_heap_simps [simp]:
  "mm_active_heap (put_heap st i r) = mm_active_heap st" "mm_heaps_actual_size (put_heap st i r) = mm_heaps_actual_size st"
  "mm_active_free_heap (put_heap st i r) = mm_active_free_heap st" "mm_lm (put_heap st i r) = snd r"
  "mm_sbrk_initialized (put_heap st i r) = mm_sbrk_initialized st" "mm_sbrk_bytes (put_heap st i r) = mm_sbrk_bytes st"
  by (simp_all add: put_heap_def)

lemma page_simps [simp]:
  "mm_active_heap (one_page st) = mm_active_heap st" "mm_heaps_actual_size (one_page st) = mm_heaps_actual_size st"
  "mm_active_free_heap (one_page st) = mm_active_free_heap st" "lm_bytes (mm_lm (one_page st)) = lm_bytes (mm_lm st)"
  "mm_sbrk_initialized (one_page st) = mm_sbrk_initialized st" "mm_heaps (one_page st) = mm_heaps st"
  "mm_active_heap (sbrk_done st) = mm_active_heap st" "mm_heaps_actual_size (sbrk_done st) = mm_heaps_actual_size st"
  "mm_active_free_heap (sbrk_done st) = mm_active_free_heap st" "mm_lm (sbrk_done st) = mm_lm st"
  "mm_sbrk_initialized (sbrk_done st)" "mm_heaps (sbrk_done st) = mm_heaps st"
  by (simp_all add: one_page_def sbrk_done_def)

lemma heaps_base_cong:
  assumes "heaps_base pf st hs" "mm_lm st' = mm_lm st" "mm_heaps st' = mm_heaps st"
    "mm_sbrk_initialized st' = mm_sbrk_initialized st" "mm_sbrk_bytes st' = mm_sbrk_bytes st"
  shows "heaps_base pf st' hs"
  using assms(1) unfolding heaps_base_def assms(2-5) .

lemma heaps_base_sbrk: "heaps_base pf st hs \<Longrightarrow> sbrk_ok st"
  by (auto simp: heaps_base_def sbrk_ok_def split: if_splits)

lemma kept_page: "unat (lm_pages (mm_lm st)) \<le> 32766 \<Longrightarrow> kept A st (one_page (sbrk_done st))"
  using limit_one_page(1) [of "sbrk_done st"] by (simp add: kept_def word_le_nat_alt)

text \<open>A second heap behind the initial one.\<close>

definition second_heap :: "memory_manager \<Rightarrow> heap \<Rightarrow> nat \<Rightarrow> lmem \<Rightarrow> memory_manager" where
  "second_heap st h x lm = put_heap (put_heap st 0 (h, lm)\<lparr>mm_active_heap := 1\<rparr>) 1 (heap_of x 65536 [], lm)"

lemma second_heap_ok:
  assumes base: "heaps_base pf st [(a, s, cs)]" and init: "mm_sbrk_initialized st"
    and x: "a + s \<le> x" "limit (mm_lm st) = x + 65536"
  shows "\<exists>lm' cs'. cleanup_remaining (mm_lm st) (heap_of a s cs) = Inr (heap_of a s cs', lm') \<and> extent cs' = s
    \<and> allocs a cs' = allocs a cs \<and> lm_pages lm' = lm_pages (mm_lm st)
    \<and> heaps_ok pf (second_heap st (heap_of a s cs') x lm') [(a, s, cs'), (x, 65536, [])]
    \<and> kept (allocs a cs) st (second_heap st (heap_of a s cs') x lm')"
proof -
  have "heap_ok (mm_lm st) a s cs" using base by (simp add: heaps_base_def)
  from cleanup_ok [OF this] obtain lm' cs' where
      c: "cleanup_remaining (mm_lm st) (heap_of a s cs) = Inr (heap_of a s cs', lm')" "heap_ok lm' a s cs'"
      "extent cs' = s" "allocs a cs' = allocs a cs" "quiet a s (allocs a cs) (mm_lm st) lm'" by blast
  let ?st1 = "put_heap st 0 (heap_of a s cs', lm')" and ?st2 = "put_heap st 0 (heap_of a s cs', lm')\<lparr>mm_active_heap := 1\<rparr>"
  note change = heaps_base_change [of pf st "[]" a s cs "[]", simplified, OF base c(2,5)]
  have lim: "limit lm' = x + 65536" "lm_pages lm' = lm_pages (mm_lm st)" using c(5) x by (simp_all add: quiet_def limit_def)
  have "heaps_base pf ?st2 [(a, s, cs')]" by (rule heaps_base_cong [OF change(1)]) simp_all
  then have "heaps_base pf (put_heap ?st2 (of_nat (length [(a, s, cs')])) (heap_of x 65536 [], mm_lm ?st2)) ([(a, s, cs')] @ [(x, 65536, [])])"
    by (rule heaps_base_new) (use x init lim heap_ok_bounds [OF c(2)] in auto)
  then have "heaps_ok pf (second_heap st (heap_of a s cs') x lm') [(a, s, cs'), (x, 65536, [])]"
    using lim by (simp add: heaps_ok_def second_heap_def)
  moreover have "kept (allocs a cs) st (second_heap st (heap_of a s cs') x lm')"
    using kept_trans [OF change(2) kept_same [of _ ?st1 "allocs a cs"]] by (simp add: all_allocs_simps second_heap_def)
  ultimately show ?thesis using c lim by blast
qed

text \<open>When the page is granted, the last heap has room for it.\<close>

definition grown :: "platform \<Rightarrow> heap_state list \<Rightarrow> memory_manager \<Rightarrow> (u32 option \<times> memory_manager) res \<Rightarrow> bool" where
  "grown pf hs st r \<longleftrightarrow> (\<exists>bs a s cs st'. r = Inr (Some (of_nat (length bs)), st') \<and> heaps_ok pf st' (bs @ [(a, s, cs)])
     \<and> running st' (bs @ [(a, s, cs)]) \<and> all_allocs (bs @ [(a, s, cs)]) = all_allocs hs \<and> kept (all_allocs hs) st st'
     \<and> unat (lm_pages (mm_lm st')) = Suc (unat (lm_pages (mm_lm st))) \<and> a + s = limit (mm_lm st')
     \<and> extent cs + 65536 + (case last hs of (a, s, cs) \<Rightarrow> if a + s = limit (mm_lm st) then s - extent cs else 0) \<le> s)"

lemma next_heap_grown:
  assumes laws: "platform_laws pf" and ok: "heaps_ok pf st (bs @ [(a, s, cs)])" and run: "running st (bs @ [(a, s, cs)])"
    and grow: "pf_grow pf (lm_pages (mm_lm st)) 1"
  shows "grown pf (bs @ [(a, s, cs)]) st (next_active_heap pf st)"
proof -
  let ?hs = "bs @ [(a, s, cs)]" and ?st1 = "one_page (sbrk_done st)" and ?L = "limit (mm_lm st)"
  have base: "heaps_base pf st ?hs" using ok by (simp add: heaps_ok_def)
  have pages: "unat (lm_pages (mm_lm st)) \<le> 32766" using laws grow by (fastforce simp: platform_laws_def)
  note lim = limit_one_page [of "sbrk_done st", simplified, OF pages]
  have base1: "heaps_base pf ?st1 ?hs" using heaps_base_page [OF heaps_base_done [OF base]] pages by simp
  have len: "length bs \<le> 1" and heaps: "mm_heaps st = heaps_of ?hs" using base by (simp_all add: heaps_base_def)
  have active: "mm_active_heap st = of_nat (length bs)" using run by (simp add: running_def)
  have L: "?L < 2147483648" "a + s \<le> ?L" using pages base by (auto simp: limit_def heaps_base_def ordered_append)
  have ok_as: "heap_ok (mm_lm ?st1) a s cs" using base1 by (simp add: heaps_base_def)
  have conv: "pf_int64 pf (of_nat ?L) \<noteq> - 1" using laws L(1) unat_of_nat_u32 [of ?L] by (simp add: platform_laws_def)
  have eq: "of_nat (a + s) = (of_nat ?L :: u32) \<longleftrightarrow> a + s = ?L" using L of_nat_u32_eq_iff [of "a + s" ?L] by simp
  note unfold = next_active_heap_unfold [OF heaps_base_sbrk [OF base] heaps len active, of pf]
  show ?thesis
  proof (cases "a + s = ?L")
    case True
    let ?st2 = "put_heap ?st1 (of_nat (length bs)) (heap_of a (s + 65536) cs, mm_lm ?st1)"
    have next_eq: "next_active_heap pf st = Inr (Some (of_nat (length bs)), ?st2)"
      unfolding unfold using grow conv eq True by (simp add: Let_def)
    have "heaps_base pf ?st2 (bs @ [(a, s + 65536, cs)])" using True lim(2) by (intro heaps_base_expand [OF base1]) simp_all
    then have "heaps_ok pf ?st2 (bs @ [(a, s + 65536, cs)])"
      using True lim(2) len by (cases bs) (auto simp: heaps_ok_def)
    moreover have "running ?st2 (bs @ [(a, s + 65536, cs)])" using run by (simp add: running_def)
    moreover have "kept (all_allocs ?hs) st ?st2"
      using kept_trans [OF kept_page [OF pages] kept_same [of ?st2 ?st1]] by auto
    ultimately show ?thesis
      unfolding next_eq grown_def using True lim heap_ok_bounds [OF ok_as]
      by (intro exI [of _ bs] exI [of _ a] exI [of _ "s + 65536"] exI [of _ cs] exI [of _ ?st2]) (simp add: all_allocs_simps)
  next
    case False
    then have "bs = []" using ok len by (cases bs) (auto simp: heaps_ok_def)
    then obtain lm' cs' where c: "cleanup_remaining (mm_lm ?st1) (heap_of a s cs) = Inr (heap_of a s cs', lm')"
        "extent cs' = s" "allocs a cs' = allocs a cs" "lm_pages lm' = lm_pages (mm_lm ?st1)"
        and ok3: "heaps_ok pf (second_heap ?st1 (heap_of a s cs') ?L lm') [(a, s, cs'), (?L, 65536, [])]"
        and k: "kept (allocs a cs) ?st1 (second_heap ?st1 (heap_of a s cs') ?L lm')"
      using second_heap_ok [of pf ?st1 a s cs ?L] base1 L(2) lim(2) by auto
    let ?st3 = "second_heap ?st1 (heap_of a s cs') ?L lm'"
    have next_eq: "next_active_heap pf st = Inr (Some (of_nat (length [(a, s, cs')])), ?st3)"
      unfolding unfold second_heap_def using grow conv eq False c(1) active \<open>bs = []\<close> by (simp add: heap_of_def Let_def)
    have "running ?st3 ([(a, s, cs')] @ [(?L, 65536, [])])" using run c(2) by (simp add: running_def full_def second_heap_def)
    moreover have "kept (all_allocs ?hs) st ?st3" using kept_trans [OF kept_page [OF pages] k] \<open>bs = []\<close> by (simp add: all_allocs_simps)
    ultimately show ?thesis
      unfolding next_eq grown_def using False lim c(3,4) ok3 \<open>bs = []\<close>
      by (intro exI [of _ "[(a, s, cs')]"] exI [of _ ?L] exI [of _ 65536] exI [of _ "[]"] exI [of _ ?st3]) (simp add: all_allocs_simps second_heap_def limit_def)
  qed
qed

lemma heaps_ok_cong:
  assumes "heaps_ok pf st hs" "mm_lm st' = mm_lm st" "mm_heaps st' = mm_heaps st"
    "mm_sbrk_initialized st' = mm_sbrk_initialized st" "mm_sbrk_bytes st' = mm_sbrk_bytes st"
  shows "heaps_ok pf st' hs"
  using assms(1) heaps_base_cong [OF _ assms(2-5)] unfolding heaps_ok_def assms(2) by simp

lemma heaps_ok_done: "heaps_ok pf st hs \<Longrightarrow> heaps_ok pf (sbrk_done st) hs"
  by (simp add: heaps_ok_def heaps_base_done)

lemma next_heap_exhausted:
  assumes ok: "heaps_ok pf st (bs @ [(a, s, cs)])" and run: "running st (bs @ [(a, s, cs)])"
    and refuse: "\<not> pf_grow pf (lm_pages (mm_lm st)) 1" and conv: "pf_int64 pf (- 1) = - 1"
  shows "\<exists>st' hs'. next_active_heap pf st = Inr (None, st') \<and> heaps_ok pf st' hs' \<and> exhausted st' hs'
    \<and> all_allocs hs' = all_allocs (bs @ [(a, s, cs)]) \<and> kept (all_allocs hs') st st'"
proof -
  let ?hs = "bs @ [(a, s, cs)]" and ?st1 = "sbrk_done st"
  have ok1: "heaps_ok pf ?st1 (bs @ [(a, s, cs)])" using ok by (rule heaps_ok_done)
  have base: "heaps_base pf st ?hs" using ok by (simp add: heaps_ok_def)
  have len: "length bs \<le> 1" and heaps: "mm_heaps st = heaps_of ?hs" using base by (simp_all add: heaps_base_def)
  have active: "mm_active_heap st = of_nat (length bs)" using run by (simp add: running_def)
  have "heap_ok (mm_lm ?st1) a s cs" using base by (simp add: heaps_base_def)
  from cleanup_ok [OF this] obtain lm' cs' where
      c: "cleanup_remaining (mm_lm ?st1) (heap_of a s cs) = Inr (heap_of a s cs', lm')" "heap_ok lm' a s cs'"
      "extent cs' = s" "allocs a cs' = allocs a cs" "quiet a s (allocs a cs) (mm_lm ?st1) lm'" by blast
  let ?st2 = "put_heap ?st1 (of_nat (length bs)) (heap_of a s cs', lm')"
  let ?st3 = "?st2\<lparr>mm_active_heap := of_nat (length bs) + 1, mm_heaps_actual_size := of_nat (length bs) + 1\<rparr>"
  note change = heaps_ok_change [OF ok1 c(2,5)]
  have "next_active_heap pf st = Inr (None, ?st3)"
    unfolding next_active_heap_unfold [OF heaps_base_sbrk [OF base] heaps len active]
    using refuse conv c(1) active by (simp add: Let_def)
  moreover have "heaps_ok pf ?st3 (bs @ [(a, s, cs')])" by (rule heaps_ok_cong [OF change(1)]) simp_all
  moreover have "exhausted ?st3 (bs @ [(a, s, cs')])"
    using run c(3) by (auto simp: exhausted_def running_def full_def)
  moreover have "all_allocs (bs @ [(a, s, cs')]) = all_allocs ?hs" using c(4) by (simp add: all_allocs_simps)
  moreover have "kept (all_allocs ?hs) st ?st2"
    using kept_trans [OF kept_same [of ?st1 st] change(2)] by auto
  then have "kept (all_allocs ?hs) st ?st3" by (rule kept_trans [OF _ kept_same]) auto
  ultimately show ?thesis by metis
qed

text \<open>
  When the conversion does not yield \<open>-1\<close> for the failure of \<open>sbrk\<close>, a heap at the last
  address is set up; any use of it traps.
\<close>

definition trapped :: "platform \<Rightarrow> u32 \<Rightarrow> memory_manager \<Rightarrow> bool" where
  "trapped pf i st \<longleftrightarrow> sbrk_ok st \<and> \<not> pf_grow pf (lm_pages (mm_lm st)) 1 \<and> pf_int64 pf (- 1) \<noteq> - 1 \<and> mm_active_heap st = i
     \<and> get_heap st i = Inr \<lparr>heap_size = 65536, heap_base = - 1, heap_offset = 0\<rparr>"

lemma unat_last: "unat (- 1 :: u32) = 4294967295"
proof -
  have *: "(- 1 :: u32) = of_nat 4294967295" by simp
  show ?thesis unfolding * by (rule unat_of_nat_u32) simp
qed

lemma put_heap_same: "get_heap st i = Inr h \<Longrightarrow> put_heap st i (h, mm_lm st) = st"
  by (cases st) (auto simp: get_heap_def put_heap_def split: if_splits)

lemma last_address_traps: "sbrk_ok st \<Longrightarrow> load_size (mm_lm st) (- 1) = Inl (Undefined ''out of bounds memory access'')"
  by (auto simp: load_size_def in_memory_iff sbrk_ok_def unat_last)

lemma trapped_next:
  assumes "trapped pf i st"
  shows "next_active_heap pf st = Inl (Undefined ''out of bounds memory access'')"
proof -
  have get: "get_heap (sbrk_done st) i = get_heap st i" by (simp add: get_heap_def)
  have "cleanup_remaining (mm_lm st) \<lparr>heap_size = 65536, heap_base = - 1, heap_offset = 0\<rparr> = Inl (Undefined ''out of bounds memory access'')"
    using assms last_address_traps [of st]
    by (simp add: trapped_def cleanup_remaining_def buffer_make_def buffer_set_size_def size_marker_def)
  then show ?thesis
    using assms unfolding next_active_heap_def Let_def trapped_def
    by (simp add: sbrk_zero limit_mod ucast_nonneg sbrk_page get expand_memory_def)
qed

lemma trapped_malloc:
  assumes "trapped pf i st"
  shows "malloc_loop pf sz (Some i) st = Some (Inl (Undefined ''out of bounds memory access''))"
proof (cases "sz + 4 > 65536")
  case True
  have "put_heap st i (\<lparr>heap_size = 65536, heap_base = - 1, heap_offset = 0\<rparr>, mm_lm st) = st"
    using assms by (intro put_heap_same) (simp add: trapped_def)
  then show ?thesis
    using assms True trapped_next [OF assms]
    by (subst malloc_loop.simps) (simp add: trapped_def heap_malloc_def size_marker_def)
next
  case False
  then have "heap_malloc (mm_lm st) \<lparr>heap_size = 65536, heap_base = - 1, heap_offset = 0\<rparr> sz = Inl (Undefined ''out of bounds memory access'')"
    using assms last_address_traps [of st]
    by (simp add: trapped_def heap_malloc_def buffer_make_def buffer_set_size_def size_marker_def)
  then show ?thesis using assms by (subst malloc_loop.simps) (simp add: trapped_def)
qed

lemma next_heap_trapped:
  assumes ok: "heaps_ok pf st (bs @ [(a, s, cs)])" and run: "running st (bs @ [(a, s, cs)])"
    and refuse: "\<not> pf_grow pf (lm_pages (mm_lm st)) 1" and conv: "pf_int64 pf (- 1) \<noteq> - 1"
  shows "\<exists>st' i. next_active_heap pf st = Inr (Some i, st') \<and> trapped pf i st'"
proof -
  let ?hs = "bs @ [(a, s, cs)]" and ?st1 = "sbrk_done st" and ?i = "of_nat (length bs) + 1 :: u32"
  have base: "heaps_base pf st ?hs" using ok by (simp add: heaps_ok_def)
  have base1: "heaps_base pf ?st1 ?hs" using base by (rule heaps_base_done)
  have len: "length bs \<le> 1" and heaps: "mm_heaps st = heaps_of ?hs" using base by (simp_all add: heaps_base_def)
  have active: "mm_active_heap st = of_nat (length bs)" using run by (simp add: running_def)
  have ok_as: "heap_ok (mm_lm ?st1) a s cs" using base by (simp add: heaps_base_def)
  obtain lm' cs' where
      c: "cleanup_remaining (mm_lm ?st1) (heap_of a s cs) = Inr (heap_of a s cs', lm')" "heap_ok lm' a s cs'"
      "extent cs' = s" "allocs a cs' = allocs a cs" "quiet a s (allocs a cs) (mm_lm ?st1) lm'"
    using cleanup_ok [OF ok_as] by blast
  let ?st2 = "put_heap ?st1 (of_nat (length bs)) (heap_of a s cs', lm')"
  let ?st3 = "put_heap (?st2\<lparr>mm_active_heap := ?i\<rparr>) ?i (\<lparr>heap_size = 65536, heap_base = - 1, heap_offset = 0\<rparr>, lm')"
  have "(of_nat (a + s) :: u32) \<noteq> - 1"
    using heap_ok_bounds [OF ok_as] unat_of_nat_u32 [of "a + s"] by (auto simp: unat_last simp del: of_nat_add)
  then have "next_active_heap pf st = Inr (Some ?i, ?st3)"
    unfolding next_active_heap_unfold [OF heaps_base_sbrk [OF base] heaps len active]
    using refuse conv c(1) active by (simp add: Let_def)
  moreover have "heaps_base pf ?st2 (bs @ [(a, s, cs')])" by (rule heaps_base_change(1) [OF base1 c(2,5)])
  then have "sbrk_ok ?st3" "length (mm_heaps ?st2) = 16"
    using heaps_base_sbrk [of pf ?st2] by (simp_all add: sbrk_ok_def heaps_base_def)
  moreover have "unat ?i = Suc (length bs)" using len unat_of_nat_u32 [of "Suc (length bs)"] by (simp add: add.commute)
  ultimately have "trapped pf ?i ?st3"
    using refuse conv len c(5) by (simp add: trapped_def get_heap_def quiet_def) (simp add: put_heap_def)
  with \<open>next_active_heap pf st = Inr (Some ?i, ?st3)\<close> show ?thesis by blast
qed

section \<open>The loop of malloc\<close>

text \<open>The platform refused a page although less than the wanted bytes had been added to \<open>p0\<close> pages.\<close>

definition refused :: "platform \<Rightarrow> nat \<Rightarrow> nat \<Rightarrow> bool" where
  "refused pf p0 sz \<longleftrightarrow> (\<exists>q\<ge>p0. (q - p0) * 65536 < sz + 4 \<and> \<not> pf_grow pf (of_nat q) 1)"

definition loop_result :: "platform \<Rightarrow> nat \<Rightarrow> nat \<Rightarrow> (nat \<times> nat) set \<Rightarrow> memory_manager \<Rightarrow> (u32 \<times> memory_manager) res \<Rightarrow> bool" where
  "loop_result pf p0 sz A st r = (case r of
     Inl e \<Rightarrow> e = Undefined ''out of bounds memory access'' \<and> pf_int64 pf (- 1) \<noteq> - 1 \<and> refused pf p0 sz
   | Inr (p, st') \<Rightarrow> kept A st st' \<and> (\<exists>hs. heaps_ok pf st' hs
       \<and> (if p = 0 then exhausted st' hs \<and> all_allocs hs = A \<and> refused pf p0 sz \<and> pf_int64 pf (- 1) = - 1
          else running st' hs \<and> (unat p, sz) \<notin> A \<and> all_allocs hs = insert (unat p, sz) A)))"

lemma loop_result_kept:
  assumes "loop_result pf p0 sz A st1 r" "kept A st st1"
  shows "loop_result pf p0 sz A st r"
  using assms kept_trans [OF assms(2)] unfolding loop_result_def
  by (auto split: sum.splits prod.splits)

lemma other_allocs:
  assumes base: "heaps_base pf st (bs @ (a, s, cs) # es)" and ok: "heap_ok lm' a s cs'"
    and pn: "(p, n) \<in> allocs a cs'" "n mod 8 = 4"
  shows "(p, n) \<notin> all_allocs bs \<union> all_allocs es"
proof
  assume "(p, n) \<in> all_allocs bs \<union> all_allocs es"
  then have "(p, n) \<in> all_allocs (bs @ es)" by (simp add: all_allocs_simps)
  then obtain a1 s1 cs1 where h1: "(a1, s1, cs1) \<in> set (bs @ es)" "(p, n) \<in> allocs a1 cs1" by (rule all_allocsE)
  then have h: "(a1, s1, cs1) \<in> set bs \<union> set es" by simp
  have "heap_ok (mm_lm st) a1 s1 cs1" using base h unfolding heaps_base_def by auto
  from heap_alloc_range [OF this h1(2)] heap_alloc_range [OF ok pn(1)] have "p \<in> {a1..<a1 + s1} \<inter> {a..<a + s}"
    using pn(2) by (cases n) auto
  moreover have "{a1..<a1 + s1} \<inter> {a..<a + s} = {}"
    using base h by (intro same_ordered [of 0 bs a s cs es "limit (mm_lm st)"]) (auto simp: heaps_base_def)
  ultimately show False by blast
qed

lemma fresh_alloc:
  assumes "heaps_base pf st (bs @ (a, s, cs) # es)" "heap_ok lm' a s cs'" "(p, n) \<in> allocs a cs'" "(p, n) \<notin> allocs a cs" "n mod 8 = 4"
  shows "(p, n) \<notin> all_allocs (bs @ (a, s, cs) # es)"
  using other_allocs [OF assms(1-3,5)] assms(4) by (auto simp: all_allocs_simps)

lemma malloc_last:
  assumes ok: "heaps_ok pf st (bs @ [(a, s, cs)])" and run: "running st (bs @ [(a, s, cs)])"
    and room: "extent cs + sz + 4 \<le> s" and sz: "sz mod 8 = 4"
  shows "\<exists>r. malloc_loop pf (of_nat sz) (Some (of_nat (length bs))) st = Some r
    \<and> loop_result pf p0 sz (all_allocs (bs @ [(a, s, cs)])) st r"
proof -
  let ?hs = "bs @ [(a, s, cs)]" and ?hs' = "bs @ [(a, s, cs @ [(sz, True)])]" and ?p = "a + extent cs + 4"
  have base: "heaps_base pf st ?hs" using ok by (simp add: heaps_ok_def)
  then have len: "length bs \<le> 1" and heaps: "mm_heaps st = heaps_of ?hs" and okh: "heap_ok (mm_lm st) a s cs"
    by (simp_all add: heaps_base_def)
  note b = heap_ok_bounds [OF okh]
  have "chunk_ok (sz, True)" using sz room b by (simp add: chunk_ok_def)
  from heap_malloc_room [OF okh room this] obtain lm' where
      m: "heap_malloc (mm_lm st) (heap_of a s cs) (of_nat sz) = Inr (of_nat ?p, heap_of a s (cs @ [(sz, True)]), lm')"
      "heap_ok lm' a s (cs @ [(sz, True)])" "quiet a s (allocs a cs) (mm_lm st) lm'" by blast
  note change = heaps_ok_change [OF ok m(2,3)]
  let ?st' = "put_heap st (of_nat (length bs)) (heap_of a s (cs @ [(sz, True)]), lm')"
  have p: "unat (of_nat ?p :: u32) = ?p" by (rule unat_of_nat_u32) (use b room in simp)
  then have p0: "(of_nat ?p :: u32) \<noteq> 0" by (metis add_is_0 unat_0 zero_neq_numeral)
  have "get_heap st (of_nat (length bs)) = Inr (heap_of a s cs)"
    using heaps len by (simp add: get_heap_def heaps_of_nth unat_of_nat_u32)
  then have "malloc_loop pf (of_nat sz) (Some (of_nat (length bs))) st = Some (Inr (of_nat ?p, ?st'))"
    using m(1) p0 by (subst malloc_loop.simps) simp
  moreover have "running ?st' ?hs'" using run by (simp add: running_def)
  moreover have "all_allocs ?hs' = insert (?p, sz) (all_allocs ?hs)" by (auto simp: all_allocs_simps allocs_append)
  moreover have "(?p, sz) \<notin> all_allocs ?hs"
    using base m(2) by (rule fresh_alloc [of pf st bs a s cs "[]"]) (use sz allocs_range [of ?p sz a cs] in \<open>auto simp: allocs_append\<close>)
  ultimately show ?thesis
    using change p0 unfolding loop_result_def by (auto simp: p simp del: of_nat_add)
qed

lemma malloc_refused:
  assumes ok: "heaps_ok pf st (bs @ [(a, s, cs)])" and run: "running st (bs @ [(a, s, cs)])"
    and grow: "\<not> pf_grow pf (lm_pages (mm_lm st)) 1" and r: "refused pf p0 sz"
  shows "\<exists>r. (case next_active_heap pf st of Inl e \<Rightarrow> Some (Inl e) | Inr (current, st) \<Rightarrow> malloc_loop pf (of_nat sz) current st) = Some r
    \<and> loop_result pf p0 sz (all_allocs (bs @ [(a, s, cs)])) st r"
proof (cases "pf_int64 pf (- 1) = - 1")
  case True
  with next_heap_exhausted [OF ok run grow] obtain st' hs' where
      n: "next_active_heap pf st = Inr (None, st')" "heaps_ok pf st' hs'" "exhausted st' hs'"
      "all_allocs hs' = all_allocs (bs @ [(a, s, cs)])" "kept (all_allocs hs') st st'" by blast
  have "malloc_loop pf (of_nat sz) None st' = Some (Inr (0, st'))" by (subst malloc_loop.simps) simp
  then show ?thesis using n r True by (auto simp: loop_result_def)
next
  case False
  with next_heap_trapped [OF ok run grow] obtain st' i where "next_active_heap pf st = Inr (Some i, st')" "trapped pf i st'"
    by blast
  then show ?thesis using trapped_malloc [of pf i st' "of_nat sz"] False r by (simp add: loop_result_def)
qed

lemma malloc_loop_ok:
  assumes laws: "platform_laws pf" and sz: "sz mod 8 = 4" "sz + 4 \<le> 2147483648"
  shows "heaps_ok pf st (bs @ [(a, s, cs)]) \<Longrightarrow> running st (bs @ [(a, s, cs)]) \<Longrightarrow>
    p0 = unat (lm_pages (mm_lm st)) \<or> a + s = limit (mm_lm st) \<and> p0 \<le> unat (lm_pages (mm_lm st))
      \<and> (unat (lm_pages (mm_lm st)) - p0) * 65536 \<le> s - extent cs \<Longrightarrow>
    \<exists>r. malloc_loop pf (of_nat sz) (Some (of_nat (length bs))) st = Some r
      \<and> loop_result pf p0 sz (all_allocs (bs @ [(a, s, cs)])) st r"
proof (induction "32767 - unat (lm_pages (mm_lm st))" arbitrary: st bs a s cs rule: less_induct)
  case less
  note ok = less.prems(1) and run = less.prems(2) and p0 = less.prems(3)
  let ?hs = "bs @ [(a, s, cs)]" and ?n = "unat (lm_pages (mm_lm st))"
  have base: "heaps_base pf st ?hs" using ok by (simp add: heaps_ok_def)
  then have len: "length bs \<le> 1" and heaps: "mm_heaps st = heaps_of ?hs" and okh: "heap_ok (mm_lm st) a s cs"
    and pages: "?n \<le> 32767" by (simp_all add: heaps_base_def)
  show ?case
  proof (cases "extent cs + sz + 4 \<le> s")
    case True
    then show ?thesis by (rule malloc_last [OF ok run _ sz(1)])
  next
    case False
    then have m: "heap_malloc (mm_lm st) (heap_of a s cs) (of_nat sz) = Inr (0, heap_of a s cs, mm_lm st)"
      by (intro heap_malloc_full [OF okh _ sz(2)]) simp
    have get: "get_heap st (of_nat (length bs)) = Inr (heap_of a s cs)"
      using heaps len by (simp add: get_heap_def heaps_of_nth unat_of_nat_u32)
    have loop: "malloc_loop pf (of_nat sz) (Some (of_nat (length bs))) st = (case next_active_heap pf st of
        Inl e \<Rightarrow> Some (Inl e) | Inr (current, st) \<Rightarrow> malloc_loop pf (of_nat sz) current st)"
      using m get put_heap_same [OF get] by (subst malloc_loop.simps) simp
    show ?thesis
    proof (cases "pf_grow pf (lm_pages (mm_lm st)) 1")
      case True
      with next_heap_grown [OF laws ok run] obtain bs' a' s' cs' st' where
          n: "next_active_heap pf st = Inr (Some (of_nat (length bs')), st')" "heaps_ok pf st' (bs' @ [(a', s', cs')])"
          "running st' (bs' @ [(a', s', cs')])" "all_allocs (bs' @ [(a', s', cs')]) = all_allocs ?hs" "kept (all_allocs ?hs) st st'"
          "unat (lm_pages (mm_lm st')) = Suc ?n" "a' + s' = limit (mm_lm st')"
          "extent cs' + 65536 + (if a + s = limit (mm_lm st) then s - extent cs else 0) \<le> s'"
        unfolding grown_def by (fastforce simp del: of_nat_add)
      have "Suc ?n \<le> 32767" using n(2,6) by (simp add: heaps_ok_def heaps_base_def)
      then have "32767 - unat (lm_pages (mm_lm st')) < 32767 - ?n" using n(6) by simp
      moreover have "p0 \<le> Suc ?n" "(Suc ?n - p0) * 65536 \<le> s' - extent cs'"
        using p0 n(8) by (auto simp: Suc_diff_le split: if_splits)
      ultimately obtain r where "malloc_loop pf (of_nat sz) (Some (of_nat (length bs'))) st' = Some r"
          "loop_result pf p0 sz (all_allocs ?hs) st' r"
        using less.hyps [OF _ n(2,3)] n(4,6,7) by auto
      then show ?thesis using loop n(1) loop_result_kept [OF _ n(5)] by simp
    next
      case False
      have r: "refused pf p0 sz"
        unfolding refused_def using False p0 \<open>\<not> extent cs + sz + 4 \<le> s\<close> by (intro exI [of _ ?n]) auto
      then show ?thesis unfolding loop by (rule malloc_refused [OF ok run False])
    qed
  qed
qed

section \<open>Freed memory\<close>

definition malloc_result :: "platform \<Rightarrow> nat \<Rightarrow> (nat \<times> nat) set \<Rightarrow> memory_manager \<Rightarrow> (u32 \<times> memory_manager) res \<Rightarrow> bool" where
  "malloc_result pf sz A st r = (case r of
     Inl e \<Rightarrow> e = Undefined ''out of bounds memory access'' \<and> pf_int64 pf (- 1) \<noteq> - 1
   | Inr (p, st') \<Rightarrow> kept A st st'
       \<and> (if p = 0 then blocks pf st' A else (unat p, sz) \<notin> A \<and> blocks pf st' (insert (unat p, sz) A)))"

lemma malloc_result_kept:
  assumes "malloc_result pf sz A st1 r" "kept A st st1"
  shows "malloc_result pf sz A st r"
  using assms kept_trans [OF assms(2)] unfolding malloc_result_def
  by (auto split: sum.splits prod.splits)

lemma put_heap_lm: "get_heap st i = Inr h \<Longrightarrow> put_heap st i (h, lm) = st\<lparr>mm_lm := lm\<rparr>"
  by (cases st) (auto simp: get_heap_def put_heap_def split: if_splits)

text \<open>The search in the current heap.\<close>

lemma freed_heap:
  assumes ok: "heaps_ok pf st hs" and ex: "exhausted st hs" and sz: "sz mod 8 = 4" "sz < 2147483648"
  shows "\<exists>h r lm' hs'. get_heap st (mm_active_free_heap st) = Inr h \<and> malloc_from_freed (mm_lm st) h (of_nat sz) = Inr (of_nat r, lm')
    \<and> heaps_ok pf (st\<lparr>mm_lm := lm'\<rparr>) hs' \<and> exhausted (st\<lparr>mm_lm := lm'\<rparr>) hs' \<and> length hs' = length hs
    \<and> kept (all_allocs hs) st (st\<lparr>mm_lm := lm'\<rparr>)
    \<and> (r = 0 \<and> all_allocs hs' = all_allocs hs
       \<or> 0 < r \<and> r < 2147483648 \<and> (r, sz) \<notin> all_allocs hs \<and> all_allocs hs' = insert (r, sz) (all_allocs hs))"
proof -
  let ?i = "unat (mm_active_free_heap st)"
  have base: "heaps_base pf st hs" using ok by (simp add: heaps_ok_def)
  have i: "?i < length hs" using ex by (simp add: exhausted_def)
  obtain a s cs where h: "hs ! ?i = (a, s, cs)" by (cases "hs ! ?i")
  define bs es where "bs = take ?i hs" and "es = drop (Suc ?i) hs"
  have hs: "hs = bs @ (a, s, cs) # es" "length bs = ?i" using i h id_take_nth_drop [OF i] by (simp_all add: bs_def es_def)
  have len: "length hs \<le> 2" "mm_heaps st = heaps_of hs" "heap_ok (mm_lm st) a s cs" "0 < s"
    using base hs(1) by (auto simp: heaps_base_def)
  have full: "extent cs = s" using ex hs(1) by (auto simp: exhausted_def full_def)
  have get: "get_heap st (mm_active_free_heap st) = Inr (heap_of a s cs)"
    using len hs heaps_of_nth [of bs es a s cs] by (simp add: get_heap_def)
  obtain r lm' where m: "malloc_from_freed (mm_lm st) (heap_of a s cs) (of_nat sz) = Inr (of_nat r, lm')"
      and res: "freed_result a s sz (allocs a cs) (mm_lm st) r lm'"
    using malloc_from_freed_ok [OF len(3) full len(4) sz] by blast
  then obtain cs' where c: "heap_ok lm' a s cs'" "extent cs' = s" "quiet a s (allocs a cs) (mm_lm st) lm'"
      "r = 0 \<and> allocs a cs' = allocs a cs \<or> 0 < r \<and> r < 2147483648 \<and> allocs a cs' = insert (r, sz) (allocs a cs) \<and> (r, sz) \<notin> allocs a cs"
    unfolding freed_result_def by blast
  let ?hs = "bs @ (a, s, cs') # es" and ?st = "st\<lparr>mm_lm := lm'\<rparr>"
  have "heap_of a s cs' = heap_of a s cs" using c(2) full by (simp add: heap_of_def)
  then have same: "put_heap st (of_nat (length bs)) (heap_of a s cs', lm') = ?st"
    using put_heap_lm [OF get] hs(2) by simp
  have ok': "heaps_ok pf ?st ?hs" and kept: "kept (all_allocs hs) st ?st"
    using heaps_ok_change [OF ok [unfolded hs(1)] c(1,3)] hs(1) same by metis+
  have ex': "exhausted ?st ?hs" using ex hs(1) c(2) by (auto simp: exhausted_def full_def)
  have "(r, sz) \<notin> all_allocs hs" if "(r, sz) \<in> allocs a cs'" "(r, sz) \<notin> allocs a cs"
    unfolding hs(1) by (rule fresh_alloc [OF base [unfolded hs(1)] c(1)]) (use that sz in simp_all)
  then have "r = 0 \<and> all_allocs ?hs = all_allocs hs
      \<or> 0 < r \<and> r < 2147483648 \<and> (r, sz) \<notin> all_allocs hs \<and> all_allocs ?hs = insert (r, sz) (all_allocs hs)"
    using c(4) by (auto simp: hs(1) all_allocs_simps)
  with get m ok' ex' kept hs(1) show ?thesis
    by (intro exI [of _ "heap_of a s cs"] exI [of _ r] exI [of _ lm'] exI [of _ ?hs]) simp
qed

text \<open>One pass of the loop over the heaps.\<close>

definition next_free :: "memory_manager \<Rightarrow> heap_state list \<Rightarrow> u32" where
  "next_free st hs = (if Suc (unat (mm_active_free_heap st)) = length hs then 0 else mm_active_free_heap st + 1)"

lemma freed_pass:
  assumes ok: "heaps_ok pf st hs" and ex: "exhausted st hs" and sz: "sz mod 8 = 4" "sz < 2147483648"
  obtains (found) r where "freed_loop (of_nat sz) e st = Some r" "malloc_result pf sz (all_allocs hs) st r"
  | (none) st' hs' where
    "freed_loop (of_nat sz) e st = (if next_free st hs \<noteq> e then freed_loop (of_nat sz) e st' else Some (Inr (0, st')))"
    "mm_active_free_heap st' = next_free st hs" "heaps_ok pf st' hs'" "exhausted st' hs'" "length hs' = length hs"
    "all_allocs hs' = all_allocs hs" "kept (all_allocs hs) st st'"
proof -
  let ?i = "unat (mm_active_free_heap st)" and ?next = "next_free st hs"
  have i: "?i < length hs" "length hs \<le> 2" using ex ok by (auto simp: exhausted_def heaps_ok_def heaps_base_def)
  obtain h r lm' hs' where get: "get_heap st (mm_active_free_heap st) = Inr h"
      and m: "malloc_from_freed (mm_lm st) h (of_nat sz) = Inr (of_nat r, lm')"
      and f: "heaps_ok pf (st\<lparr>mm_lm := lm'\<rparr>) hs'" "exhausted (st\<lparr>mm_lm := lm'\<rparr>) hs'" "length hs' = length hs"
        "kept (all_allocs hs) st (st\<lparr>mm_lm := lm'\<rparr>)"
      and r: "r = 0 \<and> all_allocs hs' = all_allocs hs
        \<or> 0 < r \<and> r < 2147483648 \<and> (r, sz) \<notin> all_allocs hs \<and> all_allocs hs' = insert (r, sz) (all_allocs hs)"
    using freed_heap [OF ok ex sz] by blast
  let ?st = "st\<lparr>mm_lm := lm'\<rparr>"
  show thesis
  proof (cases "r = 0")
    case True
    let ?st' = "?st\<lparr>mm_active_free_heap := ?next\<rparr>"
    have "mm_heaps_actual_size st = of_nat (length hs)" "mm_active_free_heap st + 1 = of_nat (Suc ?i)"
      using ex by (simp_all add: exhausted_def)
    then have "mm_active_free_heap st + 1 = mm_heaps_actual_size st \<longleftrightarrow> Suc ?i = length hs"
      using i of_nat_u32_eq_iff [of "Suc ?i" "length hs"] by (simp add: add.commute)
    then have "freed_loop (of_nat sz) e st = (if ?next \<noteq> e then freed_loop (of_nat sz) e ?st' else Some (Inr (0, ?st')))"
      using get m True unfolding next_free_def by (subst freed_loop.simps) (simp add: Let_def)
    moreover have "unat ?next < length hs"
      using i unat_of_nat_u32 [of "Suc ?i"] unfolding next_free_def by (auto simp: add.commute)
    then have "exhausted ?st' hs'" using f(2,3) by (simp add: exhausted_def)
    moreover have "heaps_ok pf ?st' hs'" by (rule heaps_ok_cong [OF f(1)]) simp_all
    moreover have "kept (all_allocs hs) st ?st'" using kept_trans [OF f(4) kept_same [of ?st' ?st]] by auto
    ultimately show thesis using r True f(3) by (intro none [of ?st' hs']) simp_all
  next
    case False
    have u: "unat (of_nat r :: u32) = r" by (rule unat_of_nat_u32) (use r False in simp)
    then have "(of_nat r :: u32) \<noteq> 0" using False by (metis unat_0)
    moreover from this have "freed_loop (of_nat sz) e st = Some (Inr (of_nat r, ?st))"
      using get m by (subst freed_loop.simps) simp
    moreover have "blocks pf ?st (insert (r, sz) (all_allocs hs))" using f(1,2) r False unfolding blocks_def by metis
    ultimately show thesis using r False f(4) by (intro found [of "Inr (of_nat r, ?st)"]) (simp_all add: malloc_result_def u)
  qed
qed

lemma freed_loop_ok:
  assumes ok: "heaps_ok pf st hs" and ex: "exhausted st hs" and sz: "sz mod 8 = 4" "sz < 2147483648"
  shows "\<exists>r. freed_loop (of_nat sz) (mm_active_free_heap st) st = Some r \<and> malloc_result pf sz (all_allocs hs) st r"
proof -
  let ?e = "mm_active_free_heap st"
  have len: "length hs \<le> 2" "unat ?e < length hs" using ok ex by (auto simp: heaps_ok_def heaps_base_def exhausted_def)
  have stop: "malloc_result pf sz (all_allocs hs) st (Inr (0, st'))"
    if "heaps_ok pf st' hs'" "exhausted st' hs'" "all_allocs hs' = all_allocs hs" "kept (all_allocs hs) st st'" for st' hs'
    using that unfolding malloc_result_def blocks_def by auto
  show ?thesis
  proof (cases rule: freed_pass [OF ok ex sz, of ?e])
    case (1 r)
    then show ?thesis by blast
  next
    case one: (2 st' hs')
    show ?thesis
    proof (cases "next_free st hs = ?e")
      case True
      then show ?thesis using one(1) stop [OF one(3,4,6,7)] by auto
    next
      case False
      then have loop: "freed_loop (of_nat sz) ?e st = freed_loop (of_nat sz) ?e st'" using one(1) by simp
      have "length hs \<noteq> 1" using False len(2) unfolding next_free_def by (auto simp: unat_eq_0)
      then have two: "length hs = 2" using len by linarith
      have again: "next_free st' hs' = ?e"
      proof (cases "unat ?e = 0")
        case True
        then show ?thesis using one(2,5) \<open>length hs = 2\<close> by (simp add: next_free_def unat_eq_0)
      next
        case False
        then have "unat ?e = 1" using len \<open>length hs = 2\<close> by simp
        then have "?e = 1" by (simp add: word_unat_eq_iff)
        then show ?thesis using one(2,5) \<open>length hs = 2\<close> by (simp add: next_free_def)
      qed
      show ?thesis
      proof (cases rule: freed_pass [OF one(3,4) sz, of ?e])
        case (1 r)
        then show ?thesis using loop one(6) malloc_result_kept [OF _ one(7)] by auto
      next
        case two: (2 st2 hs2)
        have "kept (all_allocs hs) st st2" using kept_trans [OF one(7) two(7)] one(6) by simp
        then show ?thesis using loop two(1) again stop [OF two(3,4)] two(6) one(6) by simp
      qed
    qed
  qed
qed

end
