(* ===== verification/Allocator.thy ===== *)
theory Allocator
  imports Malloc_Chunks
begin

text \<open>
  What a contract relies on in an allocator. A client calls \<open>malloc\<close> and \<open>free\<close> and
  writes into the blocks it holds; next to the machine state runs an abstract store that
  maps each block the client holds to the bytes it put there. The locale states the laws
  of an allocator, and the lemmas in it show that the machine state refines the store.
\<close>

section \<open>Blocks\<close>

definition separate :: "(nat \<times> nat) set \<Rightarrow> lmem \<Rightarrow> bool" where
  "separate A lm \<longleftrightarrow> (\<forall>p n. (p, n) \<in> A \<longrightarrow> 0 < p \<and> 0 < n \<and> p + n \<le> unat (lm_pages lm) * 65536 \<and> p + n < 4294967296)
     \<and> (\<forall>p n q k. (p, n) \<in> A \<longrightarrow> (q, k) \<in> A \<longrightarrow> (p, n) = (q, k) \<or> p + n \<le> q \<or> q + k \<le> p)"

definition preserved :: "(nat \<times> nat) set \<Rightarrow> lmem \<Rightarrow> lmem \<Rightarrow> bool" where
  "preserved A lm lm' \<longleftrightarrow> same_on (alloc_data A) (lm_bytes lm) (lm_bytes lm')"

definition poke :: "nat \<Rightarrow> 8 word \<Rightarrow> lmem \<Rightarrow> lmem" where
  "poke x v lm = lm\<lparr>lm_bytes := (lm_bytes lm)(of_nat x := v)\<rparr>"

lemma poke_pages [simp]: "lm_pages (poke x v lm) = lm_pages lm"
  by (simp add: poke_def)

lemma poke_preserves: "x \<notin> S \<Longrightarrow> x < 4294967296 \<Longrightarrow> S \<subseteq> addresses \<Longrightarrow> same_on S (lm_bytes lm) (lm_bytes (poke x v lm))"
  using of_nat_u32_eq_iff [of _ x] by (fastforce simp: same_on_def poke_def addresses_iff)

section \<open>A client\<close>

inductive client :: "(u32 \<Rightarrow> 's \<Rightarrow> (u32 \<times> 's) res) \<Rightarrow> (u32 \<Rightarrow> 's \<Rightarrow> 's res) \<Rightarrow> ('s \<Rightarrow> lmem) \<Rightarrow> (lmem \<Rightarrow> 's \<Rightarrow> 's) \<Rightarrow> nat \<Rightarrow> 's
    \<Rightarrow> 's \<Rightarrow> (nat \<Rightarrow> 8 word list option) \<Rightarrow> bool"
  for mal fr mem upd bound st0 where
  client_start: "client mal fr mem upd bound st0 st0 (\<lambda>p. None)"
| client_malloc: "client mal fr mem upd bound st0 st L \<Longrightarrow> sz \<noteq> 0 \<Longrightarrow> unat sz \<le> bound \<Longrightarrow> mal sz st = Inr (p, st') \<Longrightarrow> p \<noteq> 0 \<Longrightarrow>
    client mal fr mem upd bound st0 st' (L(unat p := Some (mem_read (lm_bytes (mem st')) p (unat sz))))"
| client_null: "client mal fr mem upd bound st0 st L \<Longrightarrow> sz \<noteq> 0 \<Longrightarrow> unat sz \<le> bound \<Longrightarrow> mal sz st = Inr (0, st') \<Longrightarrow>
    client mal fr mem upd bound st0 st' L"
| client_free: "client mal fr mem upd bound st0 st L \<Longrightarrow> L p = Some bs \<Longrightarrow> fr (of_nat p) st = Inr st' \<Longrightarrow>
    client mal fr mem upd bound st0 st' (L(p := None))"
| client_write: "client mal fr mem upd bound st0 st L \<Longrightarrow> L p = Some bs \<Longrightarrow> i < length bs \<Longrightarrow>
    client mal fr mem upd bound st0 (upd (poke (p + i) v (mem st)) st) (L(p := Some (bs[i := v])))"

text \<open>The memory holds what the store says, and the blocks of the store do not overlap.\<close>

definition agrees :: "lmem \<Rightarrow> (nat \<Rightarrow> 8 word list option) \<Rightarrow> bool" where
  "agrees lm L \<longleftrightarrow> (\<forall>p bs. L p = Some bs \<longrightarrow>
     0 < p \<and> p + length bs \<le> unat (lm_pages lm) * 65536 \<and> mem_read (lm_bytes lm) (of_nat p) (length bs) = bs
     \<and> (\<forall>q cs. L q = Some cs \<longrightarrow> p = q \<or> p + length bs \<le> q \<or> q + length cs \<le> p))"

definition covers :: "(nat \<times> nat) set \<Rightarrow> lmem \<Rightarrow> (nat \<Rightarrow> 8 word list option) \<Rightarrow> bool" where
  "covers A lm L \<longleftrightarrow> (\<forall>p bs. L p = Some bs \<longrightarrow> (\<exists>n\<ge>length bs. (p, n) \<in> A) \<and> mem_read (lm_bytes lm) (of_nat p) (length bs) = bs)"

lemma covers_agrees:
  assumes "separate A lm" "covers A lm L"
  shows "agrees lm L"
  unfolding agrees_def
proof (intro allI impI conjI)
  fix p bs assume p: "L p = Some bs"
  then obtain n where n: "length bs \<le> n" "(p, n) \<in> A" "mem_read (lm_bytes lm) (of_nat p) (length bs) = bs"
    using assms(2) unfolding covers_def by blast
  then have "0 < p" "p + n \<le> unat (lm_pages lm) * 65536" using assms(1) unfolding separate_def by auto
  then show "0 < p" "p + length bs \<le> unat (lm_pages lm) * 65536" "mem_read (lm_bytes lm) (of_nat p) (length bs) = bs"
    using n by auto
  fix q cs assume "L q = Some cs"
  then obtain k where k: "length cs \<le> k" "(q, k) \<in> A" using assms(2) unfolding covers_def by blast
  then have "(p, n) = (q, k) \<or> p + n \<le> q \<or> q + k \<le> p" using assms(1) n(2) unfolding separate_def by blast
  then show "p = q \<or> p + length bs \<le> q \<or> q + length cs \<le> p" using n(1) k(1) by auto
qed

lemma separate_addresses: "separate A lm \<Longrightarrow> alloc_data A \<subseteq> addresses"
proof
  fix x assume sep: "separate A lm" and "x \<in> alloc_data A"
  then obtain p n where pn: "(p, n) \<in> A" "x < p + n" by (auto simp: alloc_data_def)
  then have "p + n < 4294967296" using sep unfolding separate_def by blast
  then show "x \<in> addresses" using pn(2) by (simp add: addresses_iff)
qed

lemma separate_insert:
  assumes "separate (insert (p, n) A) lm" "(p, n) \<notin> A"
  shows "alloc_data A \<inter> {p..<p + n} = {}"
proof (rule equals0I)
  fix y assume "y \<in> alloc_data A \<inter> {p..<p + n}"
  then obtain q j where q: "(q, j) \<in> A" "y \<in> {q..<q + j}" "y \<in> {p..<p + n}" by (auto simp: alloc_data_def)
  then have "p + n \<le> q \<or> q + j \<le> p" using assms unfolding separate_def by blast
  then show False using q(2,3) by auto
qed

lemma alloc_dataI: "(p, n) \<in> A \<Longrightarrow> i < n \<Longrightarrow> p + i \<in> alloc_data A"
  unfolding alloc_data_def by (intro UN_I [of "(p, n)"]) auto

lemma preserved_read:
  assumes "preserved A lm lm'" "(p, n) \<in> A" "k \<le> n"
  shows "mem_read (lm_bytes lm') (of_nat p) k = mem_read (lm_bytes lm) (of_nat p) k"
proof (rule mem_read_cong)
  fix i assume "i < k"
  then have "p + i \<in> alloc_data A" using alloc_dataI [OF assms(2), of i] assms(3) by simp
  then show "lm_bytes lm' (of_nat p + of_nat i) = lm_bytes lm (of_nat p + of_nat i)"
    using assms(1) by (simp add: preserved_def same_on_def flip: of_nat_add)
qed

lemma covers_preserved:
  assumes "covers A lm L" "preserved A lm lm'"
  shows "covers A lm' L"
  using assms preserved_read [OF assms(2)] unfolding covers_def by metis

lemma covers_mono: "covers A lm L \<Longrightarrow> A \<subseteq> B \<Longrightarrow> covers B lm L"
  unfolding covers_def by blast

lemma covers_insert:
  assumes "covers A lm L" "length bs \<le> n" "mem_read (lm_bytes lm) (of_nat p) (length bs) = bs"
  shows "covers (insert (p, n) A) lm (L(p := Some bs))"
  using assms unfolding covers_def by auto

lemma covers_remove:
  assumes "covers A lm L"
  shows "covers (A - {(p, n)}) lm (L(p := None))"
  unfolding covers_def
proof (intro allI impI)
  fix q cs assume q: "(L(p := None)) q = Some cs"
  then have "q \<noteq> p" "L q = Some cs" by (auto split: if_splits)
  then show "(\<exists>k\<ge>length cs. (q, k) \<in> A - {(p, n)}) \<and> mem_read (lm_bytes lm) (of_nat q) (length cs) = cs"
    using assms(1) unfolding covers_def by blast
qed

lemma covers_write:
  assumes "covers A lm L" "separate A lm" "L p = Some bs" "i < length bs"
  shows "covers A (poke (p + i) v lm) (L(p := Some (bs[i := v])))"
  unfolding covers_def
proof (intro allI impI)
  fix q cs assume q: "(L(p := Some (bs[i := v]))) q = Some cs"
  obtain n where n: "length bs \<le> n" "(p, n) \<in> A" "mem_read (lm_bytes lm) (of_nat p) (length bs) = bs"
    using assms(1,3) unfolding covers_def by blast
  have bound: "p + n < 4294967296" using assms(2) n(2) unfolding separate_def by blast
  show "(\<exists>n\<ge>length cs. (q, n) \<in> A) \<and> mem_read (lm_bytes (poke (p + i) v lm)) (of_nat q) (length cs) = cs"
  proof (cases "q = p")
    case True
    then have cs: "cs = bs[i := v]" using q by simp
    have "mem_read (lm_bytes (poke (p + i) v lm)) (of_nat p) (length bs) = bs[i := v]"
    proof (rule nth_equalityI)
      fix j assume "j < length (mem_read (lm_bytes (poke (p + i) v lm)) (of_nat p) (length bs))"
      then have j: "j < length bs" by simp
      then have "lm_bytes lm (of_nat p + of_nat j) = bs ! j" using arg_cong [OF n(3), of "\<lambda>xs. xs ! j"] by simp
      moreover have "(of_nat (p + j) :: u32) = of_nat (p + i) \<longleftrightarrow> j = i"
        using bound n(1) j assms(4) of_nat_u32_eq_iff [of "p + j" "p + i"] by simp
      ultimately show "mem_read (lm_bytes (poke (p + i) v lm)) (of_nat p) (length bs) ! j = bs[i := v] ! j"
        using j by (auto simp: poke_def nth_list_update)
    qed simp
    then show ?thesis using True cs n by auto
  next
    case False
    then obtain k where k: "length cs \<le> k" "(q, k) \<in> A" "mem_read (lm_bytes lm) (of_nat q) (length cs) = cs"
      using assms(1) q unfolding covers_def by auto
    have "(p, n) = (q, k) \<or> p + n \<le> q \<or> q + k \<le> p" "q + k < 4294967296" using assms(2) n(2) k(2) unfolding separate_def by blast+
    then have "same_on {q..<q + k} (lm_bytes lm) (lm_bytes (poke (p + i) v lm))"
      using False assms(4) n(1) bound by (intro poke_preserves) (auto simp: addresses_iff)
    then have "preserved {(q, k)} lm (poke (p + i) v lm)" by (simp add: preserved_def alloc_data_def)
    then show ?thesis using preserved_read k by (metis singletonI)
  qed
qed

section \<open>The laws\<close>

locale allocator =
  fixes mal :: "u32 \<Rightarrow> 's \<Rightarrow> (u32 \<times> 's) res" and fr :: "u32 \<Rightarrow> 's \<Rightarrow> 's res"
    and mem :: "'s \<Rightarrow> lmem" and upd :: "lmem \<Rightarrow> 's \<Rightarrow> 's" and bound :: nat
    and inv :: "'s \<Rightarrow> (nat \<times> nat) set \<Rightarrow> bool"
  assumes inv_separate: "inv st A \<Longrightarrow> separate A (mem st)"
    and mal_new: "inv st A \<Longrightarrow> sz \<noteq> 0 \<Longrightarrow> unat sz \<le> bound \<Longrightarrow> mal sz st = Inr (p, st') \<Longrightarrow> p \<noteq> 0 \<Longrightarrow>
      \<exists>n\<ge>unat sz. inv st' (insert (unat p, n) A) \<and> (unat p, n) \<notin> A"
    and mal_null: "inv st A \<Longrightarrow> sz \<noteq> 0 \<Longrightarrow> unat sz \<le> bound \<Longrightarrow> mal sz st = Inr (0, st') \<Longrightarrow> inv st' A"
    and mal_preserves: "inv st A \<Longrightarrow> sz \<noteq> 0 \<Longrightarrow> unat sz \<le> bound \<Longrightarrow> mal sz st = Inr (p, st') \<Longrightarrow> preserved A (mem st) (mem st')"
    and fr_ok: "inv st A \<Longrightarrow> (x, n) \<in> A \<Longrightarrow> \<exists>st'. fr (of_nat x) st = Inr st' \<and> inv st' (A - {(x, n)}) \<and> preserved A (mem st) (mem st')"
    and upd_ok: "inv st A \<Longrightarrow> lm_pages lm' = lm_pages (mem st) \<Longrightarrow>
      same_on (addresses - alloc_data A) (lm_bytes (mem st)) (lm_bytes lm') \<Longrightarrow> inv (upd lm' st) A \<and> mem (upd lm' st) = lm'"
begin

lemma client_covers:
  assumes "client mal fr mem upd bound st0 st L" "inv st0 {}"
  shows "\<exists>A. inv st A \<and> covers A (mem st) L"
  using assms(1)
proof induction
  case client_start
  then show ?case using assms(2) by (auto simp: covers_def)
next
  case (client_malloc st L sz p st')
  then obtain A where A: "inv st A" "covers A (mem st) L" by blast
  obtain n where n: "unat sz \<le> n" "inv st' (insert (unat p, n) A)" using mal_new [OF A(1)] client_malloc.hyps by blast
  have "covers A (mem st') L" using covers_preserved [OF A(2) mal_preserves [OF A(1)]] client_malloc.hyps by blast
  from covers_insert [OF this, of "mem_read (lm_bytes (mem st')) p (unat sz)" n "unat p"] n show ?case
    by (auto simp del: fun_upd_apply)
next
  case (client_null st L sz st')
  then obtain A where A: "inv st A" "covers A (mem st) L" by blast
  then have "inv st' A" "covers A (mem st') L"
    using mal_null client_null.hyps covers_preserved [OF A(2) mal_preserves [OF A(1)]] by blast+
  then show ?case by blast
next
  case (client_free st L p bs st')
  then obtain A where A: "inv st A" "covers A (mem st) L" by blast
  then obtain n where n: "(p, n) \<in> A" using client_free.hyps(2) unfolding covers_def by blast
  then have "inv st' (A - {(p, n)})" and k: "preserved A (mem st) (mem st')" using fr_ok [OF A(1) n] client_free.hyps(3) by auto
  have "covers (A - {(p, n)}) (mem st) (L(p := None))" by (rule covers_remove [OF A(2)])
  moreover have "preserved (A - {(p, n)}) (mem st) (mem st')" using k by (auto simp: preserved_def alloc_data_def intro: same_on_subset)
  ultimately show ?case using covers_preserved \<open>inv st' (A - {(p, n)})\<close> by blast
next
  case (client_write st L p bs i v)
  then obtain A where A: "inv st A" "covers A (mem st) L" by blast
  note sep = inv_separate [OF A(1)]
  obtain n where n: "length bs \<le> n" "(p, n) \<in> A" using A(2) client_write.hyps(2) unfolding covers_def by blast
  have "p + i \<in> alloc_data A" using alloc_dataI [OF n(2), of i] n(1) client_write.hyps(3) by simp
  moreover have "p + i < 4294967296" using separate_addresses [OF sep] \<open>p + i \<in> alloc_data A\<close> by (auto simp: addresses_iff)
  ultimately have "same_on (addresses - alloc_data A) (lm_bytes (mem st)) (lm_bytes (poke (p + i) v (mem st)))"
    by (intro poke_preserves) auto
  from upd_ok [OF A(1) _ this] covers_write [OF A(2) sep client_write.hyps(2,3), of v] show ?case
    by (metis poke_pages)
qed

lemma client_agrees: "client mal fr mem upd bound st0 st L \<Longrightarrow> inv st0 {} \<Longrightarrow> agrees (mem st) L"
  using client_covers covers_agrees inv_separate by metis

lemma client_free_ok:
  assumes "client mal fr mem upd bound st0 st L" "inv st0 {}" "L p = Some bs"
  shows "\<exists>st'. fr (of_nat p) st = Inr st'"
proof -
  obtain A where A: "inv st A" "covers A (mem st) L" using client_covers [OF assms(1,2)] by blast
  then obtain n where "(p, n) \<in> A" using assms(3) unfolding covers_def by blast
  from fr_ok [OF A(1) this] show ?thesis by blast
qed

lemma client_fresh:
  assumes "client mal fr mem upd bound st0 st L" "inv st0 {}" "sz \<noteq> 0" "unat sz \<le> bound" "mal sz st = Inr (p, st')" "p \<noteq> 0"
  shows "L (unat p) = None"
proof (rule ccontr)
  assume "L (unat p) \<noteq> None"
  then obtain bs where bs: "L (unat p) = Some bs" by blast
  obtain A where A: "inv st A" "covers A (mem st) L" using client_covers [OF assms(1,2)] by blast
  obtain k where k: "(unat p, k) \<in> A" using A(2) bs unfolding covers_def by blast
  obtain n where n: "inv st' (insert (unat p, n) A)" "(unat p, n) \<notin> A" using mal_new [OF A(1) assms(3-6)] by blast
  from inv_separate [OF n(1)] k n(2) show False unfolding separate_def by (metis add_leE insert_iff leD less_add_same_cancel1)
qed

end

end
