(* ===== verification/Malloc_Calls.thy ===== *)
theory Malloc_Calls
  imports Malloc_Manager Allocator
begin

text \<open>
  The calls of the allocator of \<^verbatim>\<open>malloc.cpp\<close> on the invariant \<open>blocks\<close>: \<open>malloc\<close> hands
  out a new block, \<open>free\<close> takes one away, and what a client writes inside its blocks does
  no harm.
\<close>

section \<open>malloc and free\<close>

lemma adjust_ok:
  assumes "unat sz \<le> 2147483644"
  shows "\<exists>n. adjust_to_mem_block sz = of_nat n \<and> n mod 8 = 4 \<and> unat sz \<le> n \<and> n < unat sz + 8 \<and> n + 4 \<le> 2147483648"
proof -
  define m where "m = (unat sz + 4) mod 8"
  have "sz + 4 = of_nat (unat sz + 4)" by simp
  then have "(sz + 4) AND 7 = of_nat (unat sz + 4) AND mask 3" by (simp only:) (simp add: mask_eq_exp_minus_1)
  also have "\<dots> = of_nat m"
    by (rule word_unat_eq_iff [THEN iffD2])
      (use assms unat_of_nat_u32 [of "unat sz + 4"] unat_of_nat_u32 [of m] in
        \<open>simp only: m_def unat_and_mask take_bit_eq_mod\<close>, simp)
  finally have rem: "(sz + 4) AND 7 = of_nat m" .
  define n where "n = (if m = 0 then unat sz else unat sz + (8 - m))"
  have m: "m < 8" by (simp add: m_def)
  have "(of_nat m :: u32) > 0 \<longleftrightarrow> m \<noteq> 0" using m less_of_nat32 [of 0 m] by simp
  then have "adjust_to_mem_block sz = of_nat n"
    unfolding adjust_to_mem_block_def size_marker_def rem Let_def n_def using m by (simp add: of_nat_diff)
  moreover obtain k where k: "n + 4 = 8 * k"
  proof -
    define q where "q = (unat sz + 4) div 8"
    have "unat sz + 4 = 8 * q + m" unfolding m_def q_def by simp
    then have "n + 4 = 8 * (if m = 0 then q else Suc q)" using m unfolding n_def by (cases "m = 0") simp_all
    then show thesis by (rule that)
  qed
  moreover have "unat sz \<le> n" "n < unat sz + 8" using m by (auto simp: n_def)
  moreover from k have "n mod 8 = 4"
  proof -
    obtain j where "k = Suc j" using k by (cases k) auto
    then have "n = 4 + 8 * j" using k by simp
    then show ?thesis by simp
  qed
  moreover have "n + 4 \<le> 2147483648"
  proof -
    have "8 * k < 8 * 268435457" using assms \<open>n < unat sz + 8\<close> k by linarith
    then show ?thesis using k by simp
  qed
  ultimately show ?thesis by blast
qed

text \<open>The first heap is set up when it is first used.\<close>

lemma start_heap_ok:
  assumes laws: "platform_laws pf" and ok: "heaps_ok pf st hs" and mode: "unused st hs \<and> mm_heaps_actual_size st = 16 \<or> running st hs"
  obtains bs a s cs st' where "start_heap pf st = Inr (Some (of_nat (length bs)), st')" "heaps_ok pf st' (bs @ [(a, s, cs)])"
    "running st' (bs @ [(a, s, cs)])" "all_allocs (bs @ [(a, s, cs)]) = all_allocs hs" "mm_lm st' = mm_lm st"
proof -
  have base: "heaps_base pf st hs" using ok by (simp add: heaps_ok_def)
  from mode show thesis
  proof
    assume un: "unused st hs \<and> mm_heaps_actual_size st = 16"
    let ?a = "unat (pf_initial_heap pf)"
    let ?st = "put_heap st (of_nat (length hs)) (heap_of ?a 8192 [], mm_lm st)"
    have hs: "hs = []" "mm_active_heap st = 0" using un by (simp_all add: unused_def)
    have "0 < ?a" using laws by (simp add: platform_laws_def unat_gt_0)
    then have "heaps_base pf ?st (hs @ [(?a, 8192, [])])"
      using hs base by (intro heaps_base_new [OF base]) (auto simp: heaps_base_def)
    then have "heaps_ok pf ?st ([] @ [(?a, 8192, [])])" using hs by (simp add: heaps_ok_def)
    moreover have "start_heap pf st = Inr (Some (of_nat (length ([] :: heap_state list))), ?st)"
      using hs un base
      by (simp add: start_heap_def get_heap_def heaps_base_def heaps_of_def is_init_def heap_default_def heap_init_def heap_of_def initial_heap_size_def)
    moreover have "running ?st ([] @ [(?a, 8192, [])])" using un by (simp add: running_def unused_def)
    ultimately show thesis using hs(1) by (intro that [of "[]" ?st ?a 8192 "[]"]) (simp_all add: all_allocs_simps)
  next
    assume run: "running st hs"
    then obtain bs a s cs where hs: "hs = bs @ [(a, s, cs)]" by (metis prod_cases3 rev_exhaust running_def)
    have len: "length bs \<le> 1" and active: "mm_active_heap st = of_nat (length bs)" "mm_heaps_actual_size st = 16"
      and heaps: "mm_heaps st = heaps_of hs" and okh: "heap_ok (mm_lm st) a s cs"
      using run base hs by (auto simp: running_def heaps_base_def)
    have "(of_nat (length bs) :: u32) < 16" using len less_of_nat32 [of "length bs" 16] by simp
    moreover have "get_heap st (of_nat (length bs)) = Inr (heap_of a s cs)"
      using heaps len hs by (simp add: get_heap_def heaps_of_nth unat_of_nat_u32)
    moreover have "is_init (heap_of a s cs)" using heap_ok_bounds [OF okh] of_nat32_eq_0 [of a] by (simp add: is_init_def)
    ultimately have "start_heap pf st = Inr (Some (of_nat (length bs)), st)"
      using active by (simp add: start_heap_def)
    then show thesis using ok run hs by (intro that) simp_all
  qed
qed

lemma kept_start: "mm_lm st1 = mm_lm st \<Longrightarrow> kept A st1 st' = kept A st st'"
  by (simp add: kept_def)

text \<open>The call without its second half, the search through the freed memory.\<close>

definition malloc_unsearched :: "platform \<Rightarrow> u32 \<Rightarrow> memory_manager \<Rightarrow> (u32 \<times> memory_manager) res" where
  "malloc_unsearched pf sz st =
     (let st = (if mm_heaps_actual_size st = 0 then st\<lparr>mm_heaps_actual_size := heaps_size\<rparr> else st) in
      bindr (start_heap pf st) (\<lambda>(current, st). terminating (malloc_loop pf (adjust_to_mem_block sz) current st)))"

lemma mm_malloc_running:
  assumes laws: "platform_laws pf" and ok: "heaps_ok pf st hs" and mode: "unused st hs \<or> running st hs"
    and sz: "sz \<noteq> 0" "adjust_to_mem_block sz = of_nat n" "n mod 8 = 4" "n + 4 \<le> 2147483648"
  shows "malloc_result pf n (all_allocs hs) st (mm_malloc pf sz st)"
    and "\<not> refused pf (unat (lm_pages (mm_lm st))) n \<Longrightarrow> \<exists>p st'. mm_malloc pf sz st = Inr (p, st') \<and> p \<noteq> 0"
    and "pf_int64 pf (- 1) \<noteq> - 1 \<Longrightarrow> mm_malloc pf sz st = Inr (p, st') \<Longrightarrow> p \<noteq> 0 \<and> mm_heaps_actual_size st' = 16"
    and "pf_int64 pf (- 1) \<noteq> - 1 \<Longrightarrow> mm_malloc pf sz st = malloc_unsearched pf sz st"
proof -
  let ?st = "if mm_heaps_actual_size st = 0 then st\<lparr>mm_heaps_actual_size := heaps_size\<rparr> else st"
  have ok1: "heaps_ok pf ?st hs" by (rule heaps_ok_cong [OF ok]) simp_all
  have mode1: "unused ?st hs \<and> mm_heaps_actual_size ?st = 16 \<or> running ?st hs"
    using mode by (auto simp: unused_def running_def heaps_size_def)
  obtain bs a s cs st1 where start: "start_heap pf ?st = Inr (Some (of_nat (length bs)), st1)"
      "heaps_ok pf st1 (bs @ [(a, s, cs)])" "running st1 (bs @ [(a, s, cs)])"
      "all_allocs (bs @ [(a, s, cs)]) = all_allocs hs" and "mm_lm st1 = mm_lm ?st"
    by (rule start_heap_ok [OF laws ok1 mode1])
  then have lm1: "mm_lm st1 = mm_lm st" by simp
  obtain r where loop: "malloc_loop pf (of_nat n) (Some (of_nat (length bs))) st1 = Some r"
      and res: "loop_result pf (unat (lm_pages (mm_lm st))) n (all_allocs hs) st1 r"
    using malloc_loop_ok [OF laws sz(3,4) start(2,3), of "unat (lm_pages (mm_lm st))"] start(4) lm1 by auto
  have eq: "mm_malloc pf sz st = bindr r (\<lambda>(buffer, st). if buffer = 0 then terminating (freed_loop (of_nat n) (mm_active_free_heap st) st)
      else Inr (buffer, st))"
    using sz(1,2) start(1) loop by (simp add: mm_malloc_def Let_def terminating_def)
  show "malloc_result pf n (all_allocs hs) st (mm_malloc pf sz st)"
  proof (cases r)
    case (Inl e)
    then show ?thesis using res by (simp add: eq loop_result_def malloc_result_def)
  next
    case (Inr x)
    then obtain p st2 where r: "r = Inr (p, st2)" by (cases x) auto
    then obtain hs2 where k: "kept (all_allocs hs) st st2" and h2: "heaps_ok pf st2 hs2" "p = 0 \<Longrightarrow> exhausted st2 hs2 \<and> all_allocs hs2 = all_allocs hs"
        "p \<noteq> 0 \<Longrightarrow> running st2 hs2 \<and> (unat p, n) \<notin> all_allocs hs \<and> all_allocs hs2 = insert (unat p, n) (all_allocs hs)"
      using res kept_start [OF lm1] by (auto simp: loop_result_def split: if_splits)
    show ?thesis
    proof (cases "p = 0")
      case True
      then obtain r' where "freed_loop (of_nat n) (mm_active_free_heap st2) st2 = Some r'" "malloc_result pf n (all_allocs hs) st2 r'"
        using freed_loop_ok [OF h2(1) _ sz(3)] h2(2) sz(4) by fastforce
      then show ?thesis using malloc_result_kept [OF _ k] True by (simp add: eq r terminating_def)
    next
      case False
      then show ?thesis using k h2 unfolding eq r malloc_result_def blocks_def by auto
    qed
  qed
  show "\<exists>p st'. mm_malloc pf sz st = Inr (p, st') \<and> p \<noteq> 0" if "\<not> refused pf (unat (lm_pages (mm_lm st))) n"
    using res that by (auto simp: eq loop_result_def split: sum.splits if_splits)
  show "p \<noteq> 0 \<and> mm_heaps_actual_size st' = 16" if "pf_int64 pf (- 1) \<noteq> - 1" "mm_malloc pf sz st = Inr (p, st')"
    using res that by (auto simp: eq loop_result_def running_def split: sum.splits if_splits)
  have "malloc_unsearched pf sz st = r"
    using sz(2) start(1) loop by (simp add: malloc_unsearched_def Let_def terminating_def)
  then show "mm_malloc pf sz st = malloc_unsearched pf sz st" if "pf_int64 pf (- 1) \<noteq> - 1"
    using res that by (auto simp: eq loop_result_def split: sum.splits if_splits)
qed

lemma mm_malloc_exhausted:
  assumes ok: "heaps_ok pf st hs" and ex: "exhausted st hs"
    and sz: "sz \<noteq> 0" "adjust_to_mem_block sz = of_nat n" "n mod 8 = 4" "n + 4 \<le> 2147483648"
  shows "malloc_result pf n (all_allocs hs) st (mm_malloc pf sz st)"
proof -
  have "length hs \<le> 2" "length hs \<noteq> 0" using ok ex by (auto simp: heaps_ok_def heaps_base_def exhausted_def)
  then have "mm_heaps_actual_size st \<noteq> 0" "\<not> mm_active_heap st < mm_heaps_actual_size st"
    using ex of_nat32_eq_0 [of "length hs"] by (auto simp: exhausted_def)
  moreover have "malloc_loop pf (of_nat n) None st = Some (Inr (0, st))" by (subst malloc_loop.simps) simp
  ultimately have "mm_malloc pf sz st = terminating (freed_loop (of_nat n) (mm_active_free_heap st) st)"
    using sz(1,2) by (simp add: mm_malloc_def start_heap_def Let_def terminating_def)
  moreover obtain r where "freed_loop (of_nat n) (mm_active_free_heap st) st = Some r" "malloc_result pf n (all_allocs hs) st r"
    using freed_loop_ok [OF ok ex sz(3)] sz(4) by fastforce
  ultimately show ?thesis by (simp add: terminating_def)
qed

lemma mm_malloc_ok:
  assumes "platform_laws pf" "blocks pf st A" "sz \<noteq> 0" "unat sz \<le> 2147483644"
  shows "\<exists>n. unat sz \<le> n \<and> n < unat sz + 8 \<and> malloc_result pf n A st (mm_malloc pf sz st)"
proof -
  obtain n where n: "adjust_to_mem_block sz = of_nat n" "n mod 8 = 4" "unat sz \<le> n" "n < unat sz + 8" "n + 4 \<le> 2147483648"
    using adjust_ok [OF assms(4)] by blast
  obtain hs where hs: "heaps_ok pf st hs" "unused st hs \<or> running st hs \<or> exhausted st hs" "A = all_allocs hs"
    using assms(2) unfolding blocks_def by blast
  then have "malloc_result pf n A st (mm_malloc pf sz st)"
    using mm_malloc_running(1) [OF assms(1) hs(1) _ assms(3) n(1,2,5)] mm_malloc_exhausted [OF hs(1) _ assms(3) n(1,2,5)] by blast
  with n show ?thesis by blast
qed

section \<open>free\<close>

lemma in_heap_iff:
  assumes "heap_ok lm a s cs" "p < 4294967296"
  shows "is_in_heap (heap_of a s cs) (of_nat p) \<longleftrightarrow> a + 4 \<le> p \<and> p < a + s"
proof -
  have "(of_nat p :: u32) \<ge> of_nat (a + 4) \<longleftrightarrow> a + 4 \<le> p" "(of_nat p :: u32) < of_nat (a + s) \<longleftrightarrow> p < a + s"
    using assms heap_ok_bounds [OF assms(1)] by (subst le_of_nat32 less_of_nat32; simp)+
  then show ?thesis by (simp add: is_in_heap_def size_marker_def Let_def)
qed

lemma heaps_of_at: "j < length hs \<Longrightarrow> heaps_of hs ! j = (case hs ! j of (a, s, cs) \<Rightarrow> heap_of a s cs)"
  by (simp add: heaps_of_def nth_append)

lemma alloc_mod8: "heap_ok lm a s cs \<Longrightarrow> (p, n) \<in> allocs a cs \<Longrightarrow> n mod 8 = 4"
  by (erule allocs_split) (auto simp: heap_ok_def tiled_append chunk_ok_def)

lemma find_heap_ok:
  assumes ok: "heaps_ok pf st (bs @ (a, s, cs) # es)" and n: "length bs < unat (mm_heaps_actual_size st)"
    and p: "a + 4 \<le> p" "p < a + s"
  shows "find_heap st (of_nat p) 0 = Some (length bs)"
proof -
  let ?hs = "bs @ (a, s, cs) # es"
  have base: "heaps_base pf st ?hs" using ok by (simp add: heaps_ok_def)
  have oks: "heap_ok (mm_lm st) a' s' cs' \<and> 0 < s'" if "(a', s', cs') \<in> set ?hs" for a' s' cs'
    using base that unfolding heaps_base_def by blast
  have p32: "p < 4294967296" using oks [of a s cs] heap_ok_bounds [of "mm_lm st" a s cs] p by auto
  have heaps: "mm_heaps st = heaps_of ?hs" "length ?hs \<le> 2" using base by (simp_all add: heaps_base_def)
  have nth: "\<exists>a' s' cs'. ?hs ! j = (a', s', cs') \<and> mm_heaps st ! j = heap_of a' s' cs' \<and> heap_ok (mm_lm st) a' s' cs' \<and> is_init (heap_of a' s' cs')"
    if "j < length ?hs" for j
  proof -
    obtain a' s' cs' where h: "?hs ! j = (a', s', cs')" by (cases "?hs ! j")
    then have "heap_ok (mm_lm st) a' s' cs'" using oks nth_mem [OF that] by simp
    moreover from this have "is_init (heap_of a' s' cs')" using heap_ok_bounds of_nat32_eq_0 [of a'] by (fastforce simp: is_init_def)
    moreover have "mm_heaps st ! j = heap_of a' s' cs'" using heaps that h heaps_of_at [of j ?hs] by simp
    ultimately show ?thesis using h by simp
  qed
  have "find_heap st (of_nat p) j = Some (length bs)" if "j \<le> length bs" for j
    using that
  proof (induction "length bs - j" arbitrary: j)
    case 0
    then have "j = length bs" by simp
    moreover have "is_in_heap (heap_of a s cs) (of_nat p)" using in_heap_iff [OF _ p32] oks [of a s cs] p by auto
    ultimately show ?case using nth [of j] n heaps by (subst find_heap.simps) auto
  next
    case (Suc k)
    then have j: "j < length bs" by simp
    obtain a' s' cs' where h: "?hs ! j = (a', s', cs')" "mm_heaps st ! j = heap_of a' s' cs'" "heap_ok (mm_lm st) a' s' cs'" "is_init (heap_of a' s' cs')"
      using nth [of j] j by auto
    then have "(a', s', cs') \<in> set bs" using j by (simp add: nth_append) (metis nth_mem)
    then have "{a'..<a' + s'} \<inter> {a..<a + s} = {}"
      using base by (intro same_ordered [of 0 bs a s cs es "limit (mm_lm st)"]) (auto simp: heaps_base_def)
    moreover have "p \<in> {a..<a + s}" using p by simp
    ultimately have "\<not> is_in_heap (heap_of a' s' cs') (of_nat p)" using in_heap_iff [OF h(3) p32] by auto
    then show ?case using h j n heaps Suc.hyps(1) [of "Suc j"] Suc.hyps(2) by (subst find_heap.simps) auto
  qed
  then show ?thesis by simp
qed

lemma mm_free_ok:
  assumes "blocks pf st A" "(p, n) \<in> A"
  shows "\<exists>st'. mm_free (of_nat p) st = Inr st' \<and> blocks pf st' (A - {(p, n)}) \<and> kept A st st'"
proof -
  obtain hs where ok: "heaps_ok pf st hs" and mode: "unused st hs \<or> running st hs \<or> exhausted st hs" and A: "A = all_allocs hs"
    using assms(1) unfolding blocks_def by blast
  have base: "heaps_base pf st hs" using ok by (simp add: heaps_ok_def)
  obtain a s cs where h: "(a, s, cs) \<in> set hs" "(p, n) \<in> allocs a cs" using assms(2) A by (auto elim: all_allocsE)
  then obtain bs es where hs: "hs = bs @ (a, s, cs) # es" by (meson split_list)
  have okh: "heap_ok (mm_lm st) a s cs" using base h(1) unfolding heaps_base_def by blast
  from heap_free_ok [OF okh h(2)] obtain lm' cs' where
      f: "heap_free (mm_lm st) (heap_of a s cs) (of_nat p) = Inr lm'" "heap_ok lm' a s cs'" "extent cs' = extent cs"
      "allocs a cs' = allocs a cs - {(p, n)}" "quiet a s (allocs a cs) (mm_lm st) lm'" by blast
  let ?st = "st\<lparr>mm_lm := lm'\<rparr>" and ?hs = "bs @ (a, s, cs') # es"
  have heaps: "mm_heaps st = heaps_of hs" "length hs \<le> 2" using base by (simp_all add: heaps_base_def)
  then have nth: "mm_heaps st ! length bs = heap_of a s cs" using hs heaps_of_nth [of bs es a s cs] by simp
  have "unat (of_nat (length hs) :: u32) = length hs" by (rule unat_of_nat_u32) (use heaps(2) in simp)
  then have size: "length bs < unat (mm_heaps_actual_size st)"
    using mode hs heaps(2) by (auto simp: running_def exhausted_def unused_def)
  have chunk: "a + 4 \<le> p" "p < a + s" "p < 4294967296" "p \<noteq> 0"
    using allocs_split [OF h(2)] heap_ok_bounds [OF okh] okh by (force simp: heap_ok_def tiled_append chunk_ok_def)+
  have "find_heap st (of_nat p) 0 = Some (length bs)" by (rule find_heap_ok [OF ok [unfolded hs] size chunk(1,2)])
  then have free: "mm_free (of_nat p) st = Inr ?st" using f(1) nth chunk of_nat32_eq_0 [of p] by (simp add: mm_free_def)
  have "heap_of a s cs' = heap_of a s cs" using f(3) by (simp add: heap_of_def)
  then have same: "put_heap st (of_nat (length bs)) (heap_of a s cs', lm') = ?st"
    using nth heaps hs by (intro put_heap_lm) (simp add: get_heap_def unat_of_nat_u32)
  have ok': "heaps_ok pf ?st ?hs" and kept: "kept A st ?st"
    using heaps_ok_change [OF ok [unfolded hs] f(2,5)] hs A same by metis+
  have "(p, n) \<notin> all_allocs bs \<union> all_allocs es"
    by (rule other_allocs [OF base [unfolded hs] okh h(2)]) (rule alloc_mod8 [OF okh h(2)])
  then have "all_allocs ?hs = A - {(p, n)}" using f(4) by (auto simp: A hs all_allocs_simps)
  moreover have "unused ?st ?hs \<or> running ?st ?hs \<or> exhausted ?st ?hs"
    using mode f(3) hs by (auto simp: unused_def running_def exhausted_def full_def butlast_append split: if_splits)
  ultimately show ?thesis using free kept ok' unfolding blocks_def by metis
qed

section \<open>The blocks\<close>

lemma blocks_separate:
  assumes "blocks pf st A"
  shows "separate A (mm_lm st)"
proof -
  obtain hs where "heaps_ok pf st hs" and A: "A = all_allocs hs" using assms unfolding blocks_def by blast
  then have hs: "\<forall>a s cs. (a, s, cs) \<in> set hs \<longrightarrow> heap_ok (mm_lm st) a s cs \<and> 0 < s" "ordered 0 hs (limit (mm_lm st))"
    by (simp_all add: heaps_ok_def heaps_base_def)
  have one: "0 < p \<and> 0 < n \<and> p + n \<le> unat (lm_pages (mm_lm st)) * 65536 \<and> p + n < 4294967296" if pn: "(p, n) \<in> A" for p n
  proof -
    obtain a s cs where h: "(a, s, cs) \<in> set hs" "(p, n) \<in> allocs a cs" using pn A by (auto elim: all_allocsE)
    then have ok: "heap_ok (mm_lm st) a s cs" using hs by blast
    have "0 < n" using alloc_mod8 [OF ok h(2)] by (cases n) auto
    then show ?thesis using heap_alloc_range [OF ok h(2)] heap_ok_bounds [OF ok] ok by (simp add: heap_ok_def)
  qed
  have two: "(p, n) = (q, k) \<or> p + n \<le> q \<or> q + k \<le> p" if "(p, n) \<in> A" "(q, k) \<in> A" for p n q k
    using all_allocs_disjoint [OF hs that [unfolded A]] by linarith
  show ?thesis unfolding separate_def using one two by blast
qed

lemma heap_headers:
  assumes base: "heaps_base pf st hs" and h: "(a, s, cs) \<in> set hs"
  shows "{a..<a + extent cs} - alloc_data (allocs a cs) \<subseteq> addresses - alloc_data (all_allocs hs)"
proof
  fix x assume x: "x \<in> {a..<a + extent cs} - alloc_data (allocs a cs)"
  have ok: "heap_ok (mm_lm st) a s cs" using base h unfolding heaps_base_def by blast
  have "x \<notin> alloc_data (all_allocs hs)"
  proof
    assume "x \<in> alloc_data (all_allocs hs)"
    then obtain p n where pn: "(p, n) \<in> all_allocs hs" "x \<in> {p..<p + n}" by (auto simp: alloc_data_def)
    obtain a1 s1 cs1 where h1: "(a1, s1, cs1) \<in> set hs" "(p, n) \<in> allocs a1 cs1" using pn(1) by (rule all_allocsE)
    obtain bs es where hs: "hs = bs @ (a, s, cs) # es" using h by (meson split_list)
    have "(a1, s1, cs1) \<noteq> (a, s, cs)" using x pn(2) h1(2) by (auto simp: alloc_data_def)
    then have "{a1..<a1 + s1} \<inter> {a..<a + s} = {}"
      using base h1(1) hs by (intro same_ordered [of 0 bs a s cs es "limit (mm_lm st)"]) (auto simp: heaps_base_def)
    moreover have "heap_ok (mm_lm st) a1 s1 cs1" using base h1(1) unfolding heaps_base_def by blast
    ultimately show False using heap_alloc_range [OF _ h1(2)] pn(2) x heap_ok_bounds [OF ok] by fastforce
  qed
  then show "x \<in> addresses - alloc_data (all_allocs hs)" using x heap_ok_bounds [OF ok] by (auto simp: addresses_iff)
qed

lemma heaps_base_data:
  assumes base: "heaps_base pf st hs" and lm: "lm_pages lm' = lm_pages (mm_lm st)"
    "same_on (addresses - alloc_data (all_allocs hs)) (lm_bytes (mm_lm st)) (lm_bytes lm')"
  shows "heaps_base pf (st\<lparr>mm_lm := lm'\<rparr>) hs"
proof -
  have "heap_ok lm' a s cs \<and> 0 < s" if h: "(a, s, cs) \<in> set hs" for a s cs
  proof -
    have "heap_ok (mm_lm st) a s cs" "0 < s" using base h unfolding heaps_base_def by blast+
    with tiled_data [OF _ same_on_subset [OF lm(2) heap_headers [OF base h]]] show ?thesis by (simp add: heap_ok_def lm(1))
  qed
  moreover have "limit lm' = limit (mm_lm st)" using lm(1) by (simp add: limit_def)
  ultimately show ?thesis using base lm(1) unfolding heaps_base_def by auto
qed

lemma blocks_data:
  assumes "blocks pf st A" "lm_pages lm' = lm_pages (mm_lm st)" "same_on (addresses - alloc_data A) (lm_bytes (mm_lm st)) (lm_bytes lm')"
  shows "blocks pf (st\<lparr>mm_lm := lm'\<rparr>) A"
proof -
  obtain hs where hs: "heaps_ok pf st hs" "unused st hs \<or> running st hs \<or> exhausted st hs" "A = all_allocs hs"
    using assms(1) unfolding blocks_def by blast
  have "limit lm' = limit (mm_lm st)" using assms(2) by (simp add: limit_def)
  then have "heaps_ok pf (st\<lparr>mm_lm := lm'\<rparr>) hs"
    using hs heaps_base_data [of pf st hs lm'] assms(2,3) by (simp add: heaps_ok_def)
  moreover have "unused (st\<lparr>mm_lm := lm'\<rparr>) hs \<or> running (st\<lparr>mm_lm := lm'\<rparr>) hs \<or> exhausted (st\<lparr>mm_lm := lm'\<rparr>) hs"
    using hs(2) by (simp add: unused_def running_def exhausted_def)
  ultimately show ?thesis using hs(3) unfolding blocks_def by blast
qed

text \<open>A module starts with the static array in memory and nothing allocated.\<close>

definition initial_ok :: "platform \<Rightarrow> lmem \<Rightarrow> bool" where
  "initial_ok pf lm \<longleftrightarrow> unat (lm_pages lm) \<le> 32767 \<and> unat (pf_initial_heap pf) + 8192 \<le> unat (lm_pages lm) * 65536"

lemma blocks_initial: "initial_ok pf lm \<Longrightarrow> blocks pf (mm_initial lm) {}"
  unfolding blocks_def
  by (intro exI [of _ "[]"])
    (simp add: heaps_ok_def heaps_base_def initial_ok_def mm_initial_def heaps_of_def heaps_size_def unused_def all_allocs_simps limit_def)

section \<open>The contract of an allocator\<close>

lemma kept_preserved: "kept A st st' \<Longrightarrow> preserved A (mm_lm st) (mm_lm st')"
  by (simp add: kept_def preserved_def)

lemma malloc_cases:
  assumes "platform_laws pf" "blocks pf st A" "sz \<noteq> 0" "unat sz \<le> 2147483644" "malloc pf sz st = Inr (p, st')"
  shows "kept A st st'" "p = 0 \<Longrightarrow> blocks pf st' A"
    "p \<noteq> 0 \<Longrightarrow> \<exists>n. unat sz \<le> n \<and> n < unat sz + 8 \<and> (unat p, n) \<notin> A \<and> blocks pf st' (insert (unat p, n) A)"
  using mm_malloc_ok [OF assms(1-4)] assms(5) by (auto simp: malloc_def malloc_result_def)

interpretation cdt: allocator "malloc pf" free mm_lm "\<lambda>lm st. st\<lparr>mm_lm := lm\<rparr>" 2147483644 "\<lambda>st A. platform_laws pf \<and> blocks pf st A"
  for pf
proof (unfold_locales, goal_cases)
  case (2 st A sz p st')
  then show ?case using malloc_cases(3) [of pf st A sz p st'] by blast
next
  case (5 st A x n)
  then show ?case using mm_free_ok [of pf st A x n] kept_preserved by (auto simp: free_def)
next
  case (6 st A lm')
  then show ?case using blocks_data by simp
qed (auto simp: blocks_separate dest: malloc_cases(1,2) kept_preserved)

section \<open>Clients\<close>

abbreviation malloc_client :: "platform \<Rightarrow> lmem \<Rightarrow> memory_manager \<Rightarrow> (nat \<Rightarrow> byte list option) \<Rightarrow> bool" where
  "malloc_client pf lm \<equiv> client (malloc pf) free mm_lm (\<lambda>lm st. st\<lparr>mm_lm := lm\<rparr>) 2147483644 (mm_initial lm)"

lemma client_blocks:
  assumes "platform_laws pf" "initial_ok pf lm" "malloc_client pf lm st L"
  obtains A where "blocks pf st A" "covers A (mm_lm st) L"
  using cdt.client_covers [OF assms(3), simplified] assms(1) blocks_initial [OF assms(2)] by blast

text \<open>While the heaps are in use, a failing allocation means that a page was refused.\<close>

lemma in_use:
  assumes "blocks pf st A" "mm_heaps_actual_size st = 0 \<or> mm_heaps_actual_size st = 16"
  obtains hs where "heaps_ok pf st hs" "unused st hs \<or> running st hs" "A = all_allocs hs"
proof -
  obtain hs where hs: "heaps_ok pf st hs" "unused st hs \<or> running st hs \<or> exhausted st hs" "A = all_allocs hs"
    using assms(1) unfolding blocks_def by blast
  have "length hs \<le> 2" using hs(1) by (simp add: heaps_ok_def heaps_base_def)
  then have "\<not> exhausted st hs"
    using assms(2) of_nat_u32_eq_iff [of "length hs" 0] of_nat_u32_eq_iff [of "length hs" 16] by (auto simp: exhausted_def)
  then show thesis using hs that by blast
qed

lemma malloc_in_use:
  assumes laws: "platform_laws pf" and "blocks pf st A" "mm_heaps_actual_size st = 0 \<or> mm_heaps_actual_size st = 16"
    and sz: "sz \<noteq> 0" "unat sz \<le> 2147483644"
  shows "\<not> refused pf (unat (lm_pages (mm_lm st))) (unat sz + 7) \<Longrightarrow> \<exists>p st'. malloc pf sz st = Inr (p, st') \<and> p \<noteq> 0"
    and "pf_int64 pf (- 1) \<noteq> - 1 \<Longrightarrow> malloc pf sz st = Inr (p, st') \<Longrightarrow> p \<noteq> 0 \<and> mm_heaps_actual_size st' = 16"
    and "pf_int64 pf (- 1) \<noteq> - 1 \<Longrightarrow> malloc pf sz st = malloc_unsearched pf sz st"
proof -
  obtain n where n: "adjust_to_mem_block sz = of_nat n" "n mod 8 = 4" "unat sz \<le> n" "n < unat sz + 8" "n + 4 \<le> 2147483648"
    using adjust_ok [OF sz(2)] by blast
  obtain hs where hs: "heaps_ok pf st hs" "unused st hs \<or> running st hs" using assms(2,3) by (rule in_use)
  note run = mm_malloc_running [OF laws hs sz(1) n(1,2,5), folded malloc_def]
  show "\<exists>p st'. malloc pf sz st = Inr (p, st') \<and> p \<noteq> 0" if "\<not> refused pf (unat (lm_pages (mm_lm st))) (unat sz + 7)"
    using n(4) that by (intro run(2)) (auto simp: refused_def)
  show "p \<noteq> 0 \<and> mm_heaps_actual_size st' = 16" if "pf_int64 pf (- 1) \<noteq> - 1" "malloc pf sz st = Inr (p, st')"
    using run(3) that by blast
  show "malloc pf sz st = malloc_unsearched pf sz st" if "pf_int64 pf (- 1) \<noteq> - 1" using run(4) that .
qed

text \<open>The heaps are never given up when the failure of \<open>sbrk\<close> is not recognised.\<close>

lemma client_in_use:
  assumes laws: "platform_laws pf" and init: "initial_ok pf lm" and conv: "pf_int64 pf (- 1) \<noteq> - 1"
  shows "malloc_client pf lm st L \<Longrightarrow> mm_heaps_actual_size st = 0 \<or> mm_heaps_actual_size st = 16"
proof (induction rule: client.induct)
  case (client_malloc st L sz p st')
  obtain A where "blocks pf st A" by (rule client_blocks [OF laws init client_malloc.hyps(1)])
  from malloc_in_use(2) [OF laws this client_malloc.IH client_malloc.hyps(2,3) conv client_malloc.hyps(4)] show ?case by blast
next
  case (client_null st L sz st')
  obtain A where "blocks pf st A" by (rule client_blocks [OF laws init client_null.hyps(1)])
  from malloc_in_use(2) [OF laws this client_null.IH client_null.hyps(2,3) conv client_null.hyps(4)] show ?case by blast
next
  case (client_free st L p bs st')
  then show ?case by (auto simp: free_def mm_free_def bindr_eq_Inr split: if_splits option.splits)
qed (simp_all add: mm_initial_def)

section \<open>Sizes that wrap around\<close>

lemma heap_malloc_fits:
  assumes "in_memory lm (heap_base h + heap_offset h) 4" "heap_offset h + sz + 4 \<le> heap_size h"
  shows "\<exists>lm'. heap_malloc lm h sz = Inr (heap_base h + (heap_offset h + 4), h\<lparr>heap_offset := heap_offset h + (sz + 4)\<rparr>, lm')
    \<and> lm_pages lm' = lm_pages lm"
proof -
  have "heap_base h + (heap_offset h + 4) - 4 = heap_base h + heap_offset h" "\<not> heap_size h < heap_offset h + sz + 4"
    using assms(2) by simp_all
  then show ?thesis
    using assms(1)
    by (simp add: heap_malloc_def buffer_make_def buffer_set_size_def mark_alloc_def load_size_def store_size_def in_memory_def
        size_marker_def Let_def)
qed

lemma malloc_takes:
  assumes "mm_heaps_actual_size st = 16" "mm_active_heap st < 16" "get_heap st (mm_active_heap st) = Inr h" "is_init h" "sz \<noteq> 0"
    and "heap_malloc (mm_lm st) h (adjust_to_mem_block sz) = Inr (p, r)" "p \<noteq> 0"
  shows "malloc pf sz st = Inr (p, put_heap st (mm_active_heap st) r)"
proof -
  have "malloc_loop pf (adjust_to_mem_block sz) (Some (mm_active_heap st)) st = Some (Inr (p, put_heap st (mm_active_heap st) r))"
    using assms by (subst malloc_loop.simps) simp
  then show ?thesis using assms by (simp add: malloc_def mm_malloc_def start_heap_def Let_def terminating_def)
qed

lemma adjust_wraps:
  assumes "4294967285 \<le> unat sz" "unat sz \<le> 4294967292"
  shows "adjust_to_mem_block sz = - 4"
proof -
  have "unat sz \<in> {4294967285, 4294967286, 4294967287, 4294967288, 4294967289, 4294967290, 4294967291, 4294967292}"
    using assms by (simp only: insert_iff empty_iff) arith
  then have "(of_nat (unat sz) :: u32) \<in> {- 11, - 10, - 9, - 8, - 7, - 6, - 5, - 4}" by (elim insertE emptyE) simp_all
  then have "sz \<in> {- 11, - 10, - 9, - 8, - 7, - 6, - 5, - 4}" by simp
  moreover have "\<forall>x\<in>{- 11, - 10, - 9, - 8, - 7, - 6, - 5, - 4}. adjust_to_mem_block x = - 4" by code_simp
  ultimately show ?thesis by blast
qed

text \<open>The heap in use, where it has room.\<close>

lemma active_heap:
  assumes "blocks pf st A" "mm_heaps_actual_size st = 16" "get_heap st (mm_active_heap st) = Inr h" "0 < unat (heap_size h)"
  obtains a s cs where "mm_active_heap st < 16" "h = heap_of a s cs" "heap_ok (mm_lm st) a s cs"
proof -
  obtain hs where hs: "heaps_ok pf st hs" "unused st hs \<or> running st hs" using assms(1,2) by (auto elim: in_use)
  have base: "heaps_base pf st hs" using hs(1) by (simp add: heaps_ok_def)
  show thesis
  proof (cases "hs = []")
    case True
    then have "h = heap_default" using hs(2) base assms(3) by (auto simp: unused_def running_def get_heap_def heaps_base_def heaps_of_def)
    then show thesis using assms(4) by (simp add: heap_default_def)
  next
    case False
    then obtain bs a s cs where b: "hs = bs @ [(a, s, cs)]" by (metis prod_cases3 rev_exhaust)
    have len: "length bs \<le> 1" using base b by (simp add: heaps_base_def)
    have active: "mm_active_heap st = of_nat (length bs)" using hs(2) b by (auto simp: unused_def running_def)
    have "h = heap_of a s cs" using assms(3) active base b len by (simp add: get_heap_def heaps_base_def heaps_of_nth unat_of_nat_u32)
    moreover have "(of_nat (length bs) :: u32) < 16" using len less_of_nat32 [of "length bs" 16] by simp
    ultimately show thesis using that base b active by (auto simp: heaps_base_def)
  qed
qed

section \<open>calloc\<close>

lemma calloc_ok:
  assumes laws: "platform_laws pf" and blocks: "blocks pf st A" and k: "unat count * unat sz = k" "0 < k" "k \<le> 2147483644"
    and m: "malloc pf (count * sz) st = Inr (p, st1)" "p \<noteq> 0"
  shows "\<exists>st' n. calloc pf count sz st = Inr (p, st') \<and> k \<le> n \<and> (unat p, n) \<notin> A \<and> blocks pf st' (insert (unat p, n) A)
    \<and> preserved A (mm_lm st) (mm_lm st') \<and> mem_read (lm_bytes (mm_lm st')) p k = replicate k 0"
proof -
  have "unat (count * sz) = k" using k by (simp add: unat_word_ariths)
  then have u: "unat (count * sz) = k" "count * sz \<noteq> 0" using k(2) by (auto simp: unat_eq_0)
  obtain n where n: "k \<le> n" "(unat p, n) \<notin> A" "blocks pf st1 (insert (unat p, n) A)"
    using malloc_cases(3) [OF laws blocks u(2) _ m] u(1) k(3) by auto
  have kept: "preserved A (mm_lm st) (mm_lm st1)" using malloc_cases(1) [OF laws blocks u(2) _ m(1)] u(1) k(3) kept_preserved by simp
  have sep: "separate (insert (unat p, n) A) (mm_lm st1)" by (rule blocks_separate [OF n(3)])
  then have inside: "unat p + n \<le> unat (lm_pages (mm_lm st1)) * 65536" "unat p + n < 4294967296" unfolding separate_def by blast+
  let ?m = "lm_bytes (mm_lm st1)" and ?m' = "mem_write (lm_bytes (mm_lm st1)) p (replicate k 0)"
  let ?st = "st1\<lparr>mm_lm := (mm_lm st1)\<lparr>lm_bytes := ?m'\<rparr>\<rparr>"
  have "lm_set (mm_lm st1) p 0 (count * sz) = Inr ((mm_lm st1)\<lparr>lm_bytes := ?m'\<rparr>)"
    using inside n(1) u(1) by (simp add: lm_set_def in_memory_iff memset_def memset_from_eq)
  then have c: "calloc pf count sz st = Inr (p, ?st)" using m(1) by (simp add: calloc_def malloc_def)
  have outside: "?m' (of_nat y) = ?m (of_nat y)" if "y \<in> addresses" "y \<notin> {unat p..<unat p + n}" for y
  proof (rule mem_write_outside)
    fix i assume "i < length (replicate k (0 :: byte))"
    then show "(of_nat y :: u32) \<noteq> p + of_nat i"
      using that inside n(1) of_nat_u32_eq_iff [of y "unat p + i"] by (auto simp: addresses_iff)
  qed
  have own: "{unat p..<unat p + n} \<subseteq> alloc_data (insert (unat p, n) A)" by (auto simp: alloc_data_def)
  have "same_on (addresses - alloc_data (insert (unat p, n) A)) ?m ?m'" unfolding same_on_def using outside own by blast
  then have "blocks pf ?st (insert (unat p, n) A)" using blocks_data [OF n(3)] by simp
  moreover have "alloc_data A \<subseteq> addresses" using separate_addresses [OF sep] alloc_data_Un [of "{(unat p, n)}" A] by auto
  then have "\<forall>y\<in>alloc_data A. ?m' (of_nat y) = ?m (of_nat y)" using outside separate_insert [OF sep n(2)] by blast
  then have "preserved A (mm_lm st1) (mm_lm ?st)" by (simp add: preserved_def same_on_def)
  then have "preserved A (mm_lm st) (mm_lm ?st)" using kept same_on_trans unfolding preserved_def by blast
  moreover have "mem_read (lm_bytes (mm_lm ?st)) p k = replicate k 0"
    using mem_read_write [of "replicate k 0" ?m p] k(3) by simp
  ultimately show ?thesis using c n by blast
qed

section \<open>Properties\<close>

text \<open>A host that lends four pages to a module compiled by clang, with the static heap at 1024.\<close>

definition wasm_platform :: platform where
  "wasm_platform = \<lparr>pf_grow = (\<lambda>p d. uint p + uint d \<le> 4), pf_initial_heap = 1024, pf_int64 = ucast\<rparr>"

definition blank_memory :: lmem where
  "blank_memory = \<lparr>lm_bytes = (\<lambda>_. 0), lm_pages = 1\<rparr>"

lemma ucast_not_minus_one: "(ucast (p :: u32) :: u64) \<noteq> - 1"
proof
  assume "(ucast p :: u64) = - 1"
  then have "sint (ucast p :: u64) < 0" by simp
  then show False using ucast_nonneg by blast
qed

lemma wasm_platform_laws: "platform_laws wasm_platform"
proof -
  have "unat p + unat d \<le> 32767" if "uint p + uint d \<le> 4" for p d :: u32
  proof -
    have "int (unat p + unat d) \<le> 4" using that by simp
    then show ?thesis by linarith
  qed
  then show ?thesis by (simp add: platform_laws_def wasm_platform_def ucast_not_minus_one)
qed

lemma blank_memory_ok: "initial_ok wasm_platform blank_memory"
  by (simp add: initial_ok_def wasm_platform_def blank_memory_def)

lemma wasm_platform_grants: "(q - Suc 0) * 65536 < 15 \<Longrightarrow> Suc 0 \<le> q \<Longrightarrow> pf_grow wasm_platform (of_nat q) 1"
proof -
  assume "(q - Suc 0) * 65536 < 15" "Suc 0 \<le> q"
  then have "q = 1" by (cases "q - Suc 0") auto
  then show ?thesis by (simp add: wasm_platform_def)
qed

lemma first_block:
  obtains st where "malloc wasm_platform 4 (mm_initial blank_memory) = Inr (1028, st)"
proof -
  have "case malloc wasm_platform 4 (mm_initial blank_memory) of Inr (p, st) \<Rightarrow> p = 1028 | _ \<Rightarrow> False" by code_simp
  then show thesis using that by (auto split: sum.splits)
qed

lemma first_client:
  obtains st bs where "malloc_client wasm_platform blank_memory st ((\<lambda>p. None)(1028 := Some bs))" "length bs = 4"
proof -
  obtain st where "malloc wasm_platform 4 (mm_initial blank_memory) = Inr (1028, st)" by (rule first_block)
  then have "malloc_client wasm_platform blank_memory st ((\<lambda>p. None)(unat (1028 :: u32) := Some (mem_read (lm_bytes (mm_lm st)) 1028 (unat (4 :: u32)))))"
    by (intro client_malloc [where st = "mm_initial blank_memory" and sz = 4 and p = 1028 and st' = st] client_start) simp_all
  then show thesis by (intro that [of st "mem_read (lm_bytes (mm_lm st)) 1028 4"]) simp_all
qed

text \<open>
  C12. The allocator of \<^verbatim>\<open>malloc.cpp\<close> refines a store of separate blocks. Whatever sequence of
  calls of \<open>malloc\<close> and \<open>free\<close> a module makes, with writes into the blocks it holds in
  between: the blocks it holds are in memory, do not overlap and contain what was written to
  them, \<open>free\<close> of a block it holds returns, and a new block is not one it holds.
\<close>
theorem malloc_refines_store:
  assumes "platform_laws pf" "initial_ok pf lm" "malloc_client pf lm st L"
  shows "agrees (mm_lm st) L \<and> (\<forall>p\<in>dom L. \<exists>st'. free (of_nat p) st = Inr st')
    \<and> (\<forall>sz q st'. sz \<noteq> 0 \<longrightarrow> unat sz \<le> 2147483644 \<longrightarrow> malloc pf sz st = Inr (q, st') \<longrightarrow> q \<noteq> 0 \<longrightarrow> L (unat q) = None)"
proof -
  have inv: "platform_laws pf \<and> blocks pf (mm_initial lm) {}" using assms(1) blocks_initial [OF assms(2)] ..
  show ?thesis
    using cdt.client_agrees [OF assms(3) inv] cdt.client_free_ok [OF assms(3) inv] cdt.client_fresh [OF assms(3) inv]
    by (auto simp: dom_def)
qed

theorem malloc_refines_store_witness:
  "\<exists>st bs st'. agrees (mm_lm st) ((\<lambda>p. None)(1028 := Some bs)) \<and> length bs = 4 \<and> free 1028 st = Inr st'"
proof -
  obtain st bs where c: "malloc_client wasm_platform blank_memory st ((\<lambda>p. None)(1028 := Some bs))" "length bs = 4"
    by (rule first_client)
  from malloc_refines_store [OF wasm_platform_laws blank_memory_ok c(1)] c(2) show ?thesis by fastforce
qed

text \<open>
  C13. As long as the manager has not given up its heaps, \<open>malloc\<close> returns a block whenever the
  host grants the pages for it: at most one page more than the size needs.
\<close>
theorem malloc_succeeds:
  assumes "platform_laws pf" "initial_ok pf lm" "malloc_client pf lm st L"
    and "mm_heaps_actual_size st = 0 \<or> mm_heaps_actual_size st = heaps_size" "sz \<noteq> 0" "unat sz \<le> 2147483644"
    and "\<forall>q\<ge>unat (lm_pages (mm_lm st)). (q - unat (lm_pages (mm_lm st))) * 65536 < unat sz + 11 \<longrightarrow> pf_grow pf (of_nat q) 1"
  shows "\<exists>p st'. malloc pf sz st = Inr (p, st') \<and> p \<noteq> 0"
proof -
  obtain A where "blocks pf st A" by (rule client_blocks [OF assms(1-3)])
  then show ?thesis
    using assms(4-7) by (intro malloc_in_use(1) [OF assms(1)]) (auto simp: refused_def heaps_size_def)
qed

theorem malloc_succeeds_witness: "\<exists>p st'. malloc wasm_platform 4 (mm_initial blank_memory) = Inr (p, st') \<and> p \<noteq> 0"
  by (rule malloc_succeeds [OF wasm_platform_laws blank_memory_ok client_start])
    (use wasm_platform_grants in \<open>auto simp: mm_initial_def blank_memory_def\<close>)

text \<open>
  C28. Where the conversion of a pointer to \<^verbatim>\<open>int64_t\<close> does not turn the failure value of \<open>sbrk\<close> into
  \<open>-1\<close>, as with zero extension, a call of \<open>malloc\<close> for 1 to 2147483644 bytes never returns
  null: it returns a block or the module traps on an address out of bounds. The call
  does the same, state included, without the search through freed memory that is meant to
  happen when the host has no more pages.
\<close>
theorem malloc_never_null:
  assumes "platform_laws pf" "initial_ok pf lm" "pf_int64 pf (- 1) \<noteq> - 1" "malloc_client pf lm st L" "sz \<noteq> 0" "unat sz \<le> 2147483644"
  shows "(case malloc pf sz st of Inl e \<Rightarrow> e = Undefined ''out of bounds memory access'' | Inr (p, st') \<Rightarrow> p \<noteq> 0)
    \<and> malloc pf sz st = malloc_unsearched pf sz st"
proof -
  obtain A where A: "blocks pf st A" by (rule client_blocks [OF assms(1,2,4)])
  have use: "mm_heaps_actual_size st = 0 \<or> mm_heaps_actual_size st = 16" by (rule client_in_use [OF assms(1-4)])
  note calls = malloc_in_use(2,3) [OF assms(1) A use assms(5,6,3)]
  from mm_malloc_ok [OF assms(1) A assms(5,6)] calls(1)
  have "case malloc pf sz st of Inl e \<Rightarrow> e = Undefined ''out of bounds memory access'' | Inr (p, st') \<Rightarrow> p \<noteq> 0"
    by (auto simp: malloc_def malloc_result_def split: sum.splits)
  then show ?thesis using calls(2) ..
qed

theorem malloc_never_null_witness:
  "(case malloc wasm_platform 300000 (mm_initial blank_memory) of Inl e \<Rightarrow> e = Undefined ''out of bounds memory access'' | Inr (p, st') \<Rightarrow> p \<noteq> 0)
   \<and> malloc wasm_platform 300000 (mm_initial blank_memory) = malloc_unsearched wasm_platform 300000 (mm_initial blank_memory)"
  by (rule malloc_never_null [OF wasm_platform_laws blank_memory_ok _ client_start])
    (simp_all add: wasm_platform_def ucast_not_minus_one)

text \<open>
  When the product of the two arguments of \<open>calloc\<close> does not overflow and there is
  memory, it returns a new block whose bytes are zero, and the other blocks keep their
  contents.
\<close>
theorem calloc_zeroes:
  assumes "platform_laws pf" "initial_ok pf lm" "malloc_client pf lm st L" "0 < unat count * unat sz" "unat count * unat sz \<le> 2147483644"
    and "malloc pf (count * sz) st = Inr (p, st1)" "p \<noteq> 0"
  shows "\<exists>st'. calloc pf count sz st = Inr (p, st') \<and> agrees (mm_lm st') (L(unat p := Some (replicate (unat count * unat sz) 0)))
    \<and> L (unat p) = None"
proof -
  let ?k = "unat count * unat sz"
  obtain A where A: "blocks pf st A" "covers A (mm_lm st) L" by (rule client_blocks [OF assms(1-3)])
  obtain st' n where c: "calloc pf count sz st = Inr (p, st')" "?k \<le> n" "blocks pf st' (insert (unat p, n) A)"
      "preserved A (mm_lm st) (mm_lm st')" "mem_read (lm_bytes (mm_lm st')) p ?k = replicate ?k 0"
    using calloc_ok [OF assms(1) A(1) refl assms(4-7)] by blast
  have "covers (insert (unat p, n) A) (mm_lm st') (L(unat p := Some (replicate ?k 0)))"
    using covers_insert [OF covers_preserved [OF A(2) c(4)], of "replicate ?k 0" n "unat p"] c(2,5) by simp
  then have "agrees (mm_lm st') (L(unat p := Some (replicate ?k 0)))"
    by (rule covers_agrees [OF blocks_separate [OF c(3)]])
  moreover have "count * sz \<noteq> 0" "unat (count * sz) \<le> 2147483644"
    using assms(4,5) by (auto simp: unat_word_ariths simp flip: unat_gt_0)
  then have "L (unat p) = None"
    using cdt.client_fresh [OF assms(3) _ _ _ assms(6,7)] assms(1) blocks_initial [OF assms(2)] by blast
  ultimately show ?thesis using c(1) by blast
qed

theorem calloc_zeroes_witness:
  "\<exists>st'. calloc wasm_platform 2 2 (mm_initial blank_memory) = Inr (1028, st') \<and> agrees (mm_lm st') ((\<lambda>p. None)(1028 := Some [0, 0, 0, 0]))"
proof -
  obtain st where "malloc wasm_platform 4 (mm_initial blank_memory) = Inr (1028, st)" by (rule first_block)
  then have m: "malloc wasm_platform (2 * 2) (mm_initial blank_memory) = Inr (1028, st)" by simp
  have "unat (2 :: u32) * unat (2 :: u32) = 4" by simp
  moreover have "replicate 4 (0 :: byte) = [0, 0, 0, 0]" by (simp add: numeral_eq_Suc)
  ultimately have "replicate (unat (2 :: u32) * unat (2 :: u32)) (0 :: byte) = [0, 0, 0, 0]" by (simp only:)
  with calloc_zeroes [OF wasm_platform_laws blank_memory_ok client_start _ _ m] show ?thesis by auto
qed

text \<open>
  C29. Sizes from 4294967285 to 4294967292 are rounded up to one for which the sum that
  \<open>malloc\<close> compares with the size of the heap wraps around. In every state a client reaches,
  as long as the manager has not given up its heaps, such a call succeeds although no
  memory has that size, and the next call for a size that fits the rest of the active heap
  returns the same address again.
\<close>
theorem malloc_wraps:
  assumes "platform_laws pf" "initial_ok pf lm" "malloc_client pf lm st L" "mm_heaps_actual_size st = heaps_size"
    and "get_heap st (mm_active_heap st) = Inr h" "sz2 \<noteq> 0" "unat (heap_offset h) + unat sz2 + 11 \<le> unat (heap_size h)"
    and "4294967285 \<le> unat sz" "unat sz \<le> 4294967292"
  shows "\<exists>p st' st''. malloc pf sz st = Inr (p, st') \<and> malloc pf sz2 st' = Inr (p, st'') \<and> p \<noteq> 0"
proof -
  have size16: "mm_heaps_actual_size st = 16" using assms(4) by (simp add: heaps_size_def)
  obtain A where "blocks pf st A" by (rule client_blocks [OF assms(1-3)])
  then obtain a s cs where h: "mm_active_heap st < 16" "h = heap_of a s cs" "heap_ok (mm_lm st) a s cs"
    using size16 assms(5,7) by (auto elim: active_heap)
  note b = heap_ok_bounds [OF h(3)]
  have u: "unat (heap_offset h) = extent cs" "unat (heap_size h) = s" using b h(2) by (simp_all add: unat_of_nat_u32)
  have room: "extent cs + unat sz2 + 11 \<le> s" using assms(7) u by simp
  obtain n where n: "adjust_to_mem_block sz2 = of_nat n" "n < unat sz2 + 8"
    using adjust_ok [of sz2] room b(3) by auto
  let ?p = "heap_base h + (heap_offset h + 4)"
  have p: "?p = of_nat (a + extent cs + 4)" using h(2) by simp
  have p0: "?p \<noteq> 0" unfolding p using of_nat32_eq_0 [of "a + extent cs + 4"] room b(3) by (simp del: of_nat_add)
  have inside: "in_memory lm (heap_base h + heap_offset h) 4" if "lm_pages lm = lm_pages (mm_lm st)" for lm
  proof -
    have "heap_base h + heap_offset h = of_nat (a + extent cs)" using h(2) by simp
    then have "unat (heap_base h + heap_offset h) = a + extent cs" using room b(3) unat_of_nat_u32 [of "a + extent cs"] by simp
    then show ?thesis using h(3) room that by (simp add: in_memory_iff heap_ok_def)
  qed
  have init: "is_init h" using b of_nat32_eq_0 [of a] h(2) by (simp add: is_init_def)
  have "heap_offset h \<le> heap_size h" using u b(2) by (simp add: word_le_nat_alt)
  then obtain lm1 where m1: "heap_malloc (mm_lm st) h (adjust_to_mem_block sz) = Inr (?p, h, lm1)" "lm_pages lm1 = lm_pages (mm_lm st)"
    using heap_malloc_fits [OF inside [OF refl], of "- 4"] adjust_wraps [OF assms(8,9)] by auto
  have "sz \<noteq> 0" using assms(8) by auto
  let ?st = "put_heap st (mm_active_heap st) (h, lm1)"
  have first: "malloc pf sz st = Inr (?p, ?st)" by (rule malloc_takes [OF size16 h(1) assms(5) init \<open>sz \<noteq> 0\<close> m1(1) p0])
  have fits: "heap_offset h + of_nat n + 4 \<le> heap_size h"
  proof -
    have "heap_offset h + of_nat n + 4 = of_nat (extent cs + n + 4)" using h(2) by simp
    then show ?thesis using n(2) room b(3) u(2) unat_of_nat_u32 [of "extent cs + n + 4"] by (simp add: word_le_nat_alt)
  qed
  have "mm_lm ?st = lm1" by simp
  then obtain h2 lm2 where m2: "heap_malloc (mm_lm ?st) h (adjust_to_mem_block sz2) = Inr (?p, h2, lm2)"
    using heap_malloc_fits [OF inside [OF m1(2)] fits] n(1) by auto
  have "get_heap ?st (mm_active_heap ?st) = Inr h" using assms(5) by (auto simp: get_heap_def put_heap_def split: if_splits)
  then have "malloc pf sz2 ?st = Inr (?p, put_heap ?st (mm_active_heap ?st) (h2, lm2))"
    using size16 h(1) by (intro malloc_takes [OF _ _ _ init assms(6) m2 p0]) simp_all
  with first p0 show ?thesis by blast
qed

theorem malloc_wraps_witness:
  "\<exists>st p st' st''. malloc wasm_platform 4 (mm_initial blank_memory) = Inr (1028, st)
     \<and> malloc wasm_platform 4294967292 st = Inr (p, st') \<and> malloc wasm_platform 100 st' = Inr (p, st'')"
proof -
  have "case malloc wasm_platform 4 (mm_initial blank_memory) of
      Inr (p, st) \<Rightarrow> p = 1028 \<and> mm_heaps_actual_size st = heaps_size
        \<and> get_heap st (mm_active_heap st) = Inr \<lparr>heap_size = 8192, heap_base = 1024, heap_offset = 8\<rparr> | _ \<Rightarrow> False" by code_simp
  then obtain st where st: "malloc wasm_platform 4 (mm_initial blank_memory) = Inr (1028, st)" "mm_heaps_actual_size st = heaps_size"
      "get_heap st (mm_active_heap st) = Inr \<lparr>heap_size = 8192, heap_base = 1024, heap_offset = 8\<rparr>"
    by (auto split: sum.splits)
  have "malloc_client wasm_platform blank_memory st ((\<lambda>p. None)(unat (1028 :: u32) := Some (mem_read (lm_bytes (mm_lm st)) 1028 (unat (4 :: u32)))))"
    using st(1) by (intro client_malloc [where st = "mm_initial blank_memory" and sz = 4 and p = 1028 and st' = st] client_start) simp_all
  from malloc_wraps [OF wasm_platform_laws blank_memory_ok this st(2,3), of 100 4294967292] st(1) show ?thesis by auto
qed

text \<open>
  Two calls outside the contract above make the allocator hand out memory twice. After
  the second of two blocks is freed, \<open>realloc\<close> of the first one to 20 bytes swallows the second
  and the unused memory behind it, but the end of the used part stays where it was: the next
  block starts at 1044, inside the 20 bytes at 1028. And a size close to the largest makes the
  sum that \<open>malloc\<close> compares with the size of the heap wrap around: a block of 4294967292
  bytes is granted in a heap of 8192 bytes, and the next block has the same address.
\<close>
theorem allocator_overlaps:
  "bindr (malloc wasm_platform 4 (mm_initial blank_memory)) (\<lambda>(a, st).
   bindr (malloc wasm_platform 4 st) (\<lambda>(b, st).
   bindr (free b st) (\<lambda>st.
   bindr (realloc wasm_platform a 20 st) (\<lambda>(c, st).
   bindr (malloc wasm_platform 4 st) (\<lambda>(d, st). Inr (c, d)))))) = Inr (1028, 1044)
   \<and> bindr (malloc wasm_platform 4294967292 (mm_initial blank_memory)) (\<lambda>(a, st).
     bindr (malloc wasm_platform 100 st) (\<lambda>(b, st). Inr (a, b))) = Inr (1028, 1028)"
  by (rule conjI; code_simp)

end
