(* ===== verification/Simple_Malloc.thy ===== *)
theory Simple_Malloc
  imports Allocator
begin

text \<open>
  The allocator \<^verbatim>\<open>libraries/wasmlib/simple_malloc.cpp\<close>: a pointer that moves up, by
  multiples of eight, and memory that grows with it. The host grants pages or not.
\<close>

section \<open>The allocator\<close>

record dsmalloc =
  ds_lm :: lmem
  ds_heap :: u32
  ds_last_ptr :: u32
  ds_next_page :: u32

definition ds_align :: "u32 \<Rightarrow> byte \<Rightarrow> u32" where
  "ds_align ptr align_amt = (ptr + ucast align_amt - 1) AND NOT (ucast align_amt - 1)"

definition ds_init :: "lmem \<Rightarrow> dsmalloc res" where
  "ds_init lm = bindr (load_size lm 0) (\<lambda>base.
     let heap = ds_align base 8 in
     Inr \<lparr>ds_lm = lm, ds_heap = heap, ds_last_ptr = heap, ds_next_page = lm_pages lm\<rparr>)"

definition ds_grow :: "(u32 \<Rightarrow> u32 \<Rightarrow> bool) \<Rightarrow> u32 \<Rightarrow> lmem \<Rightarrow> lmem res" where
  "ds_grow grow n lm = bindr (check (grow (lm_pages lm) n) ''failed to allocate pages'') (\<lambda>_. Inr (lm\<lparr>lm_pages := lm_pages lm + n\<rparr>))"

definition ds_call :: "(u32 \<Rightarrow> u32 \<Rightarrow> bool) \<Rightarrow> u32 \<Rightarrow> byte \<Rightarrow> dsmalloc \<Rightarrow> (u32 \<times> dsmalloc) res" where
  "ds_call grow sz align_amt st =
     (if sz = 0 then Inr (0, st)
      else
        let ret = ds_last_ptr st;
            last_ptr = ds_align (ds_last_ptr st + sz) align_amt;
            pages_to_alloc = drop_bit 16 sz;
            next_page = ds_next_page st + pages_to_alloc;
            (next_page, pages_to_alloc) = (if push_bit 16 next_page \<le> last_ptr then (next_page + 1, pages_to_alloc + 1)
                                           else (next_page, pages_to_alloc)) in
        bindr (ds_grow grow pages_to_alloc (ds_lm st)) (\<lambda>lm.
          Inr (ret, st\<lparr>ds_lm := lm, ds_last_ptr := last_ptr, ds_next_page := next_page\<rparr>)))"

definition ds_malloc :: "(u32 \<Rightarrow> u32 \<Rightarrow> bool) \<Rightarrow> u32 \<Rightarrow> dsmalloc \<Rightarrow> (u32 \<times> dsmalloc) res" where
  "ds_malloc grow sz st = ds_call grow sz 8 st"

definition ds_calloc :: "(u32 \<Rightarrow> u32 \<Rightarrow> bool) \<Rightarrow> u32 \<Rightarrow> u32 \<Rightarrow> dsmalloc \<Rightarrow> (u32 \<times> dsmalloc) res" where
  "ds_calloc grow count sz st =
     bindr (ds_call grow (count * sz) 8 st) (\<lambda>(ptr, st).
       if ptr \<noteq> 0 then bindr (lm_set (ds_lm st) ptr 0 (count * sz)) (\<lambda>lm. Inr (ptr, st\<lparr>ds_lm := lm\<rparr>))
       else Inr (0, st))"

definition ds_realloc :: "(u32 \<Rightarrow> u32 \<Rightarrow> bool) \<Rightarrow> u32 \<Rightarrow> u32 \<Rightarrow> dsmalloc \<Rightarrow> (u32 \<times> dsmalloc) res" where
  "ds_realloc grow ptr sz st = ds_call grow sz 8 st"

definition ds_free :: "u32 \<Rightarrow> dsmalloc \<Rightarrow> dsmalloc res" where
  "ds_free ptr st = Inr st"

section \<open>The invariant\<close>

definition grow_law :: "(u32 \<Rightarrow> u32 \<Rightarrow> bool) \<Rightarrow> bool" where
  "grow_law grow \<longleftrightarrow> (\<forall>p d. grow p d \<longrightarrow> unat p + unat d \<le> 32767)"

definition ds_ok :: "dsmalloc \<Rightarrow> bool" where
  "ds_ok st \<longleftrightarrow> 0 < unat (ds_last_ptr st) \<and> unat (ds_last_ptr st) mod 8 = 0
     \<and> unat (ds_last_ptr st) \<le> unat (ds_next_page st) * 65536
     \<and> unat (ds_next_page st) \<le> 32767 \<and> lm_pages (ds_lm st) = ds_next_page st"

definition ds_blocks :: "dsmalloc \<Rightarrow> (nat \<times> nat) set \<Rightarrow> bool" where
  "ds_blocks st A \<longleftrightarrow> ds_ok st \<and> separate A (ds_lm st) \<and> (\<forall>p n. (p, n) \<in> A \<longrightarrow> p + n \<le> unat (ds_last_ptr st))"

lemma ds_align_8:
  assumes "x + 7 < 4294967296"
  shows "ds_align (of_nat x) 8 = of_nat ((x + 7) div 8 * 8)"
proof -
  have "w AND NOT (mask 3) = push_bit 3 (drop_bit 3 w)" for w :: u32
    by (rule bit_word_eqI) (auto simp: bit_simps)
  moreover have "of_nat x + ucast (8 :: byte) - 1 = (of_nat (x + 7) :: u32)" "ucast (8 :: byte) - 1 = (mask 3 :: u32)"
    by (simp_all add: mask_eq_exp_minus_1)
  ultimately have "ds_align (of_nat x) 8 = push_bit 3 (drop_bit 3 (of_nat (x + 7)))"
    by (simp only: ds_align_def)
  moreover have "drop_bit 3 (of_nat (x + 7) :: u32) = of_nat ((x + 7) div 8)"
  proof (rule word_unat_eq_iff [THEN iffD2])
    have "unat (of_nat (x + 7) :: u32) = x + 7" "unat (of_nat ((x + 7) div 8) :: u32) = (x + 7) div 8"
      by (rule unat_of_nat_u32, use assms in simp)+
    then show "unat (drop_bit 3 (of_nat (x + 7) :: u32)) = unat (of_nat ((x + 7) div 8) :: u32)"
      by (simp only: unat_drop_bit_eq) (simp add: drop_bit_eq_div)
  qed
  ultimately show ?thesis by (simp add: push_bit_eq_mult)
qed

lemma round8_bounds: "x \<le> (x + 7) div 8 * 8" "(x + 7) div 8 * 8 \<le> x + 7" for x :: nat
  using div_mult_mod_eq [of "x + 7" 8] mod_less_divisor [of 8 "x + 7"] by linarith+

lemma round8_pages:
  fixes l s N q :: nat
  assumes "l \<le> N * 65536" "s < (q + 1) * 65536"
  shows "(l + s + 7) div 8 * 8 \<le> (N + q + 1) * 65536"
proof -
  have "(l + s + 7) div 8 < Suc ((N + q + 1) * 8192)" using assms by (simp add: div_less_iff_less_mult)
  then show ?thesis by linarith
qed

lemma ds_call_ok:
  assumes law: "grow_law grow" and ok: "ds_ok st" and sz: "sz \<noteq> 0" and c: "ds_call grow sz 8 st = Inr (p, st')"
  shows "p = ds_last_ptr st" "ds_ok st'" "lm_bytes (ds_lm st') = lm_bytes (ds_lm st)" "unat p + unat sz \<le> unat (ds_last_ptr st')"
    "unat (lm_pages (ds_lm st)) \<le> unat (lm_pages (ds_lm st'))"
proof -
  define l s N q where "l = unat (ds_last_ptr st)" and "s = unat sz" and "N = unat (ds_next_page st)" and "q = s div 65536"
  have st: "0 < l" "l \<le> N * 65536" "N \<le> 32767" "lm_pages (ds_lm st) = of_nat N" "ds_last_ptr st = of_nat l" "ds_next_page st = of_nat N"
    using ok by (simp_all add: ds_ok_def l_def N_def)
  have s: "sz = of_nat s" "s < 4294967296" using unsigned_less [of sz] by (simp_all add: s_def)
  have q65536: "q < 65536" using s(2) unfolding q_def by (simp add: div_less_iff_less_mult)
  then have "unat (of_nat q :: u32) = q" by (intro unat_of_nat_u32) simp
  then have q: "drop_bit 16 sz = of_nat q" "q < 65536"
    using q65536 by (simp_all only: word_unat_eq_iff unat_drop_bit_eq) (simp add: q_def s_def drop_bit_eq_div)
  define e where "e = (if push_bit 16 (of_nat (N + q)) \<le> ds_align (ds_last_ptr st + sz) 8 then 1 else 0 :: nat)"
  have e: "e \<le> 1" by (simp add: e_def)
  have call: "ds_call grow sz 8 st = bindr (ds_grow grow (of_nat (q + e)) (ds_lm st)) (\<lambda>lm.
      Inr (ds_last_ptr st, st\<lparr>ds_lm := lm, ds_last_ptr := ds_align (ds_last_ptr st + sz) 8, ds_next_page := of_nat (N + q + e)\<rparr>))"
    using sz by (simp add: ds_call_def Let_def q(1) st(6) e_def)
  then have granted: "grow (of_nat N) (of_nat (q + e))" and st': "p = of_nat l"
      "st' = st\<lparr>ds_lm := (ds_lm st)\<lparr>lm_pages := of_nat (N + q + e)\<rparr>, ds_last_ptr := ds_align (ds_last_ptr st + sz) 8, ds_next_page := of_nat (N + q + e)\<rparr>"
    using c st by (auto simp: ds_grow_def check_def split: if_splits)
  have "unat (of_nat (q + e) :: u32) = q + e" "unat (of_nat N :: u32) = N" by (rule unat_of_nat_u32, use q(2) e st(3) in simp)+
  then have pages: "N + (q + e) \<le> 32767" using law granted unfolding grow_law_def by metis
  have s_lt: "s < (q + 1) * 65536" unfolding q_def by (simp add: dividend_less_div_times)
  then have small: "l + s + 7 < 4294967296" using st(2) pages by simp
  define l' where "l' = (l + s + 7) div 8 * 8"
  note bounds = round8_bounds [of "l + s", folded l'_def]
  have align: "ds_align (ds_last_ptr st + sz) 8 = of_nat l'"
    using ds_align_8 [OF small] st(5) s(1) by (simp add: l'_def)
  have u: "unat (of_nat l' :: u32) = l'" "unat (of_nat (N + q + e) :: u32) = N + q + e"
    by (rule unat_of_nat_u32, use bounds small pages in simp)+
  have top: "l' \<le> (N + q + e) * 65536"
  proof -
    have "push_bit 16 (of_nat (N + q) :: u32) = of_nat ((N + q) * 65536)" by (simp add: push_bit_eq_mult)
    then have "e = (if (N + q) * 65536 \<le> l' then 1 else 0)"
      unfolding e_def align using pages bounds small by (simp add: le_of_nat32 del: of_nat_add of_nat_mult)
    moreover have "l' \<le> (N + q + 1) * 65536" unfolding l'_def by (rule round8_pages [OF st(2) s_lt])
    ultimately show ?thesis by (auto split: if_splits)
  qed
  show "p = ds_last_ptr st" using st' st by simp
  show "ds_ok st'"
  proof -
    have "l' mod 8 = 0" by (simp add: l'_def)
    moreover have "0 < l'" using bounds(1) st(1) by linarith
    ultimately show ?thesis using st' align u top pages by (simp add: ds_ok_def)
  qed
  show "lm_bytes (ds_lm st') = lm_bytes (ds_lm st)" using st' by simp
  show "unat p + unat sz \<le> unat (ds_last_ptr st')"
  proof -
    have "unat p = l" unfolding st'(1) by (rule unat_of_nat_u32) (use small in simp)
    moreover have "unat (ds_last_ptr st') = l'" using st'(2) align u(1) by simp
    ultimately show ?thesis using bounds(1) unfolding s_def by linarith
  qed
  show "unat (lm_pages (ds_lm st)) \<le> unat (lm_pages (ds_lm st'))"
    using st' u(2) st(4) \<open>unat (of_nat N :: u32) = N\<close> by simp
qed

lemma separate_pages: "separate A lm \<Longrightarrow> unat (lm_pages lm) \<le> unat (lm_pages lm') \<Longrightarrow> separate A lm'"
  unfolding separate_def by (meson mult_le_mono1 order_trans)

lemma ds_malloc_ok:
  assumes law: "grow_law grow" and blocks: "ds_blocks st A" and sz: "sz \<noteq> 0" and m: "ds_malloc grow sz st = Inr (p, st')"
  shows "p \<noteq> 0" "(unat p, unat sz) \<notin> A" "ds_blocks st' (insert (unat p, unat sz) A)" "lm_bytes (ds_lm st') = lm_bytes (ds_lm st)"
proof -
  have ok: "ds_ok st" using blocks by (simp add: ds_blocks_def)
  note c = ds_call_ok [OF law ok sz m [unfolded ds_malloc_def]]
  have pos: "0 < unat p" "0 < unat sz" using ok c(1) sz by (auto simp: ds_ok_def unat_gt_0)
  have below: "q + k \<le> unat p" if "(q, k) \<in> A" for q k using blocks that c(1) by (simp add: ds_blocks_def)
  show "p \<noteq> 0" using pos by auto
  show "(unat p, unat sz) \<notin> A" using below pos by fastforce
  show "lm_bytes (ds_lm st') = lm_bytes (ds_lm st)" by (rule c(3))
  have A: "separate A (ds_lm st')" using blocks c(5) separate_pages unfolding ds_blocks_def by blast
  have top: "unat (ds_last_ptr st') \<le> unat (lm_pages (ds_lm st')) * 65536" "unat (lm_pages (ds_lm st')) \<le> 32767"
    using c(2) by (simp_all add: ds_ok_def)
  have "separate (insert (unat p, unat sz) A) (ds_lm st')"
    unfolding separate_def
  proof (intro conjI allI impI)
    fix q k assume "(q, k) \<in> insert (unat p, unat sz) A"
    then show "0 < q" "0 < k" "q + k \<le> unat (lm_pages (ds_lm st')) * 65536" "q + k < 4294967296"
      using A pos c(4) top unfolding separate_def by auto
    fix q' k' assume "(q', k') \<in> insert (unat p, unat sz) A"
    then show "(q, k) = (q', k') \<or> q + k \<le> q' \<or> q' + k' \<le> q"
      using A below \<open>(q, k) \<in> insert (unat p, unat sz) A\<close> unfolding separate_def by (elim insertE) (simp, simp, simp, blast)
  qed
  moreover have "q + k \<le> unat (ds_last_ptr st')" if "(q, k) \<in> insert (unat p, unat sz) A" for q k
    using that c(4) below by fastforce
  ultimately show "ds_blocks st' (insert (unat p, unat sz) A)" using c(2) by (simp add: ds_blocks_def)
qed

interpretation simple: allocator "ds_malloc grow" ds_free ds_lm "\<lambda>lm st. st\<lparr>ds_lm := lm\<rparr>" 4294967295 "\<lambda>st A. grow_law grow \<and> ds_blocks st A"
  for grow
proof (unfold_locales, goal_cases)
  case (1 st A)
  then show ?case by (simp add: ds_blocks_def)
next
  case (2 st A sz p st')
  then show ?case using ds_malloc_ok(2,3) [of grow st A sz p st'] by blast
next
  case (3 st A sz st')
  then show ?case using ds_malloc_ok(1) [of grow st A sz 0 st'] by blast
next
  case (4 st A sz p st')
  then show ?case using ds_malloc_ok(4) [of grow st A sz p st'] by (simp add: preserved_def)
next
  case (5 st A x n)
  then show ?case by (auto simp: ds_free_def ds_blocks_def separate_def preserved_def)
next
  case (6 st A lm')
  then show ?case by (auto simp: ds_blocks_def ds_ok_def separate_def)
qed

text \<open>The module starts with the end of its data at address 0.\<close>

lemma ds_blocks_init:
  assumes "ds_init lm = Inr st" "unat (lm_pages lm) \<le> 32767" "hdr (lm_bytes lm) 0 \<noteq> 0"
    "unat (hdr (lm_bytes lm) 0) \<le> unat (lm_pages lm) * 65536"
  shows "ds_blocks st {}"
proof -
  let ?h = "unat (hdr (lm_bytes lm) 0)"
  have load: "load_size lm 0 = Inr (hdr (lm_bytes lm) 0)"
    using assms(1) load_room [of lm 0] by (auto simp: ds_init_def load_size_def hdr_def split: if_splits)
  have pos: "0 < ?h" using assms(3) by (simp add: unat_gt_0)
  have small: "?h + 7 < 4294967296" using assms(2,4) by simp
  have "ds_align (of_nat ?h) 8 = of_nat ((?h + 7) div 8 * 8)" by (rule ds_align_8 [OF small])
  then have st: "st = \<lparr>ds_lm = lm, ds_heap = of_nat ((?h + 7) div 8 * 8), ds_last_ptr = of_nat ((?h + 7) div 8 * 8), ds_next_page = lm_pages lm\<rparr>"
    using assms(1) load by (simp add: ds_init_def Let_def)
  note b = round8_bounds [of ?h]
  have "(?h + 7) div 8 * 8 < 4294967296" using b(2) small by linarith
  then have u: "unat (of_nat ((?h + 7) div 8 * 8) :: u32) = (?h + 7) div 8 * 8" by (intro unat_of_nat_u32) simp
  have "(?h + 7) div 8 * 8 \<le> unat (lm_pages lm) * 65536"
  proof -
    have "(?h + 7) div 8 < Suc (unat (lm_pages lm) * 8192)" using assms(4) by (simp add: div_less_iff_less_mult)
    then show ?thesis by linarith
  qed
  then have "ds_ok st" using st u b pos assms(2) by (simp add: ds_ok_def del: of_nat_mult)
  then show ?thesis by (simp add: ds_blocks_def separate_def)
qed

section \<open>Properties\<close>

abbreviation simple_client :: "(u32 \<Rightarrow> u32 \<Rightarrow> bool) \<Rightarrow> dsmalloc \<Rightarrow> dsmalloc \<Rightarrow> (nat \<Rightarrow> byte list option) \<Rightarrow> bool" where
  "simple_client grow \<equiv> client (ds_malloc grow) ds_free ds_lm (\<lambda>lm st. st\<lparr>ds_lm := lm\<rparr>) 4294967295"

text \<open>
  C27. The bump allocator of \<^verbatim>\<open>simple_malloc.cpp\<close> refines a store of separate blocks too, for
  sizes of any width: a sum that wraps around asks for more pages than the host grants. The blocks a client
  holds are in memory, do not overlap and keep what was written to them. When \<open>malloc\<close> returns,
  it returns null exactly for the size 0, where it changes nothing, and never a block the
  client holds.
\<close>
theorem simple_refines_store:
  assumes "grow_law grow" "ds_init lm = Inr st0" "unat (lm_pages lm) \<le> 32767" "hdr (lm_bytes lm) 0 \<noteq> 0"
    and "unat (hdr (lm_bytes lm) 0) \<le> unat (lm_pages lm) * 65536" "simple_client grow st0 st L"
  shows "agrees (ds_lm st) L
    \<and> (\<forall>sz q st'. sz \<noteq> 0 \<longrightarrow> ds_malloc grow sz st = Inr (q, st') \<longrightarrow> q \<noteq> 0 \<and> L (unat q) = None)
    \<and> ds_malloc grow 0 st = Inr (0, st)"
proof -
  have inv: "grow_law grow \<and> ds_blocks st0 {}" using assms(1) ds_blocks_init [OF assms(2-5)] ..
  obtain A where A: "ds_blocks st A" using simple.client_covers [OF assms(6) inv] by blast
  have "unat sz \<le> 4294967295" for sz :: u32
  proof -
    have "unat sz < 4294967296" by (rule order_less_le_trans [OF unsigned_less]) simp
    then show ?thesis by linarith
  qed
  then show ?thesis
    using simple.client_agrees [OF assms(6) inv] simple.client_fresh [OF assms(6) inv] ds_malloc_ok(1) [OF assms(1) A]
    by (intro conjI) (blast, blast, simp add: ds_malloc_def ds_call_def)
qed

definition simple_memory :: lmem where
  "simple_memory = \<lparr>lm_bytes = (\<lambda>_. 0)(1 := 4), lm_pages = 1\<rparr>"

definition simple_grow :: "u32 \<Rightarrow> u32 \<Rightarrow> bool" where
  "simple_grow p d \<longleftrightarrow> uint p + uint d \<le> 4"

theorem simple_refines_store_witness:
  "\<exists>st0 st bs. ds_init simple_memory = Inr st0 \<and> ds_malloc simple_grow 5 st0 = Inr (1024, st)
     \<and> agrees (ds_lm st) ((\<lambda>p. None)(1024 := Some bs)) \<and> length bs = 5
     \<and> (\<forall>q st'. ds_malloc simple_grow 7 st = Inr (q, st') \<longrightarrow> q \<noteq> 0 \<and> unat q \<noteq> 1024)"
proof -
  have "case bindr (ds_init simple_memory) (ds_malloc simple_grow 5) of Inr (p, st) \<Rightarrow> p = 1024 | _ \<Rightarrow> False" by code_simp
  then obtain st0 st where st: "ds_init simple_memory = Inr st0" "ds_malloc simple_grow 5 st0 = Inr (1024, st)"
    by (auto simp: bindr_def split: sum.splits)
  have law: "grow_law simple_grow" unfolding grow_law_def simple_grow_def
  proof (intro allI impI)
    fix p d :: u32 assume "uint p + uint d \<le> 4"
    then have "int (unat p + unat d) \<le> 4" by simp
    then show "unat p + unat d \<le> 32767" by linarith
  qed
  have mem: "hdr (lm_bytes simple_memory) 0 = 1024" by code_simp
  let ?bs = "mem_read (lm_bytes (ds_lm st)) 1024 5"
  let ?L = "(\<lambda>p. None)(1024 := Some ?bs) :: nat \<Rightarrow> byte list option"
  have "simple_client simple_grow st0 st ((\<lambda>p. None)(unat (1024 :: u32) := Some (mem_read (lm_bytes (ds_lm st)) 1024 (unat (5 :: u32)))))"
    by (rule client_malloc [where st = st0 and sz = 5 and p = 1024 and st' = st, OF client_start]) (use st in simp_all)
  then have "simple_client simple_grow st0 st ?L" by simp
  then have p: "agrees (ds_lm st) ?L" "\<forall>sz q st'. sz \<noteq> 0 \<longrightarrow> ds_malloc simple_grow sz st = Inr (q, st') \<longrightarrow> q \<noteq> 0 \<and> ?L (unat q) = None"
    using simple_refines_store [OF law st(1), of st ?L] mem by (simp_all add: simple_memory_def)
  have "q \<noteq> 0 \<and> unat q \<noteq> 1024" if "ds_malloc simple_grow 7 st = Inr (q, st')" for q st'
  proof -
    have "q \<noteq> 0 \<and> ?L (unat q) = None" using p(2) [rule_format, of 7 q st'] that by simp
    then show ?thesis by auto
  qed
  moreover have "length ?bs = 5" by simp
  ultimately show ?thesis using st p(1) by blast
qed

end
