(* ===== verification/Db.thy ===== *)
theory Db
  imports Table Asset
begin

text \<open>
  Objects with secondary indices: \<^verbatim>\<open>libraries/wasmlib/contracts/db.hpp\<close>. The template
  parameters of \<^verbatim>\<open>index_table\<close> and the members that an object type must have are a record
  \<open>index_table\<close>. All secondary keys of the repository are 64-bit integers or account
  identities, which compare and pack as their 64-bit value; that value is what an index
  extracts here. As in \<open>Table\<close>, the operations take the memory and the address of the
  vectors they pack into and of the blocks they allocate.
\<close>

section \<open>Index tables\<close>

definition secondary_key_prefix :: u64 where
  "secondary_key_prefix = 15"

definition payer_reserved :: regid where
  "payer_reserved = regid_default"

record 'o index =
  index_name :: u64
  index_number :: u64
  extract_secondary_key :: "'o \<Rightarrow> u64"

definition validate_index_name :: "name \<Rightarrow> bool" where
  "validate_index_name n = (name_value n \<noteq> 0 \<and> n \<noteq> name_literal ''primary'')"

definition index_table_name :: "name \<Rightarrow> 'o index \<Rightarrow> u64" where
  "index_table_name table ix = (name_value table AND 0xFFFFFFFFFFFFFFF0) OR (index_number ix AND 0xF)"

definition transform_indices :: "(u64 \<times> ('o \<Rightarrow> u64)) list \<Rightarrow> 'o index list" where
  "transform_indices indices =
     map (\<lambda>(n, nm, ex). \<lparr>index_name = nm, index_number = n, extract_secondary_key = ex\<rparr>)
       (zip [0, 1, 2, 3, 4, 5, 6, 7, 8, 9, 10, 11, 12, 13, 14, 15] indices)"

record ('o, 'p) index_table =
  it_name :: name
  it_indices :: "'o index list"
  it_ser :: "'o \<Rightarrow> sink \<Rightarrow> sink res"
  it_deser :: "'o \<Rightarrow> datastream \<Rightarrow> ('o \<times> datastream) res"
  it_default :: 'o
  it_primary :: "'o \<Rightarrow> 'p"
  it_ser_primary :: "'p \<Rightarrow> sink \<Rightarrow> sink res"
  it_deser_primary :: "'p \<Rightarrow> datastream \<Rightarrow> ('p \<times> datastream) res"
  it_default_primary :: 'p

section \<open>Operations\<close>

definition primary_key :: "mem \<Rightarrow> u32 \<Rightarrow> ('o, 'p) index_table \<Rightarrow> 'p \<Rightarrow> byte list res" where
  "primary_key m a it primary =
     pack m a (ser_tuple ser_primitive (ser_tuple (it_ser_primary it) ser_tuple_nil)) (name_value (it_name it), primary, ())"

definition secondary_key :: "mem \<Rightarrow> u32 \<Rightarrow> ('o, 'p) index_table \<Rightarrow> 'o index \<Rightarrow> u64 \<Rightarrow> byte list res" where
  "secondary_key m a it ix k =
     pack m a (ser_tuple ser_primitive (ser_tuple ser_primitive (ser_tuple ser_primitive ser_tuple_nil)))
       (secondary_key_prefix, index_table_name (it_name it) ix, k, ())"

definition get_by_primary ::
  "'w database \<Rightarrow> mem \<Rightarrow> u32 \<Rightarrow> ('o, 'p) index_table \<Rightarrow> 'o \<Rightarrow> 'p \<Rightarrow> 'w \<Rightarrow> (bool \<times> 'o) res" where
  "get_by_primary h m a it obj primary w =
     bindr (primary_key m a it primary) (\<lambda>key.
       let v = db_get h key w in
       if length v = 0 then Inr (False, obj)
       else bindr (unpack_bytes (it_deser it) (it_default it) m a v) (\<lambda>obj. Inr (True, obj)))"

definition get_object :: "'w database \<Rightarrow> mem \<Rightarrow> u32 \<Rightarrow> ('o, 'p) index_table \<Rightarrow> 'o \<Rightarrow> 'w \<Rightarrow> (bool \<times> 'o) res" where
  "get_object h m a it obj w =
     bindr (primary_key m a it (it_primary it obj)) (\<lambda>key.
       let v = db_get h key w in
       if length v = 0 then Inr (False, obj)
       else bindr (unpack_bytes (it_deser it) (it_default it) m a v) (\<lambda>obj. Inr (True, obj)))"

fun set_indices ::
  "'w database \<Rightarrow> mem \<Rightarrow> u32 \<Rightarrow> ('o, 'p) index_table \<Rightarrow> bool \<Rightarrow> 'o \<Rightarrow> 'o \<Rightarrow> 'o index list \<Rightarrow> 'w \<Rightarrow> 'w res" where
  "set_indices h m a it has_old_object old_object obj [] w = Inr w"
| "set_indices h m a it has_old_object old_object obj (ix # ixs) w =
     bindr (if has_old_object \<and> extract_secondary_key ix old_object \<noteq> extract_secondary_key ix obj
            then bindr (secondary_key m a it ix (extract_secondary_key ix old_object)) (\<lambda>old_secondary.
                 db_remove h (regid_value payer_reserved) old_secondary w)
            else Inr w) (\<lambda>w.
     bindr (secondary_key m a it ix (extract_secondary_key ix obj)) (\<lambda>secondary.
     bindr (pack m a (it_ser_primary it) (it_primary it obj)) (\<lambda>primary.
     bindr (db_store h (regid_value payer_reserved) secondary primary w)
       (set_indices h m a it has_old_object old_object obj ixs))))"

definition set_object :: "'w database \<Rightarrow> mem \<Rightarrow> u32 \<Rightarrow> ('o, 'p) index_table \<Rightarrow> 'o \<Rightarrow> 'w \<Rightarrow> 'w res" where
  "set_object h m a it obj w =
     bindr (primary_key m a it (it_primary it obj)) (\<lambda>key.
     bindr (pack m a (it_ser it) obj) (\<lambda>val.
     bindr (get_by_primary h m a it (it_default it) (it_primary it obj) w) (\<lambda>(has_old_object, old_object).
     bindr (set_indices h m a it has_old_object old_object obj (it_indices it) w)
       (db_store h (regid_value payer_reserved) key val))))"

fun del_indices :: "'w database \<Rightarrow> mem \<Rightarrow> u32 \<Rightarrow> ('o, 'p) index_table \<Rightarrow> 'o \<Rightarrow> 'o index list \<Rightarrow> 'w \<Rightarrow> 'w res" where
  "del_indices h m a it obj [] w = Inr w"
| "del_indices h m a it obj (ix # ixs) w =
     bindr (secondary_key m a it ix (extract_secondary_key ix obj)) (\<lambda>secondary.
     bindr (db_remove h (regid_value payer_reserved) secondary w) (del_indices h m a it obj ixs))"

definition del_object :: "'w database \<Rightarrow> mem \<Rightarrow> u32 \<Rightarrow> ('o, 'p) index_table \<Rightarrow> 'o \<Rightarrow> 'w \<Rightarrow> 'w res" where
  "del_object h m a it obj w =
     bindr (primary_key m a it (it_primary it obj)) (\<lambda>key.
     bindr (del_indices h m a it obj (it_indices it) w) (db_remove h (regid_value payer_reserved) key))"

text \<open>The search over the indices; the result is whether a primary key was found, and which.\<close>

fun find_primary ::
  "'w database \<Rightarrow> mem \<Rightarrow> u32 \<Rightarrow> ('o, 'p) index_table \<Rightarrow> u64 \<Rightarrow> 'o \<Rightarrow> 'o index list \<Rightarrow> 'w \<Rightarrow> bool \<times> 'p \<Rightarrow> (bool \<times> 'p) res" where
  "find_primary h m a it by_index obj [] w r = Inr r"
| "find_primary h m a it by_index obj (ix # ixs) w r =
     bindr (if index_name ix = by_index
            then bindr (secondary_key m a it ix (extract_secondary_key ix obj)) (\<lambda>secondary.
              let v = db_get h secondary w in
              if length v = 0 then Inr r
              else bindr (unpack_bytes (it_deser_primary it) (it_default_primary it) m a v) (\<lambda>p. Inr (True, p)))
            else Inr r) (find_primary h m a it by_index obj ixs w)"

definition get_by_index ::
  "'w database \<Rightarrow> mem \<Rightarrow> u32 \<Rightarrow> ('o, 'p) index_table \<Rightarrow> u64 \<Rightarrow> 'o \<Rightarrow> 'w \<Rightarrow> (bool \<times> 'o) res" where
  "get_by_index h m a it by_index obj w =
     bindr (find_primary h m a it by_index obj (it_indices it) w (False, it_default_primary it)) (\<lambda>(has_primary, primary).
       if \<not> has_primary then Inr (False, obj) else get_by_primary h m a it obj primary w)"

section \<open>Keys\<close>

definition pkey :: "('o, 'p) index_table \<Rightarrow> ('p \<Rightarrow> byte list) \<Rightarrow> 'p \<Rightarrow> byte list" where
  "pkey it encp p = prim_enc (name_value (it_name it)) @ encp p"

definition skey :: "('o, 'p) index_table \<Rightarrow> 'o index \<Rightarrow> u64 \<Rightarrow> byte list" where
  "skey it ix k = prim_enc secondary_key_prefix @ prim_enc (index_table_name (it_name it) ix) @ prim_enc k"

lemma secondary_key_eq: "unat a + 24 < 2 ^ 32 \<Longrightarrow> secondary_key m a it ix k = Inr (skey it ix k)"
  using key_codec.pack_enc [of "(secondary_key_prefix, index_table_name (it_name it) ix, k, ())" a m]
  by (simp add: secondary_key_def skey_def pair_enc_def pair_ok_def)

lemma skey_inject: "skey it ix k = skey it ix' k' \<longleftrightarrow> index_table_name (it_name it) ix = index_table_name (it_name it) ix' \<and> k = k'"
  by (auto simp: skey_def prim_enc_inject)

section \<open>Index tables refine maps\<close>

text \<open>
  The abstract state is a map from primary keys to objects. In the database stand the
  object at its primary key and the primary key at each of its secondary keys, and nothing
  at the other keys of the table and its indices.
\<close>

definition found :: "('p \<Rightarrow> 'o option) \<Rightarrow> 'o index \<Rightarrow> u64 \<Rightarrow> 'p \<Rightarrow> bool" where
  "found rows ix k p \<longleftrightarrow> (\<exists>r. rows p = Some r \<and> extract_secondary_key ix r = k)"

definition holds_objects ::
  "'w database \<Rightarrow> ('o, 'p) index_table \<Rightarrow> ('o \<Rightarrow> byte list) \<Rightarrow> ('p \<Rightarrow> byte list) \<Rightarrow> ('p \<Rightarrow> 'o option) \<Rightarrow> 'w \<Rightarrow> bool" where
  "holds_objects h it enc encp rows w \<longleftrightarrow>
     (\<forall>p. db_get h (pkey it encp p) w = (case rows p of None \<Rightarrow> [] | Some r \<Rightarrow> enc r)) \<and>
     (\<forall>ix\<in>set (it_indices it). \<forall>k p. found rows ix k p \<longrightarrow> db_get h (skey it ix k) w = encp p) \<and>
     (\<forall>ix\<in>set (it_indices it). \<forall>k. (\<forall>p. \<not> found rows ix k p) \<longrightarrow> db_get h (skey it ix k) w = [])"

text \<open>The key of an object is its primary key, and no two objects share a secondary key.\<close>

definition keyed :: "('o, 'p) index_table \<Rightarrow> ('p \<Rightarrow> 'o option) \<Rightarrow> bool" where
  "keyed it rows \<longleftrightarrow> (\<forall>p r. rows p = Some r \<longrightarrow> it_primary it r = p) \<and>
     (\<forall>ix\<in>set (it_indices it). \<forall>k p q. found rows ix k p \<longrightarrow> found rows ix k q \<longrightarrow> p = q)"

locale indexed_codec = obj: codec enc "\<lambda>_. True" "it_ser it" "it_deser it" "it_default it"
    + prim: codec encp "\<lambda>_. True" "it_ser_primary it" "it_deser_primary it" "it_default_primary it"
  for it :: "('o, 'p) index_table" and enc and encp +
  assumes enc_size: "0 < length (enc r)" "length (enc r) \<le> 1024"
    and encp_size: "0 < length (encp p)" "length (encp p) \<le> 512"
    and name_not_prefix: "name_value (it_name it) \<noteq> secondary_key_prefix"
    and indices_distinct: "distinct (map (index_table_name (it_name it)) (it_indices it))" "distinct (map index_name (it_indices it))"
begin

lemma pkey_inject: "pkey it encp p = pkey it encp q \<longleftrightarrow> p = q"
  using prim.enc_prefix_free [where v = p and w = q and bs = "[]" and cs = "[]"] encp_size(2) [of p] by (auto simp: pkey_def)

lemma keys_apart: "pkey it encp p \<noteq> skey it ix k"
  using prim64.enc_prefix_free [where v = "name_value (it_name it)" and w = secondary_key_prefix and bs = "encp p"] encp_size(2) [of p] name_not_prefix
  by (auto simp: pkey_def skey_def)

lemma primary_key_eq:
  assumes "unat a + 1024 < 2 ^ 32"
  shows "primary_key m a it p = Inr (pkey it encp p)"
proof -
  have "codec2 encp (\<lambda>_. True) (it_ser_primary it) (it_deser_primary it) (it_default_primary it) (\<lambda>_. []) (\<lambda>_. True) ser_tuple_nil deser_tuple_nil ()"
    by (intro codec2.intro prim.codec_axioms tuple_nil.codec_axioms)
  note rest = codec2.codec_tuple [OF this]
  have "codec2 (prim_enc :: u64 \<Rightarrow> _) (\<lambda>_. True) ser_primitive deser_primitive 0 (pair_enc encp (\<lambda>_. [])) (pair_ok (\<lambda>_. True) (\<lambda>_. True))
      (ser_tuple (it_ser_primary it) ser_tuple_nil) (deser_tuple (it_deser_primary it) deser_tuple_nil) (it_default_primary it, ())"
    by (intro codec2.intro prim64.codec_axioms rest)
  note key = codec2.codec_tuple [OF this]
  from codec.pack_enc [OF key, of "(name_value (it_name it), p, ())" a m] encp_size(2) [of p] assms show ?thesis
    by (simp add: primary_key_def pkey_def pair_enc_def pair_ok_def)
qed

lemma pack_primary: "unat a + 1024 < 2 ^ 32 \<Longrightarrow> pack m a (it_ser_primary it) p = Inr (encp p)"
  using encp_size [of p] by (intro prim.pack_enc) simp_all

lemma pack_object: "unat a + 1024 < 2 ^ 32 \<Longrightarrow> pack m a (it_ser it) r = Inr (enc r)"
  using enc_size [of r] by (intro obj.pack_enc) simp_all

lemma get_by_primary_ok:
  assumes "holds_objects h it enc encp rows w" "unat a + 1024 < 2 ^ 32"
  shows "get_by_primary h m a it r p w = Inr (case rows p of None \<Rightarrow> (False, r) | Some r' \<Rightarrow> (True, r'))"
proof (cases "rows p")
  case None
  then show ?thesis using assms by (simp add: get_by_primary_def primary_key_eq holds_objects_def)
next
  case (Some r')
  then have "unpack_bytes (it_deser it) (it_default it) m a (enc r') = Inr r'"
    using assms(2) enc_size [of r'] by (intro obj.unpack_enc) simp_all
  then show ?thesis
    using Some assms enc_size(1) [of r'] by (simp add: get_by_primary_def primary_key_eq holds_objects_def)
qed

lemma get_object_ok:
  assumes "holds_objects h it enc encp rows w" "unat a + 1024 < 2 ^ 32"
  shows "get_object h m a it r w = Inr (case rows (it_primary it r) of None \<Rightarrow> (False, r) | Some r' \<Rightarrow> (True, r'))"
  using get_by_primary_ok [OF assms, of m r "it_primary it r"] by (simp add: get_object_def get_by_primary_def)

text \<open>What the loop over the indices writes.\<close>

lemma set_indices_get:
  assumes laws: "db_laws h" and a: "unat a + 1024 < 2 ^ 32"
    and "distinct (map (index_table_name (it_name it)) ixs)" "set_indices h m a it old r0 r ixs w = Inr w'"
  shows "db_get h key w' =
    (if \<exists>ix\<in>set ixs. key = skey it ix (extract_secondary_key ix r) then encp (it_primary it r)
     else if old \<and> (\<exists>ix\<in>set ixs. key = skey it ix (extract_secondary_key ix r0)) then [] else db_get h key w)"
  using assms(3,4)
proof (induction ixs arbitrary: w)
  case (Cons ix ixs)
  have a24: "unat a + 24 < 2 ^ 32" using a by simp
  let ?k = "extract_secondary_key ix r" and ?j = "extract_secondary_key ix r0"
  have step: "set_indices h m a it old r0 r (ix # ixs) w =
      bindr (if old \<and> ?j \<noteq> ?k then db_remove h (regid_value payer_reserved) (skey it ix ?j) w else Inr w) (\<lambda>w.
      bindr (db_store h (regid_value payer_reserved) (skey it ix ?k) (encp (it_primary it r)) w) (set_indices h m a it old r0 r ixs))"
    by (simp add: secondary_key_eq [OF a24] pack_primary [OF a])
  from Cons.prems(2) obtain w1 w2 where w1: "(if old \<and> ?j \<noteq> ?k then db_remove h (regid_value payer_reserved) (skey it ix ?j) w else Inr w) = Inr w1"
      and w2: "db_store h (regid_value payer_reserved) (skey it ix ?k) (encp (it_primary it r)) w1 = Inr w2"
      and rest: "set_indices h m a it old r0 r ixs w2 = Inr w'"
    unfolding step bindr_eq_Inr by blast
  have g1: "db_get h key w1 = (if old \<and> ?j \<noteq> ?k \<and> key = skey it ix ?j then [] else db_get h key w)"
    using w1 laws unfolding db_laws_def by (auto split: if_splits)
  have g2: "db_get h key w2 = (if key = skey it ix ?k then encp (it_primary it r) else db_get h key w1)"
    using w2 laws unfolding db_laws_def by blast
  have other: "index_table_name (it_name it) ix \<noteq> index_table_name (it_name it) ix'" if "ix' \<in> set ixs" for ix'
    using Cons.prems(1) that by auto
  have IH: "db_get h key w' = (if \<exists>ix\<in>set ixs. key = skey it ix (extract_secondary_key ix r) then encp (it_primary it r)
      else if old \<and> (\<exists>ix\<in>set ixs. key = skey it ix (extract_secondary_key ix r0)) then [] else db_get h key w2)"
    using Cons.IH [OF _ rest] Cons.prems(1) by simp
  show ?case
  proof (cases "\<exists>k. key = skey it ix k")
    case True
    then obtain k where k: "key = skey it ix k" by blast
    have miss: "key \<noteq> skey it ix' k'" if "ix' \<in> set ixs" for ix' k' using other [OF that] k by (simp add: skey_inject)
    then have w2: "db_get h key w' = db_get h key w2" unfolding IH by auto
    have "(\<exists>ix'\<in>set (ix # ixs). key = skey it ix' (extract_secondary_key ix' r)) \<longleftrightarrow> k = ?k"
      "(\<exists>ix'\<in>set (ix # ixs). key = skey it ix' (extract_secondary_key ix' r0)) \<longleftrightarrow> k = ?j"
      using miss k by (auto simp: skey_inject)
    note ex = this
    show ?thesis by (simp only: ex w2 g2 g1) (simp add: k skey_inject)
  next
    case False
    then have "db_get h key w2 = db_get h key w" using g1 g2 by auto
    then show ?thesis unfolding IH using False by auto
  qed
qed simp

lemma set_object_ok:
  assumes laws: "db_laws h" and holds: "holds_objects h it enc encp rows w" and keyed: "keyed it rows"
    and keyed': "keyed it (rows(it_primary it r := Some r))" and a: "unat a + 1024 < 2 ^ 32" and set: "set_object h m a it r w = Inr w'"
  shows "holds_objects h it enc encp (rows(it_primary it r := Some r)) w'"
proof -
  let ?p = "it_primary it r" and ?rows = "rows(it_primary it r := Some r)"
  define old r0 where "old = (rows ?p \<noteq> None)" and "r0 = (case rows ?p of None \<Rightarrow> it_default it | Some r' \<Rightarrow> r')"
  have "get_by_primary h m a it (it_default it) ?p w = Inr (old, r0)"
    using get_by_primary_ok [OF holds a] by (simp add: old_def r0_def split: option.splits)
  with set obtain w1 where w1: "set_indices h m a it old r0 r (it_indices it) w = Inr w1"
      and "db_store h (regid_value payer_reserved) (pkey it encp ?p) (enc r) w1 = Inr w'"
    by (auto simp: set_object_def primary_key_eq [OF a] pack_object [OF a] res_simps)
  then have g: "db_get h key w' = (if key = pkey it encp ?p then enc r else db_get h key w1)" for key
    using laws unfolding db_laws_def by blast
  note g1 = set_indices_get [OF laws a indices_distinct(1) w1]
  have prim: "db_get h (pkey it encp p) w' = (case ?rows p of None \<Rightarrow> [] | Some r \<Rightarrow> enc r)" for p
    using g g1 keys_apart holds by (auto simp: pkey_inject holds_objects_def)
  have sec: "db_get h (skey it ix k) w' = (if k = extract_secondary_key ix r then encp ?p
      else if old \<and> k = extract_secondary_key ix r0 then [] else db_get h (skey it ix k) w)" if "ix \<in> set (it_indices it)" for ix k
  proof -
    have "skey it ix k = skey it ix' k' \<longleftrightarrow> ix' = ix \<and> k' = k" if "ix' \<in> set (it_indices it)" for ix' k'
      using indices_distinct(1) that \<open>ix \<in> set (it_indices it)\<close> by (auto simp: skey_inject distinct_map inj_on_def)
    then show ?thesis using g g1 keys_apart [symmetric] \<open>ix \<in> set (it_indices it)\<close> by auto
  qed
  have hit: "db_get h (skey it ix k) w' = encp q" if ix: "ix \<in> set (it_indices it)" and f: "found ?rows ix k q" for ix k q
  proof (cases "q = ?p")
    case True
    then show ?thesis using f sec [OF ix] by (auto simp: found_def)
  next
    case False
    then have fq: "found rows ix k q" using f by (simp add: found_def)
    have "k \<noteq> extract_secondary_key ix r"
      using keyed' ix f False unfolding keyed_def by (metis found_def fun_upd_same)
    moreover have "\<not> (old \<and> k = extract_secondary_key ix r0)"
      using keyed ix fq False unfolding keyed_def old_def r0_def by (metis found_def not_None_eq option.simps(5))
    ultimately show ?thesis using sec [OF ix] holds ix fq by (auto simp: holds_objects_def)
  qed
  have miss: "db_get h (skey it ix k) w' = []" if ix: "ix \<in> set (it_indices it)" and f: "\<forall>q. \<not> found ?rows ix k q" for ix k
  proof -
    have "k \<noteq> extract_secondary_key ix r" using f unfolding found_def by (metis fun_upd_same)
    moreover have "\<not> found rows ix k q" if "\<not> (old \<and> k = extract_secondary_key ix r0)" for q
    proof (cases "q = ?p")
      case True
      then show ?thesis using that by (auto simp: found_def old_def r0_def)
    next
      case False
      then show ?thesis using f unfolding found_def by (metis fun_upd_other)
    qed
    ultimately show ?thesis using sec [OF ix] holds ix by (auto simp: holds_objects_def)
  qed
  show ?thesis unfolding holds_objects_def using prim hit miss by blast
qed

lemma del_indices_get:
  assumes laws: "db_laws h" and a: "unat a + 1024 < 2 ^ 32" and "del_indices h m a it r ixs w = Inr w'"
  shows "db_get h key w' = (if \<exists>ix\<in>set ixs. key = skey it ix (extract_secondary_key ix r) then [] else db_get h key w)"
  using assms(3)
proof (induction ixs arbitrary: w)
  case (Cons ix ixs)
  have a24: "unat a + 24 < 2 ^ 32" using a by simp
  obtain w1 where w1: "db_remove h (regid_value payer_reserved) (skey it ix (extract_secondary_key ix r)) w = Inr w1"
      "del_indices h m a it r ixs w1 = Inr w'"
    using Cons.prems by (auto simp: secondary_key_eq [OF a24] bindr_eq_Inr)
  then have "db_get h key w1 = (if key = skey it ix (extract_secondary_key ix r) then [] else db_get h key w)"
    using laws unfolding db_laws_def by blast
  with Cons.IH [OF w1(2)] show ?case by auto
qed simp

lemma del_object_ok:
  assumes laws: "db_laws h" and holds: "holds_objects h it enc encp rows w" and keyed: "keyed it rows" and r: "rows (it_primary it r) = Some r"
    and a: "unat a + 1024 < 2 ^ 32" and del: "del_object h m a it r w = Inr w'"
  shows "holds_objects h it enc encp (rows(it_primary it r := None)) w'"
proof -
  let ?p = "it_primary it r" and ?rows = "rows(it_primary it r := None)"
  obtain w1 where w1: "del_indices h m a it r (it_indices it) w = Inr w1"
      and "db_remove h (regid_value payer_reserved) (pkey it encp ?p) w1 = Inr w'"
    using del by (auto simp: del_object_def primary_key_eq [OF a] bindr_eq_Inr)
  then have g: "db_get h key w' = (if key = pkey it encp ?p then [] else db_get h key w1)" for key
    using laws unfolding db_laws_def by blast
  note g1 = del_indices_get [OF laws a w1]
  have prim: "db_get h (pkey it encp p) w' = (case ?rows p of None \<Rightarrow> [] | Some r \<Rightarrow> enc r)" for p
    using g g1 keys_apart holds by (auto simp: pkey_inject holds_objects_def)
  have sec: "db_get h (skey it ix k) w' = (if k = extract_secondary_key ix r then [] else db_get h (skey it ix k) w)"
    if ix: "ix \<in> set (it_indices it)" for ix k
  proof -
    have "skey it ix k = skey it ix' k' \<longleftrightarrow> ix' = ix \<and> k' = k" if "ix' \<in> set (it_indices it)" for ix' k'
      using indices_distinct(1) that ix by (auto simp: skey_inject distinct_map inj_on_def)
    then show ?thesis using g g1 keys_apart [symmetric] ix by auto
  qed
  have hit: "db_get h (skey it ix k) w' = encp q" if ix: "ix \<in> set (it_indices it)" and f: "found ?rows ix k q" for ix k q
  proof -
    have q: "q \<noteq> ?p" "found rows ix k q" using f by (auto simp: found_def split: if_splits)
    then have "k \<noteq> extract_secondary_key ix r" using keyed ix r unfolding keyed_def by (metis found_def)
    then show ?thesis using sec [OF ix] holds ix q(2) by (auto simp: holds_objects_def)
  qed
  have miss: "db_get h (skey it ix k) w' = []" if ix: "ix \<in> set (it_indices it)" and f: "\<forall>q. \<not> found ?rows ix k q" for ix k
  proof (cases "k = extract_secondary_key ix r")
    case False
    have "\<not> found rows ix k q" for q
      using f r False unfolding found_def by (metis fun_upd_other option.inject)
    then show ?thesis using sec [OF ix] holds ix by (auto simp: holds_objects_def)
  qed (use sec [OF ix] in simp)
  show ?thesis unfolding holds_objects_def using prim hit miss by blast
qed

lemma find_primary_none: "by_index \<notin> set (map index_name ixs) \<Longrightarrow> find_primary h m a it by_index r ixs w q = Inr q"
  by (induction ixs) auto

lemma find_primary_ok:
  assumes a: "unat a + 1024 < 2 ^ 32" and v: "db_get h (skey it ix (extract_secondary_key ix r)) w = (case fp of None \<Rightarrow> [] | Some p \<Rightarrow> encp p)"
    and "distinct (map index_name ixs)" "ix \<in> set ixs"
  shows "find_primary h m a it (index_name ix) r ixs w q = Inr (case fp of None \<Rightarrow> q | Some p \<Rightarrow> (True, p))"
  using assms(3,4)
proof (induction ixs)
  case (Cons i ixs)
  have a24: "unat a + 24 < 2 ^ 32" using a by simp
  show ?case
  proof (cases "i = ix")
    case True
    then have none: "index_name ix \<notin> set (map index_name ixs)" using Cons.prems(1) by simp
    have "unpack_bytes (it_deser_primary it) (it_default_primary it) m a (encp p) = Inr p" for p
      using a encp_size [of p] by (intro prim.unpack_enc) simp_all
    then show ?thesis
      using True v find_primary_none [OF none] encp_size(1)
      by (cases fp) (simp_all add: secondary_key_eq [OF a24])
  next
    case False
    then have "index_name i \<noteq> index_name ix" "ix \<in> set ixs" using Cons.prems by auto
    then show ?thesis using Cons.IH Cons.prems(1) by simp
  qed
qed simp

lemma get_by_index_ok:
  assumes holds: "holds_objects h it enc encp rows w" and a: "unat a + 1024 < 2 ^ 32" and ix: "ix \<in> set (it_indices it)"
  shows "found rows ix (extract_secondary_key ix r) p \<Longrightarrow> get_by_index h m a it (index_name ix) r w = Inr (True, the (rows p))"
    and "\<forall>p. \<not> found rows ix (extract_secondary_key ix r) p \<Longrightarrow> get_by_index h m a it (index_name ix) r w = Inr (False, r)"
proof -
  let ?k = "extract_secondary_key ix r"
  note find = find_primary_ok [OF a _ indices_distinct(2) ix, of h r w _ m "(False, it_default_primary it)"]
  show "get_by_index h m a it (index_name ix) r w = Inr (True, the (rows p))" if f: "found rows ix ?k p"
  proof -
    have "db_get h (skey it ix ?k) w = encp p" using holds ix f by (auto simp: holds_objects_def)
    then have "find_primary h m a it (index_name ix) r (it_indices it) w (False, it_default_primary it) = Inr (True, p)"
      using find [of "Some p"] by simp
    then show ?thesis using f get_by_primary_ok [OF holds a] by (auto simp: get_by_index_def found_def)
  qed
  show "get_by_index h m a it (index_name ix) r w = Inr (False, r)" if f: "\<forall>p. \<not> found rows ix ?k p"
  proof -
    have "db_get h (skey it ix ?k) w = []" using holds ix f by (auto simp: holds_objects_def)
    then show ?thesis using find [of None] by (simp add: get_by_index_def)
  qed
qed

end

section \<open>The index contract\<close>

text \<open>
  The object type of the example contract \<^verbatim>\<open>examples/V3/index\<close>, with an index by owner and
  one by symbol code, and its action \<^verbatim>\<open>add\<close>.
\<close>

record account_t =
  at_id :: u64
  at_owner :: regid
  at_balance :: asset

definition get_symbol_code :: "account_t \<Rightarrow> u64" where
  "get_symbol_code r = code_raw (symbol_get_code (asset_symbol (at_balance r)))"

definition ser_account_t :: "account_t \<Rightarrow> sink \<Rightarrow> sink res" where
  "ser_account_t r ds = bindr (ser_primitive (at_id r) ds) (\<lambda>ds. bindr (ser_regid (at_owner r) ds) (ser_asset (at_balance r)))"

definition deser_account_t :: "account_t \<Rightarrow> datastream \<Rightarrow> (account_t \<times> datastream) res" where
  "deser_account_t r ds =
     bindr (deser_primitive (at_id r) ds) (\<lambda>(i, ds). bindr (deser_regid (at_owner r) ds) (\<lambda>(ow, ds).
     bindr (deser_asset (at_balance r) ds) (\<lambda>(b, ds). Inr (\<lparr>at_id = i, at_owner = ow, at_balance = b\<rparr>, ds))))"

definition account_table :: "(account_t, u64) index_table" where
  "account_table = \<lparr>it_name = name_literal ''accounts'',
     it_indices = transform_indices
       [(name_value (name_literal ''by_owner''), \<lambda>r. regid_value (at_owner r)), (name_value (name_literal ''by_code''), get_symbol_code)],
     it_ser = ser_account_t, it_deser = deser_account_t,
     it_default = \<lparr>at_id = 0, at_owner = regid_default, at_balance = asset_default\<rparr>, it_primary = at_id,
     it_ser_primary = ser_primitive, it_deser_primary = deser_primitive, it_default_primary = 0\<rparr>"

definition index_add :: "'w database \<Rightarrow> mem \<Rightarrow> u32 \<Rightarrow> u64 \<Rightarrow> regid \<Rightarrow> asset \<Rightarrow> 'w \<Rightarrow> 'w res" where
  "index_add h m a i ow bal w = set_object h m a account_table \<lparr>at_id = i, at_owner = ow, at_balance = bal\<rparr> w"

text \<open>The result is the three accounts that the action prints.\<close>

definition index_get ::
  "'w database \<Rightarrow> mem \<Rightarrow> u32 \<Rightarrow> u64 \<Rightarrow> regid \<Rightarrow> symbol_code \<Rightarrow> 'w \<Rightarrow> (account_t \<times> account_t \<times> account_t) res" where
  "index_get h m a i ow sc w =
     (let account = it_default account_table in
      bindr (get_object h m a account_table (account\<lparr>at_id := i\<rparr>) w) (\<lambda>(_, account1).
      bindr (get_by_index h m a account_table (name_value (name_literal ''by_owner'')) (account\<lparr>at_owner := ow\<rparr>) w) (\<lambda>(_, account2).
      bindr (symbol_make sc 8) (\<lambda>sym.
      bindr (asset_make 0 sym) (\<lambda>bal.
      bindr (get_by_index h m a account_table (name_value (name_literal ''by_code'')) (account\<lparr>at_balance := bal\<rparr>) w) (\<lambda>(_, account3).
        Inr (account1, account2, account3)))))))"

definition account_t_enc :: "account_t \<Rightarrow> byte list" where
  "account_t_enc r = prim_enc (at_id r) @ prim_enc (regid_value (at_owner r)) @ asset_enc (at_balance r)"

definition by_owner :: "account_t index" where
  "by_owner = \<lparr>index_name = name_value (name_literal ''by_owner''), index_number = 0, extract_secondary_key = \<lambda>r. regid_value (at_owner r)\<rparr>"

definition by_code :: "account_t index" where
  "by_code = \<lparr>index_name = name_value (name_literal ''by_code''), index_number = 1, extract_secondary_key = get_symbol_code\<rparr>"

lemma account_table_indices: "it_indices account_table = [by_owner, by_code]"
  by (simp add: account_table_def transform_indices_def by_owner_def by_code_def)

interpretation account_objects: indexed_codec account_table account_t_enc prim_enc
proof -
  have two: "codec2 (prim_enc \<circ> regid_value) (\<lambda>_. True) ser_regid deser_regid (Regid 0) asset_enc (\<lambda>_. True) ser_asset deser_asset asset_default"
    by (intro codec2.intro asset_codec.codec_axioms regid_codec.codec_axioms)
  note rest = codec2.codec_tuple [OF two]
  have "codec (\<lambda>v. prim_enc (at_id v) @ pair_enc (prim_enc \<circ> regid_value) asset_enc (at_owner v, at_balance v))
      (\<lambda>v. True \<and> pair_ok (\<lambda>_. True) (\<lambda>_. True) (at_owner v, at_balance v)) ser_account_t deser_account_t
      \<lparr>at_id = 0, at_owner = regid_default, at_balance = asset_default\<rparr>"
    by (rule codec_of_two_fields [OF prim64.codec_axioms rest,
          where mk = "\<lambda>i (ow, b). \<lparr>at_id = i, at_owner = ow, at_balance = b\<rparr>"])
      (simp_all add: regid_default_def ser_account_t_def ser_tuple_def [abs_def] deser_account_t_def
        deser_tuple_def bindr_assoc split_def)
  then have obj: "codec account_t_enc (\<lambda>_. True) (it_ser account_table) (it_deser account_table) (it_default account_table)"
    by (simp add: account_t_enc_def [abs_def] pair_enc_def pair_ok_def account_table_def)
  have prim: "codec prim_enc (\<lambda>_. True) (it_ser_primary account_table) (it_deser_primary account_table) (it_default_primary account_table)"
    using prim64.codec_axioms by (simp add: account_table_def)
  have names: "name_value (it_name account_table) \<noteq> secondary_key_prefix" by code_simp
  have distinct: "distinct (map (index_table_name (it_name account_table)) (it_indices account_table))"
    "distinct (map index_name (it_indices account_table))"
    by code_simp+
  show "indexed_codec account_table account_t_enc prim_enc"
    by (intro indexed_codec.intro obj prim indexed_codec_axioms.intro names distinct) (simp_all add: account_t_enc_def asset_enc_def)
qed

lemma index_names_valid: "validate_index_name (name_literal ''by_owner'') \<and> validate_index_name (name_literal ''by_code'')"
  by code_simp

section \<open>Properties\<close>

text \<open>
  C22. Objects with secondary indices refine a map from primary keys to objects: as long as
  no two objects share a secondary key, lookup by primary key and by either index answers
  from the map, and storing an object and deleting a stored one update the map and keep the
  indices in step with it. Shown for the object type of the index contract over any database that
  keeps the laws.
\<close>
theorem index_table_refines:
  assumes "db_laws h" "holds_objects h account_table account_t_enc prim_enc rows w" "keyed account_table rows" "unat a + 1024 < 2 ^ 32"
  shows "get_object h m a account_table r w = Inr (case rows (at_id r) of None \<Rightarrow> (False, r) | Some r' \<Rightarrow> (True, r'))
    \<and> (\<forall>ix\<in>{by_owner, by_code}. (\<forall>p. found rows ix (extract_secondary_key ix r) p \<longrightarrow>
         get_by_index h m a account_table (index_name ix) r w = Inr (True, the (rows p))) \<and>
       ((\<forall>p. \<not> found rows ix (extract_secondary_key ix r) p) \<longrightarrow>
         get_by_index h m a account_table (index_name ix) r w = Inr (False, r)))
    \<and> (\<forall>w'. keyed account_table (rows(at_id r := Some r)) \<longrightarrow> set_object h m a account_table r w = Inr w' \<longrightarrow>
         holds_objects h account_table account_t_enc prim_enc (rows(at_id r := Some r)) w')
    \<and> (\<forall>w'. rows (at_id r) = Some r \<longrightarrow> del_object h m a account_table r w = Inr w' \<longrightarrow>
         holds_objects h account_table account_t_enc prim_enc (rows(at_id r := None)) w')"
proof -
  have id: "it_primary account_table r = at_id r" by (simp add: account_table_def)
  have ixs: "set (it_indices account_table) = {by_owner, by_code}" by (simp add: account_table_indices)
  note get = account_objects.get_object_ok [OF assms(2,4), of m r, unfolded id]
  note index = account_objects.get_by_index_ok [OF assms(2,4), unfolded ixs]
  note set = account_objects.set_object_ok [OF assms(1-3) _ assms(4), of r m, unfolded id]
  note del = account_objects.del_object_ok [OF assms(1-3) _ assms(4), of r m, unfolded id]
  show ?thesis using get index set del by (intro conjI ballI allI impI) blast+
qed

theorem index_table_refines_witness:
  "\<exists>w'. set_object map_database (\<lambda>_. 0) 0 account_table \<lparr>at_id = 1, at_owner = Regid 7, at_balance = asset_default\<rparr> (\<lambda>_. []) = Inr w'
    \<and> holds_objects map_database account_table account_t_enc prim_enc
        ((\<lambda>_. None)(1 := Some \<lparr>at_id = 1, at_owner = Regid 7, at_balance = asset_default\<rparr>)) w'"
proof -
  let ?r = "\<lparr>at_id = 1, at_owner = Regid 7, at_balance = asset_default\<rparr>"
  have start: "holds_objects map_database account_table account_t_enc prim_enc (\<lambda>_. None) (\<lambda>_. [])"
    by (simp add: holds_objects_def map_database_def found_def)
  have keyed: "keyed account_table (\<lambda>_. None)" "keyed account_table ((\<lambda>_. None)(at_id ?r := Some ?r))"
    by (auto simp: keyed_def found_def account_table_def split: if_splits)
  have "case set_object map_database (\<lambda>_. 0) 0 account_table ?r (\<lambda>_. []) of Inr w' \<Rightarrow> True | Inl e \<Rightarrow> False" by code_simp
  then obtain w' where "set_object map_database (\<lambda>_. 0) 0 account_table ?r (\<lambda>_. []) = Inr w'" by (auto split: sum.splits)
  with index_table_refines [OF map_database_laws start keyed(1), of 0 "\<lambda>_. 0" ?r] keyed(2) show ?thesis by auto
qed

text \<open>
  A secondary key is not checked to be unique: the second of two objects with the same
  owner takes over the entry of the index, and deleting it deletes the entry. The first
  object is then still stored under its primary key but no longer found by its owner.
\<close>
theorem index_entry_lost:
  "bindr (index_add map_database (\<lambda>_. 0) 0 1 (Regid 7) asset_default (\<lambda>_. [])) (\<lambda>w.
   bindr (index_add map_database (\<lambda>_. 0) 0 2 (Regid 7) asset_default w) (\<lambda>w.
   bindr (del_object map_database (\<lambda>_. 0) 0 account_table \<lparr>at_id = 2, at_owner = Regid 7, at_balance = asset_default\<rparr> w) (\<lambda>w.
   let r = \<lparr>at_id = 1, at_owner = Regid 7, at_balance = asset_default\<rparr> in
   bindr (get_object map_database (\<lambda>_. 0) 0 account_table r w) (\<lambda>(by_primary, _).
   bindr (get_by_index map_database (\<lambda>_. 0) 0 account_table (index_name by_owner) r w) (\<lambda>(by_index, _).
     Inr (by_primary, by_index)))))) = Inr (True, False)"
  by code_simp

end
