(* ===== verification/Time.thy ===== *)
theory Time
  imports Composites Strings
begin

text \<open>
  Times: \<^verbatim>\<open>libraries/wasmlib/core/time.hpp\<close>. Durations and time points count microseconds
  in a signed 64-bit integer, whose overflow is undefined; \<^verbatim>\<open>time_point_sec\<close> counts seconds
  in an unsigned 32-bit integer, to which wider values are cut.
\<close>

section \<open>Durations\<close>

datatype microseconds = Microseconds (us_count: u64)

definition us_maximum :: microseconds where
  "us_maximum = Microseconds 0x7FFFFFFFFFFFFFFF"

definition us_add :: "microseconds \<Rightarrow> microseconds \<Rightarrow> microseconds res" where
  "us_add l r = mapr Microseconds (signed64 (sint (us_count l) + sint (us_count r)))"

definition us_sub :: "microseconds \<Rightarrow> microseconds \<Rightarrow> microseconds res" where
  "us_sub l r = mapr Microseconds (signed64 (sint (us_count l) - sint (us_count r)))"

definition us_add_assign :: "microseconds \<Rightarrow> microseconds \<Rightarrow> microseconds res" where
  "us_add_assign self c = mapr (\<lambda>n. Microseconds n) (signed64 (sint (us_count self) + sint (us_count c)))"

definition us_sub_assign :: "microseconds \<Rightarrow> microseconds \<Rightarrow> microseconds res" where
  "us_sub_assign self c = mapr (\<lambda>n. Microseconds n) (signed64 (sint (us_count self) - sint (us_count c)))"

definition us_eq :: "microseconds \<Rightarrow> microseconds \<Rightarrow> bool" where
  "us_eq l r = (us_count l = us_count r)"

definition us_ne :: "microseconds \<Rightarrow> microseconds \<Rightarrow> bool" where
  "us_ne l r = (us_count l \<noteq> us_count r)"

definition us_greater :: "microseconds \<Rightarrow> microseconds \<Rightarrow> bool" where
  "us_greater l r = (sint (us_count l) > sint (us_count r))"

definition us_ge :: "microseconds \<Rightarrow> microseconds \<Rightarrow> bool" where
  "us_ge l r = (sint (us_count l) \<ge> sint (us_count r))"

definition us_less :: "microseconds \<Rightarrow> microseconds \<Rightarrow> bool" where
  "us_less l r = (sint (us_count l) < sint (us_count r))"

definition us_le :: "microseconds \<Rightarrow> microseconds \<Rightarrow> bool" where
  "us_le l r = (sint (us_count l) \<le> sint (us_count r))"

definition us_to_seconds :: "microseconds \<Rightarrow> u64" where
  "us_to_seconds c = word_of_int (sint (us_count c) sdiv 1000000)"

definition seconds :: "u64 \<Rightarrow> microseconds res" where
  "seconds s = mapr Microseconds (signed64 (sint s * 1000000))"

definition milliseconds :: "u64 \<Rightarrow> microseconds res" where
  "milliseconds s = mapr Microseconds (signed64 (sint s * 1000))"

definition minutes :: "u64 \<Rightarrow> microseconds res" where
  "minutes m = bindr (signed64 (60 * sint m)) seconds"

definition hours :: "u64 \<Rightarrow> microseconds res" where
  "hours h = bindr (signed64 (60 * sint h)) minutes"

definition days :: "u64 \<Rightarrow> microseconds res" where
  "days d = bindr (signed64 (24 * sint d)) hours"

section \<open>Time points\<close>

datatype time_point = Time_point (elapsed: microseconds)

definition tp_default :: time_point where
  "tp_default = Time_point (Microseconds 0)"

definition tp_sec_since_epoch :: "time_point \<Rightarrow> u32" where
  "tp_sec_since_epoch t = word_of_int (sint (us_count (elapsed t)) sdiv 1000000)"

definition tp_assign :: "u64 \<Rightarrow> time_point" where
  "tp_assign t = Time_point (Microseconds t)"

definition tp_to_string :: "time_point \<Rightarrow> string" where
  "tp_to_string t = show_int (sint (us_count (elapsed t)))"

definition tp_eq :: "time_point \<Rightarrow> time_point \<Rightarrow> bool" where
  "tp_eq a b = (us_count (elapsed a) = us_count (elapsed b))"

definition tp_ne :: "time_point \<Rightarrow> time_point \<Rightarrow> bool" where
  "tp_ne a b = (us_count (elapsed a) \<noteq> us_count (elapsed b))"

definition tp_greater :: "time_point \<Rightarrow> time_point \<Rightarrow> bool" where
  "tp_greater a b = (sint (us_count (elapsed a)) > sint (us_count (elapsed b)))"

definition tp_ge :: "time_point \<Rightarrow> time_point \<Rightarrow> bool" where
  "tp_ge a b = (sint (us_count (elapsed a)) \<ge> sint (us_count (elapsed b)))"

definition tp_add_assign :: "time_point \<Rightarrow> microseconds \<Rightarrow> time_point res" where
  "tp_add_assign self m = mapr Time_point (us_add_assign (elapsed self) m)"

definition tp_sub_assign :: "time_point \<Rightarrow> microseconds \<Rightarrow> time_point res" where
  "tp_sub_assign self m = mapr Time_point (us_sub_assign (elapsed self) m)"

definition tp_less :: "time_point \<Rightarrow> time_point \<Rightarrow> bool" where
  "tp_less a b = (sint (us_count (elapsed a)) < sint (us_count (elapsed b)))"

definition tp_le :: "time_point \<Rightarrow> time_point \<Rightarrow> bool" where
  "tp_le a b = (sint (us_count (elapsed a)) \<le> sint (us_count (elapsed b)))"

definition tp_add :: "time_point \<Rightarrow> microseconds \<Rightarrow> time_point res" where
  "tp_add t m = mapr Time_point (us_add (elapsed t) m)"

definition tp_add_point :: "time_point \<Rightarrow> time_point \<Rightarrow> time_point res" where
  "tp_add_point t m = mapr Time_point (us_add (elapsed t) (elapsed m))"

definition tp_sub :: "time_point \<Rightarrow> microseconds \<Rightarrow> time_point res" where
  "tp_sub t m = mapr Time_point (us_sub (elapsed t) m)"

definition tp_diff :: "time_point \<Rightarrow> time_point \<Rightarrow> microseconds res" where
  "tp_diff t m = mapr Microseconds (signed64 (sint (us_count (elapsed t)) - sint (us_count (elapsed m))))"

section \<open>Seconds\<close>

datatype time_point_sec = Time_point_sec (utc_seconds: u32)

definition tps_default :: time_point_sec where
  "tps_default = Time_point_sec 0"

definition tps_make :: "u64 \<Rightarrow> time_point_sec" where
  "tps_make s = Time_point_sec (ucast s)"

definition tps_of_time_point :: "time_point \<Rightarrow> time_point_sec" where
  "tps_of_time_point t = Time_point_sec (word_of_int (sint (us_count (elapsed t)) sdiv 1000000))"

definition tps_maximum :: time_point_sec where
  "tps_maximum = tps_make 0xFFFFFFFF"

definition tps_min :: time_point_sec where
  "tps_min = tps_make 0"

definition tps_to_time_point :: "time_point_sec \<Rightarrow> time_point res" where
  "tps_to_time_point t = mapr Time_point (seconds (ucast (utc_seconds t)))"

definition tps_sec_since_epoch :: "time_point_sec \<Rightarrow> u32" where
  "tps_sec_since_epoch t = utc_seconds t"

definition tps_to_string :: "time_point_sec \<Rightarrow> string" where
  "tps_to_string t = show_nat (unat (utc_seconds t))"

definition tps_assign :: "u32 \<Rightarrow> time_point_sec" where
  "tps_assign t = Time_point_sec t"

definition tps_assign_time_point :: "time_point \<Rightarrow> time_point_sec" where
  "tps_assign_time_point t = Time_point_sec (word_of_int (sint (us_count (elapsed t)) sdiv 1000000))"

definition tps_greater :: "time_point_sec \<Rightarrow> time_point_sec \<Rightarrow> bool" where
  "tps_greater a b = (utc_seconds a > utc_seconds b)"

definition tps_ge :: "time_point_sec \<Rightarrow> time_point_sec \<Rightarrow> bool" where
  "tps_ge a b = (utc_seconds a \<ge> utc_seconds b)"

definition tps_ne :: "time_point_sec \<Rightarrow> time_point_sec \<Rightarrow> bool" where
  "tps_ne a b = (utc_seconds a \<noteq> utc_seconds b)"

definition tps_less :: "time_point_sec \<Rightarrow> time_point_sec \<Rightarrow> bool" where
  "tps_less a b = (utc_seconds a < utc_seconds b)"

definition tps_le :: "time_point_sec \<Rightarrow> time_point_sec \<Rightarrow> bool" where
  "tps_le a b = (utc_seconds a \<le> utc_seconds b)"

definition tps_eq :: "time_point_sec \<Rightarrow> time_point_sec \<Rightarrow> bool" where
  "tps_eq a b = (utc_seconds a = utc_seconds b)"

definition tps_add_assign :: "time_point_sec \<Rightarrow> u32 \<Rightarrow> time_point_sec" where
  "tps_add_assign t m = Time_point_sec (utc_seconds t + m)"

definition tps_add_assign_us :: "time_point_sec \<Rightarrow> microseconds \<Rightarrow> time_point_sec" where
  "tps_add_assign_us t m = Time_point_sec (word_of_int (uint (utc_seconds t) + sint (us_to_seconds m)))"

definition tps_add_assign_sec :: "time_point_sec \<Rightarrow> time_point_sec \<Rightarrow> time_point_sec" where
  "tps_add_assign_sec t m = Time_point_sec (utc_seconds t + utc_seconds m)"

definition tps_sub_assign_sec :: "time_point_sec \<Rightarrow> time_point_sec \<Rightarrow> time_point_sec" where
  "tps_sub_assign_sec t m = Time_point_sec (utc_seconds t - utc_seconds m)"

definition tps_sub_assign :: "time_point_sec \<Rightarrow> u32 \<Rightarrow> time_point_sec" where
  "tps_sub_assign t m = Time_point_sec (utc_seconds t - m)"

definition tps_sub_assign_us :: "time_point_sec \<Rightarrow> microseconds \<Rightarrow> time_point_sec" where
  "tps_sub_assign_us t m = Time_point_sec (word_of_int (uint (utc_seconds t) - sint (us_to_seconds m)))"

definition tps_plus :: "time_point_sec \<Rightarrow> u32 \<Rightarrow> time_point_sec" where
  "tps_plus t offset = tps_make (ucast (utc_seconds t + offset))"

definition tps_minus :: "time_point_sec \<Rightarrow> u32 \<Rightarrow> time_point_sec" where
  "tps_minus t offset = tps_make (ucast (utc_seconds t - offset))"

definition tps_add_us :: "time_point_sec \<Rightarrow> microseconds \<Rightarrow> time_point res" where
  "tps_add_us t m = bindr (tps_to_time_point t) (\<lambda>p. tp_add p m)"

definition tps_sub_us :: "time_point_sec \<Rightarrow> microseconds \<Rightarrow> time_point res" where
  "tps_sub_us t m = bindr (tps_to_time_point t) (\<lambda>p. tp_sub p m)"

definition tps_diff :: "time_point_sec \<Rightarrow> time_point_sec \<Rightarrow> microseconds res" where
  "tps_diff t m = bindr (tps_to_time_point t) (\<lambda>p. bindr (tps_to_time_point m) (tp_diff p))"

definition tp_tps_diff :: "time_point \<Rightarrow> time_point_sec \<Rightarrow> microseconds res" where
  "tp_tps_diff t m = bindr (tps_to_time_point m) (tp_diff t)"

section \<open>Stream operators\<close>

definition ser_microseconds :: "microseconds \<Rightarrow> sink \<Rightarrow> sink res" where
  "ser_microseconds = ser_class us_count ser_primitive"

definition deser_microseconds :: "microseconds \<Rightarrow> datastream \<Rightarrow> (microseconds \<times> datastream) res" where
  "deser_microseconds = deser_class us_count Microseconds deser_primitive"

definition ser_time_point :: "time_point \<Rightarrow> sink \<Rightarrow> sink res" where
  "ser_time_point = ser_class elapsed ser_microseconds"

definition deser_time_point :: "time_point \<Rightarrow> datastream \<Rightarrow> (time_point \<times> datastream) res" where
  "deser_time_point = deser_class elapsed Time_point deser_microseconds"

definition ser_time_point_sec :: "time_point_sec \<Rightarrow> sink \<Rightarrow> sink res" where
  "ser_time_point_sec = ser_class utc_seconds ser_primitive"

definition deser_time_point_sec :: "time_point_sec \<Rightarrow> datastream \<Rightarrow> (time_point_sec \<times> datastream) res" where
  "deser_time_point_sec = deser_class utc_seconds Time_point_sec deser_primitive"

interpretation microseconds_codec: codec "prim_enc \<circ> us_count" "\<lambda>_. True" ser_microseconds deser_microseconds "Microseconds 0"
  using codec_class [OF prim64.codec_axioms, of Microseconds us_count "Microseconds 0"]
  by (simp add: comp_def ser_microseconds_def deser_microseconds_def)

interpretation time_point_codec: codec "prim_enc \<circ> us_count \<circ> elapsed" "\<lambda>_. True" ser_time_point deser_time_point tp_default
  using codec_class [OF microseconds_codec.codec_axioms, of Time_point elapsed tp_default]
  by (simp add: comp_def ser_time_point_def deser_time_point_def tp_default_def)

interpretation time_point_sec_codec: codec "prim_enc \<circ> utc_seconds" "\<lambda>_. True" ser_time_point_sec deser_time_point_sec tps_default
  using codec_class [OF prim32.codec_axioms, of Time_point_sec utc_seconds tps_default]
  by (simp add: comp_def ser_time_point_sec_def deser_time_point_sec_def tps_default_def)

section \<open>The comparisons order durations and times\<close>

lemma us_order:
  "us_less a b \<longleftrightarrow> us_le a b \<and> \<not> us_le b a" "us_le a a" "us_le a b \<or> us_le b a"
  "us_le a b \<Longrightarrow> us_le b c \<Longrightarrow> us_le a c" "us_le a b \<and> us_le b a \<longleftrightarrow> us_eq a b"
  "us_greater a b = us_less b a" "us_ge a b = us_le b a" "us_ne a b \<longleftrightarrow> \<not> us_eq a b"
  by (auto simp: us_less_def us_le_def us_eq_def us_greater_def us_ge_def us_ne_def intro: signed_word_eqI)

lemma tp_compares:
  "tp_less a b = us_less (elapsed a) (elapsed b)" "tp_le a b = us_le (elapsed a) (elapsed b)"
  "tp_eq a b \<longleftrightarrow> a = b" "tp_greater a b = tp_less b a" "tp_ge a b = tp_le b a" "tp_ne a b \<longleftrightarrow> \<not> tp_eq a b"
  by (auto simp: tp_less_def us_less_def tp_le_def us_le_def tp_eq_def tp_greater_def tp_ge_def tp_ne_def
      intro!: time_point.expand microseconds.expand)

section \<open>Seconds as time points\<close>

lemma utc_bound: "0 \<le> uint (w :: u32) \<and> uint w < 4294967296"
  using unsigned_less [of w] by simp

lemma fits64_small: "\<bar>i\<bar> < 5000000000000000 \<Longrightarrow> fits64 i"
  unfolding fits64_def int64_min_def by auto

lemma sint_ucast64: "sint (ucast (w :: u32) :: u64) = uint w"
proof -
  have "\<bar>uint w\<bar> < 5000000000000000" using utc_bound [of w] by linarith
  then have "sint (word_of_int (uint w) :: u64) = uint w" by (intro sint_of_fits64 fits64_small)
  moreover have "(ucast w :: u64) = word_of_int (uint w)" by simp
  ultimately show ?thesis by (simp only:)
qed

lemma sdiv_exact: "0 \<le> i \<Longrightarrow> (i * 1000000) sdiv 1000000 = i" for i :: int
  by (cases "i = 0") (auto simp: signed_divide_int_def sgn_if)

lemma tps_to_time_point_eq:
  "tps_to_time_point t = Inr (Time_point (Microseconds (word_of_int (uint (utc_seconds t) * 1000000))))"
proof -
  have "fits64 (uint (utc_seconds t) * 1000000)"
    using utc_bound [of "utc_seconds t"] by (intro fits64_small) linarith
  then show ?thesis by (simp add: tps_to_time_point_def seconds_def sint_ucast64 signed64_eq)
qed

lemma sint_seconds: "\<bar>i\<bar> < 4294967296 \<Longrightarrow> sint (word_of_int (i * 1000000) :: u64) = i * 1000000"
  by (intro sint_of_fits64 fits64_small) linarith

text \<open>
  The whole seconds of a time: a \<^verbatim>\<open>time_point_sec\<close> converts to the time point of that many
  million microseconds and back to itself. The difference of two of them is exact, never overflows, is
  positive exactly when the first is later, and added to the second gives the first again.
\<close>
theorem time_seconds_exact:
  "\<exists>p d. tps_to_time_point t = Inr p \<and> sint (us_count (elapsed p)) = uint (utc_seconds t) * 1000000
     \<and> tps_of_time_point p = t \<and> tp_sec_since_epoch p = utc_seconds t
     \<and> tps_diff t m = Inr d \<and> sint (us_count d) = (uint (utc_seconds t) - uint (utc_seconds m)) * 1000000
     \<and> (us_less (Microseconds 0) d \<longleftrightarrow> tps_less m t) \<and> tps_add_us m d = Inr p"
proof -
  let ?a = "uint (utc_seconds t)" and ?b = "uint (utc_seconds m)"
  let ?d = "Microseconds (word_of_int ((?a - ?b) * 1000000))" and ?p = "Time_point (Microseconds (word_of_int (?a * 1000000)))"
  have ab: "\<bar>?a\<bar> < 4294967296" "\<bar>?b\<bar> < 4294967296" "\<bar>?a - ?b\<bar> < 4294967296"
    using utc_bound [of "utc_seconds t"] utc_bound [of "utc_seconds m"] by linarith+
  note sints = ab [THEN sint_seconds]
  have "(?a * 1000000) sdiv 1000000 = ?a"
    by (rule sdiv_exact) (rule utc_bound [THEN conjunct1])
  then have inv: "tps_of_time_point ?p = t" "tp_sec_since_epoch ?p = utc_seconds t"
    by (simp_all only: tps_of_time_point_def tp_sec_since_epoch_def time_point.sel microseconds.sel sints(1)
        word_of_int_uint time_point_sec.collapse)
  have "fits64 (?a * 1000000 - ?b * 1000000)" using ab by (intro fits64_small) linarith
  then have diff: "tps_diff t m = Inr ?d"
    by (simp only: tps_diff_def tps_to_time_point_eq tp_diff_def time_point.sel microseconds.sel sints signed64_eq left_diff_distrib
        mapr_def bindr_simps)
  have sum: "?b * 1000000 + (?a - ?b) * 1000000 = ?a * 1000000" by (simp add: left_diff_distrib)
  have "fits64 (?a * 1000000)" using ab by (intro fits64_small) linarith
  then have "tps_add_us m ?d = Inr ?p"
    by (simp only: tps_add_us_def tps_to_time_point_eq tp_add_def us_add_def time_point.sel microseconds.sel sints sum signed64_eq
        mapr_def bindr_simps)
  moreover have "us_less (Microseconds 0) ?d \<longleftrightarrow> tps_less m t"
    unfolding us_less_def tps_less_def word_less_def microseconds.sel sints by simp
  moreover have "sint (us_count (elapsed ?p)) = ?a * 1000000" "sint (us_count ?d) = (?a - ?b) * 1000000"
    by (simp_all only: time_point.sel microseconds.sel sints)
  ultimately show ?thesis
    using diff inv tps_to_time_point_eq [of t] by (intro exI [of _ ?p] exI [of _ ?d] conjI)
qed

end
