(* ===== verification/Extensions.thy ===== *)
theory Extensions
  imports Composites
begin

text \<open>
  Optional trailing fields: \<^verbatim>\<open>libraries/wasmlib/core/binary_extension.hpp\<close> and
  \<^verbatim>\<open>ignore.hpp\<close>. A \<^verbatim>\<open>binary_extension\<close> is a flag beside storage that may hold an object;
  \<open>be_data\<close> is the live object in the storage, if there is one. What a move leaves in its
  source is the argument \<open>moved\<close>.
\<close>

section \<open>The container\<close>

record 'a binary_extension =
  has_value :: bool
  be_data :: "'a option"

definition be_empty :: "'a binary_extension" where
  "be_empty = \<lparr>has_value = False, be_data = None\<rparr>"

definition be_of :: "'a \<Rightarrow> 'a binary_extension" where
  "be_of ext = \<lparr>has_value = True, be_data = Some ext\<rparr>"

definition be_get :: "'a binary_extension \<Rightarrow> 'a res" where
  "be_get be = (case be_data be of None \<Rightarrow> Inl (Undefined ''read of storage without an object'') | Some x \<Rightarrow> Inr x)"

definition be_copy :: "'a binary_extension \<Rightarrow> 'a binary_extension res" where
  "be_copy other =
     (if has_value other then bindr (be_get other) (\<lambda>x. Inr \<lparr>has_value = has_value other, be_data = Some x\<rparr>)
      else Inr \<lparr>has_value = has_value other, be_data = None\<rparr>)"

text \<open>The result is the new object and what the move leaves of the other.\<close>

definition be_move :: "('a \<Rightarrow> 'a) \<Rightarrow> 'a binary_extension \<Rightarrow> ('a binary_extension \<times> 'a binary_extension) res" where
  "be_move moved other =
     (if has_value other
      then bindr (be_get other) (\<lambda>x.
        Inr (\<lparr>has_value = True, be_data = Some x\<rparr>, other\<lparr>has_value := False, be_data := Some (moved x)\<rparr>))
      else Inr (\<lparr>has_value = has_value other, be_data = None\<rparr>, other))"

definition be_value :: "'a binary_extension \<Rightarrow> 'a res" where
  "be_value be =
     bindr (if \<not> has_value be then check False ''cannot get value of empty binary_extension'' else Inr ()) (\<lambda>_. be_get be)"

definition be_value_or_default :: "'a binary_extension \<Rightarrow> 'a \<Rightarrow> 'a res" where
  "be_value_or_default be dflt = (if has_value be then be_get be else Inr dflt)"

definition be_value_or :: "'a \<Rightarrow> 'a binary_extension \<Rightarrow> 'a res" where
  "be_value_or T be = (if \<not> has_value be then Inr T else be_get be)"

text \<open>On an rvalue the result is a reference: without a value, to a temporary that is already gone.\<close>

definition be_value_or_move :: "'a binary_extension \<Rightarrow> ('a \<times> 'a binary_extension) res" where
  "be_value_or_move be =
     (if \<not> has_value be then Inl (Undefined ''reference to a destroyed temporary'')
      else bindr (be_get be) (\<lambda>x. Inr (x, be\<lparr>has_value := False\<rparr>)))"

definition be_reset :: "'a binary_extension \<Rightarrow> 'a binary_extension res" where
  "be_reset be =
     (if has_value be then bindr (be_get be) (\<lambda>_. Inr (be\<lparr>has_value := False, be_data := None\<rparr>)) else Inr be)"

definition be_emplace :: "'a binary_extension \<Rightarrow> 'a \<Rightarrow> 'a binary_extension res" where
  "be_emplace be x =
     bindr (if has_value be then be_reset be else Inr be) (\<lambda>be. Inr (be\<lparr>be_data := Some x, has_value := True\<rparr>))"

section \<open>Stream operators\<close>

definition ser_binary_extension :: "'a \<Rightarrow> ('a \<Rightarrow> sink \<Rightarrow> sink res) \<Rightarrow> 'a binary_extension \<Rightarrow> sink \<Rightarrow> sink res" where
  "ser_binary_extension T ser be ds = bindr (be_value_or T be) (\<lambda>v. ser v ds)"

definition deser_binary_extension ::
  "('a \<Rightarrow> datastream \<Rightarrow> ('a \<times> datastream) res) \<Rightarrow> 'a \<Rightarrow> 'a binary_extension \<Rightarrow> datastream \<Rightarrow>
   ('a binary_extension \<times> datastream) res" where
  "deser_binary_extension deser d be ds =
     (if ds_remaining ds \<noteq> 0
      then bindr (deser d ds) (\<lambda>(val, ds'). bindr (be_emplace be val) (\<lambda>be. Inr (be, ds')))
      else Inr (be, ds))"

datatype 'a ignore_wrapper = Ignore_wrapper (ignored_value: 'a)

definition ser_ignore_wrapper :: "('a \<Rightarrow> sink \<Rightarrow> sink res) \<Rightarrow> 'a ignore_wrapper \<Rightarrow> sink \<Rightarrow> sink res" where
  "ser_ignore_wrapper ser val ds = ser (ignored_value val) ds"

definition ser_ignore :: "unit \<Rightarrow> sink \<Rightarrow> sink res" where
  "ser_ignore val ds = Inr ds"

definition deser_ignore :: "unit \<Rightarrow> datastream \<Rightarrow> (unit \<times> datastream) res" where
  "deser_ignore val ds = Inr (val, ds)"

section \<open>The flag tells whether an object lives in the storage\<close>

definition be_ok :: "'a binary_extension \<Rightarrow> bool" where
  "be_ok be \<longleftrightarrow> (has_value be \<longrightarrow> be_data be \<noteq> None)"

lemma be_ok_simps [simp]: "be_ok be_empty" "be_ok (be_of x)" "has_value (be_of x)" "\<not> has_value be_empty"
  by (simp_all add: be_ok_def be_empty_def be_of_def)

lemma be_get_ok: "be_ok be \<Longrightarrow> has_value be \<Longrightarrow> \<exists>x. be_data be = Some x \<and> be_get be = Inr x"
  by (auto simp: be_ok_def be_get_def)

text \<open>On objects of which the flag is right no operation but the reference-returning one is undefined.\<close>

lemma be_operations:
  assumes "be_ok be"
  shows "\<exists>be'. be_reset be = Inr be' \<and> be_ok be' \<and> \<not> has_value be'"
    "\<exists>be'. be_emplace be x = Inr be' \<and> be_ok be' \<and> be_value be' = Inr x"
    "\<exists>be'. be_copy be = Inr be' \<and> be_ok be' \<and> be_value be' = be_value be"
    "\<exists>be' old. be_move moved be = Inr (be', old) \<and> be_ok be' \<and> be_ok old \<and> \<not> has_value old \<and> be_value be' = be_value be"
    "has_value be \<or> be_value be = Inl (Assert ''cannot get value of empty binary_extension'')"
proof -
  consider x where "has_value be" "be_data be = Some x" | "\<not> has_value be"
    using assms by (auto simp: be_ok_def)
  note cases = this
  note defs = be_reset_def be_ok_def be_emplace_def be_value_def be_copy_def be_move_def be_get_def check_def
  show "\<exists>be'. be_reset be = Inr be' \<and> be_ok be' \<and> \<not> has_value be'"
    by (rule cases) (simp_all add: defs)
  show "\<exists>be'. be_emplace be x = Inr be' \<and> be_ok be' \<and> be_value be' = Inr x"
    by (rule cases) (simp_all add: defs)
  show "\<exists>be'. be_copy be = Inr be' \<and> be_ok be' \<and> be_value be' = be_value be"
    by (rule cases) (simp_all add: defs)
  show "\<exists>be' old. be_move moved be = Inr (be', old) \<and> be_ok be' \<and> be_ok old \<and> \<not> has_value old \<and> be_value be' = be_value be"
    by (rule cases) (simp_all add: defs)
  show "has_value be \<or> be_value be = Inl (Assert ''cannot get value of empty binary_extension'')"
    by (simp add: defs)
qed

lemma be_emplace_empty: "be_emplace be_empty x = Inr (be_of x)"
  by (simp add: be_emplace_def be_empty_def be_of_def)

lemma ds_remaining_iff: "ds_remaining ds = 0 \<longleftrightarrow> ds_left ds = 0"
  by (simp add: ds_remaining_def ds_left_def unat_eq_0)

lemma codec_ignore: "codec (\<lambda>_. []) (\<lambda>_. True) ser_ignore deser_ignore ()"
  by unfold_locales (simp_all add: ser_ignore_def deser_ignore_def sink_write_Nil ds_advance_def ds_within_refl)

context codec
begin

lemma deser_extension_end: "ds_left ds = 0 \<Longrightarrow> deser_binary_extension deser dflt be ds = Inr (be, ds)"
  by (simp add: deser_binary_extension_def ds_remaining_iff)

lemma deser_extension_value:
  assumes "wf_ds ds" "ok v" "enc v \<noteq> []" "ds_avail ds = enc v @ rest"
  shows "deser_binary_extension deser dflt be_empty ds = Inr (be_of v, ds_advance (length (enc v)) ds)"
proof -
  have "ds_left ds = length (enc v @ rest)" using length_ds_avail [of ds] assms(4) by simp
  then have "ds_left ds \<noteq> 0" using assms(3) by simp
  then show ?thesis
    using deser_enc [OF assms(1,2,4)] by (simp add: deser_binary_extension_def ds_remaining_iff be_emplace_empty)
qed

lemma ser_extension: "ser_binary_extension dflt ser (be_of v) = ser v" "ser_binary_extension dflt ser be_empty = ser dflt"
  by (simp_all add: fun_eq_iff ser_binary_extension_def be_value_or_def be_of_def be_empty_def be_get_def)

end


section \<open>Compatibility\<close>

text \<open>
  C24. Why the type exists. Let a structure have a field \<open>x\<close> and, in a later version, a trailing
  extension \<open>y\<close> whose wire format is not empty. Readers of the later version accept the bytes
  of the earlier one, with no value in the extension; readers of the earlier version accept
  those of the later one and ignore the extension; and the later version reads its own bytes.
  An absent extension, however, is written as a default value, which comes back as a value.
\<close>

theorem binary_extension_compatible:
  assumes first: "codec enc1 ok1 ser1 deser1 d1" "ok1 x" and ext: "codec enc2 ok2 ser2 deser2 d2" "ok2 y" "enc2 y \<noteq> []"
    and size: "length (enc1 x @ enc2 y) < 2 ^ 31" "unat a + length (enc1 x @ enc2 y) < 2 ^ 32"
  shows "\<exists>old new. pack m a ser1 x = Inr old \<and> pack m a (ser_pair ser1 (ser_binary_extension d2 ser2)) (x, be_of y) = Inr new
    \<and> unpack_bytes (deser_pair deser1 d1 (deser_binary_extension deser2 d2) be_empty) z m' a old = Inr (x, be_empty)
    \<and> unpack_bytes (deser_pair deser1 d1 (deser_binary_extension deser2 d2) be_empty) z m' a new = Inr (x, be_of y)
    \<and> unpack_bytes deser1 d1 m' a new = Inr x
    \<and> pack m a (ser_pair ser1 (ser_binary_extension d2 ser2)) (x, be_empty) = pack m a (ser_pair ser1 (ser_binary_extension d2 ser2)) (x, be_of d2)"
proof -
  let ?new = "enc1 x @ enc2 y"
  have "codec2 enc1 ok1 ser1 deser1 d1 enc2 ok2 ser2 deser2 d2" by (intro codec2.intro first ext)
  note pair = codec2.codec_pair [OF this]
  have ser: "ser_pair ser1 (ser_binary_extension d2 ser2) (x, be_of v) = ser_pair ser1 ser2 (x, v)" for v
    by (simp add: fun_eq_iff ser_pair_def codec.ser_extension [OF ext(1)])
  have new: "pack m a (ser_pair ser1 (ser_binary_extension d2 ser2)) (x, be_of y) = Inr ?new"
    using codec.pack_enc [OF pair, of "(x, y)" a m] first(2) ext(2) size
    by (simp add: pack_def pack_size_def ser pair_enc_def pair_ok_def)
  have old: "pack m a ser1 x = Inr (enc1 x)" using size by (intro codec.pack_enc [OF first]) simp_all
  have stream: "wf_ds (ds_make (mem_write m' a bs) a (of_nat (length bs)))"
      "ds_avail (ds_make (mem_write m' a bs) a (of_nat (length bs))) = bs"
    if "length bs < 2 ^ 31" "unat a + length bs < 2 ^ 32" for bs
    using that by (intro ds_make_wf ds_make_avail; simp add: unat_of_nat_u32)+
  let ?N = "ds_make (mem_write m' a ?new) a (of_nat (length ?new))" and ?O = "ds_make (mem_write m' a (enc1 x)) a (of_nat (length (enc1 x)))"
  have N: "wf_ds ?N" "ds_avail ?N = ?new" by (rule stream [OF size])+
  have O: "wf_ds ?O" "ds_avail ?O = enc1 x @ []" using stream [of "enc1 x"] size by simp_all
  let ?N' = "ds_advance (length (enc1 x)) ?N" and ?O' = "ds_advance (length (enc1 x)) ?O"
  have N1: "deser1 d1 ?N = Inr (x, ?N')" by (rule codec.deser_enc [OF first(1) N(1) first(2) N(2)])
  have O1: "deser1 d1 ?O = Inr (x, ?O')" by (rule codec.deser_enc [OF first(1) O(1) first(2) O(2)])
  have left: "ds_left ?N = length ?new" "ds_left ?O = length (enc1 x)"
    using N(2) O(2) by (simp_all only: length_ds_avail [symmetric]) simp_all
  have "wf_ds ?N'" "ds_avail ?N' = enc2 y @ []"
    using N left by (simp_all add: wf_ds_advance ds_avail_advance)
  then have N2: "\<exists>ds. deser_binary_extension deser2 d2 be_empty ?N' = Inr (be_of y, ds)"
    using codec.deser_extension_value [OF ext(1) _ ext(2,3)] by blast
  have "ds_left ?O' = 0" using O left by (simp add: ds_left_advance)
  then have O2: "deser_binary_extension deser2 d2 be_empty ?O' = Inr (be_empty, ?O')"
    by (rule codec.deser_extension_end [OF ext(1)])
  have "pack m a (ser_pair ser1 (ser_binary_extension d2 ser2)) (x, be_empty) = pack m a (ser_pair ser1 (ser_binary_extension d2 ser2)) (x, be_of d2)"
    by (simp add: pack_def pack_size_def ser_pair_def codec.ser_extension [OF ext(1)])
  moreover have "unpack_bytes deser1 d1 m' a ?new = Inr x" using N1 by (simp add: unpack_bytes_def unpack_def)
  moreover have "unpack_bytes (deser_pair deser1 d1 (deser_binary_extension deser2 d2) be_empty) z m' a ?new = Inr (x, be_of y)"
    using N1 N2 by (auto simp: unpack_bytes_def unpack_def deser_pair_def)
  moreover have "unpack_bytes (deser_pair deser1 d1 (deser_binary_extension deser2 d2) be_empty) z m' a (enc1 x) = Inr (x, be_empty)"
    using O1 O2 by (simp add: unpack_bytes_def unpack_def deser_pair_def)
  ultimately show ?thesis using old new by blast
qed

theorem binary_extension_compatible_witness:
  "unpack_bytes (deser_pair deser_primitive 0 (deser_binary_extension deser_primitive 0) be_empty) (0, be_empty) (\<lambda>_. 0) 64
     [7, 0, 0, 0, 5, 0, 0, 0] = Inr (7 :: u32, be_of (5 :: u32))"
proof -
  have enc: "prim_enc (7 :: u32) = [7, 0, 0, 0]" "prim_enc (5 :: u32) = [5, 0, 0, 0]" by code_simp+
  obtain new where *: "pack (\<lambda>_. 0) 64 (ser_pair ser_primitive (ser_binary_extension 0 ser_primitive)) (7 :: u32, be_of (5 :: u32)) = Inr new"
      "unpack_bytes (deser_pair deser_primitive 0 (deser_binary_extension deser_primitive 0) be_empty) (0, be_empty) (\<lambda>_. 0) 64 new
        = Inr (7 :: u32, be_of (5 :: u32))"
    using binary_extension_compatible [OF prim32.codec_axioms TrueI prim32.codec_axioms TrueI, of 5 7 64 "\<lambda>_. 0" "(0, be_empty)" "\<lambda>_. 0"] enc
    by auto
  have "pack (\<lambda>_. 0) 64 (ser_pair ser_primitive (ser_binary_extension 0 ser_primitive)) (7 :: u32, be_of (5 :: u32)) = Inr [7, 0, 0, 0, 5, 0, 0, 0]"
    by code_simp
  with * show ?thesis by simp
qed

end
