(* ===== verification/Crypto.thy ===== *)
theory Crypto
  imports Fixed_Bytes
begin

text \<open>
  The hash functions: \<^verbatim>\<open>libraries/wasmlib/crypto.cpp\<close>. The host functions are the fields of
  a record and see the bytes their pointer arguments designate; \<open>crypto_laws\<close> states what
  \<^verbatim>\<open>core/crypto.hpp\<close> documents of them. The words of a checksum before the constructor
  fills them are the argument \<open>self\<close>.
\<close>

section \<open>The wrappers\<close>

record crypto_host =
  host_sha256 :: "byte list \<Rightarrow> byte list"
  host_sha1 :: "byte list \<Rightarrow> byte list"
  host_sha512 :: "byte list \<Rightarrow> byte list"
  host_ripemd160 :: "byte list \<Rightarrow> byte list"
  host_assert_sha256 :: "byte list \<Rightarrow> byte list \<Rightarrow> unit res"
  host_assert_sha1 :: "byte list \<Rightarrow> byte list \<Rightarrow> unit res"
  host_assert_sha512 :: "byte list \<Rightarrow> byte list \<Rightarrow> unit res"
  host_assert_ripemd160 :: "byte list \<Rightarrow> byte list \<Rightarrow> unit res"

definition assert_sha256 :: "crypto_host \<Rightarrow> mem \<Rightarrow> u32 \<Rightarrow> u32 \<Rightarrow> fixed_bytes \<Rightarrow> unit res" where
  "assert_sha256 ch m data len hash =
     (let hash_data = extract_as_byte_array 32 hash in host_assert_sha256 ch (mem_read m data (unat len)) hash_data)"

definition assert_sha1 :: "crypto_host \<Rightarrow> mem \<Rightarrow> u32 \<Rightarrow> u32 \<Rightarrow> fixed_bytes \<Rightarrow> unit res" where
  "assert_sha1 ch m data len hash =
     (let hash_data = extract_as_byte_array 20 hash in host_assert_sha1 ch (mem_read m data (unat len)) hash_data)"

definition assert_sha512 :: "crypto_host \<Rightarrow> mem \<Rightarrow> u32 \<Rightarrow> u32 \<Rightarrow> fixed_bytes \<Rightarrow> unit res" where
  "assert_sha512 ch m data len hash =
     (let hash_data = extract_as_byte_array 64 hash in host_assert_sha512 ch (mem_read m data (unat len)) hash_data)"

definition assert_ripemd160 :: "crypto_host \<Rightarrow> mem \<Rightarrow> u32 \<Rightarrow> u32 \<Rightarrow> fixed_bytes \<Rightarrow> unit res" where
  "assert_ripemd160 ch m data len hash =
     (let hash_data = extract_as_byte_array 20 hash in host_assert_ripemd160 ch (mem_read m data (unat len)) hash_data)"

definition sha256 :: "crypto_host \<Rightarrow> mem \<Rightarrow> fixed_bytes \<Rightarrow> u32 \<Rightarrow> u32 \<Rightarrow> fixed_bytes res" where
  "sha256 ch m self data len = fixed_bytes_of_array self (host_sha256 ch (mem_read m data (unat len)))"

definition sha1 :: "crypto_host \<Rightarrow> mem \<Rightarrow> fixed_bytes \<Rightarrow> u32 \<Rightarrow> u32 \<Rightarrow> fixed_bytes res" where
  "sha1 ch m self data len = fixed_bytes_of_array self (host_sha1 ch (mem_read m data (unat len)))"

definition sha512 :: "crypto_host \<Rightarrow> mem \<Rightarrow> fixed_bytes \<Rightarrow> u32 \<Rightarrow> u32 \<Rightarrow> fixed_bytes res" where
  "sha512 ch m self data len = fixed_bytes_of_array self (host_sha512 ch (mem_read m data (unat len)))"

definition ripemd160 :: "crypto_host \<Rightarrow> mem \<Rightarrow> fixed_bytes \<Rightarrow> u32 \<Rightarrow> u32 \<Rightarrow> fixed_bytes res" where
  "ripemd160 ch m self data len = fixed_bytes_of_array self (host_ripemd160 ch (mem_read m data (unat len)))"

section \<open>Computing and testing agree\<close>

definition digest_laws :: "nat \<Rightarrow> (byte list \<Rightarrow> byte list) \<Rightarrow> (byte list \<Rightarrow> byte list \<Rightarrow> unit res) \<Rightarrow> bool" where
  "digest_laws n hash test \<longleftrightarrow> (\<forall>d. length (hash d) = n \<and> (\<forall>h. length h = n \<longrightarrow> (test d h = Inr () \<longleftrightarrow> h = hash d)))"

definition crypto_laws :: "crypto_host \<Rightarrow> bool" where
  "crypto_laws ch \<longleftrightarrow> digest_laws 32 (host_sha256 ch) (host_assert_sha256 ch) \<and> digest_laws 20 (host_sha1 ch) (host_assert_sha1 ch)
     \<and> digest_laws 64 (host_sha512 ch) (host_assert_sha512 ch) \<and> digest_laws 20 (host_ripemd160 ch) (host_assert_ripemd160 ch)"

lemma digest_agrees:
  assumes "digest_laws n hash test" "0 < n" "length (fb_data self) = num_words n"
  shows "\<exists>d. fixed_bytes_of_array self (hash bs) = Inr d \<and> extract_as_byte_array n d = hash bs
    \<and> (\<forall>h. fb_ok n h \<longrightarrow> test bs (extract_as_byte_array n h) = Inr () \<longleftrightarrow> h = d)"
proof -
  let ?d = "Fixed_bytes (chunks (hash bs))"
  have len: "length (hash bs) = n" using assms(1) by (simp add: digest_laws_def)
  have "test bs (extract_as_byte_array n h) = Inr () \<longleftrightarrow> h = ?d" if h: "fb_ok n h" for h
  proof -
    from h obtain arr where arr: "length arr = n" "h = Fixed_bytes (chunks arr)" by (auto simp: fb_ok_def)
    have "test bs arr = Inr () \<longleftrightarrow> arr = hash bs" using assms(1) arr(1) by (simp add: digest_laws_def)
    moreover have "arr = hash bs \<longleftrightarrow> h = ?d"
      using extract_array [OF assms(2) arr(1)] extract_array [OF assms(2) len] arr(2) by metis
    ultimately show ?thesis using extract_array [OF assms(2) arr(1)] arr(2) by simp
  qed
  moreover have "fixed_bytes_of_array self (hash bs) = Inr ?d" using len assms(3) by (intro fixed_bytes_of_array_eq) simp
  ultimately show ?thesis using extract_array [OF assms(2) len] by blast
qed

text \<open>
  Hashes and their tests. Each hash function wraps the digest of the host into a checksum
  from which the same bytes can be extracted, whatever its words held before; and the test
  function of the same algorithm accepts, of all checksums, exactly this one.
\<close>

theorem hashes_agree:
  assumes "crypto_laws ch"
    and "length (fb_data self20) = num_words 20" "length (fb_data self32) = num_words 32" "length (fb_data self64) = num_words 64"
  shows "(\<exists>d. sha256 ch m self32 data len = Inr d \<and> extract_as_byte_array 32 d = host_sha256 ch (mem_read m data (unat len))
      \<and> (\<forall>h. fb_ok 32 h \<longrightarrow> assert_sha256 ch m data len h = Inr () \<longleftrightarrow> h = d))
    \<and> (\<exists>d. sha1 ch m self20 data len = Inr d \<and> extract_as_byte_array 20 d = host_sha1 ch (mem_read m data (unat len))
      \<and> (\<forall>h. fb_ok 20 h \<longrightarrow> assert_sha1 ch m data len h = Inr () \<longleftrightarrow> h = d))
    \<and> (\<exists>d. sha512 ch m self64 data len = Inr d \<and> extract_as_byte_array 64 d = host_sha512 ch (mem_read m data (unat len))
      \<and> (\<forall>h. fb_ok 64 h \<longrightarrow> assert_sha512 ch m data len h = Inr () \<longleftrightarrow> h = d))
    \<and> (\<exists>d. ripemd160 ch m self20 data len = Inr d \<and> extract_as_byte_array 20 d = host_ripemd160 ch (mem_read m data (unat len))
      \<and> (\<forall>h. fb_ok 20 h \<longrightarrow> assert_ripemd160 ch m data len h = Inr () \<longleftrightarrow> h = d))"
proof -
  have laws: "digest_laws 32 (host_sha256 ch) (host_assert_sha256 ch)" "digest_laws 20 (host_sha1 ch) (host_assert_sha1 ch)"
    "digest_laws 64 (host_sha512 ch) (host_assert_sha512 ch)" "digest_laws 20 (host_ripemd160 ch) (host_assert_ripemd160 ch)"
    using assms(1) by (simp_all add: crypto_laws_def)
  show ?thesis
    unfolding sha256_def sha1_def sha512_def ripemd160_def assert_sha256_def assert_sha1_def assert_sha512_def assert_ripemd160_def Let_def
    by (intro conjI digest_agrees laws assms(2-4)) simp_all
qed

text \<open>A host that takes the first bytes of its input as digest.\<close>

definition prefix_host :: crypto_host where
  "prefix_host = (let hash = \<lambda>n d. take n (d @ replicate n 0); test = \<lambda>n d h. check (h = take n (d @ replicate n 0)) ''hash mismatch''
     in \<lparr>host_sha256 = hash 32, host_sha1 = hash 20, host_sha512 = hash 64, host_ripemd160 = hash 20,
         host_assert_sha256 = test 32, host_assert_sha1 = test 20, host_assert_sha512 = test 64, host_assert_ripemd160 = test 20\<rparr>)"

lemma prefix_host_laws: "crypto_laws prefix_host"
  by (auto simp: crypto_laws_def digest_laws_def prefix_host_def check_def)

theorem hashes_agree_witness:
  "\<exists>d. sha1 prefix_host (\<lambda>_. 7) (Fixed_bytes [1, 1]) 64 24 = Inr d \<and> extract_as_byte_array 20 d = replicate 20 7"
proof -
  have "host_sha1 prefix_host (mem_read (\<lambda>_. 7) 64 (unat (24 :: u32))) = replicate 20 7" by code_simp
  moreover have "length (fb_data (Fixed_bytes [1, 1])) = num_words 20" "length (fb_data (Fixed_bytes [1, 1])) = num_words 32"
    "length (fb_data (Fixed_bytes [1, 1, 1, 1])) = num_words 64" by (simp_all add: num_words_def)
  note hashes_agree [OF prefix_host_laws this, of "\<lambda>_. 7" 64 24]
  ultimately show ?thesis by auto
qed

end
