(* ===== verification/Rope.thy ===== *)
theory Rope
  imports Memory Wasm_Check
begin

text \<open>
  Ropes: \<^verbatim>\<open>libraries/wasmlib/core/rope.hpp\<close>. The nodes are allocated objects that ropes share,
  so they live in a store from addresses to nodes, with 0 as the null pointer; the characters
  are in the byte memory. \<^verbatim>\<open>new\<close> puts a node at an address the operation takes as an argument
  and never frees it, as in the source. The traversal of \<^verbatim>\<open>c_str\<close> is a loop that keeps
  its way back in the field \<^verbatim>\<open>temp\<close> of the nodes; a loop or recursion that does not end
  is the value \<open>None\<close> of a partial function.
\<close>

section \<open>Nodes\<close>

datatype rope_node =
    Concat_t (concat_left: u32) (concat_right: u32) (concat_temp: u32) (concat_temp_left: bool)
  | Str_t (str_ptr: u32) (str_size: u32) (str_temp: u32)

type_synonym nodes = "u32 \<Rightarrow> rope_node option"

record rope =
  rope_root :: u32
  rope_last :: u32
  rope_size :: u32

fun set_temp :: "u32 \<Rightarrow> rope_node \<Rightarrow> rope_node" where
  "set_temp t (Concat_t l r _ tleft) = Concat_t l r t tleft"
| "set_temp t (Str_t p n _) = Str_t p n t"

definition node_at :: "nodes \<Rightarrow> u32 \<Rightarrow> rope_node res" where
  "node_at N x = (case N x of None \<Rightarrow> Inl (Undefined ''access to a node that does not exist'') | Some n \<Rightarrow> Inr n)"

definition set_temp_at :: "nodes \<Rightarrow> u32 \<Rightarrow> u32 \<Rightarrow> nodes res" where
  "set_temp_at N x t = bindr (node_at N x) (\<lambda>n. Inr (N(x \<mapsto> set_temp t n)))"

text \<open>The private \<^verbatim>\<open>strlen\<close> counts the terminator; its counter is a 32-bit signed integer.\<close>

function rope_strlen_from :: "mem \<Rightarrow> u32 \<Rightarrow> nat \<Rightarrow> u32 res" where
  "rope_strlen_from m str i =
     (if 2147483647 \<le> i then Inl (Undefined ''signed overflow'')
      else if m (str + of_nat i) = 0 then Inr (of_nat (i + 1))
      else rope_strlen_from m str (i + 1))"
  by pat_completeness auto
termination by (relation "measure (\<lambda>(m, str, i). 2147483647 - i)") auto

declare rope_strlen_from.simps [simp del]

definition rope_strlen :: "mem \<Rightarrow> u32 \<Rightarrow> u32 res" where
  "rope_strlen m str = rope_strlen_from m str 0"

section \<open>The traversal\<close>

record walk =
  w_nodes :: nodes
  w_r :: u32
  w_down :: bool
  w_off :: u32
  w_mem :: mem

definition c_str_enter :: "walk \<Rightarrow> u32 \<Rightarrow> u32 \<Rightarrow> u32 \<Rightarrow> bool \<Rightarrow> u32 \<Rightarrow> walk res" where
  "c_str_enter st l r t tleft child =
     bindr (set_temp_at ((w_nodes st)(w_r st \<mapsto> Concat_t l r t tleft)) child (w_r st)) (\<lambda>N.
       Inr (st\<lparr>w_nodes := N, w_down := True, w_r := child\<rparr>))"

definition c_str_step :: "u32 \<Rightarrow> walk \<Rightarrow> walk res" where
  "c_str_step buffer st =
     bindr (node_at (w_nodes st) (w_r st)) (\<lambda>n.
       if w_down st then
         (case n of
            Concat_t l r t tleft \<Rightarrow>
              if l \<noteq> 0 then c_str_enter st l r t True l
              else if r \<noteq> 0 then c_str_enter st l r t False r
              else Inr (st\<lparr>w_down := False, w_r := t\<rparr>)
          | Str_t p n t \<Rightarrow>
              (let off = w_off st - n in
               Inr (st\<lparr>w_off := off, w_mem := memcpy (w_mem st) (buffer + off) p n, w_down := False, w_r := t\<rparr>)))
       else
         (case n of
            Concat_t l r t tleft \<Rightarrow>
              if tleft \<and> r \<noteq> 0 then c_str_enter st l r t False r
              else Inr (st\<lparr>w_down := False, w_r := t\<rparr>)
          | Str_t _ _ _ \<Rightarrow> Inl (Undefined ''std::get of the other alternative'')))"

partial_function (option) c_str_loop :: "u32 \<Rightarrow> walk \<Rightarrow> walk res option" where
  "c_str_loop buffer st =
     (if w_r st = 0 then Some (Inr st)
      else case c_str_step buffer st of Inl e \<Rightarrow> Some (Inl e) | Inr st' \<Rightarrow> c_str_loop buffer st')"

declare c_str_loop.simps [code]

definition rope_c_str :: "nodes \<Rightarrow> mem \<Rightarrow> u32 \<Rightarrow> rope \<Rightarrow> (nodes \<times> mem) res" where
  "rope_c_str N m ret rp =
     bindr (if rope_root rp \<noteq> 0
            then bindr (set_temp_at N (rope_root rp) 0) (\<lambda>N.
              case c_str_loop ret \<lparr>w_nodes = N, w_r = rope_root rp, w_down = True, w_off = rope_size rp, w_mem = m\<rparr> of
                None \<Rightarrow> Inl (Undefined ''loop that does not end'')
              | Some q \<Rightarrow> bindr q (\<lambda>st. Inr (w_nodes st, w_mem st)))
            else Inr (N, m)) (\<lambda>(N, m). Inr (N, m(ret + rope_size rp := 0)))"

definition rope_sv :: "nodes \<Rightarrow> mem \<Rightarrow> u32 \<Rightarrow> rope \<Rightarrow> (nodes \<times> mem \<times> u32 \<times> u32) res" where
  "rope_sv N m ret rp = bindr (rope_c_str N m ret rp) (\<lambda>(N, m). Inr (N, m, ret, rope_size rp))"

section \<open>Construction, concatenation and access\<close>

definition rope_of_cstr :: "nodes \<Rightarrow> mem \<Rightarrow> u32 \<Rightarrow> u32 \<Rightarrow> u32 \<Rightarrow> (nodes \<times> rope) res" where
  "rope_of_cstr N m a1 a2 s =
     bindr (rope_strlen m s) (\<lambda>n.
       Inr (N(a1 \<mapsto> Str_t s (n - 1) 0, a2 \<mapsto> Concat_t a1 0 0 False), \<lparr>rope_root = a2, rope_last = a2, rope_size = 0 + (n - 1)\<rparr>))"

definition rope_of_view :: "nodes \<Rightarrow> u32 \<Rightarrow> u32 \<Rightarrow> u32 \<Rightarrow> u32 \<Rightarrow> nodes \<times> rope" where
  "rope_of_view N a1 a2 s n =
     (N(a1 \<mapsto> Str_t s n 0, a2 \<mapsto> Concat_t a1 0 0 False), \<lparr>rope_root = a2, rope_last = 0, rope_size = 0 + n\<rparr>)"

definition append_node :: "nodes \<Rightarrow> u32 \<Rightarrow> rope \<Rightarrow> u32 \<Rightarrow> bool \<Rightarrow> (nodes \<times> rope) res" where
  "append_node N a self rn use_left =
     bindr (if rn = 0 then Inr None else mapr Some (node_at N rn)) (\<lambda>cc.
       case cc of
         Some (Concat_t l r t tleft) \<Rightarrow>
           if use_left then Inr (N(a \<mapsto> Concat_t rn (rope_root self) 0 False), self\<lparr>rope_root := a\<rparr>)
           else Inr (N(rn \<mapsto> Concat_t l (rope_root self) t tleft), self\<lparr>rope_root := rn\<rparr>)
       | _ \<Rightarrow> Inl (Assert ''append should only allow concat nodes''))"

definition append_chars :: "nodes \<Rightarrow> u32 \<Rightarrow> u32 \<Rightarrow> rope \<Rightarrow> u32 \<Rightarrow> u32 \<Rightarrow> (nodes \<times> rope) res" where
  "append_chars N a1 a2 self s len =
     bindr (append_node (N(a1 \<mapsto> Str_t s len 0, a2 \<mapsto> Concat_t a1 0 0 False)) 0 self a2 False) (\<lambda>(N, self).
       Inr (N, self\<lparr>rope_size := rope_size self + len\<rparr>))"

text \<open>Of a character array of \<open>len\<close> elements, the terminator of a literal included.\<close>

definition append_array :: "nodes \<Rightarrow> u32 \<Rightarrow> u32 \<Rightarrow> rope \<Rightarrow> u32 \<Rightarrow> u32 \<Rightarrow> (nodes \<times> rope) res" where
  "append_array N a1 a2 self s len = append_chars N a1 a2 self s len"

definition append_cstr :: "nodes \<Rightarrow> mem \<Rightarrow> u32 \<Rightarrow> u32 \<Rightarrow> rope \<Rightarrow> u32 \<Rightarrow> (nodes \<times> rope) res" where
  "append_cstr N m a1 a2 self s = bindr (rope_strlen m s) (\<lambda>n. append_chars N a1 a2 self s (n - 1))"

definition append_rope :: "nodes \<Rightarrow> u32 \<Rightarrow> rope \<Rightarrow> rope \<Rightarrow> (nodes \<times> rope) res" where
  "append_rope N a self r =
     bindr (append_node N a self (rope_root r) True) (\<lambda>(N, self).
       Inr (N, self\<lparr>rope_size := rope_size self + rope_size r\<rparr>))"

definition rope_length :: "rope \<Rightarrow> u32" where
  "rope_length self = rope_size self"

text \<open>The recursion behind \<^verbatim>\<open>at\<close>; its state is the character, the offset and the flag \<^verbatim>\<open>stop\<close>.\<close>

partial_function (option) at_node :: "nodes \<Rightarrow> mem \<Rightarrow> u32 \<Rightarrow> u32 \<Rightarrow> byte \<times> u32 \<times> bool \<Rightarrow> (byte \<times> u32 \<times> bool) res option" where
  "at_node N m index rn st =
     (if rn = 0 then Some (Inr st)
      else case node_at N rn of
        Inl e \<Rightarrow> Some (Inl e)
      | Inr n \<Rightarrow>
        (case n of
           Concat_t l r t tleft \<Rightarrow>
             if snd (snd st) then Some (Inr st)
             else Option.bind (if l \<noteq> 0 then at_node N m index l st else Some (Inr st)) (\<lambda>q.
               case q of Inl e \<Rightarrow> Some (Inl e)
               | Inr st \<Rightarrow> if r \<noteq> 0 then at_node N m index r st else Some (Inr st))
         | Str_t p n t \<Rightarrow>
             (case st of (ret, index_so_far, stop) \<Rightarrow>
                let index_so_far = index_so_far - n in
                if index \<ge> index_so_far
                then Some (Inr (m (p + (index - index_so_far)), index_so_far, True))
                else Some (Inr (ret, index_so_far, stop)))))"

declare at_node.simps [code]

definition rope_at :: "nodes \<Rightarrow> mem \<Rightarrow> rope \<Rightarrow> u32 \<Rightarrow> byte res" where
  "rope_at N m self index =
     (case at_node N m index (rope_root self) (0, rope_size self, False) of
        None \<Rightarrow> Inl (Undefined ''recursion that does not end'')
      | Some q \<Rightarrow> bindr q (\<lambda>(ret, _). Inr ret))"

section \<open>Ropes as trees\<close>

text \<open>
  What a pointer reaches, unfolded into a tree whose nodes carry their addresses; a node that
  is shared occurs several times. The fields of the traversal do not matter for it.
\<close>

datatype rtree = Null | Leaf u32 u32 u32 | Cat u32 rtree rtree

fun erase :: "rope_node \<Rightarrow> rope_node" where
  "erase (Concat_t l r _ _) = Concat_t l r 0 False"
| "erase (Str_t p n _) = Str_t p n 0"

definition shape :: "nodes \<Rightarrow> nodes" where
  "shape N = map_option erase \<circ> N"

fun addr :: "rtree \<Rightarrow> u32" where
  "addr Null = 0"
| "addr (Leaf a _ _) = a"
| "addr (Cat a _ _) = a"

fun addrs :: "rtree \<Rightarrow> u32 set" where
  "addrs Null = {}"
| "addrs (Leaf a _ _) = {a}"
| "addrs (Cat a l r) = insert a (addrs l \<union> addrs r)"

fun repr :: "nodes \<Rightarrow> rtree \<Rightarrow> bool" where
  "repr S Null = True"
| "repr S (Leaf a p n) = (a \<noteq> 0 \<and> S a = Some (Str_t p n 0))"
| "repr S (Cat a l r) = (a \<noteq> 0 \<and> S a = Some (Concat_t (addr l) (addr r) 0 False) \<and> repr S l \<and> repr S r)"

fun rtext :: "mem \<Rightarrow> rtree \<Rightarrow> byte list" where
  "rtext m Null = []"
| "rtext m (Leaf _ p n) = mem_read m p (unat n)"
| "rtext m (Cat _ l r) = rtext m r @ rtext m l"

text \<open>The characters lie below the address \<open>lim\<close>.\<close>

fun below :: "nat \<Rightarrow> rtree \<Rightarrow> bool" where
  "below lim Null = True"
| "below lim (Leaf _ p n) = (unat p + unat n \<le> lim)"
| "below lim (Cat _ l r) = (below lim l \<and> below lim r)"

lemma addr_eq_0 [simp]: "repr S t \<Longrightarrow> addr t = 0 \<longleftrightarrow> t = Null"
  by (cases t) auto

lemma addr_in_addrs: "t \<noteq> Null \<Longrightarrow> addr t \<in> addrs t"
  by (cases t) auto

lemma addrs_dom: "repr S t \<Longrightarrow> x \<in> addrs t \<Longrightarrow> x \<noteq> 0 \<and> x \<in> dom S"
  by (induction t) auto

lemma repr_unique: "repr S t \<Longrightarrow> repr S t' \<Longrightarrow> addr t = addr t' \<Longrightarrow> t = t'"
proof (induction t arbitrary: t')
  case Null
  then show ?case using addr_eq_0 by fastforce
next
  case (Leaf a p n)
  then show ?case by (cases t') auto
next
  case (Cat a l r)
  then show ?case by (cases t') auto
qed

lemma subtree_at: "repr S t \<Longrightarrow> x \<in> addrs t \<Longrightarrow> \<exists>u. repr S u \<and> addr u = x \<and> size u \<le> size t"
proof (induction t)
  case (Leaf a p n)
  then show ?case by (intro exI [of _ "Leaf a p n"]) auto
next
  case (Cat a l r)
  then consider "x = a" | "x \<in> addrs l" | "x \<in> addrs r" by auto
  then show ?case
  proof cases
    case 1
    then show ?thesis using Cat.prems by (intro exI [of _ "Cat a l r"]) auto
  next
    case 2
    then obtain u where "repr S u" "addr u = x" "size u \<le> size l" using Cat.IH(1) Cat.prems(1) by auto
    then show ?thesis by (intro exI [of _ u]) auto
  next
    case 3
    then obtain u where "repr S u" "addr u = x" "size u \<le> size r" using Cat.IH(2) Cat.prems(1) by auto
    then show ?thesis by (intro exI [of _ u]) auto
  qed
qed simp

text \<open>A node is not among those below it: the unfolding is finite.\<close>

lemma repr_acyclic:
  assumes "repr S (Cat a l r)"
  shows "a \<notin> addrs l" "a \<notin> addrs r"
proof -
  have "\<not> size u < size (Cat a l r)" if "repr S u" "addr u = a" for u
    using repr_unique [OF assms that(1)] that(2) by auto
  moreover have "size l < size (Cat a l r)" "size r < size (Cat a l r)" by simp_all
  ultimately show "a \<notin> addrs l" "a \<notin> addrs r"
    using subtree_at [of S l a] subtree_at [of S r a] assms by (meson le_less_trans repr.simps(3))+
qed

section \<open>The traversal writes the text\<close>

definition written :: "mem \<Rightarrow> mem \<Rightarrow> u32 \<Rightarrow> nat \<Rightarrow> nat \<Rightarrow> byte list \<Rightarrow> bool" where
  "written m m' b o1 o2 s \<longleftrightarrow> o1 + length s = o2 \<and> mem_read m' (b + of_nat o1) (length s) = s
     \<and> (\<forall>x. \<not> (unat b + o1 \<le> unat x \<and> unat x < unat b + o2) \<longrightarrow> m' x = m x)"

lemma written_Nil: "written m m b o1 o1 []"
  by (simp add: written_def)

lemma written_below: "written m m' b o1 o2 s \<Longrightarrow> unat x < unat b \<Longrightarrow> m' x = m x"
  unfolding written_def by (meson le_add1 le_less_trans not_le)

lemma unat_add_of_nat: "unat (b :: u32) + i < 2 ^ 32 \<Longrightarrow> unat (b + of_nat i) = unat b + i"
  by (subst unat_add_lem [THEN iffD1]) (simp_all add: unat_of_nat_u32)

lemma written_trans:
  assumes "written m m1 b o1 o2 s1" "written m1 m2 b o0 o1 s0" "unat b + o2 \<le> 2 ^ 32"
  shows "written m m2 b o0 o2 (s0 @ s1)"
proof -
  have o: "o0 + length s0 = o1" "o1 + length s1 = o2" using assms(1,2) by (simp_all add: written_def)
  have "mem_read m2 (b + of_nat o1) (length s1) = mem_read m1 (b + of_nat o1) (length s1)"
  proof (rule mem_read_cong)
    fix i
    assume i: "i < length s1"
    then have "unat (b + of_nat o1 + of_nat i) = unat b + (o1 + i)"
      using unat_add_of_nat [of b "o1 + i"] assms(3) o by (simp add: add.assoc)
    then show "m2 (b + of_nat o1 + of_nat i) = m1 (b + of_nat o1 + of_nat i)"
      using assms(2) o by (simp add: written_def)
  qed
  then have "mem_read m2 (b + of_nat o1) (length s1) = s1" using assms(1) by (simp add: written_def)
  moreover have "b + of_nat o0 + of_nat (length s0) = b + of_nat o1" using o(1) by (simp add: add.assoc flip: of_nat_add)
  then have "mem_read m2 (b + of_nat o0) (length s0 + length s1) =
      mem_read m2 (b + of_nat o0) (length s0) @ mem_read m2 (b + of_nat o1) (length s1)"
    by (simp only: mem_read_append)
  ultimately have "mem_read m2 (b + of_nat o0) (length (s0 @ s1)) = s0 @ s1"
    using assms(2) by (simp add: written_def)
  moreover have "m2 x = m x" if "\<not> (unat b + o0 \<le> unat x \<and> unat x < unat b + o2)" for x
  proof -
    have "\<not> (unat b + o0 \<le> unat x \<and> unat x < unat b + o1)" "\<not> (unat b + o1 \<le> unat x \<and> unat x < unat b + o2)"
      using that o by linarith+
    then have "m2 x = m1 x" "m1 x = m x" using assms(1,2) by (simp_all add: written_def)
    note this(1)
    also note \<open>m1 x = m x\<close>
    finally show ?thesis .
  qed
  ultimately show ?thesis using o by (simp add: written_def)
qed

lemma power_2_32: "(2 :: nat) ^ 32 = 4294967296"
  by simp

lemma written_memcpy:
  assumes "unat p + unat n \<le> lim" "lim \<le> unat b" "unat b + (k + unat n) \<le> 2 ^ 32" "\<And>x. unat x < lim \<Longrightarrow> m x = m0 x"
  shows "written m (memcpy m (b + of_nat k) p n) b k (k + unat n) (mem_read m0 p (unat n))"
proof -
  have at: "unat (b + of_nat k + of_nat i) = unat b + (k + i)" if "i < unat n" for i
    using unat_add_of_nat [of b "k + i"] that assms(3) by (simp add: add.assoc)
  have src: "unat (p + of_nat i) = unat p + i" if "i < unat n" for i
  proof (rule unat_add_of_nat)
    show "unat p + i < 2 ^ 32" using that assms(1,2) unat_u32_less [of b] unfolding power_2_32 by linarith
  qed
  have "b + of_nat k + of_nat i \<noteq> p + of_nat j" if "i < unat n" "j < unat n" for i j
    using at [OF that(1)] src [OF that(2)] that assms(1,2) by (intro notI) simp
  then have "memcpy m (b + of_nat k) p n = mem_write m (b + of_nat k) (mem_read m p (unat n))"
    by (intro memcpy_eq_write) (simp add: blocks_disjoint_def)
  moreover have "mem_read m p (unat n) = mem_read m0 p (unat n)"
    using src assms(1,4) by (intro mem_read_cong) simp
  moreover have "unat n \<le> 2 ^ 32" using unat_u32_less [of n] unfolding power_2_32 by linarith
  moreover have "mem_write m (b + of_nat k) (mem_read m0 p (unat n)) x = m x"
    if "\<not> (unat b + k \<le> unat x \<and> unat x < unat b + (k + unat n))" for x
    using that at by (intro mem_write_outside) auto
  ultimately show ?thesis using mem_read_write [of "mem_read m0 p (unat n)"] by (simp add: written_def)
qed

text \<open>Setting the fields of the traversal keeps the shape.\<close>

lemma enter_child:
  assumes "N a = Some (Concat_t l r t f)" "c \<noteq> a" "N c = Some n"
  shows "\<exists>N'. set_temp_at (N(a \<mapsto> Concat_t l r t g)) c a = Inr N' \<and> shape N' = shape N \<and> N' a = Some (Concat_t l r t g)
    \<and> N' c = Some (set_temp a n) \<and> (\<forall>x. x \<notin> {a, c} \<longrightarrow> N' x = N x)"
proof (intro exI conjI)
  let ?N = "(N(a \<mapsto> Concat_t l r t g))(c \<mapsto> set_temp a n)"
  show "set_temp_at (N(a \<mapsto> Concat_t l r t g)) c a = Inr ?N" using assms by (simp add: set_temp_at_def node_at_def)
  have "erase (set_temp a n) = erase n" by (cases n) auto
  then show "shape ?N = shape N" using assms by (simp add: shape_def fun_eq_iff)
qed (use assms in auto)

fun node_temp :: "rope_node \<Rightarrow> u32" where
  "node_temp (Concat_t _ _ t _) = t"
| "node_temp (Str_t _ _ t) = t"

lemma node_temp_set [simp]: "node_temp (set_temp t n) = t"
  by (cases n) auto

lemma shape_StrD: "shape N a = Some (Str_t p n 0) \<Longrightarrow> N a = Some x \<Longrightarrow> x = Str_t p n (node_temp x)"
  by (cases x) (auto simp: shape_def)

lemma shape_ConcatD: "shape N a = Some (Concat_t l r 0 False) \<Longrightarrow> N a = Some x \<Longrightarrow> \<exists>f. x = Concat_t l r (node_temp x) f"
  by (cases x) (auto simp: shape_def)

lemma shape_Some: "shape N a = Some y \<Longrightarrow> \<exists>x. N a = Some x"
  by (auto simp: shape_def)

text \<open>
  From a node whose field holds its parent, going down, the loop comes back to the parent with
  the text below the node written in front of what was written before; it has touched no node
  but those below, and only the fields of the traversal.
\<close>

definition walk_at :: "nodes \<Rightarrow> u32 \<Rightarrow> bool \<Rightarrow> nat \<Rightarrow> mem \<Rightarrow> walk" where
  "walk_at N x down k m = \<lparr>w_nodes = N, w_r = x, w_down = down, w_off = of_nat k, w_mem = m\<rparr>"

definition walked :: "u32 \<Rightarrow> mem \<Rightarrow> rtree \<Rightarrow> nodes \<Rightarrow> u32 \<Rightarrow> bool \<Rightarrow> nat \<Rightarrow> mem \<Rightarrow> nodes \<Rightarrow> u32 \<Rightarrow> nat \<Rightarrow> mem \<Rightarrow> bool" where
  "walked b m0 t N x down k m N' y k' m' \<longleftrightarrow>
     c_str_loop b (walk_at N x down k m) = c_str_loop b (walk_at N' y False k' m')
     \<and> shape N' = shape N \<and> (\<forall>z. z \<notin> addrs t \<longrightarrow> N' z = N z) \<and> written m m' b k' k (rtext m0 t)"

lemma loop_step: "x \<noteq> 0 \<Longrightarrow> c_str_step b (walk_at N x down k m) = Inr st \<Longrightarrow> c_str_loop b (walk_at N x down k m) = c_str_loop b st"
  by (subst c_str_loop.simps) (simp add: walk_at_def)

lemma step_up:
  assumes "N a = Some (Concat_t l r p f)" "\<not> (f \<and> r \<noteq> 0)" "a \<noteq> 0"
  shows "c_str_loop b (walk_at N a False k m) = c_str_loop b (walk_at N p False k m)"
  using assms by (intro loop_step) (auto simp: c_str_step_def node_at_def walk_at_def)

lemma step_right:
  assumes "N a = Some (Concat_t l r p True)" "r \<noteq> 0" "a \<noteq> 0" "set_temp_at (N(a \<mapsto> Concat_t l r p False)) r a = Inr N'"
  shows "c_str_loop b (walk_at N a False k m) = c_str_loop b (walk_at N' r True k m)"
  using assms by (intro loop_step) (simp_all add: c_str_step_def c_str_enter_def node_at_def walk_at_def)

lemma step_down_left:
  assumes "N a = Some (Concat_t l r p f)" "l \<noteq> 0" "a \<noteq> 0" "set_temp_at (N(a \<mapsto> Concat_t l r p True)) l a = Inr N'"
  shows "c_str_loop b (walk_at N a True k m) = c_str_loop b (walk_at N' l True k m)"
  using assms by (intro loop_step) (simp_all add: c_str_step_def c_str_enter_def node_at_def walk_at_def)

lemma step_down_right:
  assumes "N a = Some (Concat_t 0 r p f)" "r \<noteq> 0" "a \<noteq> 0" "set_temp_at (N(a \<mapsto> Concat_t 0 r p False)) r a = Inr N'"
  shows "c_str_loop b (walk_at N a True k m) = c_str_loop b (walk_at N' r True k m)"
  using assms by (intro loop_step) (simp_all add: c_str_step_def c_str_enter_def node_at_def walk_at_def)

lemma step_down_none:
  assumes "N a = Some (Concat_t 0 0 p f)" "a \<noteq> 0"
  shows "c_str_loop b (walk_at N a True k m) = c_str_loop b (walk_at N p False k m)"
  using assms by (intro loop_step) (simp_all add: c_str_step_def node_at_def walk_at_def)

lemma step_leaf:
  assumes "N a = Some (Str_t p n t)" "a \<noteq> 0"
  shows "c_str_loop b (walk_at N a True (k + unat n) m) = c_str_loop b (walk_at N t False k (memcpy m (b + of_nat k) p n))"
  using assms by (intro loop_step) (simp_all add: c_str_step_def node_at_def walk_at_def Let_def)

lemma walk_tree:
  assumes "repr (shape N) t" "t \<noteq> Null" "N (addr t) = Some n" "below lim t" "lim \<le> unat b"
    and "unat b + k \<le> 2 ^ 32" "length (rtext m0 t) \<le> k" "\<And>x. unat x < lim \<Longrightarrow> m x = m0 x"
  shows "\<exists>N' m'. walked b m0 t N (addr t) True k m N' (node_temp n) (k - length (rtext m0 t)) m'"
  using assms
proof (induction t arbitrary: N n k m)
  case Null
  then show ?case by simp
next
  case (Leaf a p sz)
  define j where "j = k - unat sz"
  have k: "k = j + unat sz" using Leaf.prems(7) by (simp add: j_def)
  have n: "N a = Some (Str_t p sz (node_temp n))" using Leaf.prems(1,3) shape_StrD by fastforce
  have "a \<noteq> 0" using Leaf.prems(1) by simp
  have "written m (memcpy m (b + of_nat j) p sz) b j (j + unat sz) (mem_read m0 p (unat sz))"
    using Leaf.prems(4-6,8) k by (intro written_memcpy) auto
  then show ?case
    using step_leaf [of N a p sz "node_temp n" b j m] n \<open>a \<noteq> 0\<close> k by (auto simp: walked_def intro!: exI)
next
  case (Cat a l r)
  let ?p = "node_temp n" and ?ll = "length (rtext m0 l)" and ?lr = "length (rtext m0 r)"
  have a: "a \<noteq> 0" "repr (shape N) l" "repr (shape N) r" "a \<notin> addrs l" "a \<notin> addrs r"
    using Cat.prems(1) repr_acyclic [OF Cat.prems(1)] by auto
  obtain f where n: "N a = Some (Concat_t (addr l) (addr r) ?p f)" using Cat.prems(1,3) shape_ConcatD by fastforce
  have visit: "\<exists>N1 N' m'. set_temp_at (N0(a \<mapsto> Concat_t (addr l) (addr r) ?p g)) (addr c) a = Inr N1
      \<and> c_str_loop b (walk_at N1 (addr c) True j m1) = c_str_loop b (walk_at N' a False (j - length (rtext m0 c)) m')
      \<and> shape N' = shape N \<and> N' a = Some (Concat_t (addr l) (addr r) ?p g)
      \<and> (\<forall>z. z \<notin> insert a (addrs c) \<longrightarrow> N' z = N0 z) \<and> written m1 m' b (j - length (rtext m0 c)) j (rtext m0 c)"
    if c: "c \<in> {l, r}" "c \<noteq> Null" and N0: "shape N0 = shape N" "N0 a = Some (Concat_t (addr l) (addr r) ?p f0)"
      and j: "unat b + j \<le> 2 ^ 32" "length (rtext m0 c) \<le> j" and m1: "\<And>x. unat x < lim \<Longrightarrow> m1 x = m0 x" for c g f0 j m1 N0
  proof -
    have rc: "repr (shape N) c" "a \<notin> addrs c" "below lim c" using c(1) a Cat.prems(4) by auto
    then have ca: "addr c \<noteq> a" "addr c \<in> addrs c" using addr_in_addrs [OF c(2)] by auto
    have "shape N0 (addr c) \<noteq> None" using addrs_dom [OF rc(1) ca(2)] N0(1) by auto
    then obtain nc where nc: "N0 (addr c) = Some nc" using shape_Some by fastforce
    obtain N1 where N1: "set_temp_at (N0(a \<mapsto> Concat_t (addr l) (addr r) ?p g)) (addr c) a = Inr N1" "shape N1 = shape N0"
        "N1 a = Some (Concat_t (addr l) (addr r) ?p g)" "N1 (addr c) = Some (set_temp a nc)" "\<And>x. x \<notin> {a, addr c} \<Longrightarrow> N1 x = N0 x"
      using enter_child [of N0 a "addr l" "addr r" ?p f0 "addr c" nc g] N0(2) ca(1) nc by blast
    have "\<exists>N' m'. walked b m0 c N1 (addr c) True j m1 N' (node_temp (set_temp a nc)) (j - length (rtext m0 c)) m'"
    proof (cases "c = l")
      case True
      show ?thesis
        unfolding True by (rule Cat.IH(1)) (use True rc c(2) N1(2,4) N0(1) j m1 Cat.prems(5) in auto)
    next
      case False
      then have r: "c = r" using c(1) by simp
      show ?thesis
        unfolding r by (rule Cat.IH(2)) (use r rc c(2) N1(2,4) N0(1) j m1 Cat.prems(5) in auto)
    qed
    then obtain N' m' where "walked b m0 c N1 (addr c) True j m1 N' a (j - length (rtext m0 c)) m'" by auto
    then show ?thesis
      using N1 N0(1) rc(2) ca(2) by (intro exI [of _ N1] exI [of _ N'] exI [of _ m']) (auto simp: walked_def)
  qed
  have len: "length (rtext m0 (Cat a l r)) = ?ll + ?lr" by simp
  have room: "?ll \<le> k" "?lr \<le> k - ?ll" "unat b + (k - ?ll) \<le> 2 ^ 32" using Cat.prems(6,7) len by simp_all
  show ?case
  proof (cases "l = Null")
    case True
    show ?thesis
    proof (cases "r = Null")
      case True
      then show ?thesis
        using \<open>l = Null\<close> n a(1) step_down_none [of N a ?p f b k m] by (auto simp: walked_def written_Nil intro!: exI)
    next
      case False
      have r0: "addr r \<noteq> 0" using False a(3) by simp
      obtain N1 N' m' where v: "set_temp_at (N(a \<mapsto> Concat_t (addr l) (addr r) ?p False)) (addr r) a = Inr N1"
          "c_str_loop b (walk_at N1 (addr r) True k m) = c_str_loop b (walk_at N' a False (k - ?lr) m')"
          "shape N' = shape N" "N' a = Some (Concat_t (addr l) (addr r) ?p False)" "\<forall>z. z \<notin> insert a (addrs r) \<longrightarrow> N' z = N z"
          "written m m' b (k - ?lr) k (rtext m0 r)"
        using visit [of r N f k m False] False n Cat.prems(6,8) room True by auto
      have "c_str_loop b (walk_at N a True k m) = c_str_loop b (walk_at N1 (addr r) True k m)"
        using n r0 a(1) v(1) True by (intro step_down_right) simp_all
      also note v(2)
      also have "c_str_loop b (walk_at N' a False (k - ?lr) m') = c_str_loop b (walk_at N' ?p False (k - ?lr) m')"
        using step_up [of N' a "addr l" "addr r" ?p False b "k - ?lr" m'] v(4) a(1) by simp
      finally show ?thesis using v True by (auto simp: walked_def intro!: exI)
    qed
  next
    case False
    have l0: "addr l \<noteq> 0" using False a(2) by simp
    obtain N1 N2 m2 where v: "set_temp_at (N(a \<mapsto> Concat_t (addr l) (addr r) ?p True)) (addr l) a = Inr N1"
        "c_str_loop b (walk_at N1 (addr l) True k m) = c_str_loop b (walk_at N2 a False (k - ?ll) m2)"
        "shape N2 = shape N" "N2 a = Some (Concat_t (addr l) (addr r) ?p True)" "\<forall>z. z \<notin> insert a (addrs l) \<longrightarrow> N2 z = N z"
        "written m m2 b (k - ?ll) k (rtext m0 l)"
      using visit [of l N f k m True] False n Cat.prems(6,8) room by auto
    have down: "c_str_loop b (walk_at N a True k m) = c_str_loop b (walk_at N2 a False (k - ?ll) m2)"
      using step_down_left [of N a "addr l" "addr r" ?p f N1 b k m] n l0 a(1) v(1,2) by simp
    show ?thesis
    proof (cases "r = Null")
      case True
      have "c_str_loop b (walk_at N2 a False (k - ?ll) m2) = c_str_loop b (walk_at N2 ?p False (k - ?ll) m2)"
        using step_up [of N2 a "addr l" "addr r" ?p True b "k - ?ll" m2] v(4) a(1) True by simp
      then show ?thesis using v down True by (auto simp: walked_def intro!: exI)
    next
      case False
      have r0: "addr r \<noteq> 0" using False a(3) by simp
      have "m2 x = m0 x" if "unat x < lim" for x
        using written_below [OF v(6), of x] that Cat.prems(5) Cat.prems(8) [of x] by simp
      then obtain N3 N' m' where w: "set_temp_at (N2(a \<mapsto> Concat_t (addr l) (addr r) ?p False)) (addr r) a = Inr N3"
          "c_str_loop b (walk_at N3 (addr r) True (k - ?ll) m2) = c_str_loop b (walk_at N' a False (k - ?ll - ?lr) m')"
          "shape N' = shape N" "N' a = Some (Concat_t (addr l) (addr r) ?p False)" "\<forall>z. z \<notin> insert a (addrs r) \<longrightarrow> N' z = N2 z"
          "written m2 m' b (k - ?ll - ?lr) (k - ?ll) (rtext m0 r)"
        using visit [of r N2 True "k - ?ll" m2 False] False v(3,4) room by auto
      note down
      also have "c_str_loop b (walk_at N2 a False (k - ?ll) m2) = c_str_loop b (walk_at N3 (addr r) True (k - ?ll) m2)"
        using v(4) r0 a(1) w(1) by (intro step_right)
      also note w(2)
      also have "c_str_loop b (walk_at N' a False (k - ?ll - ?lr) m') = c_str_loop b (walk_at N' ?p False (k - ?ll - ?lr) m')"
        using step_up [of N' a "addr l" "addr r" ?p False b "k - ?ll - ?lr" m'] w(4) a(1) by simp
      finally show ?thesis
        using v(5) w(3,5) written_trans [OF v(6) w(6) Cat.prems(6)]
        by (intro exI [of _ N'] exI [of _ m']) (auto simp: walked_def add.commute)
    qed
  qed
qed

section \<open>Reading a character\<close>

text \<open>The recursion looks at the flag \<^verbatim>\<open>stop\<close> only in concatenations, so the right child must not be a string.\<close>

fun spine :: "rtree \<Rightarrow> bool" where
  "spine Null = True"
| "spine (Leaf _ _ _) = True"
| "spine (Cat _ l r) = (spine l \<and> spine r \<and> (\<forall>a p n. r \<noteq> Leaf a p n))"

lemma node_at_shape: "shape N a = Some (Concat_t l r 0 False) \<Longrightarrow> \<exists>t f. node_at N a = Inr (Concat_t l r t f)"
  "shape N a = Some (Str_t p n 0) \<Longrightarrow> \<exists>t. node_at N a = Inr (Str_t p n t)"
proof -
  show "\<exists>t f. node_at N a = Inr (Concat_t l r t f)" if sh: "shape N a = Some (Concat_t l r 0 False)"
  proof -
    obtain x where x: "N a = Some x" using shape_Some [OF sh] by blast
    then show ?thesis using shape_ConcatD [OF sh x] by (auto simp: node_at_def)
  qed
  show "\<exists>t. node_at N a = Inr (Str_t p n t)" if sh: "shape N a = Some (Str_t p n 0)"
  proof -
    obtain x where x: "N a = Some x" using shape_Some [OF sh] by blast
    have "node_at N a = Inr (Str_t p n (node_temp x))" using x shape_StrD [OF sh x] by (simp add: node_at_def)
    then show ?thesis ..
  qed
qed

lemma at_stopped:
  assumes "repr (shape N) t" "\<forall>a p n. t \<noteq> Leaf a p n"
  shows "at_node N m i (addr t) (c, k, True) = Some (Inr (c, k, True))"
proof (cases t)
  case (Cat a l r)
  then have S: "shape N a = Some (Concat_t (addr l) (addr r) 0 False)" "a \<noteq> 0" using assms(1) by auto
  from node_at_shape(1) [OF S(1)] obtain tt f where "node_at N a = Inr (Concat_t (addr l) (addr r) tt f)" by blast
  then show ?thesis using Cat S(2) by (subst at_node.simps) simp
qed (use assms in \<open>auto simp: at_node.simps\<close>)

lemma at_tree:
  assumes "repr (shape N) t" "spine t" "k < 2 ^ 32" "length (rtext m t) \<le> k" "i < k"
  shows "if i < k - length (rtext m t)
    then at_node N m (of_nat i) (addr t) (c, of_nat k, False) = Some (Inr (c, of_nat (k - length (rtext m t)), False))
    else \<exists>j. at_node N m (of_nat i) (addr t) (c, of_nat k, False) = Some (Inr (rtext m t ! (i - (k - length (rtext m t))), j, True))"
  using assms
proof (induction t arbitrary: k)
  case Null
  then show ?case by (simp add: at_node.simps)
next
  case (Leaf a p n)
  then have S: "shape N a = Some (Str_t p n 0)" "a \<noteq> 0" by auto
  from node_at_shape(2) [OF S(1)] obtain tt where nd: "node_at N a = Inr (Str_t p n tt)" by blast
  define j where "j = k - unat n"
  have k: "k = j + unat n" "j < 2 ^ 32" "i < 2 ^ 32" using Leaf.prems(3-5) by (simp_all add: j_def)
  have off: "of_nat k - n = (of_nat j :: u32)" using k by simp
  have le: "(of_nat j :: u32) \<le> of_nat i \<longleftrightarrow> j \<le> i" using k by (simp add: word_le_nat_alt unat_of_nat_u32)
  have "m (p + (of_nat i - of_nat j)) = mem_read m p (unat n) ! (i - j)" if "j \<le> i"
    using that k Leaf.prems(5) by (simp add: of_nat_diff)
  then show ?case using S(2) nd off le k by (subst at_node.simps, subst at_node.simps) (auto simp: Let_def)
next
  case (Cat a l r)
  let ?ll = "length (rtext m l)" and ?lr = "length (rtext m r)"
  have S: "shape N a = Some (Concat_t (addr l) (addr r) 0 False)" "a \<noteq> 0" "repr (shape N) l" "repr (shape N) r"
    and sp: "spine l" "spine r" "\<forall>a p n. r \<noteq> Leaf a p n" using Cat.prems(1,2) by auto
  from node_at_shape(1) [OF S(1)] obtain tt f where nd: "node_at N a = Inr (Concat_t (addr l) (addr r) tt f)" by blast
  have none: "at_node N m (of_nat i) 0 = (\<lambda>st. Some (Inr st))" by (rule ext) (subst at_node.simps, simp)
  have step: "at_node N m (of_nat i) a (c, of_nat k, False) = Option.bind (at_node N m (of_nat i) (addr l) (c, of_nat k, False))
      (\<lambda>q. case q of Inl e \<Rightarrow> Some (Inl e) | Inr st \<Rightarrow> at_node N m (of_nat i) (addr r) st)"
    using S(2) nd none by (subst at_node.simps) auto
  have len: "?ll \<le> k" "?lr \<le> k - ?ll" "k - ?ll - ?lr = k - (?lr + ?ll)" using Cat.prems(4) by auto
  show ?case
  proof (cases "i < k - ?ll")
    case True
    then have left: "at_node N m (of_nat i) (addr l) (c, of_nat k, False) = Some (Inr (c, of_nat (k - ?ll), False))"
      using Cat.IH(1) [OF S(3) sp(1) Cat.prems(3) len(1) Cat.prems(5)] by simp
    have nth: "(rtext m r @ rtext m l) ! (i - (k - (?lr + ?ll))) = rtext m r ! (i - (k - (?lr + ?ll)))"
      if "\<not> i < k - (?lr + ?ll)"
      using True len that by (intro nth_append_left) linarith
    have "k - ?ll < 2 ^ 32" using Cat.prems(3) by simp
    from Cat.IH(2) [OF S(4) sp(2) this len(2) True] show ?thesis
      unfolding rtext.simps length_append addr.simps step left len(3)
      by (cases "i < k - (?lr + ?ll)") (simp_all add: nth)
  next
    case False
    then obtain j where left: "at_node N m (of_nat i) (addr l) (c, of_nat k, False) = Some (Inr (rtext m l ! (i - (k - ?ll)), j, True))"
      using Cat.IH(1) [OF S(3) sp(1) Cat.prems(3) len(1) Cat.prems(5)] by auto
    have "i - (k - (?lr + ?ll)) = ?lr + (i - (k - ?ll))" using False len by linarith
    then have "(rtext m r @ rtext m l) ! (i - (k - (?lr + ?ll))) = rtext m l ! (i - (k - ?ll))"
      by (simp only: nth_append_length_plus)
    then show ?thesis
      using at_stopped [OF S(4) sp(3)] False left step by simp
  qed
qed

section \<open>Programs with ropes\<close>

text \<open>
  The states of a program that builds ropes out of literals below the address \<open>lim\<close>, copies,
  appends and reads them: the memory, the nodes and a pool of ropes, each with the string it
  stands for. A rope stays in the pool when another is made of it, as copies share their nodes.
  New nodes get addresses not in use. Appending a character array takes in its terminator.
\<close>

definition zstr :: "nat \<Rightarrow> mem \<Rightarrow> u32 \<Rightarrow> byte list \<Rightarrow> bool" where
  "zstr lim m p bs \<longleftrightarrow> unat p + length bs + 1 \<le> lim \<and> length bs < 2147483647 \<and> mem_read m p (length bs + 1) = bs @ [0] \<and> 0 \<notin> set bs"

definition unused :: "nodes \<Rightarrow> u32 \<Rightarrow> u32 \<Rightarrow> bool" where
  "unused N a1 a2 \<longleftrightarrow> a1 \<noteq> 0 \<and> a2 \<noteq> 0 \<and> a1 \<noteq> a2 \<and> N a1 = None \<and> N a2 = None"

inductive rope_run :: "nat \<Rightarrow> mem \<Rightarrow> nodes \<Rightarrow> (rope \<times> byte list) list \<Rightarrow> bool" where
  start: "lim < 2 ^ 32 \<Longrightarrow> rope_run lim m (\<lambda>_. None) []"
| of_cstr: "rope_run lim m N pool \<Longrightarrow> unused N a1 a2 \<Longrightarrow> zstr lim m p bs \<Longrightarrow> rope_of_cstr N m a1 a2 p = Inr (N', r) \<Longrightarrow>
     rope_run lim m N' ((r, bs) # pool)"
| of_view: "rope_run lim m N pool \<Longrightarrow> unused N a1 a2 \<Longrightarrow> unat p + unat n \<le> lim \<Longrightarrow> rope_of_view N a1 a2 p n = (N', r) \<Longrightarrow>
     rope_run lim m N' ((r, mem_read m p (unat n)) # pool)"
| chars: "rope_run lim m N pool \<Longrightarrow> (q, xs) \<in> set pool \<Longrightarrow> unused N a1 a2 \<Longrightarrow> unat p + unat n \<le> lim \<Longrightarrow>
     append_chars N a1 a2 q p n = Inr (N', r) \<Longrightarrow> rope_run lim m N' ((r, xs @ mem_read m p (unat n)) # pool)"
| cstr: "rope_run lim m N pool \<Longrightarrow> (q, xs) \<in> set pool \<Longrightarrow> unused N a1 a2 \<Longrightarrow> zstr lim m p bs \<Longrightarrow>
     append_cstr N m a1 a2 q p = Inr (N', r) \<Longrightarrow> rope_run lim m N' ((r, xs @ bs) # pool)"
| array: "rope_run lim m N pool \<Longrightarrow> (q, xs) \<in> set pool \<Longrightarrow> unused N a1 a2 \<Longrightarrow> zstr lim m p bs \<Longrightarrow>
     append_array N a1 a2 q p (of_nat (length bs + 1)) = Inr (N', r) \<Longrightarrow> rope_run lim m N' ((r, xs @ bs @ [0]) # pool)"
| rope: "rope_run lim m N pool \<Longrightarrow> (q, xs) \<in> set pool \<Longrightarrow> (q', ys) \<in> set pool \<Longrightarrow> unused N a1 a2 \<Longrightarrow>
     append_rope N a1 q q' = Inr (N', r) \<Longrightarrow> rope_run lim m N' ((r, xs @ ys) # pool)"
| c_str: "rope_run lim m N pool \<Longrightarrow> (q, xs) \<in> set pool \<Longrightarrow> lim \<le> unat b \<Longrightarrow> unat b + length xs < 2 ^ 32 \<Longrightarrow>
     rope_c_str N m b q = Inr (N', m') \<Longrightarrow> rope_run lim m' N' pool"

text \<open>What a rope of the pool is: an unfolding into a tree with the text it stands for.\<close>

definition stands_for :: "nat \<Rightarrow> mem \<Rightarrow> nodes \<Rightarrow> rope \<Rightarrow> byte list \<Rightarrow> bool" where
  "stands_for lim m N r xs \<longleftrightarrow> (\<exists>t. repr (shape N) t \<and> addr t = rope_root r \<and> t \<noteq> Null \<and> (\<forall>a p n. t \<noteq> Leaf a p n) \<and> spine t
     \<and> rtext m t = xs \<and> below lim t \<and> rope_size r = of_nat (length xs))"

lemma repr_upd: "a \<notin> addrs t \<Longrightarrow> repr (S(a := v)) t = repr S t"
  by (induction t) auto

lemma shape_upd: "shape (N(a \<mapsto> n)) = (shape N)(a \<mapsto> erase n)"
  by (auto simp: shape_def fun_eq_iff)

lemma unused_addrs: "repr (shape N) t \<Longrightarrow> N a = None \<Longrightarrow> a \<notin> addrs t"
  using addrs_dom [of "shape N" t a] by (auto simp: shape_def)

lemma stands_for_upd: "stands_for lim m N r xs \<Longrightarrow> N a = None \<Longrightarrow> stands_for lim m (N(a \<mapsto> n)) r xs"
  unfolding stands_for_def shape_upd using repr_upd unused_addrs by metis

lemma stands_for_upd2:
  "stands_for lim m N r xs \<Longrightarrow> unused N a1 a2 \<Longrightarrow> stands_for lim m (N(a1 \<mapsto> n1, a2 \<mapsto> n2)) r xs"
  using stands_for_upd [of lim m N r xs a1 n1] stands_for_upd [of lim m "N(a1 \<mapsto> n1)" r xs a2 n2] by (auto simp: unused_def)

text \<open>A piece in front of a rope, or of nothing.\<close>

lemma stands_for_piece:
  assumes "unused N a1 a2" "unat p + unat n \<le> lim" "t = Null \<or> stands_for lim m N q xs \<and> addr t = rope_root q"
    and "repr (shape N) t" "spine t" "below lim t" "rtext m t = xs" "\<forall>a p n. t \<noteq> Leaf a p n"
    and "rope_root r = a2" "rope_size r = of_nat (length xs) + n"
  shows "stands_for lim m (N(a1 \<mapsto> Str_t p n 0, a2 \<mapsto> Concat_t a1 (addr t) 0 False)) r (xs @ mem_read m p (unat n))"
proof -
  have "a1 \<notin> addrs t" "a2 \<notin> addrs t" using assms(1) unused_addrs [OF assms(4)] by (simp_all add: unused_def)
  then have "repr (shape (N(a1 \<mapsto> Str_t p n 0, a2 \<mapsto> Concat_t a1 (addr t) 0 False))) (Cat a2 (Leaf a1 p n) t)"
    using assms(1,4) by (simp add: shape_upd repr_upd unused_def)
  then show ?thesis
    unfolding stands_for_def using assms by (intro exI [of _ "Cat a2 (Leaf a1 p n) t"]) simp
qed

lemma stands_for_new:
  "unused N a1 a2 \<Longrightarrow> unat p + unat n \<le> lim \<Longrightarrow> rope_root r = a2 \<Longrightarrow> rope_size r = n \<Longrightarrow>
   stands_for lim m (N(a1 \<mapsto> Str_t p n 0, a2 \<mapsto> Concat_t a1 0 0 False)) r (mem_read m p (unat n))"
  using stands_for_piece [of N a1 a2 p n lim Null m _ "[]" r] by simp

lemma stands_for_chars:
  assumes "stands_for lim m N q xs" "unused N a1 a2" "unat p + unat n \<le> lim" "append_chars N a1 a2 q p n = Inr (N', r)"
  shows "stands_for lim m N' r (xs @ mem_read m p (unat n))
    \<and> N' = N(a1 \<mapsto> Str_t p n 0, a2 \<mapsto> Concat_t a1 (rope_root q) 0 False)"
proof -
  obtain t where t: "repr (shape N) t" "addr t = rope_root q" "t \<noteq> Null" "\<forall>a p n. t \<noteq> Leaf a p n" "spine t"
      "rtext m t = xs" "below lim t" "rope_size q = of_nat (length xs)"
    using assms(1) by (auto simp: stands_for_def)
  have "N' = N(a1 \<mapsto> Str_t p n 0, a2 \<mapsto> Concat_t a1 (addr t) 0 False) \<and> r = q\<lparr>rope_root := a2, rope_size := rope_size q + n\<rparr>"
    using assms(2,4) t(2) by (auto simp: append_chars_def append_node_def node_at_def unused_def mapr_def)
  then show ?thesis using stands_for_piece [of N a1 a2 p n lim t m q xs r] t assms(1-3) by simp
qed

lemma stands_for_rope:
  assumes "stands_for lim m N q xs" "stands_for lim m N q' ys" "unused N a1 a2" "append_rope N a1 q q' = Inr (N', r)"
  shows "stands_for lim m N' r (xs @ ys) \<and> N' = N(a1 \<mapsto> Concat_t (rope_root q') (rope_root q) 0 False)"
proof -
  obtain t where t: "repr (shape N) t" "addr t = rope_root q" "t \<noteq> Null" "\<forall>a p n. t \<noteq> Leaf a p n" "spine t"
      "rtext m t = xs" "below lim t" "rope_size q = of_nat (length xs)"
    using assms(1) by (auto simp: stands_for_def)
  obtain u where u: "repr (shape N) u" "addr u = rope_root q'" "u \<noteq> Null" "\<forall>a p n. u \<noteq> Leaf a p n" "spine u"
      "rtext m u = ys" "below lim u" "rope_size q' = of_nat (length ys)"
    using assms(2) by (auto simp: stands_for_def)
  obtain a l r' where "u = Cat a l r'" using u(3,4) by (cases u) auto
  then have "shape N (rope_root q') = Some (Concat_t (addr l) (addr r') 0 False)" "rope_root q' \<noteq> 0" using u(1,2) by auto
  then obtain tt f where "node_at N (rope_root q') = Inr (Concat_t (addr l) (addr r') tt f)" "rope_root q' \<noteq> 0"
    using node_at_shape(1) by blast
  then have N': "N' = N(a1 \<mapsto> Concat_t (addr u) (addr t) 0 False)" "r = q\<lparr>rope_root := a1, rope_size := rope_size q + rope_size q'\<rparr>"
    using assms(4) t(2) u(2) by (auto simp: append_rope_def append_node_def mapr_def)
  have "a1 \<notin> addrs t" "a1 \<notin> addrs u" using assms(3) unused_addrs [OF t(1)] unused_addrs [OF u(1)] by (simp_all add: unused_def)
  then have "repr (shape N') (Cat a1 u t)" using assms(3) t(1) u(1) N' by (simp add: shape_upd repr_upd unused_def)
  then have "stands_for lim m N' r (xs @ ys)"
    unfolding stands_for_def using t u N' by (intro exI [of _ "Cat a1 u t"]) simp
  then show ?thesis using N' t(2) u(2) by simp
qed

lemma strlen_from:
  "k + length bs < 2147483647 \<Longrightarrow> mem_read m (p + of_nat k) (length bs + 1) = bs @ [0] \<Longrightarrow> 0 \<notin> set bs \<Longrightarrow>
   rope_strlen_from m p k = Inr (of_nat (k + length bs + 1))"
proof (induction bs arbitrary: k)
  case Nil
  then show ?case by (simp add: rope_strlen_from.simps [of m p k] mem_read_Suc)
next
  case (Cons b bs)
  then have "m (p + of_nat k) = b" "mem_read m (p + of_nat (k + 1)) (length bs + 1) = bs @ [0]"
    by (simp_all add: mem_read_Suc add.commute add.left_commute)
  with Cons.IH [of "k + 1"] Cons.prems show ?case by (simp add: rope_strlen_from.simps [of m p k] del: of_nat_Suc of_nat_add)
qed

lemma strlen_zstr:
  assumes "zstr lim m p bs"
  shows "\<exists>n. rope_strlen m p = Inr n \<and> unat (n - 1) = length bs \<and> mem_read m p (unat (n - 1)) = bs"
proof -
  have *: "length bs < 2147483647" "mem_read m p (length bs + 1) = bs @ [0]" "0 \<notin> set bs"
    using assms by (simp_all add: zstr_def)
  then have "rope_strlen m p = Inr (of_nat (length bs + 1))"
    using strlen_from [of 0 bs m p] by (simp add: rope_strlen_def)
  moreover have "of_nat (length bs + 1) - 1 = (of_nat (length bs) :: u32)" by simp
  moreover have "unat (of_nat (length bs) :: u32) = length bs" using *(1) by (intro unat_of_nat_u32) simp
  moreover have "mem_read m p (length bs) = bs" using *(2) mem_read_append [of m p "length bs" 1] by simp
  ultimately show ?thesis by (intro exI [of _ "of_nat (length bs + 1)"]) (simp only:)
qed

lemma rtext_cong: "below lim t \<Longrightarrow> lim < 2 ^ 32 \<Longrightarrow> (\<And>x. unat x < lim \<Longrightarrow> m' x = m x) \<Longrightarrow> rtext m' t = rtext m t"
proof (induction t)
  case (Leaf a p n)
  show ?case unfolding rtext.simps
  proof (rule mem_read_cong)
    fix i
    assume "i < unat n"
    then have "unat p + i < lim" using Leaf.prems(1) by simp
    moreover from this have "unat (p + of_nat i) = unat p + i" using Leaf.prems(2) by (intro unat_add_of_nat) simp
    ultimately show "m' (p + of_nat i) = m (p + of_nat i)" using Leaf.prems(3) by simp
  qed
qed simp_all

lemma stands_for_cong:
  assumes "stands_for lim m N r xs" "shape N' = shape N" "lim < 2 ^ 32" "\<And>x. unat x < lim \<Longrightarrow> m' x = m x"
  shows "stands_for lim m' N' r xs"
proof -
  obtain t where t: "repr (shape N) t" "addr t = rope_root r" "t \<noteq> Null" "\<forall>a p n. t \<noteq> Leaf a p n" "spine t"
      "rtext m t = xs" "below lim t" "rope_size r = of_nat (length xs)"
    using assms(1) by (auto simp: stands_for_def)
  have "rtext m' t = xs" using rtext_cong [OF t(7) assms(3,4)] t(6) by simp
  then show ?thesis using t assms(2) by (auto simp: stands_for_def)
qed

lemma c_str_writes:
  assumes "stands_for lim m N q xs" "lim \<le> unat b" "unat b + length xs < 2 ^ 32"
  shows "\<exists>N' m'. rope_c_str N m b q = Inr (N', m') \<and> shape N' = shape N \<and> mem_read m' b (length xs + 1) = xs @ [0]
    \<and> (\<forall>y. \<not> (unat b \<le> unat y \<and> unat y \<le> unat b + length xs) \<longrightarrow> m' y = m y)"
proof -
  obtain t where t: "repr (shape N) t" "addr t = rope_root q" "t \<noteq> Null" "rtext m t = xs" "below lim t" "rope_size q = of_nat (length xs)"
    using assms(1) by (auto simp: stands_for_def)
  let ?a = "rope_root q" and ?k = "length xs"
  have a: "?a \<noteq> 0" "?a \<in> dom (shape N)" using addrs_dom [OF t(1)] addr_in_addrs [OF t(3)] t(2) by auto
  then obtain n where n: "N ?a = Some n" using shape_Some by blast
  let ?N = "N(?a \<mapsto> set_temp 0 n)"
  have "erase (set_temp 0 n) = erase n" by (cases n) auto
  then have sh: "shape ?N = shape N" using n by (auto simp: shape_def fun_eq_iff)
  have "\<exists>N' m'. walked b m t ?N (addr t) True ?k m N' (node_temp (set_temp 0 n)) (?k - length (rtext m t)) m'"
    by (rule walk_tree [where lim = lim]) (use t assms(2,3) sh in simp_all)
  then obtain N' m' where w: "c_str_loop b (walk_at ?N ?a True ?k m) = c_str_loop b (walk_at N' 0 False 0 m')"
      "shape N' = shape ?N" "written m m' b 0 ?k xs"
    using t(2,4) by (auto simp: walked_def)
  have "c_str_loop b (walk_at N' 0 False 0 m') = Some (Inr (walk_at N' 0 False 0 m'))"
    by (subst c_str_loop.simps) (simp add: walk_at_def)
  then have res: "rope_c_str N m b q = Inr (N', m'(b + of_nat ?k := 0))"
    using w(1) a(1) n t(6) by (simp add: rope_c_str_def set_temp_at_def node_at_def walk_at_def)
  have last: "unat (b + of_nat ?k) = unat b + ?k" using assms(3) by (rule unat_add_of_nat)
  have "mem_read (m'(b + of_nat ?k := 0)) b ?k = mem_read m' b ?k"
  proof (rule mem_read_cong)
    fix i
    assume "i < ?k"
    then have "unat (b + of_nat i) = unat b + i" using assms(3) by (intro unat_add_of_nat) simp
    then have "b + of_nat i \<noteq> b + of_nat ?k" using last \<open>i < ?k\<close> by (metis add_left_cancel nat_neq_iff)
    then show "(m'(b + of_nat ?k := 0)) (b + of_nat i) = m' (b + of_nat i)" by simp
  qed
  then have "mem_read (m'(b + of_nat ?k := 0)) b (?k + 1) = xs @ [0]"
    using w(3) mem_read_append [of "m'(b + of_nat ?k := 0)" b ?k 1] by (simp add: written_def mem_read_Suc)
  moreover have "(m'(b + of_nat ?k := 0)) y = m y" if "\<not> (unat b \<le> unat y \<and> unat y \<le> unat b + ?k)" for y
  proof -
    have "y \<noteq> b + of_nat ?k" using last that by auto
    moreover have "m' y = m y" using w(3) that by (auto simp: written_def)
    ultimately show ?thesis by simp
  qed
  ultimately show ?thesis using res w(2) sh
    by (intro exI [of _ N'] exI [of _ "m'(b + of_nat ?k := 0)"] conjI allI impI) simp_all
qed

lemma pool_grows:
  assumes "(r, xs) \<in> set ((r0, ys) # pool)" "stands_for lim m N' r0 ys" "\<And>r xs. (r, xs) \<in> set pool \<Longrightarrow> stands_for lim m N r xs"
    and "unused N a1 a2" "N' = N(a1 \<mapsto> n1, a2 \<mapsto> n2)"
  shows "stands_for lim m N' r xs"
proof (cases "(r, xs) \<in> set pool")
  case True
  then show ?thesis using stands_for_upd2 [OF assms(3,4), of r xs n1 n2] assms(5) by (simp only:)
next
  case False
  then show ?thesis using assms(1,2) by simp
qed

lemma run_lim: "rope_run lim m N pool \<Longrightarrow> lim < 2 ^ 32"
  by (induction rule: rope_run.induct) simp_all

lemma run_stands_for: "rope_run lim m N pool \<Longrightarrow> (r, xs) \<in> set pool \<Longrightarrow> stands_for lim m N r xs"
proof (induction arbitrary: r xs rule: rope_run.induct)
  case (of_cstr lim m N pool a1 a2 p bs N' r0)
  obtain n where n: "rope_strlen m p = Inr n" "unat (n - 1) = length bs" "mem_read m p (unat (n - 1)) = bs"
    using strlen_zstr [OF of_cstr.hyps(3)] by blast
  have N': "N' = N(a1 \<mapsto> Str_t p (n - 1) 0, a2 \<mapsto> Concat_t a1 0 0 False)" "rope_root r0 = a2" "rope_size r0 = n - 1"
    using of_cstr.hyps(4) n(1) by (auto simp: rope_of_cstr_def)
  have "unat p + unat (n - 1) \<le> lim" using of_cstr.hyps(3) n(2) by (simp add: zstr_def)
  then have "stands_for lim m N' r0 bs"
    using stands_for_new [of N a1 a2 p "n - 1" lim r0 m] of_cstr.hyps(2) N' n(3) by simp
  then show ?case using pool_grows [OF of_cstr.prems _ of_cstr.IH of_cstr.hyps(2) N'(1)] by blast
next
  case (of_view lim m N pool a1 a2 p n N' r0)
  have N': "N' = N(a1 \<mapsto> Str_t p n 0, a2 \<mapsto> Concat_t a1 0 0 False)" "rope_root r0 = a2" "rope_size r0 = n"
    using of_view.hyps(4) by (auto simp: rope_of_view_def)
  then have "stands_for lim m N' r0 (mem_read m p (unat n))"
    using stands_for_new [of N a1 a2 p n lim r0 m] of_view.hyps(2,3) by simp
  then show ?case using pool_grows [OF of_view.prems _ of_view.IH of_view.hyps(2) N'(1)] by blast
next
  case (chars lim m N pool q ys a1 a2 p n N' r0)
  from stands_for_chars [OF chars.IH [OF chars.hyps(2)] chars.hyps(3-5)]
  show ?case using pool_grows [OF chars.prems _ chars.IH chars.hyps(3)] by blast
next
  case (cstr lim m N pool q ys a1 a2 p bs N' r0)
  obtain n where n: "rope_strlen m p = Inr n" "unat (n - 1) = length bs" "mem_read m p (unat (n - 1)) = bs"
    using strlen_zstr [OF cstr.hyps(4)] by blast
  have "unat p + unat (n - 1) \<le> lim" using cstr.hyps(4) n(2) by (simp add: zstr_def)
  moreover have "append_chars N a1 a2 q p (n - 1) = Inr (N', r0)" using cstr.hyps(5) n(1) by (simp add: append_cstr_def)
  ultimately have "stands_for lim m N' r0 (ys @ bs) \<and> N' = N(a1 \<mapsto> Str_t p (n - 1) 0, a2 \<mapsto> Concat_t a1 (rope_root q) 0 False)"
    using stands_for_chars [OF cstr.IH [OF cstr.hyps(2)] cstr.hyps(3)] n(3) by auto
  then show ?case using pool_grows [OF cstr.prems _ cstr.IH cstr.hyps(3)] by blast
next
  case (array lim m N pool q ys a1 a2 p bs N' r0)
  let ?n = "of_nat (length bs + 1) :: u32"
  have n: "unat ?n = length bs + 1" using array.hyps(4) by (intro unat_of_nat_u32) (simp add: zstr_def)
  have "unat p + unat ?n \<le> lim" "mem_read m p (unat ?n) = bs @ [0]" unfolding n using array.hyps(4) by (simp_all add: zstr_def)
  then have "stands_for lim m N' r0 (ys @ bs @ [0]) \<and> N' = N(a1 \<mapsto> Str_t p ?n 0, a2 \<mapsto> Concat_t a1 (rope_root q) 0 False)"
    using stands_for_chars [OF array.IH [OF array.hyps(2)] array.hyps(3), of p ?n N' r0] array.hyps(5) unfolding append_array_def by auto
  then show ?case using pool_grows [OF array.prems _ array.IH array.hyps(3)] by blast
next
  case (rope lim m N pool q ys q' zs a1 a2 N' r0)
  from stands_for_rope [OF rope.IH [OF rope.hyps(2)] rope.IH [OF rope.hyps(3)] rope.hyps(4,5)]
  have new: "stands_for lim m N' r0 (ys @ zs)" "N' = N(a1 \<mapsto> Concat_t (rope_root q') (rope_root q) 0 False)" by blast+
  have "N a1 = None" using rope.hyps(4) by (simp add: unused_def)
  show ?case
  proof (cases "(r, xs) \<in> set pool")
    case True
    show ?thesis unfolding new(2) by (rule stands_for_upd [OF rope.IH [OF True] \<open>N a1 = None\<close>])
  next
    case False
    then show ?thesis using rope.prems new(1) by simp
  qed
next
  case (c_str lim m N pool q ys b N' m')
  from c_str_writes [OF c_str.IH [OF c_str.hyps(2)] c_str.hyps(3,4)] c_str.hyps(5)
  have "shape N' = shape N" "\<And>y. unat y < lim \<Longrightarrow> m' y = m y" using c_str.hyps(3) by auto
  then show ?case using stands_for_cong [OF c_str.IH [OF c_str.prems] _ run_lim [OF c_str.hyps(1)]] by blast
qed simp

text \<open>
  C23. Ropes are strings. In every state that a program can reach by making ropes of literals,
  appending characters, literals and ropes to copies of them and printing them, with whatever
  nodes they share, \<^verbatim>\<open>c_str\<close> on any rope returns: it writes the string the rope stands for and
  a terminator into its new buffer, and nothing else. \<^verbatim>\<open>length\<close> is the number of its characters and
  \<^verbatim>\<open>at\<close> gives each of them. The string of a rope to which a character array was appended
  contains the terminator of that array.
\<close>

theorem rope_refines_string:
  assumes "rope_run lim m N pool" "(r, xs) \<in> set pool" "lim \<le> unat b" "unat b + length xs < 2 ^ 32"
  shows "(\<exists>N' m'. rope_c_str N m b r = Inr (N', m') \<and> mem_read m' b (length xs + 1) = xs @ [0]
      \<and> (\<forall>y. \<not> (unat b \<le> unat y \<and> unat y \<le> unat b + length xs) \<longrightarrow> m' y = m y))
    \<and> unat (rope_length r) = length xs \<and> (\<forall>i < length xs. rope_at N m r (of_nat i) = Inr (xs ! i))"
proof -
  have st: "stands_for lim m N r xs" by (rule run_stands_for [OF assms(1,2)])
  then obtain t where t: "repr (shape N) t" "addr t = rope_root r" "spine t" "rtext m t = xs" "rope_size r = of_nat (length xs)"
    by (auto simp: stands_for_def)
  have len: "length xs < 2 ^ 32" using assms(4) by simp
  have "rope_at N m r (of_nat i) = Inr (xs ! i)" if "i < length xs" for i
    using at_tree [of N t "length xs" m i 0] t len that by (auto simp: rope_at_def)
  then show ?thesis using c_str_writes [OF st assms(3,4)] t(5) len by (auto simp: rope_length_def unat_of_nat_u32)
qed

text \<open>
  A program that appends the literal \<^verbatim>\<open>cd\<close> to \<^verbatim>\<open>ab\<close> by \<^verbatim>\<open>+=\<close> and the rope \<^verbatim>\<open>ab\<close> to the result.
\<close>

definition literals :: mem where
  "literals = mem_write (\<lambda>_. 0) 16 [97, 98, 0, 99, 100, 0]"

definition rope_ab :: rope where
  "rope_ab = \<lparr>rope_root = 2, rope_last = 2, rope_size = 2\<rparr>"

definition rope_abcd :: rope where
  "rope_abcd = \<lparr>rope_root = 4, rope_last = 2, rope_size = 4\<rparr>"

definition rope_abcdab :: rope where
  "rope_abcdab = \<lparr>rope_root = 5, rope_last = 2, rope_size = 6\<rparr>"

definition rope_nodes :: "nat \<Rightarrow> nodes" where
  "rope_nodes k = map_of (take k [(1, Str_t 16 2 0), (2, Concat_t 1 0 0 False), (3, Str_t 19 2 0), (4, Concat_t 3 2 0 False), (5, Concat_t 2 4 0 False)])"

lemma rope_abcdab_run:
  "rope_run 64 literals (rope_nodes 5) [(rope_abcdab, [97, 98, 99, 100, 97, 98]), (rope_abcd, [97, 98, 99, 100]), (rope_ab, [97, 98])]"
proof -
  have "mem_read literals 16 3 = [97, 98, 0]" "mem_read literals 19 3 = [99, 100, 0]" by code_simp+
  then have lits: "zstr 64 literals 16 [97, 98]" "zstr 64 literals 19 [99, 100]" by (simp_all add: zstr_def numeral_3_eq_3)
  have nodes: "rope_nodes 5 = (rope_nodes 4)(5 \<mapsto> Concat_t 2 4 0 False)" "rope_nodes 4 = (rope_nodes 2)(3 \<mapsto> Str_t 19 2 0, 4 \<mapsto> Concat_t 3 2 0 False)"
    "rope_nodes 2 = (\<lambda>_. None)(1 \<mapsto> Str_t 16 2 0, 2 \<mapsto> Concat_t 1 0 0 False)"
    by (simp_all add: rope_nodes_def fun_eq_iff)
  have len: "rope_strlen literals 16 = Inr 3" "rope_strlen literals 19 = Inr 3"
    by (simp_all add: rope_strlen_def rope_strlen_from.simps literals_def)
  have "rope_run 64 literals (\<lambda>_. None) []" by (rule start) simp
  then have "rope_run 64 literals (rope_nodes 2) [(rope_ab, [97, 98])]"
    by (rule of_cstr [where ?a1.0 = 1 and ?a2.0 = 2 and p = 16, OF _ _ lits(1)])
      (simp_all add: unused_def rope_of_cstr_def len rope_ab_def nodes)
  then have "rope_run 64 literals (rope_nodes 4) [(rope_abcd, [97, 98] @ [99, 100]), (rope_ab, [97, 98])]"
    by (rule cstr [where ?a1.0 = 3 and ?a2.0 = 4 and p = 19 and q = rope_ab and xs = "[97, 98]", OF _ _ _ lits(2)])
      (simp_all add: unused_def append_cstr_def append_chars_def append_node_def node_at_def len rope_ab_def rope_abcd_def nodes mapr_def)
  then have "rope_run 64 literals (rope_nodes 5) [(rope_abcdab, ([97, 98] @ [99, 100]) @ [97, 98]), (rope_abcd, [97, 98] @ [99, 100]), (rope_ab, [97, 98])]"
    by (rule rope [where ?a1.0 = 5 and ?a2.0 = 6 and q = rope_abcd and q' = rope_ab])
      (simp_all add: unused_def append_rope_def append_node_def node_at_def rope_ab_def rope_abcd_def rope_abcdab_def nodes mapr_def)
  then show ?thesis by simp
qed

theorem rope_refines_string_witness:
  "\<exists>N' m'. rope_c_str (rope_nodes 5) literals 100 rope_abcdab = Inr (N', m') \<and> mem_read m' 100 7 = [97, 98, 99, 100, 97, 98, 0]"
proof -
  have seven: "length [97, 98, 99, 100, 97, 98 :: byte] + 1 = 7" by simp
  note rope_refines_string [OF rope_abcdab_run, of rope_abcdab "[97, 98, 99, 100, 97, 98]" 100, unfolded seven]
  then show ?thesis by auto
qed

end
