(* ===== verification/Linker_Dispatch.thy ===== *)
theory Linker_Dispatch
  imports Name Strings
begin

text \<open>
  The entry point that the linker makes for a contract without one:
  \<^verbatim>\<open>Writer::createDispatchFunction\<close> in \<^verbatim>\<open>wasm_llvm/tools/lld/wasm/Writer.cpp\<close>, with the
  conversions of \<^verbatim>\<open>tools/include/wasm/utils.hpp\<close> and the LEB128 encoders it calls. The
  generator is modelled at the level of instructions and of the bytes it writes for them.
  Of the symbol table it sees the function index of a name and the number of symbols, of an
  object file the strings of its actions and notifications. The name conversion of the tools
  is the same text as that of the library, \<open>string_to_name\<close>. A \<^verbatim>\<open>fatal\<close> error of the linker is
  \<open>Inl (Assert msg)\<close>.
\<close>

section \<open>The generator\<close>

datatype instr =
    I_call u32
  | I_if
  | I_else
  | I_end
  | I_get_local u32
  | I_i64_eq
  | I_i32_const u32
  | I_i64_const u64

record link =
  find_function :: "string \<Rightarrow> u32 option"
  symbol_count :: nat
  object_files :: "(string list \<times> string list) list"

definition wasm_error_no_action :: u64 where
  "wasm_error_no_action = 8000000000000000000"

definition wasm_error_pre_dispatch_fail :: u64 where
  "wasm_error_pre_dispatch_fail = 8000000000000000000 + 1"

definition tool_string_to_regid :: "string \<Rightarrow> u64 res" where
  "tool_string_to_regid str =
     (let before = (case find_char (CHR ''-'') str of Some pos \<Rightarrow> take pos str | None \<Rightarrow> str);
          behind = (case find_char (CHR ''-'') str of Some pos \<Rightarrow> drop (pos + 1) str | None \<Rightarrow> str) in
      bindr (atoi (c_str before)) (\<lambda>height. bindr (atoi (c_str behind)) (\<lambda>index.
        Inr (push_bit 20 (word_of_int height) + word_of_int index))))"

definition tool_regid_to_string :: "u64 \<Rightarrow> string" where
  "tool_regid_to_string v = show_int (sint (drop_bit 20 v)) @ ''-'' @ show_int (sint (v AND 0xFFFFF))"

text \<open>The result is whether the string passes; otherwise the error handler is called.\<close>

definition validate_regid :: "string \<Rightarrow> bool res" where
  "validate_regid str =
     (if find_char (CHR ''-'') str = Some 0 then Inr False
      else let before = (case find_char (CHR ''-'') str of Some pos \<Rightarrow> take pos str | None \<Rightarrow> str);
               behind = (case find_char (CHR ''-'') str of Some pos \<Rightarrow> drop (pos + 1) str | None \<Rightarrow> str) in
        bindr (atoi (c_str before)) (\<lambda>height. bindr (atoi (c_str behind)) (\<lambda>index.
          Inr (\<not> (height = 0 \<and> index \<noteq> 800 \<or> index = 0)))))"

definition before_colon :: "string \<Rightarrow> string" where
  "before_colon str = (case find_char (CHR '':'') str of Some pos \<Rightarrow> take pos str | None \<Rightarrow> str)"

definition after_colon :: "string \<Rightarrow> string" where
  "after_colon str = (case find_char (CHR '':'') str of Some pos \<Rightarrow> drop (pos + 1) str | None \<Rightarrow> str)"

definition create_if :: "link \<Rightarrow> string \<Rightarrow> bool \<Rightarrow> instr list res" where
  "create_if lk str need_else =
     (case find_function lk (after_colon str) of
        None \<Rightarrow> Inl (Undefined ''access to a symbol that does not exist'')
      | Some index \<Rightarrow> Inr ((if need_else then [I_else] else [])
          @ [I_i64_const (string_to_name (before_colon str)), I_get_local 2, I_i64_eq, I_if,
             I_get_local 0, I_get_local 1, I_call index]))"

definition assert_call :: "link \<Rightarrow> u64 \<Rightarrow> string \<Rightarrow> instr list res" where
  "assert_call lk code msg =
     (case find_function lk ''wasm_assert_code'' of
        None \<Rightarrow> Inl (Assert msg)
      | Some assert_idx \<Rightarrow>
          if unat assert_idx < symbol_count lk then Inr [I_i32_const 0, I_i64_const code, I_call assert_idx]
          else Inl (Assert msg))"

text \<open>The loop over the actions of all files; the result is the code and their number.\<close>

fun action_ifs :: "link \<Rightarrow> string list \<Rightarrow> bool \<Rightarrow> string list \<Rightarrow> (instr list \<times> nat) res" where
  "action_ifs lk has_dispatched need_else [] = Inr ([], 0)"
| "action_ifs lk has_dispatched need_else (act # acts) =
     (if act \<in> set has_dispatched then action_ifs lk has_dispatched need_else acts
      else bindr (create_if lk act need_else) (\<lambda>c.
           bindr (action_ifs lk (act # has_dispatched) True acts) (\<lambda>(cs, act_cnt). Inr (c @ cs, act_cnt + 1))))"

definition create_action_dispatch :: "link \<Rightarrow> instr list res" where
  "create_action_dispatch lk =
     bindr (action_ifs lk [] False (concat (map fst (object_files lk)))) (\<lambda>(c, act_cnt).
     bindr (assert_call lk wasm_error_no_action ''fatal failure: contract with no actions and trying to create dispatcher'') (\<lambda>ac.
       Inr (c @ (if act_cnt > 0 then [I_else] else []) @ ac @ replicate act_cnt I_end)))"

text \<open>\<^verbatim>\<open>notify_handlers[code_name].push_back(rest)\<close> on a map ordered by key.\<close>

fun push_handler :: "string \<Rightarrow> string \<Rightarrow> (string \<times> string list) list \<Rightarrow> (string \<times> string list) list" where
  "push_handler k v [] = [(k, [v])]"
| "push_handler k v ((k', vs) # hs) =
     (if k = k' then (k', vs @ [v]) # hs
      else if ord_class.lexordp k k' then (k, [v]) # (k', vs) # hs
      else (k', vs) # push_handler k v hs)"

fun collect_notify ::
  "string list \<Rightarrow> nat \<Rightarrow> (string \<times> string list) list \<Rightarrow> string list \<Rightarrow> (nat \<times> (string \<times> string list) list) res" where
  "collect_notify has_dispatched not_cnt handlers [] = Inr (not_cnt, handlers)"
| "collect_notify has_dispatched not_cnt handlers (notif # notifs) =
     (if notif \<in> set has_dispatched then collect_notify has_dispatched not_cnt handlers notifs
      else let k = (case find_char (CHR '':'') notif of Some idx \<Rightarrow> idx + 2 | None \<Rightarrow> 1) in
           if k \<le> length notif
           then collect_notify (notif # has_dispatched) (not_cnt + 1) (push_handler (before_colon notif) (drop k notif) handlers) notifs
           else Inl (Undefined ''std::out_of_range''))"

fun handler_ifs :: "link \<Rightarrow> bool \<Rightarrow> string list \<Rightarrow> instr list res" where
  "handler_ifs lk need_else [] = Inr []"
| "handler_ifs lk need_else (h # hs) =
     bindr (create_if lk h need_else) (\<lambda>c. bindr (handler_ifs lk True hs) (\<lambda>cs. Inr (c @ cs)))"

fun notify_groups :: "link \<Rightarrow> bool \<Rightarrow> (string \<times> string list) list \<Rightarrow> (instr list \<times> nat) res" where
  "notify_groups lk need_else [] = Inr ([], 0)"
| "notify_groups lk need_else ((k, vs) # groups) =
     bindr (tool_string_to_regid k) (\<lambda>nm.
       if k = ''*'' then notify_groups lk need_else groups
       else bindr (handler_ifs lk False vs) (\<lambda>c.
            bindr (notify_groups lk True groups) (\<lambda>(cs, notify_group_cnt).
              Inr ((if need_else then [I_else] else []) @ [I_i64_const nm, I_get_local 1, I_i64_eq, I_if]
                @ c @ replicate (length vs) I_end @ cs, notify_group_cnt + 1))))"

definition create_notify_dispatch :: "link \<Rightarrow> instr list res" where
  "create_notify_dispatch lk =
     bindr (collect_notify [] 0 [] (concat (map snd (object_files lk)))) (\<lambda>(not_cnt, handlers).
     bindr (if not_cnt > 0 then notify_groups lk False handlers else Inr ([], 0)) (\<lambda>(c, notify_group_cnt).
       let star = (case map_of handlers ''*'' of Some vs \<Rightarrow> vs | None \<Rightarrow> []) in
       bindr (handler_ifs lk False star) (\<lambda>s.
         Inr (c @ (if star \<noteq> [] \<and> notify_group_cnt > 0 then [I_else] else []) @ s
           @ replicate (length star) I_end @ replicate notify_group_cnt I_end))))"

definition create_dispatch_function :: "link \<Rightarrow> instr list res" where
  "create_dispatch_function lk =
     (let ctors = (case find_function lk ''__wasm_call_ctors'' of
            Some ctors_idx \<Rightarrow> if ctors_idx \<noteq> 0 then [I_call ctors_idx] else [] | None \<Rightarrow> []);
          pre_sym = find_function lk ''pre_dispatch'';
          pre = (case pre_sym of
            Some pre_idx \<Rightarrow> [I_get_local 0, I_get_local 1, I_get_local 2, I_call pre_idx, I_if] | None \<Rightarrow> []);
          post = (case find_function lk ''post_dispatch'' of
            Some post_idx \<Rightarrow> [I_get_local 0, I_get_local 1, I_get_local 2, I_call post_idx] | None \<Rightarrow> []);
          dtors = (case find_function lk ''__cxa_finalize'' of
            Some dtors_idx \<Rightarrow> if dtors_idx \<noteq> 0 \<and> unat dtors_idx < symbol_count lk then [I_i32_const 0, I_call dtors_idx] else []
          | None \<Rightarrow> []) in
      bindr (create_action_dispatch lk) (\<lambda>actions.
      bindr (create_notify_dispatch lk) (\<lambda>notifications.
      bindr (if pre_sym \<noteq> None
             then mapr (\<lambda>ac. I_else # ac) (assert_call lk wasm_error_pre_dispatch_fail
               ''fatal failure: contract with pre_dispatch, but no wasm_assert_code and trying to create dispatcher'')
             else Inr []) (\<lambda>pre_fail.
        Inr (ctors @ pre @ [I_get_local 0, I_get_local 1, I_i64_eq, I_if] @ actions @ [I_else] @ notifications @ [I_end]
          @ post @ dtors @ pre_fail @ [I_end])))))"

section \<open>The bytes\<close>

fun encode_uleb128 :: "nat \<Rightarrow> byte list" where
  "encode_uleb128 n =
     (if n div 128 \<noteq> 0 then of_nat (n mod 128 + 128) # encode_uleb128 (n div 128) else [of_nat (n mod 128)])"

declare encode_uleb128.simps [simp del]

function encode_sleb128 :: "int \<Rightarrow> byte list" where
  "encode_sleb128 v =
     (let b = v mod 128; v' = v div 128 in
      if v' = 0 \<and> b < 64 \<or> v' = -1 \<and> b \<ge> 64 then [word_of_int b] else word_of_int (b + 128) # encode_sleb128 v')"
  by pat_completeness auto
termination
proof (relation "measure (\<lambda>v. nat (if v < 0 then - v else v))", simp)
  fix v x xa :: int
  assume x: "x = v mod 128" "xa = v div 128" "\<not> (xa = 0 \<and> x < 64 \<or> xa = - 1 \<and> 64 \<le> x)"
  have v: "v = 128 * xa + x" "0 \<le> x" "x < 128" using x(1,2) by simp_all
  show "(xa, v) \<in> measure (\<lambda>v. nat (if v < 0 then - v else v))"
  proof -
    consider "xa \<ge> 1" | "xa = 0" "x \<ge> 64" | "xa = -1" "x < 64" | "xa \<le> -2" using x(3) by linarith
    then have "(if xa < 0 then - xa else xa) < (if v < 0 then - v else v)" using v by cases auto
    moreover from this have "0 < (if v < 0 then - v else v)" by (auto split: if_splits)
    ultimately show ?thesis unfolding in_measure by (simp only: zless_nat_conj)
  qed
qed

declare encode_sleb128.simps [simp del]

fun instr_bytes :: "instr \<Rightarrow> byte list" where
  "instr_bytes (I_call i) = 0x10 # encode_uleb128 (unat i)"
| "instr_bytes I_if = [0x04, 0x40]"
| "instr_bytes I_else = [0x05]"
| "instr_bytes I_end = [0x0B]"
| "instr_bytes (I_get_local i) = 0x20 # encode_uleb128 (unat i)"
| "instr_bytes I_i64_eq = [0x51]"
| "instr_bytes (I_i32_const i) = 0x41 # encode_uleb128 (unat i)"
| "instr_bytes (I_i64_const v) = 0x42 # encode_sleb128 (sint v)"

definition dispatch_body :: "instr list \<Rightarrow> byte list" where
  "dispatch_body code =
     (let body = encode_uleb128 0 @ concat (map instr_bytes code)
      in encode_uleb128 (unat (of_nat (length body) :: u32)) @ body)"

section \<open>What WebAssembly makes of it\<close>

text \<open>
  Validation reads the flat sequence of instructions as nested statements: every \<^verbatim>\<open>if\<close> is closed
  by an \<^verbatim>\<open>end\<close>, with at most one \<^verbatim>\<open>else\<close> before it, and one more \<^verbatim>\<open>end\<close> closes the body and is
  the last instruction.
\<close>

datatype stmt = Plain instr | When "stmt list" | Cond "stmt list" "stmt list"

datatype frame = In_then "stmt list" | In_else "stmt list" "stmt list"

fun validate_loop :: "instr list \<Rightarrow> frame list \<Rightarrow> stmt list \<Rightarrow> stmt list option" where
  "validate_loop [] fs cur = None"
| "validate_loop (I_if # is) fs cur = validate_loop is (In_then cur # fs) []"
| "validate_loop (I_else # is) fs cur =
     (case fs of In_then c # fs' \<Rightarrow> validate_loop is (In_else c (rev cur) # fs') [] | _ \<Rightarrow> None)"
| "validate_loop (I_end # is) fs cur =
     (case fs of
        [] \<Rightarrow> if is = [] then Some (rev cur) else None
      | In_then c # fs' \<Rightarrow> validate_loop is fs' (When (rev cur) # c)
      | In_else c t # fs' \<Rightarrow> validate_loop is fs' (Cond t (rev cur) # c))"
| "validate_loop (i # is) fs cur = validate_loop is fs (Plain i # cur)"

definition validate :: "instr list \<Rightarrow> stmt list option" where
  "validate code = validate_loop code [] []"

text \<open>Execution on an operand stack; functions are given by their number of arguments and their effect.\<close>

datatype val = I32 u32 | I64 u64

record 'w machine =
  locals :: "u64 list"
  arity :: "u32 \<Rightarrow> nat"
  fn :: "u32 \<Rightarrow> val list \<Rightarrow> 'w \<Rightarrow> (val list \<times> 'w) res"

fun exec_instr :: "'w machine \<Rightarrow> instr \<Rightarrow> val list \<times> 'w \<Rightarrow> (val list \<times> 'w) res" where
  "exec_instr M (I_call f) (stk, w) =
     (if arity M f \<le> length stk
      then bindr (fn M f (rev (take (arity M f) stk)) w) (\<lambda>(rs, w). Inr (rev rs @ drop (arity M f) stk, w))
      else Inl (Undefined ''stack underflow''))"
| "exec_instr M (I_get_local k) (stk, w) =
     (if unat k < length (locals M) then Inr (I64 (locals M ! unat k) # stk, w) else Inl (Undefined ''unknown local''))"
| "exec_instr M I_i64_eq (stk, w) =
     (case stk of I64 y # I64 x # stk' \<Rightarrow> Inr (I32 (of_bool (x = y)) # stk', w) | _ \<Rightarrow> Inl (Undefined ''operands''))"
| "exec_instr M (I_i32_const c) (stk, w) = Inr (I32 c # stk, w)"
| "exec_instr M (I_i64_const c) (stk, w) = Inr (I64 c # stk, w)"
| "exec_instr M _ (stk, w) = Inl (Undefined ''structure'')"

fun exec :: "'w machine \<Rightarrow> stmt \<Rightarrow> val list \<times> 'w \<Rightarrow> (val list \<times> 'w) res"
  and execs :: "'w machine \<Rightarrow> stmt list \<Rightarrow> val list \<times> 'w \<Rightarrow> (val list \<times> 'w) res" where
  "exec M (Plain i) st = exec_instr M i st"
| "exec M (When b) st =
     (case st of (I32 c # stk, w) \<Rightarrow> if c \<noteq> 0 then execs M b (stk, w) else Inr (stk, w) | _ \<Rightarrow> Inl (Undefined ''operands''))"
| "exec M (Cond t e) st =
     (case st of (I32 c # stk, w) \<Rightarrow> if c \<noteq> 0 then execs M t (stk, w) else execs M e (stk, w) | _ \<Rightarrow> Inl (Undefined ''operands''))"
| "execs M [] st = Inr st"
| "execs M (s # ss) st = bindr (exec M s st) (execs M ss)"

definition run_function :: "'w machine \<Rightarrow> instr list \<Rightarrow> 'w \<Rightarrow> 'w res option" where
  "run_function M code w = map_option (\<lambda>b. mapr snd (execs M b ([], w))) (validate code)"

fun flat :: "stmt \<Rightarrow> instr list" and flats :: "stmt list \<Rightarrow> instr list" where
  "flat (Plain i) = [i]"
| "flat (When b) = I_if # flats b @ [I_end]"
| "flat (Cond t e) = I_if # flats t @ I_else # flats e @ [I_end]"
| "flats [] = []"
| "flats (s # ss) = flat s @ flats ss"

text \<open>Instructions without structure; the only 32-bit constant is 0.\<close>

definition simple_instr :: "instr \<Rightarrow> bool" where
  "simple_instr i \<longleftrightarrow> i \<notin> {I_if, I_else, I_end} \<and> (\<forall>c. i = I_i32_const c \<longrightarrow> c = 0)"

fun simple :: "stmt \<Rightarrow> bool" and simples :: "stmt list \<Rightarrow> bool" where
  "simple (Plain i) = simple_instr i"
| "simple (When b) = simples b"
| "simple (Cond t e) = (simples t \<and> simples e)"
| "simples [] = True"
| "simples (s # ss) = (simple s \<and> simples ss)"

lemma flats_append [simp]: "flats (a @ b) = flats a @ flats b"
  by (induction a) simp_all

lemma simples_append [simp]: "simples (a @ b) \<longleftrightarrow> simples a \<and> simples b"
  by (induction a) simp_all

lemma execs_append: "execs M (a @ b) st = bindr (execs M a st) (execs M b)"
proof (induction a arbitrary: st)
  case (Cons s a)
  show ?case by (cases "exec M s st") (simp_all add: Cons.IH)
qed simp

lemma validate_flat:
  "simple s \<Longrightarrow> validate_loop (flat s @ is) fs cur = validate_loop is fs (s # cur)"
  "simples ss \<Longrightarrow> validate_loop (flats ss @ is) fs cur = validate_loop is fs (rev ss @ cur)"
proof (induction s and ss arbitrary: "is" fs cur and "is" fs cur rule: flat_flats.induct)
  case (1 i)
  then show ?case by (cases i) (simp_all add: simple_instr_def)
qed simp_all

lemma validate_flats: "simples b \<Longrightarrow> validate (flats b @ [I_end]) = Some b"
  by (simp add: validate_def validate_flat)

section \<open>Cascades of comparisons\<close>

text \<open>Arms of a constant and a body: the first whose constant is the value of the local is executed.\<close>

definition branch :: "stmt list \<Rightarrow> stmt list option \<Rightarrow> stmt" where
  "branch b e = (case e of None \<Rightarrow> When b | Some e \<Rightarrow> Cond b e)"

fun tree :: "u32 \<Rightarrow> (u64 \<times> stmt list) list \<Rightarrow> stmt list option \<Rightarrow> stmt list" where
  "tree k [] fin = (case fin of None \<Rightarrow> [] | Some f \<Rightarrow> f)"
| "tree k ((c, b) # xs) fin =
     [Plain (I_i64_const c), Plain (I_get_local k), Plain I_i64_eq, branch b (if xs = [] then fin else Some (tree k xs fin))]"

fun arms :: "u32 \<Rightarrow> bool \<Rightarrow> (u64 \<times> stmt list) list \<Rightarrow> instr list" where
  "arms k need [] = []"
| "arms k need ((c, b) # xs) =
     (if need then [I_else] else []) @ [I_i64_const c, I_get_local k, I_i64_eq, I_if] @ flats b @ arms k True xs"

lemma flats_tree:
  "flats (tree k xs fin) = arms k False xs @ (case fin of None \<Rightarrow> [] | Some f \<Rightarrow> (if xs = [] then [] else [I_else]) @ flats f) @ replicate (length xs) I_end"
proof (induction xs)
  case (Cons x xs)
  have arms: "arms k True ys = (if ys = [] then [] else I_else # arms k False ys)" for ys
    by (cases ys) auto
  show ?case
    using Cons.IH by (cases x) (auto simp: branch_def arms replicate_append_same [symmetric] split: option.splits)
qed (simp split: option.splits)

lemma simples_tree: "(\<And>c b. (c, b) \<in> set xs \<Longrightarrow> simples b) \<Longrightarrow> pred_option simples fin \<Longrightarrow> simples (tree k xs fin)"
proof (induction xs)
  case (Cons x xs)
  obtain c b where x: "x = (c, b)" by force
  have "simples b" "simples (tree k xs fin)" using Cons x by auto
  then show ?case using Cons.prems(2) x by (cases fin) (auto simp: branch_def simple_instr_def)
qed (cases fin, auto)

lemma execs_tree:
  assumes "unat k < length (locals M)"
  shows "execs M (tree k xs fin) (stk, w) = (case map_of xs (locals M ! unat k) of
      Some b \<Rightarrow> execs M b (stk, w) | None \<Rightarrow> (case fin of None \<Rightarrow> Inr (stk, w) | Some f \<Rightarrow> execs M f (stk, w)))"
proof (induction xs)
  case (Cons x xs)
  have ret: "bindr r Inr = r" for r :: "(val list \<times> 'a) res" by (cases r) auto
  have "execs M [] = Inr" by (rule ext) simp
  then show ?case using Cons.IH assms by (cases x) (auto simp: branch_def ret split: option.splits)
qed (simp split: option.splits)

section \<open>The parts of the dispatcher\<close>

definition handler_index :: "link \<Rightarrow> string \<Rightarrow> u32" where
  "handler_index lk h = the (find_function lk (after_colon h))"

definition handler_arm :: "link \<Rightarrow> string \<Rightarrow> u64 \<times> stmt list" where
  "handler_arm lk h = (string_to_name (before_colon h),
     [Plain (I_get_local 0), Plain (I_get_local 1), Plain (I_call (handler_index lk h))])"

fun fresh :: "string list \<Rightarrow> string list \<Rightarrow> string list" where
  "fresh seen [] = []"
| "fresh seen (a # as) = (if a \<in> set seen then fresh seen as else a # fresh (a # seen) as)"

lemma create_if_eq: "create_if lk h need = Inr c \<Longrightarrow> c = arms 2 need [handler_arm lk h]"
  by (auto simp: create_if_def handler_arm_def handler_index_def split: option.splits)

lemma arms_Cons: "arms k need (x # xs) = arms k need [x] @ arms k True xs"
  by (cases x) simp

lemma action_ifs_eq:
  "action_ifs lk seen need acts = Inr (c, n) \<Longrightarrow> c = arms 2 need (map (handler_arm lk) (fresh seen acts)) \<and> n = length (fresh seen acts)"
proof (induction acts arbitrary: seen need c n)
  case (Cons a acts)
  show ?case
  proof (cases "a \<in> set seen")
    case False
    then obtain c1 cs k where "create_if lk a need = Inr c1" "action_ifs lk (a # seen) True acts = Inr (cs, k)" "c = c1 @ cs" "n = k + 1"
      using Cons.prems by (auto simp: res_simps)
    then show ?thesis
      using Cons.IH [of "a # seen" True cs k] create_if_eq [of lk a need c1] False
      by (simp add: arms_Cons [of 2 need "handler_arm lk a" "map (handler_arm lk) (fresh (a # seen) acts)"])
  qed (use Cons in simp)
qed simp

lemma handler_ifs_eq: "handler_ifs lk need hs = Inr c \<Longrightarrow> c = arms 2 need (map (handler_arm lk) hs)"
proof (induction hs arbitrary: need c)
  case (Cons h hs)
  then obtain c1 cs where "create_if lk h need = Inr c1" "handler_ifs lk True hs = Inr cs" "c = c1 @ cs"
    by (auto simp: res_simps)
  then show ?case
    using Cons.IH [of True cs] create_if_eq [of lk h need c1] by (simp add: arms_Cons [of 2 need "handler_arm lk h" "map (handler_arm lk) hs"])
qed simp

text \<open>Leaving out repeated strings does not change which handler is found.\<close>

lemma map_of_fresh:
  "x \<notin> f ` set seen \<Longrightarrow> map_of (map (\<lambda>h. (f h, g h)) (fresh seen as)) x = map_of (map (\<lambda>h. (f h, g h)) as) x"
  by (induction as arbitrary: seen) auto

definition group_arm :: "link \<Rightarrow> string \<times> string list \<Rightarrow> u64 \<times> stmt list" where
  "group_arm lk = (\<lambda>(k, vs). (case tool_string_to_regid k of Inr nm \<Rightarrow> nm | Inl _ \<Rightarrow> 0, tree 2 (map (handler_arm lk) vs) None))"

definition named_groups :: "(string \<times> string list) list \<Rightarrow> (string \<times> string list) list" where
  "named_groups hs = filter (\<lambda>(k, vs). k \<noteq> ''*'') hs"

lemma notify_groups_eq:
  "notify_groups lk need hs = Inr (c, n) \<Longrightarrow> c = arms 1 need (map (group_arm lk) (named_groups hs)) \<and> n = length (named_groups hs)"
proof (induction hs arbitrary: need c n)
  case (Cons g hs)
  obtain k vs where g: "g = (k, vs)" by force
  obtain nm where nm: "tool_string_to_regid k = Inr nm" using Cons.prems g by (auto simp: res_simps)
  show ?case
  proof (cases "k = ''*''")
    case True
    then show ?thesis using Cons.IH [of need c n] Cons.prems g nm by (simp add: named_groups_def)
  next
    case False
    then obtain c1 cs j where *: "handler_ifs lk False vs = Inr c1" "notify_groups lk True hs = Inr (cs, j)"
        "c = (if need then [I_else] else []) @ [I_i64_const nm, I_get_local 1, I_i64_eq, I_if] @ c1 @ replicate (length vs) I_end @ cs" "n = j + 1"
      using Cons.prems g nm by (auto simp: res_simps)
    have "flats (tree 2 (map (handler_arm lk) vs) None) = c1 @ replicate (length vs) I_end"
      using handler_ifs_eq [OF *(1)] by (simp add: flats_tree)
    then show ?thesis using Cons.IH [OF *(2)] * False g nm by (simp add: named_groups_def group_arm_def)
  qed
qed (simp add: named_groups_def)

lemma flats_Plain [simp]: "flats (map Plain is) = is"
  by (induction "is") simp_all

lemma assert_call_eq:
  "assert_call lk code msg = Inr c \<Longrightarrow> \<exists>i. find_function lk ''wasm_assert_code'' = Some i \<and> c = [I_i32_const 0, I_i64_const code, I_call i]"
  by (auto simp: assert_call_def split: option.splits if_splits)

definition actions_of :: "link \<Rightarrow> string list" where
  "actions_of lk = concat (map fst (object_files lk))"

definition assert_part :: "link \<Rightarrow> u64 \<Rightarrow> stmt list" where
  "assert_part lk code = map Plain [I_i32_const 0, I_i64_const code, I_call (the (find_function lk ''wasm_assert_code''))]"

definition action_part :: "link \<Rightarrow> stmt list" where
  "action_part lk = tree 2 (map (handler_arm lk) (fresh [] (actions_of lk))) (Some (assert_part lk wasm_error_no_action))"

lemma create_action_dispatch_eq:
  assumes "create_action_dispatch lk = Inr c"
  shows "c = flats (action_part lk) \<and> find_function lk ''wasm_assert_code'' \<noteq> None"
proof -
  obtain c1 n ac where *: "action_ifs lk [] False (actions_of lk) = Inr (c1, n)"
      "assert_call lk wasm_error_no_action ''fatal failure: contract with no actions and trying to create dispatcher'' = Inr ac"
      "c = c1 @ (if n > 0 then [I_else] else []) @ ac @ replicate n I_end"
    using assms by (auto simp: create_action_dispatch_def actions_of_def res_simps)
  obtain i where "find_function lk ''wasm_assert_code'' = Some i" "ac = [I_i32_const 0, I_i64_const wasm_error_no_action, I_call i]"
    using assert_call_eq [OF *(2)] by blast
  then show ?thesis
    using action_ifs_eq [OF *(1)] *(3) by (simp add: action_part_def assert_part_def flats_tree)
qed

text \<open>The table of notifications: the handlers of each code, in the order of the files.\<close>

definition notify_table :: "link \<Rightarrow> (string \<times> string list) list" where
  "notify_table lk = (case collect_notify [] 0 [] (concat (map snd (object_files lk))) of Inr (_, hs) \<Rightarrow> hs | Inl _ \<Rightarrow> [])"

definition star_handlers :: "link \<Rightarrow> string list" where
  "star_handlers lk = (case map_of (notify_table lk) ''*'' of Some vs \<Rightarrow> vs | None \<Rightarrow> [])"

definition notify_part :: "link \<Rightarrow> stmt list" where
  "notify_part lk = tree 1 (map (group_arm lk) (named_groups (notify_table lk)))
     (if star_handlers lk = [] then None else Some (tree 2 (map (handler_arm lk) (star_handlers lk)) None))"

lemma collect_notify_count:
  "collect_notify seen cnt hs notifs = Inr (n, hs') \<Longrightarrow> cnt \<le> n \<and> (n = cnt \<longrightarrow> hs' = hs)"
proof (induction notifs arbitrary: seen cnt hs)
  case (Cons s notifs)
  show ?case
  proof (cases "s \<in> set seen")
    case False
    then have "\<exists>seen' hs''. collect_notify seen' (cnt + 1) hs'' notifs = Inr (n, hs')"
      using Cons.prems by (auto simp: Let_def split: if_splits)
    then show ?thesis using Cons.IH by fastforce
  qed (use Cons.IH [of seen cnt hs] Cons.prems in auto)
qed simp

lemma create_notify_dispatch_eq:
  assumes "create_notify_dispatch lk = Inr c"
  shows "c = flats (notify_part lk)"
proof -
  obtain n hs c1 j s where *: "collect_notify [] 0 [] (concat (map snd (object_files lk))) = Inr (n, hs)"
      "(if n > 0 then notify_groups lk False hs else Inr ([], 0)) = Inr (c1, j)"
      "handler_ifs lk False (star_handlers lk) = Inr s"
      "c = c1 @ (if star_handlers lk \<noteq> [] \<and> j > 0 then [I_else] else []) @ s @ replicate (length (star_handlers lk)) I_end @ replicate j I_end"
    using assms by (auto simp: create_notify_dispatch_def star_handlers_def notify_table_def Let_def res_simps)
  have hs: "notify_table lk = hs" using *(1) by (simp add: notify_table_def)
  have "c1 = arms 1 False (map (group_arm lk) (named_groups hs)) \<and> j = length (named_groups hs)"
  proof (cases "n > 0")
    case True
    then show ?thesis using *(2) notify_groups_eq by simp
  next
    case False
    then have "hs = []" using collect_notify_count [OF *(1)] by simp
    then show ?thesis using *(2) False by (simp add: named_groups_def)
  qed
  moreover have "s = arms 2 False (map (handler_arm lk) (star_handlers lk))" by (rule handler_ifs_eq [OF *(3)])
  ultimately show ?thesis using *(4) by (auto simp: notify_part_def hs flats_tree)
qed

definition call_part :: "link \<Rightarrow> string \<Rightarrow> (u32 \<Rightarrow> bool) \<Rightarrow> instr list \<Rightarrow> stmt list" where
  "call_part lk f P args = (case find_function lk f of Some i \<Rightarrow> if P i then map Plain (args @ [I_call i]) else [] | None \<Rightarrow> [])"

definition ctors_part :: "link \<Rightarrow> stmt list" where
  "ctors_part lk = call_part lk ''__wasm_call_ctors'' (\<lambda>i. i \<noteq> 0) []"

definition post_part :: "link \<Rightarrow> stmt list" where
  "post_part lk = call_part lk ''post_dispatch'' (\<lambda>_. True) [I_get_local 0, I_get_local 1, I_get_local 2]"

definition dtors_part :: "link \<Rightarrow> stmt list" where
  "dtors_part lk = call_part lk ''__cxa_finalize'' (\<lambda>i. i \<noteq> 0 \<and> unat i < symbol_count lk) [I_i32_const 0]"

definition main_part :: "link \<Rightarrow> stmt list" where
  "main_part lk = [Plain (I_get_local 0), Plain (I_get_local 1), Plain I_i64_eq, Cond (action_part lk) (notify_part lk)]
     @ post_part lk @ dtors_part lk"

lemma call_part_flats:
  "flats (call_part lk f P args) = (case find_function lk f of Some i \<Rightarrow> if P i then args @ [I_call i] else [] | None \<Rightarrow> [])"
  unfolding call_part_def by (simp del: map_append split: option.splits)

lemma parts_flats:
  "flats (ctors_part lk) = (case find_function lk ''__wasm_call_ctors'' of
     Some ctors_idx \<Rightarrow> if ctors_idx \<noteq> 0 then [I_call ctors_idx] else [] | None \<Rightarrow> [])"
  "flats (post_part lk) = (case find_function lk ''post_dispatch'' of
     Some post_idx \<Rightarrow> [I_get_local 0, I_get_local 1, I_get_local 2, I_call post_idx] | None \<Rightarrow> [])"
  "flats (dtors_part lk) = (case find_function lk ''__cxa_finalize'' of
     Some dtors_idx \<Rightarrow> if dtors_idx \<noteq> 0 \<and> unat dtors_idx < symbol_count lk then [I_i32_const 0, I_call dtors_idx] else []
   | None \<Rightarrow> [])"
  by (simp_all add: ctors_part_def post_part_def dtors_part_def call_part_flats split: option.splits)

text \<open>The generated sequence, as nested statements; with a \<^verbatim>\<open>pre_dispatch\<close> one \<^verbatim>\<open>end\<close> is missing.\<close>

lemma create_dispatch_function_eq:
  assumes "create_dispatch_function lk = Inr code"
  shows "find_function lk ''wasm_assert_code'' \<noteq> None
    \<and> code = flats (ctors_part lk) @ (case find_function lk ''pre_dispatch'' of
          None \<Rightarrow> flats (main_part lk)
        | Some p \<Rightarrow> [I_get_local 0, I_get_local 1, I_get_local 2, I_call p] @ I_if # flats (main_part lk) @ I_else
            # flats (assert_part lk wasm_error_pre_dispatch_fail)) @ [I_end]"
proof -
  obtain ac nt pf where *: "create_action_dispatch lk = Inr ac" "create_notify_dispatch lk = Inr nt"
      "(if find_function lk ''pre_dispatch'' \<noteq> None then mapr (\<lambda>ac. I_else # ac) (assert_call lk wasm_error_pre_dispatch_fail
          ''fatal failure: contract with pre_dispatch, but no wasm_assert_code and trying to create dispatcher'') else Inr []) = Inr pf"
    and code: "code = flats (ctors_part lk)
        @ (case find_function lk ''pre_dispatch'' of Some p \<Rightarrow> [I_get_local 0, I_get_local 1, I_get_local 2, I_call p, I_if] | None \<Rightarrow> [])
        @ [I_get_local 0, I_get_local 1, I_i64_eq, I_if] @ ac @ [I_else] @ nt @ [I_end]
        @ flats (post_part lk) @ flats (dtors_part lk) @ pf @ [I_end]"
    using assms unfolding create_dispatch_function_def Let_def parts_flats bindr_eq_Inr sum.inject by blast
  show ?thesis
  proof (cases "find_function lk ''pre_dispatch''")
    case None
    then show ?thesis using *(3) code create_action_dispatch_eq [OF *(1)] create_notify_dispatch_eq [OF *(2)] by (simp add: main_part_def)
  next
    case (Some p)
    then obtain a where "assert_call lk wasm_error_pre_dispatch_fail
          ''fatal failure: contract with pre_dispatch, but no wasm_assert_code and trying to create dispatcher'' = Inr a" "pf = I_else # a"
      using *(3) by (auto simp: res_simps)
    then have "pf = I_else # flats (assert_part lk wasm_error_pre_dispatch_fail)"
      using assert_call_eq by (fastforce simp: assert_part_def)
    then show ?thesis using Some code create_action_dispatch_eq [OF *(1)] create_notify_dispatch_eq [OF *(2)] by (simp add: main_part_def)
  qed
qed

lemma simples_Plain: "(\<And>i. i \<in> set is \<Longrightarrow> simple_instr i) \<Longrightarrow> simples (map Plain is)"
  by (induction "is") simp_all

lemma simples_parts: "simples (ctors_part lk)" "simples (main_part lk)" "simples (assert_part lk c)"
proof -
  have handlers: "simples (tree 2 (map (handler_arm lk) hs) fin)" if "pred_option simples fin" for hs fin
    using that by (intro simples_tree) (auto simp: handler_arm_def simple_instr_def)
  have call: "simples (call_part lk f P args)" if "\<And>i. i \<in> set args \<Longrightarrow> simple_instr i" for f P args
    using that by (auto simp: call_part_def simple_instr_def split: option.splits intro!: simples_Plain)
  show "simples (ctors_part lk)" unfolding ctors_part_def by (rule call) simp
  show as: "simples (assert_part lk c)" for c by (simp add: assert_part_def simple_instr_def)
  have "simples (action_part lk)" unfolding action_part_def by (rule handlers) (simp add: as)
  moreover have "simples (notify_part lk)"
    unfolding notify_part_def by (rule simples_tree) (auto simp: group_arm_def handlers)
  moreover have "simples (post_part lk)" unfolding post_part_def by (rule call) (auto simp: simple_instr_def)
  moreover have "simples (dtors_part lk)" unfolding dtors_part_def by (rule call) (auto simp: simple_instr_def)
  ultimately show "simples (main_part lk)" by (simp add: main_part_def simple_instr_def)
qed

section \<open>What the dispatcher does\<close>

definition call_with :: "'w machine \<Rightarrow> u32 \<Rightarrow> val list \<Rightarrow> 'w \<Rightarrow> 'w res" where
  "call_with M f args w = mapr snd (fn M f args w)"

definition call_symbol :: "link \<Rightarrow> 'w machine \<Rightarrow> string \<Rightarrow> (u32 \<Rightarrow> bool) \<Rightarrow> val list \<Rightarrow> 'w \<Rightarrow> 'w res" where
  "call_symbol lk M f P args w = (case find_function lk f of Some i \<Rightarrow> if P i then call_with M i args w else Inr w | None \<Rightarrow> Inr w)"

text \<open>The first handler with the name of the action is called with receiver and code; without one, \<open>other\<close> happens.\<close>

definition run_handler :: "link \<Rightarrow> 'w machine \<Rightarrow> string list \<Rightarrow> ('w \<Rightarrow> 'w res) \<Rightarrow> 'w \<Rightarrow> 'w res" where
  "run_handler lk M hs other w =
     (case map_of (map (\<lambda>h. (string_to_name (before_colon h), handler_index lk h)) hs) (locals M ! 2) of
        Some i \<Rightarrow> call_with M i [I64 (locals M ! 0), I64 (locals M ! 1)] w
      | None \<Rightarrow> other w)"

definition assert_with :: "link \<Rightarrow> 'w machine \<Rightarrow> u64 \<Rightarrow> 'w \<Rightarrow> 'w res" where
  "assert_with lk M code w = call_with M (the (find_function lk ''wasm_assert_code'')) [I32 0, I64 code] w"

definition notify_spec :: "link \<Rightarrow> 'w machine \<Rightarrow> 'w \<Rightarrow> 'w res" where
  "notify_spec lk M w =
     (case map_of (map (\<lambda>(k, vs). (case tool_string_to_regid k of Inr nm \<Rightarrow> nm | Inl _ \<Rightarrow> 0, vs)) (named_groups (notify_table lk))) (locals M ! 1) of
        Some vs \<Rightarrow> run_handler lk M vs Inr w
      | None \<Rightarrow> run_handler lk M (star_handlers lk) Inr w)"

definition main_spec :: "link \<Rightarrow> 'w machine \<Rightarrow> 'w \<Rightarrow> 'w res" where
  "main_spec lk M w =
     bindr (if locals M ! 0 = locals M ! 1
            then run_handler lk M (actions_of lk) (assert_with lk M wasm_error_no_action) w
            else notify_spec lk M w) (\<lambda>w.
     bindr (call_symbol lk M ''post_dispatch'' (\<lambda>_. True) (map I64 (locals M)) w)
       (call_symbol lk M ''__cxa_finalize'' (\<lambda>i. i \<noteq> 0 \<and> unat i < symbol_count lk) [I32 0]))"

text \<open>The functions have the signatures that the generated calls assume.\<close>

definition takes :: "'w machine \<Rightarrow> u32 \<Rightarrow> nat \<Rightarrow> bool" where
  "takes M f n \<longleftrightarrow> arity M f = n \<and> (\<forall>args w rs w'. fn M f args w = Inr (rs, w') \<longrightarrow> rs = [])"

definition typed :: "link \<Rightarrow> 'w machine \<Rightarrow> bool" where
  "typed lk M \<longleftrightarrow> length (locals M) = 3
     \<and> (\<forall>(f, n)\<in>{(''__wasm_call_ctors'', 0), (''post_dispatch'', 3), (''__cxa_finalize'', 1), (''wasm_assert_code'', 2)}.
          \<forall>i. find_function lk f = Some i \<longrightarrow> takes M i n)
     \<and> (\<forall>h \<in> set (actions_of lk) \<union> (\<Union>g\<in>set (notify_table lk). set (snd g)). takes M (handler_index lk h) 2)"

lemma typedD:
  assumes "typed lk M"
  shows "length (locals M) = 3" "h \<in> set (actions_of lk) \<Longrightarrow> takes M (handler_index lk h) 2"
    "(k, vs) \<in> set (notify_table lk) \<Longrightarrow> h \<in> set vs \<Longrightarrow> takes M (handler_index lk h) 2"
proof -
  have all: "\<forall>h \<in> set (actions_of lk) \<union> (\<Union>g\<in>set (notify_table lk). set (snd g)). takes M (handler_index lk h) 2"
    using assms unfolding typed_def by blast
  show "length (locals M) = 3" using assms by (simp add: typed_def)
  show "takes M (handler_index lk h) 2" if "h \<in> set (actions_of lk)" using all that by blast
  show "takes M (handler_index lk h) 2" if "(k, vs) \<in> set (notify_table lk)" "h \<in> set vs"
    using bspec [OF all, of h] that by force
qed

lemma exec_call:
  assumes "takes M f n" "length args = n"
  shows "exec_instr M (I_call f) (rev args @ stk, w) = mapr (Pair stk) (call_with M f args w)"
proof (cases "fn M f args w")
  case (Inr x)
  then show ?thesis using assms by (cases x) (auto simp: takes_def call_with_def)
qed (use assms in \<open>auto simp: takes_def call_with_def\<close>)

declare exec_instr.simps(1) [simp del]

lemma bindr_execs_Nil [simp]: "bindr r (execs M []) = r"
  by (cases r) simp_all

lemma exec_call1: "takes M f 1 \<Longrightarrow> exec_instr M (I_call f) (x # stk, w) = mapr (Pair stk) (call_with M f [x] w)"
  using exec_call [of M f 1 "[x]" stk w] by simp

lemma exec_call2: "takes M f 2 \<Longrightarrow> exec_instr M (I_call f) (y # x # stk, w) = mapr (Pair stk) (call_with M f [x, y] w)"
  using exec_call [of M f 2 "[x, y]" stk w] by simp

lemma exec_call3: "takes M f 3 \<Longrightarrow> exec_instr M (I_call f) (z # y # x # stk, w) = mapr (Pair stk) (call_with M f [x, y, z] w)"
  using exec_call [of M f 3 "[x, y, z]" stk w] by simp

lemma locals3: "length (locals M) = 3 \<Longrightarrow> map I64 (locals M) = [I64 (locals M ! 0), I64 (locals M ! 1), I64 (locals M ! 2)]"
  by (rule nth_equalityI) (auto simp: nth_Cons numeral_3_eq_3 numeral_2_eq_2 less_Suc_eq split: nat.splits)

lemma execs_handlers:
  assumes "length (locals M) = 3" "\<And>h. h \<in> set hs \<Longrightarrow> takes M (handler_index lk h) 2"
    and "\<And>f. fin = Some f \<Longrightarrow> execs M f (stk, w) = mapr (Pair stk) (other w)" "fin = None \<Longrightarrow> other w = Inr w"
  shows "execs M (tree 2 (map (handler_arm lk) hs) fin) (stk, w) = mapr (Pair stk) (run_handler lk M hs other w)"
proof -
  let ?pairs = "map (\<lambda>h. (string_to_name (before_colon h), handler_index lk h)) hs"
  have arm: "map_of (map (handler_arm lk) hs) x =
      map_option (\<lambda>i. [Plain (I_get_local 0), Plain (I_get_local 1), Plain (I_call i)]) (map_of ?pairs x)" for x
    by (induction hs) (auto simp: handler_arm_def)
  have "takes M i 2" if "map_of ?pairs x = Some i" for x i
    using map_of_SomeD [OF that] assms(2) by auto
  then have "execs M [Plain (I_get_local 0), Plain (I_get_local 1), Plain (I_call i)] (stk, w) =
      mapr (Pair stk) (call_with M i [I64 (locals M ! 0), I64 (locals M ! 1)] w)" if "map_of ?pairs (locals M ! 2) = Some i" for i
    using that assms(1) by (simp add: exec_call2)
  then show ?thesis
    using assms(1,3,4) by (subst execs_tree) (auto simp: arm run_handler_def split: option.splits)
qed

lemma execs_assert:
  assumes "typed lk M" "find_function lk ''wasm_assert_code'' \<noteq> None"
  shows "execs M (assert_part lk code) (stk, w) = mapr (Pair stk) (assert_with lk M code w)"
  using assms by (auto simp: assert_part_def assert_with_def typed_def exec_call2)

lemma execs_actions:
  assumes "typed lk M" "find_function lk ''wasm_assert_code'' \<noteq> None"
  shows "execs M (action_part lk) (stk, w) =
    mapr (Pair stk) (run_handler lk M (actions_of lk) (assert_with lk M wasm_error_no_action) w)"
proof -
  let ?hs = "fresh [] (actions_of lk)"
  have "set (fresh seen as) \<subseteq> set as" for seen as by (induction as arbitrary: seen) auto
  then have "takes M (handler_index lk h) 2" if "h \<in> set ?hs" for h
    using that typedD(2) [OF assms(1)] by blast
  then have "execs M (action_part lk) (stk, w) = mapr (Pair stk) (run_handler lk M ?hs (assert_with lk M wasm_error_no_action) w)"
    unfolding action_part_def using execs_assert [OF assms]
    by (intro execs_handlers typedD(1) [OF assms(1)]) auto
  then show ?thesis by (simp add: run_handler_def map_of_fresh)
qed

lemma execs_notify:
  assumes "typed lk M"
  shows "execs M (notify_part lk) (stk, w) = mapr (Pair stk) (notify_spec lk M w)"
proof -
  have len: "length (locals M) = 3" using assms by (simp add: typed_def)
  have run: "execs M (tree 2 (map (handler_arm lk) vs) None) (stk, w) = mapr (Pair stk) (run_handler lk M vs Inr w)"
    if "(k, vs) \<in> set (notify_table lk)" for k vs
    using typedD(3) [OF assms that] by (intro execs_handlers len) auto
  have star: "execs M (tree 2 (map (handler_arm lk) (star_handlers lk)) None) (stk, w) = mapr (Pair stk) (run_handler lk M (star_handlers lk) Inr w)"
    using run [OF map_of_SomeD] by (auto simp: star_handlers_def run_handler_def split: option.splits)
  let ?key = "\<lambda>k. case tool_string_to_regid k of Inr nm \<Rightarrow> nm | Inl _ \<Rightarrow> 0"
  have arm: "map_of (map (group_arm lk) gs) x = map_option (\<lambda>vs. tree 2 (map (handler_arm lk) vs) None) (map_of (map (\<lambda>(k, vs). (?key k, vs)) gs) x)"
    for gs x by (induction gs) (auto simp: group_arm_def)
  have mem: "\<exists>k. (k, vs) \<in> set (notify_table lk)" if "map_of (map (\<lambda>(k, vs). (?key k, vs)) (named_groups (notify_table lk))) x = Some vs" for x vs
    using map_of_SomeD [OF that] by (auto simp: named_groups_def)
  show ?thesis
    unfolding notify_part_def notify_spec_def
    using len star run mem by (subst execs_tree) (fastforce simp: arm run_handler_def split: option.splits)+
qed

lemma execs_call_part:
  assumes "typed lk M"
  shows "execs M (ctors_part lk) (stk, w) = mapr (Pair stk) (call_symbol lk M ''__wasm_call_ctors'' (\<lambda>i. i \<noteq> 0) [] w)"
    and "execs M (post_part lk) (stk, w) = mapr (Pair stk) (call_symbol lk M ''post_dispatch'' (\<lambda>_. True) (map I64 (locals M)) w)"
    and "execs M (dtors_part lk) (stk, w) =
      mapr (Pair stk) (call_symbol lk M ''__cxa_finalize'' (\<lambda>i. i \<noteq> 0 \<and> unat i < symbol_count lk) [I32 0] w)"
proof -
  have t: "length (locals M) = 3" "\<And>i. find_function lk ''__wasm_call_ctors'' = Some i \<Longrightarrow> takes M i 0"
    "\<And>i. find_function lk ''post_dispatch'' = Some i \<Longrightarrow> takes M i 3" "\<And>i. find_function lk ''__cxa_finalize'' = Some i \<Longrightarrow> takes M i 1"
    using assms by (auto simp: typed_def)
  show "execs M (ctors_part lk) (stk, w) = mapr (Pair stk) (call_symbol lk M ''__wasm_call_ctors'' (\<lambda>i. i \<noteq> 0) [] w)"
    using t(2) exec_call [of M _ 0 "[]" stk w] by (auto simp: ctors_part_def call_part_def call_symbol_def split: option.splits)
  show "execs M (post_part lk) (stk, w) = mapr (Pair stk) (call_symbol lk M ''post_dispatch'' (\<lambda>_. True) (map I64 (locals M)) w)"
    using t(1,3) locals3 [OF t(1)] by (auto simp: post_part_def call_part_def call_symbol_def exec_call3 split: option.splits)
  show "execs M (dtors_part lk) (stk, w) =
      mapr (Pair stk) (call_symbol lk M ''__cxa_finalize'' (\<lambda>i. i \<noteq> 0 \<and> unat i < symbol_count lk) [I32 0] w)"
    using t(4) by (auto simp: dtors_part_def call_part_def call_symbol_def exec_call1 split: option.splits)
qed

lemma bindr_Pair: "bindr (mapr (Pair stk) r) f = bindr r (\<lambda>w. f (stk, w))"
  by (cases r) simp_all

lemma execs_main:
  assumes "typed lk M" "find_function lk ''wasm_assert_code'' \<noteq> None"
  shows "execs M (main_part lk) (stk, w) = mapr (Pair stk) (main_spec lk M w)"
proof -
  have len: "length (locals M) = 3" using assms by (simp add: typed_def)
  have test: "execs M [Plain (I_get_local 0), Plain (I_get_local 1), Plain I_i64_eq, Cond (action_part lk) (notify_part lk)] (stk, w) =
      mapr (Pair stk) (if locals M ! 0 = locals M ! 1 then run_handler lk M (actions_of lk) (assert_with lk M wasm_error_no_action) w else notify_spec lk M w)"
    using len execs_actions [OF assms, of stk w] execs_notify [OF assms(1), of stk w] by simp
  show ?thesis
    unfolding main_part_def main_spec_def execs_append test bindr_Pair execs_call_part [OF assms(1)]
    by (simp add: mapr_def bindr_assoc)
qed

section \<open>The table of notifications\<close>

text \<open>The rest of a notification behind its code; the handlers of a code are those of the strings that name it.\<close>

definition notify_rest :: "string \<Rightarrow> string" where
  "notify_rest s = drop (case find_char (CHR '':'') s of Some idx \<Rightarrow> idx + 2 | None \<Rightarrow> 1) s"

definition ascending :: "(string \<times> string list) list \<Rightarrow> bool" where
  "ascending hs \<longleftrightarrow> sorted_wrt (\<lambda>g h. ord_class.lexordp (fst g) (fst h)) hs"

lemma lexordp_trans_string: "ord_class.lexordp xs ys \<Longrightarrow> ord_class.lexordp ys zs \<Longrightarrow> ord_class.lexordp xs zs" for xs :: string
  by (rule lexordp_trans)

lemma push_handler_keys: "fst ` set (push_handler k v hs) = insert k (fst ` set hs)"
  by (induction k v hs rule: push_handler.induct) auto

lemma push_handler_ascending: "ascending hs \<Longrightarrow> ascending (push_handler k v hs)"
proof (induction k v hs rule: push_handler.induct)
  case (2 k v k' vs hs)
  have keys: "\<forall>g\<in>set hs. ord_class.lexordp k' (fst g)" and asc: "ascending hs" using "2.prems" by (auto simp: ascending_def)
  consider "k = k'" | "k \<noteq> k'" "ord_class.lexordp k k'" | "k \<noteq> k'" "\<not> ord_class.lexordp k k'" by blast
  then show ?case
  proof cases
    case 2
    then show ?thesis using keys "2.prems" lexordp_trans_string by (fastforce simp: ascending_def)
  next
    case 3
    then have less: "ord_class.lexordp k' k" using lexordp_linear [of k k'] by blast
    have "ord_class.lexordp k' (fst g)" if "g \<in> set (push_handler k v hs)" for g
    proof -
      have "fst g \<in> insert k (fst ` set hs)" using that push_handler_keys [of k v hs] by (metis imageI)
      then show ?thesis using keys less by auto
    qed
    moreover have "ascending (push_handler k v hs)" using "2.IH" 3 asc by simp
    ultimately show ?thesis using 3 by (simp add: ascending_def)
  qed (use "2.prems" in \<open>simp add: ascending_def\<close>)
qed (simp add: ascending_def)

lemma map_of_push_handler:
  "ascending hs \<Longrightarrow> map_of (push_handler k v hs) x =
     (if x = k then Some ((case map_of hs k of Some vs \<Rightarrow> vs | None \<Rightarrow> []) @ [v]) else map_of hs x)"
proof (induction k v hs rule: push_handler.induct)
  case (2 k v k' vs hs)
  have keys: "\<forall>g\<in>set hs. ord_class.lexordp k' (fst g)" and asc: "ascending hs" using "2.prems" by (auto simp: ascending_def)
  have "map_of hs k = None" if "ord_class.lexordp k k'"
  proof (rule ccontr)
    assume "map_of hs k \<noteq> None"
    then obtain vs where "(k, vs) \<in> set hs" using map_of_SomeD by fastforce
    then have "ord_class.lexordp k' k" using bspec [OF keys, of "(k, vs)"] by simp
    then have "ord_class.lexordp k k" by (rule lexordp_trans_string [OF that])
    then show False using lexordp_irreflexive' by blast
  qed
  then show ?case using "2.IH" asc by auto
qed auto

lemma collect_notify_table:
  "collect_notify seen cnt hs notifs = Inr (n, hs') \<Longrightarrow> ascending hs \<Longrightarrow>
     ascending hs' \<and> map_of hs' k =
       (let rs = (case map_of hs k of Some vs \<Rightarrow> vs | None \<Rightarrow> []) @ map notify_rest (filter (\<lambda>s. before_colon s = k) (fresh seen notifs))
        in if rs = [] \<and> map_of hs k = None then None else Some rs)"
proof (induction notifs arbitrary: seen cnt hs)
  case (Cons s notifs)
  show ?case
  proof (cases "s \<in> set seen")
    case True
    then show ?thesis using Cons.IH [of seen cnt hs] Cons.prems by simp
  next
    case False
    then have "collect_notify (s # seen) (cnt + 1) (push_handler (before_colon s) (notify_rest s) hs) notifs = Inr (n, hs')"
      using Cons.prems(1) by (auto simp: Let_def notify_rest_def split: if_splits)
    from Cons.IH [OF this push_handler_ascending [OF Cons.prems(2)]] False
    show ?thesis by (auto simp: map_of_push_handler [OF Cons.prems(2)] Let_def split: option.splits)
  qed
qed (auto simp: Let_def split: option.splits)

lemma notify_table_groups:
  assumes "create_dispatch_function lk = Inr code"
  shows "map_of (notify_table lk) k =
    (let rs = map notify_rest (filter (\<lambda>s. before_colon s = k) (fresh [] (concat (map snd (object_files lk)))))
     in if rs = [] then None else Some rs)"
proof -
  let ?r = "collect_notify [] 0 [] (concat (map snd (object_files lk)))"
  obtain nt where nt: "create_notify_dispatch lk = Inr nt"
    using assms unfolding create_dispatch_function_def Let_def bindr_eq_Inr by blast
  obtain x where "?r = Inr x" using nt by (cases ?r) (simp_all add: create_notify_dispatch_def)
  then obtain n hs where "?r = Inr (n, hs)" by (cases x) simp
  then show ?thesis using collect_notify_table [of "[]" 0 "[]" _ n hs k] by (simp add: notify_table_def ascending_def)
qed

text \<open>
  C14. The generated entry point. For a contract without \<^verbatim>\<open>pre_dispatch\<close> the linker, when it does not
  give up, emits a function body that validates; executed, it runs the constructors, then, if
  the code is the receiver, the first action with the name of the action, or reports that there is none,
  and otherwise the notification handler registered for the code, or failing that for every code,
  then \<^verbatim>\<open>post_dispatch\<close> and the destructors, in this order and stopping at the first abort. The handlers
  of a code are those of the notification strings that name it, in the order of the files.
\<close>

theorem dispatcher_correct:
  assumes "create_dispatch_function lk = Inr code" "find_function lk ''pre_dispatch'' = None" "typed lk M"
  shows "run_function M code w =
    Some (bindr (call_symbol lk M ''__wasm_call_ctors'' (\<lambda>i. i \<noteq> 0) [] w) (main_spec lk M))
    \<and> (\<forall>k. map_of (notify_table lk) k =
      (let rs = map notify_rest (filter (\<lambda>s. before_colon s = k) (fresh [] (concat (map snd (object_files lk)))))
       in if rs = [] then None else Some rs))"
proof -
  have code: "code = flats (ctors_part lk @ main_part lk) @ [I_end]" and as: "find_function lk ''wasm_assert_code'' \<noteq> None"
    using create_dispatch_function_eq [OF assms(1)] assms(2) by simp_all
  have "validate code = Some (ctors_part lk @ main_part lk)"
    unfolding code by (rule validate_flats) (simp add: simples_parts)
  moreover have "mapr snd (mapr (Pair stk) r) = r" for stk :: "val list" and r :: "'a res" by (cases r) simp_all
  moreover have "mapr snd (bindr r f) = bindr r (\<lambda>w. mapr snd (f w))" for r :: "'a res" and f :: "'a \<Rightarrow> (val list \<times> 'a) res" by (cases r) simp_all
  ultimately have "run_function M code w = Some (bindr (call_symbol lk M ''__wasm_call_ctors'' (\<lambda>i. i \<noteq> 0) [] w) (main_spec lk M))"
    by (simp add: run_function_def execs_append execs_call_part [OF assms(3)] bindr_Pair execs_main [OF assms(3) as])
  then show ?thesis using notify_table_groups [OF assms(1)] by blast
qed

text \<open>A contract with two actions and a handler for the transfers of one token; the world is the trace of the calls.\<close>

definition sample_link :: "string option \<Rightarrow> link" where
  "sample_link pre = \<lparr>find_function = map_of ([(''wasm_assert_code'', 1), (''do_add'', 2), (''do_get'', 3), (''on_move'', 4), (''post_dispatch'', 5)]
       @ (case pre of None \<Rightarrow> [] | Some s \<Rightarrow> [(s, 6)])),
     symbol_count = 10, object_files = [([''add:do_add'', ''get:do_get''], [''9-1::transfer:on_move''])]\<rparr>"

definition sample_machine :: "u64 \<Rightarrow> u64 \<Rightarrow> string \<Rightarrow> (u32 \<times> val list) list machine" where
  "sample_machine receiver code action = \<lparr>locals = [receiver, code, string_to_name action],
     arity = \<lambda>f. if f = 5 \<or> f = 6 then 3 else 2,
     fn = \<lambda>f args w. Inr (if f = 6 then [I32 1] else [], w @ [(f, args)])\<rparr>"

definition sample_code :: "string option \<Rightarrow> instr list" where
  "sample_code pre = (case create_dispatch_function (sample_link pre) of Inr c \<Rightarrow> c | Inl _ \<Rightarrow> [])"

lemma sample_created: "create_dispatch_function (sample_link None) = Inr (sample_code None)"
  "create_dispatch_function (sample_link (Some ''pre_dispatch'')) = Inr (sample_code (Some ''pre_dispatch''))"
  by code_simp+

lemma sample_typed: "typed (sample_link None) (sample_machine r c a)" "typed (sample_link (Some ''pre_dispatch'')) (sample_machine r c a)"
proof -
  have tab: "notify_table (sample_link pre) = [(''9-1'', [''transfer:on_move''])]" for pre
  proof -
    have "collect_notify [] 0 [] [''9-1::transfer:on_move''] = Inr (1, [(''9-1'', [''transfer:on_move''])])" by code_simp
    then show ?thesis by (simp add: notify_table_def sample_link_def)
  qed
  have acts: "actions_of (sample_link pre) = [''add:do_add'', ''get:do_get'']" for pre by (simp add: actions_of_def sample_link_def)
  have idx: "after_colon ''add:do_add'' = ''do_add''" "after_colon ''get:do_get'' = ''do_get''" "after_colon ''transfer:on_move'' = ''on_move''"
    by code_simp+
  show "typed (sample_link None) (sample_machine r c a)" "typed (sample_link (Some ''pre_dispatch'')) (sample_machine r c a)"
    unfolding typed_def tab acts by (simp_all add: handler_index_def idx sample_link_def sample_machine_def takes_def)
qed

theorem dispatcher_correct_witness:
  "run_function (sample_machine 7 7 ''get'') (sample_code None) [] = Some (Inr [(3, [I64 7, I64 7]), (5, [I64 7, I64 7, I64 (string_to_name ''get'')])])
   \<and> run_function (sample_machine 7 9437185 ''transfer'') (sample_code None) [] =
     Some (bindr (call_symbol (sample_link None) (sample_machine 7 9437185 ''transfer'') ''__wasm_call_ctors'' (\<lambda>i. i \<noteq> 0) [] [])
       (main_spec (sample_link None) (sample_machine 7 9437185 ''transfer'')))"
proof -
  have none: "find_function (sample_link None) ''pre_dispatch'' = None" by (simp add: sample_link_def)
  have "bindr (call_symbol (sample_link None) (sample_machine 7 7 ''get'') ''__wasm_call_ctors'' (\<lambda>i. i \<noteq> 0) [] [])
      (main_spec (sample_link None) (sample_machine 7 7 ''get'')) = Inr [(3, [I64 7, I64 7]), (5, [I64 7, I64 7, I64 (string_to_name ''get'')])]"
    by code_simp
  then show ?thesis
    using dispatcher_correct [OF sample_created(1) none sample_typed(1), of 7 7 "''get''" "[]"]
      dispatcher_correct [OF sample_created(1) none sample_typed(1), of 7 9437185 "''transfer''" "[]"] by simp
qed

text \<open>
  C15. A contract with \<^verbatim>\<open>pre_dispatch\<close>. The generator opens an \<^verbatim>\<open>if\<close> on its result and writes a single
  \<^verbatim>\<open>end\<close>, meant to close the body, which closes the \<^verbatim>\<open>if\<close>: the body does not validate. With
  one more \<^verbatim>\<open>end\<close> it would run the dispatcher when \<^verbatim>\<open>pre_dispatch\<close> gives true and report the failure otherwise.
\<close>

theorem dispatcher_pre_unclosed:
  assumes "create_dispatch_function lk = Inr code" "find_function lk ''pre_dispatch'' = Some p" "typed lk M"
    and "arity M p = 3" "\<And>args w rs w'. fn M p args w = Inr (rs, w') \<Longrightarrow> \<exists>c. rs = [I32 c]"
  shows "validate code = None \<and> run_function M (code @ [I_end]) w =
    Some (bindr (call_symbol lk M ''__wasm_call_ctors'' (\<lambda>i. i \<noteq> 0) [] w) (\<lambda>w.
          bindr (fn M p (map I64 (locals M)) w) (\<lambda>(rs, w).
            if rs = [I32 0] then assert_with lk M wasm_error_pre_dispatch_fail w else main_spec lk M w)))"
proof -
  let ?args = "map Plain [I_get_local 0, I_get_local 1, I_get_local 2, I_call p]" and ?fail = "assert_part lk wasm_error_pre_dispatch_fail"
  let ?b = "ctors_part lk @ ?args @ [Cond (main_part lk) ?fail]"
  have as: "find_function lk ''wasm_assert_code'' \<noteq> None"
    and code: "code = flats (ctors_part lk @ ?args) @ I_if # flats (main_part lk) @ I_else # flats ?fail @ [I_end]"
    using create_dispatch_function_eq [OF assms(1)] assms(2) by simp_all
  have simp: "simples (ctors_part lk @ ?args)" "simples ?b" by (simp_all add: simples_parts simple_instr_def)
  note L = locals3 [OF typedD(1) [OF assms(3)]]
  have "validate code = None"
    unfolding validate_def code validate_flat(2) [OF simp(1)] by (simp add: validate_flat(2) simples_parts)
  moreover have "code @ [I_end] = flats ?b @ [I_end]" by (simp add: code)
  then have "validate (code @ [I_end]) = Some ?b" using validate_flats [OF simp(2)] by simp
  moreover have pre: "execs M (?args @ [Cond (main_part lk) ?fail]) ([], w) = mapr (Pair []) (bindr (fn M p (map I64 (locals M)) w) (\<lambda>(rs, w).
      if rs = [I32 0] then assert_with lk M wasm_error_pre_dispatch_fail w else main_spec lk M w))" for w
  proof (cases "fn M p (map I64 (locals M)) w")
    case (Inl e)
    then show ?thesis using typedD(1) [OF assms(3)] assms(4) unfolding L by (simp add: exec_instr.simps(1) numeral_3_eq_3)
  next
    case (Inr x)
    obtain c w' where "x = ([I32 c], w')" using assms(5) [of "map I64 (locals M)" w "fst x" "snd x"] Inr by (cases x) auto
    then show ?thesis
      using Inr typedD(1) [OF assms(3)] assms(4) execs_main [OF assms(3) as, of "[]" w'] execs_assert [OF assms(3) as, of _ "[]" w']
      unfolding L by (simp add: exec_instr.simps(1) numeral_3_eq_3)
  qed
  have snd: "mapr snd (mapr (Pair stk) r) = r" for stk :: "val list" and r :: "'a res" by (cases r) simp_all
  have dist: "mapr snd (bindr r f) = bindr r (\<lambda>w. mapr snd (f w))" for r :: "'a res" and f :: "'a \<Rightarrow> (val list \<times> 'a) res" by (cases r) simp_all
  have "mapr snd (execs M ?b ([], w)) = bindr (call_symbol lk M ''__wasm_call_ctors'' (\<lambda>i. i \<noteq> 0) [] w) (\<lambda>w.
          bindr (fn M p (map I64 (locals M)) w) (\<lambda>(rs, w).
            if rs = [I32 0] then assert_with lk M wasm_error_pre_dispatch_fail w else main_spec lk M w))"
    unfolding execs_append [of M "ctors_part lk"] execs_call_part(1) [OF assms(3)] bindr_Pair pre dist snd ..
  ultimately show ?thesis by (simp add: run_function_def)
qed

theorem dispatcher_pre_unclosed_witness: "validate (sample_code (Some ''pre_dispatch'')) = None"
proof -
  have "find_function (sample_link (Some ''pre_dispatch'')) ''pre_dispatch'' = Some 6" by (simp add: sample_link_def)
  from dispatcher_pre_unclosed [OF sample_created(2) this sample_typed(2), of 7 7 "''get''" "[]"] show ?thesis
    by (simp add: sample_machine_def)
qed

section \<open>The bytes decode to the instructions\<close>

fun decode_uleb128 :: "byte list \<Rightarrow> (nat \<times> byte list) option" where
  "decode_uleb128 [] = None"
| "decode_uleb128 (b # bs) =
     (if unat b < 128 then Some (unat b, bs) else map_option (\<lambda>(v, r). (unat b - 128 + 128 * v, r)) (decode_uleb128 bs))"

fun decode_sleb128 :: "byte list \<Rightarrow> (int \<times> byte list) option" where
  "decode_sleb128 [] = None"
| "decode_sleb128 (b # bs) =
     (if uint b < 64 then Some (uint b, bs) else if uint b < 128 then Some (uint b - 128, bs)
      else map_option (\<lambda>(v, r). (uint b - 128 + 128 * v, r)) (decode_sleb128 bs))"

fun decode_instr :: "byte list \<Rightarrow> (instr \<times> byte list) option" where
  "decode_instr [] = None"
| "decode_instr (b # bs) =
     (if b = 0x10 then map_option (map_prod (\<lambda>n. I_call (of_nat n)) id) (decode_uleb128 bs)
      else if b = 0x04 then (case bs of t # r \<Rightarrow> if t = 0x40 then Some (I_if, r) else None | [] \<Rightarrow> None)
      else if b = 0x05 then Some (I_else, bs)
      else if b = 0x0B then Some (I_end, bs)
      else if b = 0x20 then map_option (map_prod (\<lambda>n. I_get_local (of_nat n)) id) (decode_uleb128 bs)
      else if b = 0x51 then Some (I_i64_eq, bs)
      else if b = 0x41 then map_option (map_prod (\<lambda>n. I_i32_const (word_of_int n)) id) (decode_sleb128 bs)
      else if b = 0x42 then map_option (map_prod (\<lambda>n. I_i64_const (word_of_int n)) id) (decode_sleb128 bs)
      else None)"

fun decode_instrs :: "nat \<Rightarrow> byte list \<Rightarrow> instr list option" where
  "decode_instrs 0 bs = (if bs = [] then Some [] else None)"
| "decode_instrs (Suc n) bs =
     (if bs = [] then Some [] else Option.bind (decode_instr bs) (\<lambda>(i, r). map_option (Cons i) (decode_instrs n r)))"

text \<open>A function body: its size, the number of local variables, here none, and the code.\<close>

definition decode_body :: "byte list \<Rightarrow> instr list option" where
  "decode_body bs = Option.bind (decode_uleb128 bs) (\<lambda>(n, body).
     if length body = n then (case body of b # r \<Rightarrow> if b = 0 then decode_instrs (length r) r else None | [] \<Rightarrow> None) else None)"

lemma unat_of_nat_byte: "n < 256 \<Longrightarrow> unat (of_nat n :: byte) = n"
  by (simp add: unat_of_nat take_bit_nat_eq_self)

lemma uint_of_int_byte: "0 \<le> n \<Longrightarrow> n < 256 \<Longrightarrow> uint (word_of_int n :: byte) = n"
  by (simp add: uint_word_of_int)

lemma decode_uleb: "decode_uleb128 (encode_uleb128 n @ rest) = Some (n, rest)"
proof (induction n rule: encode_uleb128.induct)
  case (1 n)
  show ?case
  proof (cases "n div 128 \<noteq> 0")
    case True
    have "unat (of_nat (n mod 128 + 128) :: byte) = n mod 128 + 128" by (rule unat_of_nat_byte) simp
    then show ?thesis using 1 True by (simp add: encode_uleb128.simps [of n] del: of_nat_add)
  next
    case False
    then have "n < 128" by simp
    then have "unat (of_nat n :: byte) = n" by (intro unat_of_nat_byte) simp
    then show ?thesis using \<open>n < 128\<close> by (simp add: encode_uleb128.simps [of n])
  qed
qed

lemma decode_sleb: "decode_sleb128 (encode_sleb128 v @ rest) = Some (v, rest)"
proof (induction v rule: encode_sleb128.induct)
  case (1 v)
  let ?b = "v mod 128" and ?w = "v div 128"
  have b: "0 \<le> ?b" "?b < 128" "v = 128 * ?w + ?b" by simp_all
  show ?case
  proof (cases "?w = 0 \<and> ?b < 64 \<or> ?w = -1 \<and> ?b \<ge> 64")
    case True
    have "uint (word_of_int ?b :: byte) = ?b" using b by (intro uint_of_int_byte) simp_all
    moreover have "encode_sleb128 v = [word_of_int ?b]" using True by (subst encode_sleb128.simps) (auto simp: Let_def)
    ultimately have "decode_sleb128 (encode_sleb128 v @ rest) = Some (if ?b < 64 then ?b else ?b - 128, rest)" using b(2) by simp
    moreover have "(if ?b < 64 then ?b else ?b - 128) = v" using True b(3) by (simp only: split: if_split) linarith
    ultimately show ?thesis by (simp only:)
  next
    case False
    have "uint (word_of_int (?b + 128) :: byte) = ?b + 128" using b by (intro uint_of_int_byte) simp_all
    moreover have "encode_sleb128 v = word_of_int (?b + 128) # encode_sleb128 ?w" using False by (subst encode_sleb128.simps) (auto simp: Let_def)
    moreover have "\<not> ?b + 128 < 64" "\<not> ?b + 128 < 128" using b(1) by linarith+
    moreover have "decode_sleb128 (encode_sleb128 ?w @ rest) = Some (?w, rest)" using 1 [of ?b ?w] False by blast
    ultimately have "decode_sleb128 (encode_sleb128 v @ rest) = Some (?b + 128 - 128 + 128 * ?w, rest)" by simp
    also have "?b + 128 - 128 + 128 * ?w = v" using b(3) by linarith
    finally show ?thesis .
  qed
qed

lemma decode_instr_bytes:
  assumes "\<And>c. i = I_i32_const c \<Longrightarrow> c = 0"
  shows "decode_instr (instr_bytes i @ rest) = Some (i, rest)"
proof (cases i)
  case (I_i32_const c)
  then have "instr_bytes i = [0x41, 0]" using assms by (simp add: encode_uleb128.simps)
  then show ?thesis using I_i32_const assms by simp
qed (simp_all add: decode_uleb decode_sleb)

lemma instr_bytes_not_Nil: "instr_bytes i \<noteq> []"
  by (cases i) simp_all

lemma decode_instrs_bytes:
  "(\<And>c. I_i32_const c \<in> set code \<Longrightarrow> c = 0) \<Longrightarrow> length (concat (map instr_bytes code)) \<le> n \<Longrightarrow>
   decode_instrs n (concat (map instr_bytes code)) = Some code"
proof (induction code arbitrary: n)
  case Nil
  then show ?case by (cases n) simp_all
next
  case (Cons i code)
  have "length (instr_bytes i) \<noteq> 0" using instr_bytes_not_Nil by simp
  moreover have "length (instr_bytes i) + length (concat (map instr_bytes code)) \<le> n" using Cons.prems(2) by simp
  ultimately obtain m where n: "n = Suc m" "length (concat (map instr_bytes code)) \<le> m" by (intro that [of "n - 1"]) linarith+
  have "decode_instr (instr_bytes i @ concat (map instr_bytes code)) = Some (i, concat (map instr_bytes code))"
    using Cons.prems(1) by (intro decode_instr_bytes) simp
  then show ?case using Cons.IH [OF _ n(2)] Cons.prems(1) n(1) instr_bytes_not_Nil [of i] by simp
qed

lemma flats_consts:
  "simple s \<Longrightarrow> I_i32_const c \<in> set (flat s) \<Longrightarrow> c = 0"
  "simples ss \<Longrightarrow> I_i32_const c \<in> set (flats ss) \<Longrightarrow> c = 0"
  by (induction s and ss rule: flat_flats.induct) (auto simp: simple_instr_def)

text \<open>
  C16. The bytes of the entry point. When the code section entry that the linker writes is smaller than
  4 GiB, a WebAssembly decoder reads its size, no local variables and exactly the instructions
  that were generated.
\<close>

theorem dispatcher_bytes:
  assumes "create_dispatch_function lk = Inr code" "length (concat (map instr_bytes code)) + 1 < 2 ^ 32"
  shows "decode_body (dispatch_body code) = Some code"
proof -
  have "c = 0" if "I_i32_const c \<in> set code" for c
    using that create_dispatch_function_eq [OF assms(1)] flats_consts(2) [OF simples_parts(1)] flats_consts(2) [OF simples_parts(2)]
      flats_consts(2) [OF simples_parts(3)] by (auto split: option.splits)
  then have code: "decode_instrs (length (concat (map instr_bytes code))) (concat (map instr_bytes code)) = Some code"
    by (intro decode_instrs_bytes) simp_all
  have zero: "encode_uleb128 0 = [0]" by (simp add: encode_uleb128.simps)
  let ?body = "encode_uleb128 0 @ concat (map instr_bytes code)"
  have "unat (of_nat (length ?body) :: u32) = length ?body" using assms(2) zero by (intro unat_of_nat_u32) simp
  then have "dispatch_body code = encode_uleb128 (length ?body) @ ?body" by (simp only: dispatch_body_def Let_def)
  then show ?thesis using decode_uleb [of "length ?body" ?body] code zero by (simp add: decode_body_def)
qed

theorem dispatcher_bytes_witness: "decode_body (dispatch_body (sample_code None)) = Some (sample_code None)"
proof -
  have "length (concat (map instr_bytes (sample_code None))) < 200" by code_simp
  then show ?thesis by (intro dispatcher_bytes [OF sample_created(1)]) simp
qed

end
