(* ===== verification/System.thy ===== *)
theory System
  imports Inline_Transaction Hash256 Asset
begin

text \<open>
  The queries of the chain and the results of calls: \<^verbatim>\<open>libraries/wasmlib/wasmlib.cpp\<close> and
  \<^verbatim>\<open>rpc/rpc.hpp\<close>. The host functions are fields of the record \<open>chain\<close>; a buffer that the host
  fills is what the host gives, cut to its size and with zeros behind.
\<close>

definition current_block_time :: "'w chain \<Rightarrow> 'w \<Rightarrow> u64" where
  "current_block_time ch w = host_current_time ch w"

definition get_active_producers :: "'w chain \<Rightarrow> 'w \<Rightarrow> regid list" where
  "get_active_producers ch w =
     (let prod_cnt = (of_nat (8 * length (host_active_producers ch w)) :: u32) div 8;
          ids = take (unat prod_cnt) (host_active_producers ch w)
      in map Regid (ids @ replicate (unat prod_cnt - length ids) 0))"

definition get_txid :: "'w chain \<Rightarrow> 'w \<Rightarrow> hash256" where
  "get_txid ch w = hash256_of_buffer (host_txid ch w)"

definition get_system_asset_price :: "'w chain \<Rightarrow> mem \<Rightarrow> u32 \<Rightarrow> symbol \<Rightarrow> symbol \<Rightarrow> 'w \<Rightarrow> asset res" where
  "get_system_asset_price ch m a base quote w =
     (let price = host_system_asset_price ch (symbol_raw base) (symbol_raw quote) w;
          sz = of_nat (length price) :: u32
      in if sz = 0 then Inr asset_default
         else unpack_bytes deser_asset asset_default m a (take (unat sz) price))"

definition emit_result_value :: "'w chain \<Rightarrow> string \<Rightarrow> string \<Rightarrow> byte list \<Rightarrow> 'w \<Rightarrow> 'w res" where
  "emit_result_value ch nm type v w = host_emit_result ch nm type v w"

definition emit_result ::
  "'w chain \<Rightarrow> mem \<Rightarrow> u32 \<Rightarrow> ('t \<Rightarrow> sink \<Rightarrow> sink res) \<Rightarrow> string \<Rightarrow> string \<Rightarrow> 't \<Rightarrow> 'w \<Rightarrow> 'w res" where
  "emit_result ch m a ser nm type val w = bindr (pack m a ser val) (\<lambda>v. emit_result_value ch nm type v w)"

lemma get_active_producers_all:
  assumes "8 * length (host_active_producers ch w) < 2 ^ 32"
  shows "get_active_producers ch w = map Regid (host_active_producers ch w)"
proof -
  let ?n = "of_nat (8 * length (host_active_producers ch w)) :: u32"
  have "unat ?n = 8 * length (host_active_producers ch w)" using assms by (intro unat_of_nat_u32) simp
  then have "unat (?n div 8) = length (host_active_producers ch w)" by (simp add: unat_div del: of_nat_mult)
  then show ?thesis unfolding get_active_producers_def Let_def by (simp del: of_nat_mult)
qed

text \<open>A price that the host packs as an asset arrives as that asset.\<close>

lemma get_system_asset_price_packed:
  assumes "host_system_asset_price ch (symbol_raw base) (symbol_raw quote) w = asset_enc x" "unat a + 16 < 2 ^ 32"
  shows "get_system_asset_price ch m a base quote w = Inr x"
proof -
  have len: "length (asset_enc x) = 16" by (simp add: asset_enc_def)
  then have "unat (of_nat (length (asset_enc x)) :: u32) = 16" "(of_nat (length (asset_enc x)) :: u32) \<noteq> 0" by simp_all
  then show ?thesis
    using asset_codec.unpack_enc [of x a m] assms len by (simp add: get_system_asset_price_def Let_def)
qed

end
