(* ===== verification/Uniswap.thy ===== *)
theory Uniswap
  imports Db Time System Dispatcher
begin

text \<open>
  The exchange contract \<^verbatim>\<open>examples/V4/uniswap\<close>: a pool of two tokens, each held by a token
  contract that the exchange calls. The global variable \<^verbatim>\<open>g_market\<close> is the option \<open>g\<close> that the
  actions take and return beside the world; \<^verbatim>\<open>pre_dispatch\<close> loads it from the database and
  \<^verbatim>\<open>post_dispatch\<close> stores it. The unsigned 128-bit arithmetic of the compiler is that of 128-bit words, to
  which a signed 64-bit integer is extended with its sign. The log lines only print. The text of the
  error in \<^verbatim>\<open>swap\<close>, formatted from its arguments, is the parameter \<open>fmt\<close>.
\<close>

section \<open>The market\<close>

record market_t =
  mk_id :: regid
  mk_token0 :: regid
  mk_token1 :: regid
  mk_liquidity_token :: regid
  mk_total_supply :: asset
  mk_reserve0 :: asset
  mk_reserve1 :: asset
  mk_timestamp_last :: time_point_sec
  mk_closed :: bool
  mk_price0 :: u128
  mk_price1 :: u128

definition market_default :: market_t where
  "market_default = \<lparr>mk_id = regid_default, mk_token0 = regid_default, mk_token1 = regid_default, mk_liquidity_token = regid_default,
     mk_total_supply = asset_default, mk_reserve0 = asset_default, mk_reserve1 = asset_default, mk_timestamp_last = tps_default,
     mk_closed = False, mk_price0 = 0, mk_price1 = 0\<rparr>"

definition market_make :: "u64 \<Rightarrow> market_t" where
  "market_make r = market_default\<lparr>mk_id := Regid r\<rparr>"

type_synonym market_fields_t =
  "regid \<times> regid \<times> regid \<times> regid \<times> asset \<times> asset \<times> asset \<times> time_point_sec \<times> bool \<times> u128 \<times> u128 \<times> unit"

definition market_fields :: "market_t \<Rightarrow> market_fields_t" where
  "market_fields mk = (mk_id mk, mk_token0 mk, mk_token1 mk, mk_liquidity_token mk, mk_total_supply mk, mk_reserve0 mk, mk_reserve1 mk,
     mk_timestamp_last mk, mk_closed mk, mk_price0 mk, mk_price1 mk, ())"

definition market_of_fields :: "market_fields_t \<Rightarrow> market_t" where
  "market_of_fields = (\<lambda>(i, t0, t1, lt, ts, r0, r1, ti, c, p0, p1, _). \<lparr>mk_id = i, mk_token0 = t0, mk_token1 = t1,
     mk_liquidity_token = lt, mk_total_supply = ts, mk_reserve0 = r0, mk_reserve1 = r1, mk_timestamp_last = ti,
     mk_closed = c, mk_price0 = p0, mk_price1 = p1\<rparr>)"

definition ser_market :: "market_t \<Rightarrow> sink \<Rightarrow> sink res" where
  "ser_market = ser_class market_fields
     (ser_tuple ser_regid (ser_tuple ser_regid (ser_tuple ser_regid (ser_tuple ser_regid (ser_tuple ser_asset (ser_tuple ser_asset
     (ser_tuple ser_asset (ser_tuple ser_time_point_sec (ser_tuple ser_bool (ser_tuple ser_primitive (ser_tuple ser_primitive ser_tuple_nil)))))))))))"

definition deser_market :: "market_t \<Rightarrow> datastream \<Rightarrow> (market_t \<times> datastream) res" where
  "deser_market = deser_class market_fields market_of_fields
     (deser_tuple deser_regid (deser_tuple deser_regid (deser_tuple deser_regid (deser_tuple deser_regid (deser_tuple deser_asset
     (deser_tuple deser_asset (deser_tuple deser_asset (deser_tuple deser_time_point_sec (deser_tuple deser_bool
     (deser_tuple deser_primitive (deser_tuple deser_primitive deser_tuple_nil)))))))))))"

definition market_table :: "(market_t, u64) index_table" where
  "market_table = \<lparr>it_name = name_literal ''market'', it_indices = [], it_ser = ser_market, it_deser = deser_market,
     it_default = market_default, it_primary = \<lambda>mk. regid_value (mk_id mk),
     it_ser_primary = ser_primitive, it_deser_primary = deser_primitive, it_default_primary = 0\<rparr>"

section \<open>Arithmetic\<close>

definition minimum_liquidity :: u128 where
  "minimum_liquidity = 10 * 10 * 10"

definition precision_1 :: u128 where
  "precision_1 = 100000000"

definition of_int64 :: "u64 \<Rightarrow> u128" where
  "of_int64 v = word_of_int (sint v)"

definition divide_decimal :: "u128 \<Rightarrow> u128 \<Rightarrow> u128 res" where
  "divide_decimal a b = (if b = 0 then Inl (Undefined ''division by zero'') else Inr (a * precision_1 div b))"

definition multiply_decimal :: "u128 \<Rightarrow> u128 \<Rightarrow> u128" where
  "multiply_decimal a b = a * b div precision_1"

function sqrt_loop :: "u128 \<Rightarrow> u128 \<Rightarrow> u128 \<Rightarrow> u128 res" where
  "sqrt_loop y x z =
     (if x < z then if x = 0 then Inl (Undefined ''division by zero'') else sqrt_loop y ((y div x + x) div 2) x
      else Inr z)"
  by pat_completeness auto
termination by (relation "measure (\<lambda>(y, x, z). unat z)") (auto simp: word_less_nat_alt)

declare sqrt_loop.simps [simp del]

definition sqrt :: "u128 \<Rightarrow> u128 res" where
  "sqrt y = (if y > 3 then sqrt_loop y (y div 2 + 1) y else if y \<noteq> 0 then Inr 1 else Inr 0)"

definition add_symbol :: "mem \<Rightarrow> u32 \<Rightarrow> symbol \<Rightarrow> symbol \<Rightarrow> string" where
  "add_symbol m a symbol0 symbol1 =
     (let code = code_to_string m a (symbol_get_code symbol0) @ code_to_string m a (symbol_get_code symbol1) in take 7 code)"

section \<open>Calls of the token contracts\<close>

definition wasmio_code :: "regid \<Rightarrow> permission list" where
  "wasmio_code r = [\<lparr>perm_account = r, perm_name = name_literal ''wasmio_code''\<rparr>]"

definition get_return_wasm :: "'w chain \<Rightarrow> mem \<Rightarrow> u32 \<Rightarrow> u64 \<Rightarrow> 'w \<Rightarrow> asset res" where
  "get_return_wasm ch m a sz w = unpack_bytes deser_asset asset_default m a (get_return ch (ucast sz) w)"

definition call_balance_of ::
  "'w chain \<Rightarrow> mem \<Rightarrow> u32 \<Rightarrow> regid \<Rightarrow> regid \<Rightarrow> regid \<Rightarrow> symbol \<Rightarrow> 'w \<Rightarrow> (asset \<times> 'w) res" where
  "call_balance_of ch m a self token owner symb w =
     bindr (transaction_make m a (ser_tuple ser_regid (ser_tuple ser_symbol ser_tuple_nil)) token (name_literal ''balance_of'')
       (wasmio_code self) (owner, symb, ())) (\<lambda>trx.
     bindr (transaction_call ch m a trx w) (\<lambda>(sz, w).
     bindr (get_return_wasm ch m a sz w) (\<lambda>b. Inr (b, w))))"

definition call_mint :: "'w chain \<Rightarrow> mem \<Rightarrow> u32 \<Rightarrow> regid \<Rightarrow> regid \<Rightarrow> regid \<Rightarrow> asset \<Rightarrow> 'w \<Rightarrow> 'w res" where
  "call_mint ch m a self token to qty w =
     bindr (transaction_make m a (ser_tuple ser_regid (ser_tuple ser_asset (ser_tuple ser_string ser_tuple_nil))) token
       (name_literal ''mint'') (wasmio_code self) (to, qty, ''mint'', ())) (\<lambda>trx.
     mapr snd (transaction_call ch m a trx w))"

definition call_burn :: "'w chain \<Rightarrow> mem \<Rightarrow> u32 \<Rightarrow> regid \<Rightarrow> regid \<Rightarrow> regid \<Rightarrow> asset \<Rightarrow> 'w \<Rightarrow> 'w res" where
  "call_burn ch m a self token from qty w =
     bindr (transaction_make m a (ser_tuple ser_regid (ser_tuple ser_asset (ser_tuple ser_string ser_tuple_nil))) token
       (name_literal ''burn'') (wasmio_code self) (from, qty, ''BURN'', ())) (\<lambda>trx.
     mapr snd (transaction_call ch m a trx w))"

definition call_transfer :: "'w chain \<Rightarrow> mem \<Rightarrow> u32 \<Rightarrow> regid \<Rightarrow> regid \<Rightarrow> regid \<Rightarrow> asset \<Rightarrow> 'w \<Rightarrow> 'w res" where
  "call_transfer ch m a token from to qty w =
     bindr (transaction_make m a (ser_tuple ser_regid (ser_tuple ser_regid (ser_tuple ser_asset (ser_tuple ser_string ser_tuple_nil)))) token
       (name_literal ''transfer'') (wasmio_code from) (from, to, qty, ''transfer'', ())) (\<lambda>trx.
     mapr snd (transaction_call ch m a trx w))"

definition call_balances ::
  "'w chain \<Rightarrow> mem \<Rightarrow> u32 \<Rightarrow> regid \<Rightarrow> market_t \<Rightarrow> 'w \<Rightarrow> (asset \<times> asset \<times> 'w) res" where
  "call_balances ch m a self mk w =
     bindr (call_balance_of ch m a self (mk_token0 mk) self (asset_symbol (mk_reserve0 mk)) w) (\<lambda>(balance0, w).
     bindr (call_balance_of ch m a self (mk_token1 mk) self (asset_symbol (mk_reserve1 mk)) w) (\<lambda>(balance1, w).
       Inr (balance0, balance1, w)))"

section \<open>The actions\<close>

definition has_market :: "market_t option \<Rightarrow> market_t res" where
  "has_market g = bindr (check (g \<noteq> None) ''market does not exist'') (\<lambda>_. Inr (the g))"

definition price_step :: "asset \<Rightarrow> asset \<Rightarrow> u64 \<Rightarrow> u128 \<Rightarrow> u128 res" where
  "price_step reserve other time_elapsed price =
     bindr (divide_decimal (multiply_decimal (of_int64 (amount reserve)) precision_1) (of_int64 (amount other))) (\<lambda>p.
       Inr (price + p * ucast time_elapsed))"

definition uniswap_update :: "'w chain \<Rightarrow> market_t option \<Rightarrow> asset \<Rightarrow> asset \<Rightarrow> 'w \<Rightarrow> market_t option res" where
  "uniswap_update ch g balance0 balance1 w =
     bindr (has_market g) (\<lambda>mk.
       let block_timestamp = tps_make (current_block_time ch w) in
       bindr (tps_diff block_timestamp (mk_timestamp_last mk)) (\<lambda>d.
         let time_elapsed = us_count d in
         bindr (if time_elapsed > 0 \<and> amount (mk_reserve0 mk) \<noteq> 0 \<and> amount (mk_reserve1 mk) \<noteq> 0
                then bindr (price_step (mk_reserve0 mk) (mk_reserve1 mk) time_elapsed (mk_price0 mk)) (\<lambda>p0.
                     bindr (price_step (mk_reserve1 mk) (mk_reserve0 mk) time_elapsed (mk_price1 mk)) (\<lambda>p1.
                       Inr (mk\<lparr>mk_price0 := p0, mk_price1 := p1\<rparr>)))
                else Inr mk) (\<lambda>mk.
           Inr (Some (mk\<lparr>mk_reserve0 := balance0, mk_reserve1 := balance1, mk_timestamp_last := block_timestamp\<rparr>)))))"

definition uniswap_init ::
  "'w chain \<Rightarrow> mem \<Rightarrow> u32 \<Rightarrow> regid \<Rightarrow> regid \<Rightarrow> regid \<Rightarrow> symbol \<Rightarrow> symbol \<Rightarrow> regid \<Rightarrow> market_t option \<times> 'w \<Rightarrow> (market_t option \<times> 'w) res" where
  "uniswap_init ch m a self token0 token1 symbol0 symbol1 liquidity_token = (\<lambda>(g, w).
     bindr (require_auth ch (get_maintainer ch self w) w) (\<lambda>_.
     bindr (check (symbol_raw symbol0 < symbol_raw symbol1) ''symbol1 must be > symbol0'') (\<lambda>_.
     bindr (check (g = None) ''market already exist'') (\<lambda>_.
     bindr (asset_make 0 symbol0) (\<lambda>r0.
     bindr (asset_make 0 symbol1) (\<lambda>r1.
     bindr (symbol_of_string (add_symbol m a symbol0 symbol1) 8) (\<lambda>symb.
     bindr (asset_make 0 symb) (\<lambda>supply.
       Inr (Some ((market_make (regid_value self))\<lparr>mk_token0 := token0, mk_token1 := token1, mk_reserve0 := r0, mk_reserve1 := r1,
         mk_timestamp_last := tps_assign 0, mk_liquidity_token := liquidity_token, mk_total_supply := supply, mk_closed := False\<rparr>), w)))))))))"

text \<open>What a deposit of \<open>amt\<close> is worth in liquidity.\<close>

definition liquidity_of :: "asset \<Rightarrow> asset \<Rightarrow> asset \<Rightarrow> u128 res" where
  "liquidity_of amt supply reserve =
     divide_decimal (multiply_decimal (of_int64 (amount amt)) (of_int64 (amount supply))) (of_int64 (amount reserve))"

definition uniswap_mint :: "'w chain \<Rightarrow> mem \<Rightarrow> u32 \<Rightarrow> regid \<Rightarrow> regid \<Rightarrow> market_t option \<times> 'w \<Rightarrow> (market_t option \<times> 'w) res" where
  "uniswap_mint ch m a self to = (\<lambda>(g, w).
     bindr (require_auth ch to w) (\<lambda>_.
     bindr (has_market g) (\<lambda>mk.
     bindr (check (\<not> mk_closed mk) ''market has been closed'') (\<lambda>_.
     bindr (call_balances ch m a self mk w) (\<lambda>(balance0, balance1, w).
     bindr (asset_sub balance0 (mk_reserve0 mk)) (\<lambda>amount0.
     bindr (asset_sub balance1 (mk_reserve1 mk)) (\<lambda>amount1.
     bindr (if amount (mk_total_supply mk) = 0
            then bindr (sqrt (multiply_decimal (of_int64 (amount amount0)) (of_int64 (amount amount1)))) (\<lambda>root.
                 bindr (asset_make (ucast (minimum_liquidity * precision_1)) (asset_symbol (mk_total_supply mk))) (\<lambda>init_liquidity.
                 bindr (call_mint ch m a self (mk_liquidity_token mk) self init_liquidity w) (\<lambda>w.
                   Inr (ucast (root - minimum_liquidity * precision_1) :: u64, mk\<lparr>mk_total_supply := init_liquidity\<rparr>, w))))
            else bindr (liquidity_of amount0 (mk_total_supply mk) (mk_reserve0 mk)) (\<lambda>l0.
                 bindr (liquidity_of amount1 (mk_total_supply mk) (mk_reserve1 mk)) (\<lambda>l1.
                   Inr (ucast (if l1 < l0 then l1 else l0), mk, w)))) (\<lambda>(liquidity, mk, w).
     bindr (check (sint liquidity > 0) ''insufficient liquidity minted'') (\<lambda>_.
     bindr (asset_make liquidity (asset_symbol (mk_total_supply mk))) (\<lambda>to_mint_liquidity.
     bindr (call_mint ch m a self (mk_liquidity_token mk) to to_mint_liquidity w) (\<lambda>w.
     bindr (asset_add_assign (mk_total_supply mk) to_mint_liquidity) (\<lambda>supply.
     bindr (uniswap_update ch (Some (mk\<lparr>mk_total_supply := supply\<rparr>)) balance0 balance1 w) (\<lambda>g.
     bindr (pack m a ser_asset to_mint_liquidity) (\<lambda>bytes.
     bindr (set_return ch bytes w) (\<lambda>w. Inr (g, w))))))))))))))))"

text \<open>The share of a balance that belongs to some liquidity.\<close>

definition share_of :: "asset \<Rightarrow> asset \<Rightarrow> asset \<Rightarrow> asset res" where
  "share_of balance liquidity supply =
     bindr (divide_decimal (multiply_decimal (of_int64 (amount liquidity)) precision_1) (of_int64 (amount supply))) (\<lambda>q.
     bindr (divide_decimal (multiply_decimal (of_int64 (amount balance)) q) precision_1) (\<lambda>v.
       asset_make (ucast v) (asset_symbol balance)))"

definition uniswap_burn :: "'w chain \<Rightarrow> mem \<Rightarrow> u32 \<Rightarrow> regid \<Rightarrow> regid \<Rightarrow> market_t option \<times> 'w \<Rightarrow> (market_t option \<times> 'w) res" where
  "uniswap_burn ch m a self to = (\<lambda>(g, w).
     bindr (require_auth ch to w) (\<lambda>_.
     bindr (has_market g) (\<lambda>mk.
     bindr (check (\<not> mk_closed mk) ''market has been closed'') (\<lambda>_.
     bindr (call_balances ch m a self mk w) (\<lambda>(balance0, balance1, w).
     bindr (call_balance_of ch m a self (mk_liquidity_token mk) to (asset_symbol (mk_total_supply mk)) w) (\<lambda>(to_burn_liquidity, w).
     bindr (share_of balance0 to_burn_liquidity (mk_total_supply mk)) (\<lambda>amount0.
     bindr (share_of balance1 to_burn_liquidity (mk_total_supply mk)) (\<lambda>amount1.
     bindr (call_burn ch m a self (mk_liquidity_token mk) to to_burn_liquidity w) (\<lambda>w.
     bindr (call_transfer ch m a (mk_token0 mk) self to amount0 w) (\<lambda>w.
     bindr (call_transfer ch m a (mk_token1 mk) self to amount1 w) (\<lambda>w.
     bindr (call_balances ch m a self mk w) (\<lambda>(balance0, balance1, w).
     bindr (asset_sub (mk_total_supply mk) to_burn_liquidity) (\<lambda>supply.
     bindr (uniswap_update ch (Some (mk\<lparr>mk_total_supply := supply\<rparr>)) balance0 balance1 w) (\<lambda>g.
     bindr (pack m a ser_asset to_burn_liquidity) (\<lambda>bytes.
     bindr (set_return ch bytes w) (\<lambda>w. Inr (g, w)))))))))))))))))"

text \<open>The amount paid in, as the contract computes it.\<close>

definition amount_in :: "asset \<Rightarrow> asset \<Rightarrow> asset \<Rightarrow> asset res" where
  "amount_in balance reserve amount_out =
     bindr (asset_sub reserve amount_out) (\<lambda>left. bindr (asset_greater balance left) (\<lambda>more.
       if more then bindr (asset_sub balance reserve) (\<lambda>d. asset_sub d amount_out)
       else asset_make 0 (asset_symbol reserve)))"

definition adjusted :: "asset \<Rightarrow> asset \<Rightarrow> asset res" where
  "adjusted balance paid =
     bindr (asset_mul balance 1000) (\<lambda>b. bindr (asset_mul paid 3) (\<lambda>f. asset_sub b f))"

definition uniswap_swap ::
  "'w chain \<Rightarrow> (asset \<Rightarrow> asset \<Rightarrow> u128 \<Rightarrow> u128 \<Rightarrow> string) \<Rightarrow> mem \<Rightarrow> u32 \<Rightarrow> regid \<Rightarrow> asset \<Rightarrow> asset \<Rightarrow> regid \<Rightarrow>
   market_t option \<times> 'w \<Rightarrow> (market_t option \<times> 'w) res" where
  "uniswap_swap ch fmt m a self amount0_out amount1_out to = (\<lambda>(g, w).
     bindr (check (asset_greater_int amount0_out 0 \<or> asset_greater_int amount1_out 0) ''insufficient output amount'') (\<lambda>_.
     bindr (has_market g) (\<lambda>mk.
     bindr (check (\<not> mk_closed mk) ''market has been closed'') (\<lambda>_.
     bindr (asset_less amount0_out (mk_reserve0 mk)) (\<lambda>less0.
     bindr (if less0 then Inr True else asset_less amount1_out (mk_reserve1 mk)) (\<lambda>less.
     bindr (check less ''insufficient liquidity'') (\<lambda>_.
     bindr (check (regid_neq (mk_token0 mk) to \<and> regid_neq (mk_token1 mk) to) ''invalid to'') (\<lambda>_.
     bindr (if asset_greater_int amount0_out 0 then call_transfer ch m a (mk_token0 mk) self to amount0_out w else Inr w) (\<lambda>w.
     bindr (if asset_greater_int amount1_out 0 then call_transfer ch m a (mk_token1 mk) self to amount1_out w else Inr w) (\<lambda>w.
     bindr (call_balances ch m a self mk w) (\<lambda>(balance0, balance1, w).
     bindr (amount_in balance0 (mk_reserve0 mk) amount0_out) (\<lambda>amount0_in.
     bindr (amount_in balance1 (mk_reserve1 mk) amount1_out) (\<lambda>amount1_in.
     bindr (check (asset_greater_int amount0_in 0 \<or> asset_greater_int amount0_in 0) ''insufficient input amount'') (\<lambda>_.
     bindr (adjusted balance0 amount0_in) (\<lambda>balance0_adjusted.
     bindr (adjusted balance1 amount1_in) (\<lambda>balance1_adjusted.
       let index0 = multiply_decimal (of_int64 (amount balance0_adjusted)) (of_int64 (amount balance1_adjusted));
           index1 = multiply_decimal (of_int64 (amount (mk_reserve0 mk))) (of_int64 (amount (mk_reserve1 mk))) * 1000 * 1000 in
       bindr (check (index0 \<ge> index1) (''contract_err_code:1000000 '' @ fmt balance0_adjusted balance1_adjusted index0 index1)) (\<lambda>_.
       bindr (uniswap_update ch (Some mk) balance0 balance1 w) (\<lambda>g. Inr (g, w)))))))))))))))))))"

text \<open>The balance asked for is that of the receiver, not of the exchange.\<close>

definition uniswap_skim :: "'w chain \<Rightarrow> mem \<Rightarrow> u32 \<Rightarrow> regid \<Rightarrow> regid \<Rightarrow> market_t option \<times> 'w \<Rightarrow> (market_t option \<times> 'w) res" where
  "uniswap_skim ch m a self to = (\<lambda>(g, w).
     bindr (require_auth ch (get_maintainer ch self w) w) (\<lambda>_.
     bindr (has_market g) (\<lambda>mk.
     bindr (call_balance_of ch m a self (mk_token0 mk) to (asset_symbol (mk_reserve0 mk)) w) (\<lambda>(b0, w).
     bindr (asset_sub b0 (mk_reserve0 mk)) (\<lambda>q0.
     bindr (call_transfer ch m a (mk_token0 mk) self to q0 w) (\<lambda>w.
     bindr (call_balance_of ch m a self (mk_token1 mk) to (asset_symbol (mk_reserve1 mk)) w) (\<lambda>(b1, w).
     bindr (asset_sub b1 (mk_reserve1 mk)) (\<lambda>q1.
     bindr (call_transfer ch m a (mk_token1 mk) self to q1 w) (\<lambda>w. Inr (g, w))))))))))"

definition uniswap_sync :: "'w chain \<Rightarrow> mem \<Rightarrow> u32 \<Rightarrow> regid \<Rightarrow> market_t option \<times> 'w \<Rightarrow> (market_t option \<times> 'w) res" where
  "uniswap_sync ch m a self = (\<lambda>(g, w).
     bindr (require_auth ch (get_maintainer ch self w) w) (\<lambda>_.
     bindr (has_market g) (\<lambda>mk.
     bindr (call_balances ch m a self mk w) (\<lambda>(balance0, balance1, w).
     bindr (uniswap_update ch g balance0 balance1 w) (\<lambda>g. Inr (g, w))))))"

definition uniswap_close :: "'w chain \<Rightarrow> regid \<Rightarrow> bool \<Rightarrow> market_t option \<times> 'w \<Rightarrow> (market_t option \<times> 'w) res" where
  "uniswap_close ch self closed = (\<lambda>(g, w).
     bindr (require_auth ch (get_maintainer ch self w) w) (\<lambda>_.
     bindr (has_market g) (\<lambda>mk. Inr (Some (mk\<lparr>mk_closed := closed\<rparr>), w))))"

definition uniswap_get_market :: "'w chain \<Rightarrow> mem \<Rightarrow> u32 \<Rightarrow> market_t option \<times> 'w \<Rightarrow> (market_t option \<times> 'w) res" where
  "uniswap_get_market ch m a = (\<lambda>(g, w).
     bindr (has_market g) (\<lambda>mk.
     bindr (pack m a ser_market mk) (\<lambda>bytes.
     bindr (set_return ch bytes w) (\<lambda>w. Inr (g, w)))))"

definition uniswap_pre_dispatch :: "'w chain \<Rightarrow> mem \<Rightarrow> u32 \<Rightarrow> regid \<Rightarrow> market_t option \<Rightarrow> 'w \<Rightarrow> (bool \<times> market_t option) res" where
  "uniswap_pre_dispatch ch m a self g w =
     bindr (get_object (chain_db ch) m a market_table (market_make (regid_value self)) w) (\<lambda>(has_found, market).
       Inr (True, if has_found then Some market else g))"

definition uniswap_post_dispatch :: "'w chain \<Rightarrow> mem \<Rightarrow> u32 \<Rightarrow> market_t option \<Rightarrow> 'w \<Rightarrow> 'w res" where
  "uniswap_post_dispatch ch m a g w =
     (case g of Some mk \<Rightarrow> set_object (chain_db ch) m a market_table mk w | None \<Rightarrow> Inr w)"

section \<open>The square root\<close>

lemma half_up: "a + 1 \<le> 2 * (a div 2 + 1)" for a :: nat
  by presburger

lemma double_half: "y < 2 * m \<Longrightarrow> y div 2 + y div 2 + 1 < 2 * m" for y m :: nat
  by presburger

lemma unat_u128_less: "unat (y :: u128) < 2 * 2 ^ 127"
proof -
  have "unat y < 2 ^ LENGTH(128)" by (rule unsigned_less)
  then show ?thesis by simp
qed

lemma four: "(2 :: nat) ^ 2 = 4"
  by simp

lemma newton_above: "y < ((y div x + x) div 2 + 1) ^ 2" if "0 < x" for x y :: nat
proof -
  let ?q = "y div x" and ?n = "(y div x + x) div 2"
  have "y < (?q + 1) * x" using that by (metis Suc_eq_plus1 dividend_less_div_times mult.commute mult_Suc add.commute)
  moreover have "4 * ((?q + 1) * x) \<le> (?q + 1 + x) ^ 2"
  proof -
    have "4 * (a * b) \<le> (a + b) ^ 2" for a b :: nat
    proof -
      have "int 4 * (int a * int b) \<le> (int a + int b) ^ 2"
        using zero_le_power2 [of "int a - int b"] by (simp add: power2_eq_square algebra_simps)
      then have "int (4 * (a * b)) \<le> int ((a + b) ^ 2)" by simp
      then show ?thesis by (simp only: of_nat_le_iff)
    qed
    then show ?thesis by blast
  qed
  moreover have "?q + 1 + x \<le> 2 * (?n + 1)" using half_up [of "?q + x"] by (simp only: ac_simps)
  then have "(?q + 1 + x) ^ 2 \<le> (2 * (?n + 1)) ^ 2" by (rule power_mono) simp
  then have "(?q + 1 + x) ^ 2 \<le> 4 * (?n + 1) ^ 2" by (simp only: power_mult_distrib four)
  ultimately show ?thesis by linarith
qed

lemma newton_stop: "z * z \<le> y" if "0 < z" "z \<le> (y div z + z) div 2" for y z :: nat
proof -
  have "z \<le> y div z" using that(2) by linarith
  then have "z * z \<le> y div z * z" by simp
  also have "\<dots> \<le> y" by simp
  finally show ?thesis .
qed

lemma newton_step:
  fixes x y :: u128
  assumes "2 \<le> unat x" "unat x \<le> unat y div 2 + 1"
  shows "unat ((y div x + x) div 2) = (unat y div unat x + unat x) div 2"
proof -
  have "unat y div unat x \<le> unat y div 2" using assms(1) by (intro div_le_mono2) simp_all
  then have "unat y div unat x + unat x \<le> unat y div 2 + unat y div 2 + 1" using assms(2) by linarith
  also have "\<dots> < 2 * 2 ^ 127" by (rule double_half [OF unat_u128_less])
  finally have "unat (y div x) + unat x < 2 ^ LENGTH(128)" by (simp add: unat_div)
  then have "unat (y div x + x) = unat y div unat x + unat x" by (simp add: unat_add_lem [THEN iffD1] unat_div)
  then show ?thesis by (simp add: unat_div)
qed

lemma sqrt_loop_root:
  fixes x y z :: u128
  assumes "3 < unat y" "unat x = (unat y div unat z + unat z) div 2" "unat y < (unat z + 1) ^ 2" "unat z \<le> unat y div 2 + 1" "0 < unat z"
  shows "\<exists>r. sqrt_loop y x z = Inr r \<and> unat r ^ 2 \<le> unat y \<and> unat y < (unat r + 1) ^ 2"
  using assms
proof (induction y x z rule: sqrt_loop.induct)
  case (1 y x z)
  show ?case
  proof (cases "x < z")
    case True
    have above: "unat y < (unat x + 1) ^ 2" using newton_above [of "unat z" "unat y"] "1.prems"(2,5) by simp
    have x2: "2 \<le> unat x"
    proof (rule ccontr)
      assume "\<not> 2 \<le> unat x"
      then have "(unat x + 1) ^ 2 \<le> 2 ^ 2" by (intro power_mono) simp_all
      then show False using above "1.prems"(1) by simp
    qed
    then have x0: "x \<noteq> 0" by auto
    have xb: "unat x \<le> unat y div 2 + 1" using True "1.prems"(4) by (simp add: word_less_nat_alt)
    have "\<exists>r. sqrt_loop y ((y div x + x) div 2) x = Inr r \<and> unat r ^ 2 \<le> unat y \<and> unat y < (unat r + 1) ^ 2"
      using "1.IH" [OF True x0 "1.prems"(1) newton_step [OF x2 xb] above xb] x2 by simp
    then show ?thesis using True x0 by (subst sqrt_loop.simps) simp
  next
    case False
    then have "unat z \<le> (unat y div unat z + unat z) div 2" using "1.prems"(2) by (simp add: word_less_nat_alt)
    then have "unat z ^ 2 \<le> unat y" using newton_stop [OF "1.prems"(5)] by (simp add: power2_eq_square)
    then show ?thesis using False "1.prems"(3) by (subst sqrt_loop.simps) simp
  qed
qed

text \<open>
  C21. The integer square root of the exchange returns, for every 128-bit argument and without
  dividing by zero or wrapping around, the largest integer whose square is at most the argument.
\<close>
theorem sqrt_correct: "\<exists>r. sqrt y = Inr r \<and> unat r ^ 2 \<le> unat y \<and> unat y < (unat r + 1) ^ 2"
proof (cases "y > 3")
  case True
  then have y: "3 < unat y" by (simp add: word_less_nat_alt)
  let ?z = "y div 2 + 1"
  have "unat (y div 2) + unat (1 :: u128) < 2 ^ LENGTH(128)"
    using double_half [OF unat_u128_less, of y] by (simp add: unat_div)
  then have z: "unat ?z = unat y div 2 + 1" by (simp add: unat_add_lem [THEN iffD1] unat_div)
  have less: "?z < y" using y by (simp add: word_less_nat_alt z)
  have "unat y < (unat ?z + 1) ^ 2" unfolding z power2_eq_square using y by (auto simp: algebra_simps)
  moreover have "unat ((y div ?z + ?z) div 2) = (unat y div unat ?z + unat ?z) div 2"
    using y z by (intro newton_step) linarith+
  ultimately have "\<exists>r. sqrt_loop y ((y div ?z + ?z) div 2) ?z = Inr r \<and> unat r ^ 2 \<le> unat y \<and> unat y < (unat r + 1) ^ 2"
    using y z by (intro sqrt_loop_root) linarith+
  moreover have "?z \<noteq> 0" using z by auto
  ultimately show ?thesis using True less by (simp add: sqrt_def sqrt_loop.simps [of y ?z y])
next
  case False
  then have "unat y \<le> 3" by (simp add: word_less_nat_alt not_less)
  moreover have "y \<noteq> 0 \<Longrightarrow> 1 \<le> unat y" by (metis One_nat_def Suc_leI neq0_conv unat_eq_zero)
  ultimately show ?thesis using False by (cases "y = 0") (simp_all add: sqrt_def power2_eq_square)
qed

end
