(* ===== verification/Uniswap_Pool.thy ===== *)
theory Uniswap_Pool
  imports Uniswap Token
begin

text \<open>
  What the exchange of the theory \<open>Uniswap\<close> keeps: the stored market survives from one action to the
  next, minting does not dilute the shares of the holders, burning pays at most the share, and a
  swap keeps the product of the reserves when the second token is not paid in beside an output of
  it. The bounds need no assumption on the size of the amounts: the 128-bit intermediate results can
  only be too small.
\<close>

lemma if_eq_Inr: "(if c then x else y) = Inr z \<longleftrightarrow> c \<and> x = Inr z \<or> \<not> c \<and> y = Inr z"
  by simp

lemma signed64_Inr: "signed64 i = Inr v \<Longrightarrow> sint v = i"
  by (auto simp: signed64_def sint_of_fits64 split: if_splits)

lemma asset_sub_Inr:
  assumes "asset_sub x y = Inr z"
  shows "sint (amount z) = sint (amount x) - sint (amount y)" "asset_symbol z = asset_symbol x"
  using assms unfolding asset_sub_def asset_sub_assign_def bindr_check
  by (auto simp: res_simps check_eq dest: signed64_Inr split: if_splits)

lemma asset_mul_Inr:
  assumes "asset_mul x n = Inr z"
  shows "sint (amount z) = sint (amount x) * sint n" "\<bar>sint (amount z)\<bar> \<le> max_amount"
proof -
  have r: "\<bar>sint (amount x) * sint n\<bar> \<le> max_amount" "amount z = word_of_int (sint (amount x) * sint n)"
    using assms unfolding asset_mul_def asset_mul_assign_def bindr_check Let_def by (auto split: if_splits)
  then have "fits64 (sint (amount x) * sint n)" unfolding fits64_def int64_min_def max_amount_def abs_le_iff by simp
  then show "sint (amount z) = sint (amount x) * sint n" "\<bar>sint (amount z)\<bar> \<le> max_amount"
    using r(1) unfolding r(2) by (simp_all only: sint_of_fits64)
qed

lemma asset_make_Inr: "asset_make v s = Inr z \<Longrightarrow> z = \<lparr>amount = v, asset_symbol = s\<rparr>"
  by (auto simp: asset_make_def bindr_check Let_def split: if_splits)

lemma asset_greater_Inr: "asset_greater x y = Inr b \<Longrightarrow> b \<longleftrightarrow> sint (amount y) < sint (amount x)"
  by (auto simp: asset_greater_def res_simps)

lemma sint_u64_less: "sint (v :: u64) < 2 ^ 63"
  using sint_less [of v] by simp

lemma uint_u128_of_int: "0 \<le> i \<Longrightarrow> i < 2 ^ 63 \<Longrightarrow> uint (word_of_int i :: u128) = i"
  by (simp add: uint_word_of_int)

lemma of_int64_uint: "0 \<le> sint v \<Longrightarrow> uint (of_int64 v) = sint v"
  unfolding of_int64_def by (rule uint_u128_of_int [OF _ sint_u64_less])

lemma uint_mult_le: "uint (x * y :: 'a :: len word) \<le> uint x * uint y"
  by (simp add: uint_word_ariths zmod_le_nonneg_dividend)

lemma uint_precision: "uint precision_1 = 100000000"
  by (simp add: precision_1_def)

lemma multiply_decimal_le: "uint (multiply_decimal x y) * 100000000 \<le> uint x * uint y"
proof -
  have "uint (multiply_decimal x y) * 100000000 \<le> uint (x * y)"
    by (simp add: multiply_decimal_def uint_div uint_precision)
  also have "\<dots> \<le> uint x * uint y" by (rule uint_mult_le)
  finally show ?thesis .
qed

lemma div_times_le: "0 \<le> i \<Longrightarrow> 0 \<le> j \<Longrightarrow> i div j * j \<le> i" for i j :: int
proof (cases "j = 0")
  case False
  assume "0 \<le> i" "0 \<le> j"
  with False show ?thesis using pos_mod_sign [of j i] by (simp add: minus_mod_eq_div_mult [symmetric])
qed simp

lemma divide_decimal_le:
  assumes "divide_decimal x y = Inr q"
  shows "uint q * uint y \<le> uint x * 100000000"
proof -
  have "q = x * precision_1 div y" using assms by (auto simp: divide_decimal_def split: if_splits)
  then have "uint q * uint y \<le> uint (x * precision_1)" by (simp add: uint_div div_times_le)
  also have "\<dots> \<le> uint x * 100000000" using uint_mult_le [of x precision_1] by (simp add: uint_precision)
  finally show ?thesis .
qed

lemma sint_ucast_le: "sint (ucast (v :: u128) :: u64) \<le> uint v"
proof -
  have "sint w \<le> uint w" for w :: u64
  proof (cases "0 \<le> sint w")
    case True
    then have "take_bit 64 (sint w) = sint w" using sint_u64_less [of w] by (intro take_bit_int_eq_self) auto
    then show ?thesis by (simp add: uint_sint)
  next
    case False
    moreover have "0 \<le> uint w" by (rule unsigned_greater_eq)
    ultimately show ?thesis by linarith
  qed
  then have "sint (ucast v :: u64) \<le> uint (ucast v :: u64)" .
  also have "\<dots> \<le> uint v" by (simp add: unsigned_ucast_eq take_bit_int_less_eq_self_iff)
  finally show ?thesis .
qed

section \<open>Burning\<close>

text \<open>
  Burning pays at most the share: what burning some liquidity pays out of a balance, times the
  supply, is at most the balance times the liquidity burnt.
\<close>
theorem share_of_le:
  assumes "share_of balance liq supply = Inr x" "0 \<le> sint (amount balance)" "0 \<le> sint (amount liq)" "0 \<le> sint (amount supply)"
  shows "sint (amount x) * sint (amount supply) \<le> sint (amount balance) * sint (amount liq)"
proof -
  let ?b = "sint (amount balance)" and ?l = "sint (amount liq)" and ?s = "sint (amount supply)"
  obtain q v where q: "divide_decimal (multiply_decimal (of_int64 (amount liq)) precision_1) (of_int64 (amount supply)) = Inr q"
    and v: "divide_decimal (multiply_decimal (of_int64 (amount balance)) q) precision_1 = Inr v"
    and x: "asset_make (ucast v) (asset_symbol balance) = Inr x"
    using assms(1) unfolding share_of_def bindr_eq_Inr by blast
  have "uint (multiply_decimal (of_int64 (amount liq)) precision_1) * 100000000 \<le> ?l * 100000000"
    using multiply_decimal_le [of "of_int64 (amount liq)" precision_1] assms(3) by (simp add: of_int64_uint uint_precision)
  then have qs: "uint q * ?s \<le> ?l * 100000000"
    using divide_decimal_le [OF q] assms(4) by (simp add: of_int64_uint)
  have vb: "uint v * 100000000 \<le> ?b * uint q"
    using divide_decimal_le [OF v] multiply_decimal_le [of "of_int64 (amount balance)" q] assms(2)
    by (simp add: of_int64_uint uint_precision)
  have "uint v * ?s * 100000000 = uint v * 100000000 * ?s" by simp
  also have "\<dots> \<le> ?b * uint q * ?s" by (rule mult_right_mono [OF vb assms(4)])
  also have "\<dots> = ?b * (uint q * ?s)" by simp
  also have "\<dots> \<le> ?b * (?l * 100000000)" by (rule mult_left_mono [OF qs assms(2)])
  finally have "uint v * ?s \<le> ?b * ?l" by simp
  moreover have "sint (amount x) \<le> uint v" using asset_make_Inr [OF x] sint_ucast_le [of v] by simp
  then have "sint (amount x) * ?s \<le> uint v * ?s" using assms(4) by (rule mult_right_mono)
  ultimately show ?thesis by linarith
qed

section \<open>Minting\<close>

lemma uniswap_update_Inr:
  assumes "uniswap_update ch (Some mk) balance0 balance1 w = Inr g"
  obtains mk' where "g = Some mk'" "mk_reserve0 mk' = balance0" "mk_reserve1 mk' = balance1" "mk_total_supply mk' = mk_total_supply mk"
proof -
  define bt where "bt = tps_make (current_block_time ch w)"
  obtain mk1 where mk1: "g = Some (mk1\<lparr>mk_reserve0 := balance0, mk_reserve1 := balance1, mk_timestamp_last := bt\<rparr>)"
      "mk1 = mk \<or> (\<exists>p0 p1. mk1 = mk\<lparr>mk_price0 := p0, mk_price1 := p1\<rparr>)"
    using assms unfolding uniswap_update_def has_market_def Let_def bt_def [symmetric]
    by (simp only: bindr_eq_Inr check_eq_Inr option.sel sum.inject if_eq_Inr) blast
  from mk1(2) show thesis by (elim disjE exE; intro that [OF mk1(1)]) simp_all
qed

lemma liquidity_of_le:
  assumes "liquidity_of amt supply reserve = Inr l" "0 \<le> sint (amount amt)" "0 \<le> sint (amount supply)" "0 \<le> sint (amount reserve)"
  shows "uint l * sint (amount reserve) \<le> sint (amount amt) * sint (amount supply)"
  using divide_decimal_le [OF assms(1) [unfolded liquidity_of_def]]
    multiply_decimal_le [of "of_int64 (amount amt)" "of_int64 (amount supply)"] assms(2-4)
  by (simp add: of_int64_uint)

lemma uniswap_mint_Inr:
  assumes "uniswap_mint ch m a self to (Some mk, w) = Inr (g, w')" "amount (mk_total_supply mk) \<noteq> 0"
  obtains mk' amount0 amount1 l0 l1 to_mint where
    "g = Some mk'" "asset_sub (mk_reserve0 mk') (mk_reserve0 mk) = Inr amount0" "asset_sub (mk_reserve1 mk') (mk_reserve1 mk) = Inr amount1"
    "liquidity_of amount0 (mk_total_supply mk) (mk_reserve0 mk) = Inr l0" "liquidity_of amount1 (mk_total_supply mk) (mk_reserve1 mk) = Inr l1"
    "amount to_mint = ucast (if l1 < l0 then l1 else l0)" "0 < sint (amount to_mint)"
    "asset_add_assign (mk_total_supply mk) to_mint = Inr (mk_total_supply mk')"
proof -
  from assms(1) obtain b0 b1 w1 amount0 amount1 l0 l1 to_mint w2 sp
    where 1: "asset_sub b0 (mk_reserve0 mk) = Inr amount0" "asset_sub b1 (mk_reserve1 mk) = Inr amount1"
    "liquidity_of amount0 (mk_total_supply mk) (mk_reserve0 mk) = Inr l0" "liquidity_of amount1 (mk_total_supply mk) (mk_reserve1 mk) = Inr l1"
    and 2: "asset_make (ucast (if l1 < l0 then l1 else l0)) (asset_symbol (mk_total_supply mk)) = Inr to_mint"
    "0 < sint (ucast (if l1 < l0 then l1 else l0) :: u64)"
    "asset_add_assign (mk_total_supply mk) to_mint = Inr sp"
    "uniswap_update ch (Some (mk\<lparr>mk_total_supply := sp\<rparr>)) b0 b1 w2 = Inr g"
    unfolding uniswap_mint_def has_market_def
    by (simp only: assms(2) if_False prod.case bindr_eq_Inr check_eq_Inr split_paired_Ex option.sel sum.inject prod.inject
        simp_thms ex_simps option.distinct) blast
  from 2(4) obtain mk' where "g = Some mk'" "mk_reserve0 mk' = b0" "mk_reserve1 mk' = b1" "mk_total_supply mk' = sp"
    by (rule uniswap_update_Inr) simp
  then show thesis using 1 2(2,3) asset_make_Inr [OF 2(1)] by (intro that [of mk' amount0 amount1 l0 l1 to_mint]) simp_all
qed

lemma min_le: "uint (if l1 < l0 then l1 else l0) \<le> uint l0" "uint (if l1 < l0 then l1 else l0) \<le> uint l1" for l0 l1 :: u128
  by (auto simp: word_less_def)

lemma share_kept: "r * (s + l) \<le> r' * s" if "l \<le> u" "u * r \<le> (r' - r) * s" "0 \<le> r" for r r' s l u :: int
proof -
  have "l * r \<le> u * r" using that(1,3) by (rule mult_right_mono)
  then show ?thesis using that(2) by (simp add: algebra_simps)
qed

text \<open>
  C19. Minting does not dilute. When a deposit into a pool with shares outstanding succeeds and the
  balances have not fallen below the reserves, the supply of shares grows and neither reserve per
  share falls: the new supply times the old reserve is at most the old supply times the new
  reserve, for both tokens, whatever the 128-bit arithmetic rounds or cuts off.
\<close>
theorem mint_no_dilution:
  assumes "uniswap_mint ch m a self to (Some mk, w) = Inr (Some mk', w')"
    "0 < sint (amount (mk_total_supply mk))" "0 \<le> sint (amount (mk_reserve0 mk))" "0 \<le> sint (amount (mk_reserve1 mk))"
    "sint (amount (mk_reserve0 mk)) \<le> sint (amount (mk_reserve0 mk'))" "sint (amount (mk_reserve1 mk)) \<le> sint (amount (mk_reserve1 mk'))"
  shows "sint (amount (mk_total_supply mk)) < sint (amount (mk_total_supply mk'))
    \<and> sint (amount (mk_reserve0 mk)) * sint (amount (mk_total_supply mk')) \<le> sint (amount (mk_reserve0 mk')) * sint (amount (mk_total_supply mk))
    \<and> sint (amount (mk_reserve1 mk)) * sint (amount (mk_total_supply mk')) \<le> sint (amount (mk_reserve1 mk')) * sint (amount (mk_total_supply mk))"
proof -
  have nz: "amount (mk_total_supply mk) \<noteq> 0" using assms(2) by auto
  obtain amount0 amount1 l0 l1 x where a0: "asset_sub (mk_reserve0 mk') (mk_reserve0 mk) = Inr amount0"
    and a1: "asset_sub (mk_reserve1 mk') (mk_reserve1 mk) = Inr amount1"
    and l0: "liquidity_of amount0 (mk_total_supply mk) (mk_reserve0 mk) = Inr l0"
    and l1: "liquidity_of amount1 (mk_total_supply mk) (mk_reserve1 mk) = Inr l1"
    and x: "amount x = ucast (if l1 < l0 then l1 else l0)" "0 < sint (amount x)"
    and s: "asset_add_assign (mk_total_supply mk) x = Inr (mk_total_supply mk')"
    by (rule uniswap_mint_Inr [OF assms(1) nz]) blast
  note a = asset_sub_Inr(1) [OF a0] asset_sub_Inr(1) [OF a1]
  have xl: "sint (amount x) \<le> uint l0" "sint (amount x) \<le> uint l1"
    using min_le [of l1 l0] sint_ucast_le [of "if l1 < l0 then l1 else l0"] unfolding x(1) by linarith+
  have b: "uint l0 * sint (amount (mk_reserve0 mk)) \<le> (sint (amount (mk_reserve0 mk')) - sint (amount (mk_reserve0 mk))) * sint (amount (mk_total_supply mk))"
    "uint l1 * sint (amount (mk_reserve1 mk)) \<le> (sint (amount (mk_reserve1 mk')) - sint (amount (mk_reserve1 mk))) * sint (amount (mk_total_supply mk))"
    using liquidity_of_le [OF l0] liquidity_of_le [OF l1] assms(2-6) unfolding a by simp_all
  show ?thesis
    using share_kept [OF xl(1) b(1) assms(3)] share_kept [OF xl(2) b(2) assms(4)] x(2) unfolding asset_add_assign_Inr(3) [OF s] by simp
qed

section \<open>Swapping\<close>

lemma amount_in_Inr:
  assumes "amount_in balance reserve amount_out = Inr x"
  shows "sint (amount x) = (if sint (amount balance) > sint (amount reserve) - sint (amount amount_out)
    then sint (amount balance) - sint (amount reserve) - sint (amount amount_out) else 0)"
  using assms unfolding amount_in_def
  by (auto simp: res_simps dest!: asset_sub_Inr(1) asset_greater_Inr asset_make_Inr split: if_splits)

lemma adjusted_Inr:
  assumes "adjusted balance paid = Inr x"
  shows "sint (amount x) = 1000 * sint (amount balance) - 3 * sint (amount paid)"
  using assms unfolding adjusted_def by (auto simp: res_simps dest!: asset_sub_Inr(1) asset_mul_Inr(1))

lemma uniswap_swap_Inr:
  assumes "uniswap_swap ch fmt m a self amount0_out amount1_out to (Some mk, w) = Inr (Some mk', w')"
  obtains in0 in1 adj0 adj1 where
    "amount_in (mk_reserve0 mk') (mk_reserve0 mk) amount0_out = Inr in0" "amount_in (mk_reserve1 mk') (mk_reserve1 mk) amount1_out = Inr in1"
    "0 < sint (amount in0)"
    "adjusted (mk_reserve0 mk') in0 = Inr adj0" "adjusted (mk_reserve1 mk') in1 = Inr adj1"
    "multiply_decimal (of_int64 (amount (mk_reserve0 mk))) (of_int64 (amount (mk_reserve1 mk))) * 1000 * 1000
       \<le> multiply_decimal (of_int64 (amount adj0)) (of_int64 (amount adj1))"
    "mk_total_supply mk' = mk_total_supply mk"
proof -
  from assms obtain b0 b1 w1 in0 in1 adj0 adj1
    where 1: "amount_in b0 (mk_reserve0 mk) amount0_out = Inr in0" "amount_in b1 (mk_reserve1 mk) amount1_out = Inr in1"
    "asset_greater_int in0 0" "adjusted b0 in0 = Inr adj0" "adjusted b1 in1 = Inr adj1"
    "multiply_decimal (of_int64 (amount (mk_reserve0 mk))) (of_int64 (amount (mk_reserve1 mk))) * 1000 * 1000
       \<le> multiply_decimal (of_int64 (amount adj0)) (of_int64 (amount adj1))"
    and 2: "uniswap_update ch (Some mk) b0 b1 w1 = Inr (Some mk')"
    unfolding uniswap_swap_def has_market_def Let_def
    by (simp only: prod.case bindr_eq_Inr check_eq_Inr split_paired_Ex option.sel sum.inject prod.inject disj_absorb) blast
  from 2 have "mk_reserve0 mk' = b0" "mk_reserve1 mk' = b1" "mk_total_supply mk' = mk_total_supply mk"
    by (auto elim: uniswap_update_Inr)
  then show thesis using 1 by (intro that [of in0 in1 adj0 adj1]) (simp_all add: asset_greater_int_def)
qed

lemma asset_sub_fits:
  assumes "asset_symbol x = asset_symbol y" "\<bar>sint (amount x) - sint (amount y)\<bar> \<le> max_amount"
  obtains z where "asset_sub x y = Inr z" "sint (amount z) = sint (amount x) - sint (amount y)" "asset_symbol z = asset_symbol x"
proof -
  let ?i = "sint (amount x) - sint (amount y)"
  have "fits64 ?i" using assms(2) by (simp add: fits64_def int64_min_def max_amount_def abs_le_iff)
  then have i: "sint (word_of_int ?i :: u64) = ?i" "signed64 ?i = Inr (word_of_int ?i)" by (simp_all only: sint_of_fits64 signed64_eq)
  then have "asset_sub x y = Inr (x\<lparr>amount := word_of_int ?i\<rparr>)"
    using assms by (simp add: asset_sub_def asset_sub_assign_def bindr_check abs_le_iff)
  then show thesis using i(1) by (intro that [of "x\<lparr>amount := word_of_int ?i\<rparr>"]) simp_all
qed

lemma asset_mul_fits:
  assumes "\<bar>sint (amount x) * sint n\<bar> \<le> max_amount"
  obtains z where "asset_mul x n = Inr z" "sint (amount z) = sint (amount x) * sint n" "asset_symbol z = asset_symbol x"
proof -
  have "\<exists>z. asset_mul x n = Inr z \<and> asset_symbol z = asset_symbol x"
    using assms unfolding asset_mul_eq in_range_def by (simp add: abs_le_iff)
  then show thesis using that asset_mul_Inr(1) by blast
qed

lemma amount_in_paid:
  assumes sym: "asset_symbol balance = asset_symbol reserve" "asset_symbol amount_out = asset_symbol reserve"
    and out: "0 \<le> sint (amount amount_out)" "sint (amount amount_out) \<le> sint (amount reserve)" "sint (amount reserve) \<le> max_amount"
    and paid: "sint (amount reserve) - sint (amount amount_out) < sint (amount balance)" "sint (amount balance) \<le> max_amount"
    and fits: "\<bar>sint (amount balance) - sint (amount reserve) - sint (amount amount_out)\<bar> \<le> max_amount"
  obtains x where "amount_in balance reserve amount_out = Inr x"
    "sint (amount x) = sint (amount balance) - sint (amount reserve) - sint (amount amount_out)" "asset_symbol x = asset_symbol reserve"
proof -
  have "\<bar>sint (amount reserve) - sint (amount amount_out)\<bar> \<le> max_amount" "\<bar>sint (amount balance) - sint (amount reserve)\<bar> \<le> max_amount"
    using out paid by linarith+
  then obtain left d where left: "asset_sub reserve amount_out = Inr left" "sint (amount left) = sint (amount reserve) - sint (amount amount_out)"
      "asset_symbol left = asset_symbol reserve"
    and d: "asset_sub balance reserve = Inr d" "sint (amount d) = sint (amount balance) - sint (amount reserve)" "asset_symbol d = asset_symbol balance"
    using sym asset_sub_fits by metis
  obtain x where "asset_sub d amount_out = Inr x" "sint (amount x) = sint (amount d) - sint (amount amount_out)" "asset_symbol x = asset_symbol d"
    using sym d(2,3) fits asset_sub_fits [of d amount_out] by auto
  moreover then have "amount_in balance reserve amount_out = Inr x"
    using left d paid(1) sym by (simp add: amount_in_def asset_greater_def same_symbol_def bindr_check)
  ultimately show thesis using d sym by (intro that [of x]) simp_all
qed

lemma adjusted_fits:
  assumes "asset_symbol balance = asset_symbol paid" "\<bar>1000 * sint (amount balance)\<bar> \<le> max_amount" "\<bar>3 * sint (amount paid)\<bar> \<le> max_amount"
    "\<bar>1000 * sint (amount balance) - 3 * sint (amount paid)\<bar> \<le> max_amount"
  obtains x where "adjusted balance paid = Inr x" "sint (amount x) = 1000 * sint (amount balance) - 3 * sint (amount paid)"
proof -
  obtain y where y: "asset_mul balance 1000 = Inr y" "sint (amount y) = 1000 * sint (amount balance)" "asset_symbol y = asset_symbol balance"
    using assms(2) asset_mul_fits [of balance 1000] by (auto simp: mult.commute)
  obtain z where z: "asset_mul paid 3 = Inr z" "sint (amount z) = 3 * sint (amount paid)" "asset_symbol z = asset_symbol paid"
    using assms(3) asset_mul_fits [of paid 3] by (auto simp: mult.commute)
  obtain x where "asset_sub y z = Inr x" using y z assms(1,4) asset_sub_fits [of y z] by auto
  then have "adjusted balance paid = Inr x" using y(1) z(1) by (simp add: adjusted_def)
  then show thesis using that adjusted_Inr by blast
qed

lemma uint_mult_exact: "uint x * uint y < 2 ^ 128 \<Longrightarrow> uint (x * y) = uint x * uint y" for x y :: u128
  by (simp add: uint_word_ariths)

lemma product_less:
  fixes i j :: int
  assumes "0 \<le> i" "i < 2 ^ 63" "0 \<le> j" "j < 2 ^ 63"
  shows "i * j < 2 ^ 126"
proof -
  have "i * j < 2 ^ 63 * 2 ^ 63" using assms by (intro mult_strict_mono') auto
  then show ?thesis by simp
qed

lemma decimal_product:
  assumes "0 \<le> sint v" "0 \<le> sint u"
  shows "uint (multiply_decimal (of_int64 v) (of_int64 u)) = sint v * sint u div 100000000"
proof -
  have "sint v * sint u < 2 ^ 126" using assms by (intro product_less sint_u64_less)
  then have "uint (of_int64 v * of_int64 u) = sint v * sint u"
    using uint_mult_exact [of "of_int64 v" "of_int64 u"] assms by (simp add: of_int64_uint)
  then show ?thesis by (simp add: multiply_decimal_def uint_div uint_precision)
qed

text \<open>The product of the reserves is scaled without wrapping around.\<close>

lemma scaled_product:
  assumes "0 \<le> sint v" "0 \<le> sint u"
  shows "uint (multiply_decimal (of_int64 v) (of_int64 u) * 1000 * 1000) = sint v * sint u div 100000000 * 1000000"
proof -
  let ?k = "sint v * sint u div 100000000"
  have p: "sint v * sint u < 2 ^ 126" using assms by (intro product_less sint_u64_less)
  have m: "uint (multiply_decimal (of_int64 v) (of_int64 u)) = ?k" by (rule decimal_product [OF assms])
  have k: "0 \<le> ?k" "?k * 100000000 \<le> sint v * sint u" using assms by (simp_all add: div_times_le pos_imp_zdiv_nonneg_iff)
  then have "?k * 1000000 < 2 ^ 126" using p by linarith
  then have "uint (multiply_decimal (of_int64 v) (of_int64 u) * 1000) = ?k * 1000"
    using m k(1) by (subst uint_mult_exact) simp_all
  then show ?thesis using \<open>?k * 1000000 < 2 ^ 126\<close> k(1) by (subst uint_mult_exact) simp_all
qed

lemma product_kept:
  fixes p q x y :: int
  assumes "p div 100000000 * 1000000 * 100000000 \<le> x * y" "0 \<le> x" "0 \<le> y" "x \<le> 1000 * q0" "y \<le> 1000 * q1"
  shows "p div 100000000 * 100000000 \<le> q0 * q1"
proof -
  have "x * y \<le> (1000 * q0) * (1000 * q1)" using assms(2-5) by (intro mult_mono) auto
  with assms(1) show ?thesis by simp
qed

text \<open>
  C18. A swap keeps the product. When a swap succeeds with non-negative reserves and outputs, and the
  second token was either not paid in or paid in by at least its output, the product of the
  reserves does not fall by more than the rounding to whole units of 10^8, and the shares are
  unchanged. It also shows that each successful swap pays in the first token: the check of the
  input looks at that token twice, so no swap from the second token to the first succeeds.
\<close>
theorem swap_keeps_product:
  assumes "uniswap_swap ch fmt m a self amount0_out amount1_out to (Some mk, w) = Inr (Some mk', w')"
    "0 \<le> sint (amount (mk_reserve0 mk))" "0 \<le> sint (amount (mk_reserve1 mk))" "0 \<le> sint (amount (mk_reserve1 mk'))"
    "0 \<le> sint (amount amount0_out)" "0 \<le> sint (amount amount1_out)"
    "sint (amount (mk_reserve1 mk')) \<le> sint (amount (mk_reserve1 mk)) - sint (amount amount1_out) \<or>
     sint (amount (mk_reserve1 mk)) + sint (amount amount1_out) \<le> sint (amount (mk_reserve1 mk'))"
  shows "sint (amount (mk_reserve0 mk)) + sint (amount amount0_out) < sint (amount (mk_reserve0 mk'))
    \<and> sint (amount (mk_reserve0 mk)) * sint (amount (mk_reserve1 mk)) div 10 ^ 8 * 10 ^ 8
        \<le> sint (amount (mk_reserve0 mk')) * sint (amount (mk_reserve1 mk'))
    \<and> mk_total_supply mk' = mk_total_supply mk"
proof -
  obtain in0 in1 adj0 adj1 where in0: "amount_in (mk_reserve0 mk') (mk_reserve0 mk) amount0_out = Inr in0"
    and in1: "amount_in (mk_reserve1 mk') (mk_reserve1 mk) amount1_out = Inr in1" and pos: "0 < sint (amount in0)"
    and adj0: "adjusted (mk_reserve0 mk') in0 = Inr adj0" and adj1: "adjusted (mk_reserve1 mk') in1 = Inr adj1"
    and le: "multiply_decimal (of_int64 (amount (mk_reserve0 mk))) (of_int64 (amount (mk_reserve1 mk))) * 1000 * 1000
       \<le> multiply_decimal (of_int64 (amount adj0)) (of_int64 (amount adj1))"
    and s: "mk_total_supply mk' = mk_total_supply mk"
    by (rule uniswap_swap_Inr [OF assms(1)])
  have i0: "sint (amount in0) = sint (amount (mk_reserve0 mk')) - sint (amount (mk_reserve0 mk)) - sint (amount amount0_out)"
    using amount_in_Inr [OF in0] pos by (simp split: if_splits)
  have i1: "0 \<le> sint (amount in1)" "sint (amount in1) \<le> sint (amount (mk_reserve1 mk'))"
    using amount_in_Inr [OF in1] assms(3,4,6,7) by (auto split: if_splits)
  have x: "0 \<le> sint (amount adj0)" "sint (amount adj0) \<le> 1000 * sint (amount (mk_reserve0 mk'))"
    using adjusted_Inr [OF adj0] i0 pos assms(2,5) by linarith+
  have y: "0 \<le> sint (amount adj1)" "sint (amount adj1) \<le> 1000 * sint (amount (mk_reserve1 mk'))"
    using adjusted_Inr [OF adj1] i1 by linarith+
  have "sint (amount (mk_reserve0 mk)) * sint (amount (mk_reserve1 mk)) div 100000000 * 1000000 * 100000000
      \<le> sint (amount adj0) * sint (amount adj1)"
    using le multiply_decimal_le [of "of_int64 (amount adj0)" "of_int64 (amount adj1)"] x(1) y(1)
      scaled_product [OF assms(2,3)] by (simp add: word_le_def of_int64_uint)
  from product_kept [OF this x(1) y(1) x(2) y(2)] show ?thesis using i0 pos s by simp
qed

section \<open>Concrete pools\<close>

text \<open>A chain that answers the \<open>n\<close>-th call with what stands at key \<open>n\<close>; the calls are counted at the empty key.\<close>

definition answering_chain :: "(byte list \<Rightarrow> byte list) chain" where
  "answering_chain = (map_chain 5)\<lparr>host_call := \<lambda>_ w. Inr (16, w([] := 0 # w [])),
     host_get_return := \<lambda>_ w. w [of_nat (length (w []))]\<rparr>"

definition tok :: "u64 \<Rightarrow> u64 \<Rightarrow> asset" where
  "tok c v = \<lparr>amount = v, asset_symbol = Symbol (c * 256 + 8)\<rparr>"

definition answers :: "(byte \<times> asset) list \<Rightarrow> byte list \<Rightarrow> byte list" where
  "answers xs k = (case k of [i] \<Rightarrow> (case map_of xs i of Some x \<Rightarrow> asset_enc x | None \<Rightarrow> []) | _ \<Rightarrow> [])"

definition pool :: market_t where
  "pool = (market_make 9)\<lparr>mk_token0 := Regid 1, mk_token1 := Regid 2, mk_liquidity_token := Regid 3,
     mk_reserve0 := tok 0x41 100000000000, mk_reserve1 := tok 0x42 100000000000, mk_total_supply := tok 0x43 100000000000\<rparr>"

definition run_mint :: "(market_t option \<times> (byte list \<Rightarrow> byte list)) res" where
  "run_mint = uniswap_mint answering_chain (\<lambda>_. 0) 0 (Regid 9) (Regid 5)
     (Some pool, answers [(1, tok 0x41 110000000000), (2, tok 0x42 110000000000)])"

definition run_swap :: "u64 \<Rightarrow> u64 \<Rightarrow> u64 \<Rightarrow> (market_t option \<times> (byte list \<Rightarrow> byte list)) res" where
  "run_swap out b0 b1 = uniswap_swap answering_chain (\<lambda>_ _ _ _. []) (\<lambda>_. 0) 0 (Regid 9) (tok 0x41 0) (tok 0x42 out) (Regid 5)
     (Some pool, answers [(2, tok 0x41 b0), (3, tok 0x42 b1)])"

lemma result_market:
  assumes "mapr (map_option f \<circ> fst) r = Inr (Some x)"
  obtains mk w where "r = Inr (Some mk, w)" "f mk = x"
proof -
  from assms obtain gw where "r = Inr gw" "map_option f (fst gw) = Some x" unfolding mapr_eq_Inr comp_def by metis
  then show thesis by (cases gw) (auto intro: that)
qed

theorem share_of_le_witness:
  "share_of (tok 0x41 110000000000) (tok 0x43 1100000000) (tok 0x43 11000000000) = Inr (tok 0x41 11000000000)
   \<and> sint (amount (tok 0x41 11000000000)) * sint (amount (tok 0x43 11000000000))
     \<le> sint (amount (tok 0x41 110000000000)) * sint (amount (tok 0x43 1100000000))"
proof -
  have s: "share_of (tok 0x41 110000000000) (tok 0x43 1100000000) (tok 0x43 11000000000) = Inr (tok 0x41 11000000000)" by code_simp
  have "0 \<le> sint (amount (tok 0x41 110000000000))" "0 \<le> sint (amount (tok 0x43 1100000000))" "0 \<le> sint (amount (tok 0x43 11000000000))"
    by code_simp+
  from share_of_le [OF s this] s show ?thesis by blast
qed

theorem mint_no_dilution_witness:
  "\<exists>mk' w'. run_mint = Inr (Some mk', w') \<and> mk_total_supply mk' = tok 0x43 110000000000
    \<and> sint (amount (mk_reserve0 pool)) * 110000000000 \<le> sint (amount (mk_reserve0 mk')) * 100000000000"
proof -
  have "mapr (map_option (\<lambda>mk. (mk_reserve0 mk, mk_reserve1 mk, mk_total_supply mk)) \<circ> fst) run_mint
      = Inr (Some (tok 0x41 110000000000, tok 0x42 110000000000, tok 0x43 110000000000))"
    by code_simp
  then obtain mk' w' where r: "run_mint = Inr (Some mk', w')" "mk_reserve0 mk' = tok 0x41 110000000000"
      "mk_reserve1 mk' = tok 0x42 110000000000" "mk_total_supply mk' = tok 0x43 110000000000"
    by (rule result_market) simp
  have "0 < sint (amount (mk_total_supply pool))" "0 \<le> sint (amount (mk_reserve0 pool))" "0 \<le> sint (amount (mk_reserve1 pool))"
    "sint (amount (mk_reserve0 pool)) \<le> sint (amount (tok 0x41 110000000000))"
    "sint (amount (mk_reserve1 pool)) \<le> sint (amount (tok 0x42 110000000000))"
    "sint (amount (mk_total_supply pool)) = 100000000000" "sint (amount (tok 0x43 110000000000)) = 110000000000"
    by code_simp+
  with mint_no_dilution [OF r(1) [unfolded run_mint_def]] r show ?thesis by auto
qed

theorem swap_keeps_product_witness:
  "\<exists>mk' w'. run_swap 9000000000 110000000000 91000000000 = Inr (Some mk', w')
    \<and> 10 ^ 22 \<le> sint (amount (mk_reserve0 mk')) * sint (amount (mk_reserve1 mk'))"
proof -
  have "mapr (map_option (\<lambda>mk. (mk_reserve0 mk, mk_reserve1 mk)) \<circ> fst) (run_swap 9000000000 110000000000 91000000000)
      = Inr (Some (tok 0x41 110000000000, tok 0x42 91000000000))"
    by code_simp
  then obtain mk' w' where r: "run_swap 9000000000 110000000000 91000000000 = Inr (Some mk', w')" "mk_reserve0 mk' = tok 0x41 110000000000"
      "mk_reserve1 mk' = tok 0x42 91000000000"
    by (rule result_market) simp
  have "sint (amount (mk_reserve0 pool)) = 100000000000" "sint (amount (mk_reserve1 pool)) = 100000000000"
    "sint (amount (tok 0x42 91000000000)) = 91000000000"
    "sint (amount (tok 0x41 0)) = 0" "sint (amount (tok 0x42 9000000000)) = 9000000000"
    by code_simp+
  with swap_keeps_product [OF r(1) [unfolded run_swap_def]] r show ?thesis by auto
qed

text \<open>
  C32. The fee of a negative payment is credited. When a swap pays out the second token only and leaves
  a balance of it strictly between the reserve less the output and the reserve plus the output, this is the
  exact condition under which it is accepted. What was paid in of the second token is
  computed by subtracting the output once more instead of adding it back, so it counts as a negative
  amount, and three thousandths of it raise the balance that is compared, where a fee should
  lower it. So a swap is accepted after which the product of the reserves has fallen.
\<close>
theorem swap_credits_fee:
  assumes "\<not> mk_closed mk" "mk_token0 mk \<noteq> to" "mk_token1 mk \<noteq> to"
    and sym: "asset_symbol amount0_out = asset_symbol (mk_reserve0 mk)" "asset_symbol amount1_out = asset_symbol (mk_reserve1 mk)"
      "asset_symbol b0 = asset_symbol (mk_reserve0 mk)" "asset_symbol b1 = asset_symbol (mk_reserve1 mk)"
    and r: "sint (amount (mk_reserve0 mk)) = r0" "sint (amount (mk_reserve1 mk)) = r1" "0 < r0" "r1 \<le> max_amount"
    and out: "sint (amount amount0_out) = 0" "sint (amount amount1_out) = out" "0 < out" "out \<le> r1"
    and calls: "call_transfer ch m a (mk_token1 mk) self to amount1_out w = Inr w1" "call_balances ch m a self mk w1 = Inr (b0, b1, w2)"
      "uniswap_update ch (Some mk) b0 b1 w2 = Inr g"
    and bal: "sint (amount b0) = x0" "sint (amount b1) = x1" "r0 < x0" "r1 - out < x1" "x1 < r1 + out"
      "1000 * x0 \<le> max_amount" "1000 * x1 + 3 * (r1 + out - x1) \<le> max_amount"
  shows "if r0 * r1 div 10 ^ 8 * 10 ^ 6 \<le> (1000 * x0 - 3 * (x0 - r0)) * (1000 * x1 + 3 * (r1 + out - x1)) div 10 ^ 8
    then uniswap_swap ch fmt m a self amount0_out amount1_out to (Some mk, w) = Inr (g, w2)
    else \<exists>msg. uniswap_swap ch fmt m a self amount0_out amount1_out to (Some mk, w) = Inl (Assert msg)"
proof -
  have M: "0 < max_amount" by (simp add: max_amount_def)
  have n0: "0 \<le> sint (amount amount0_out)" "sint (amount amount0_out) \<le> sint (amount (mk_reserve0 mk))" "sint (amount (mk_reserve0 mk)) \<le> max_amount"
      "sint (amount (mk_reserve0 mk)) - sint (amount amount0_out) < sint (amount b0)" "sint (amount b0) \<le> max_amount"
      "\<bar>sint (amount b0) - sint (amount (mk_reserve0 mk)) - sint (amount amount0_out)\<bar> \<le> max_amount"
    and n1: "0 \<le> sint (amount amount1_out)" "sint (amount amount1_out) \<le> sint (amount (mk_reserve1 mk))" "sint (amount (mk_reserve1 mk)) \<le> max_amount"
      "sint (amount (mk_reserve1 mk)) - sint (amount amount1_out) < sint (amount b1)" "sint (amount b1) \<le> max_amount"
      "\<bar>sint (amount b1) - sint (amount (mk_reserve1 mk)) - sint (amount amount1_out)\<bar> \<le> max_amount"
    unfolding r(1,2) out(1,2) bal(1,2) using bal(3-7) r(3,4) out(3,4) M by (simp_all add: abs_le_iff)
  obtain in0 where in0: "amount_in b0 (mk_reserve0 mk) amount0_out = Inr in0" "sint (amount in0) = x0 - r0" "asset_symbol in0 = asset_symbol b0"
    using amount_in_paid [OF sym(3,1) n0] unfolding r(1) out(1) bal(1) sym(3) diff_zero by blast
  obtain in1 where in1: "amount_in b1 (mk_reserve1 mk) amount1_out = Inr in1" "sint (amount in1) = x1 - r1 - out" "asset_symbol in1 = asset_symbol b1"
    using amount_in_paid [OF sym(4,2) n1] unfolding r(2) out(2) bal(2) sym(4) by blast
  obtain adj0 where adj0: "adjusted b0 in0 = Inr adj0" "sint (amount adj0) = 1000 * x0 - 3 * (x0 - r0)"
    using adjusted_fits [of b0 in0] bal(3,6) r(3) M unfolding in0(2,3) bal(1) by (simp add: abs_le_iff) blast
  obtain adj1 where adj1: "adjusted b1 in1 = Inr adj1" "sint (amount adj1) = 1000 * x1 + 3 * (r1 + out - x1)"
    using adjusted_fits [of b1 in1] bal(4,5,7) r(4) out(3,4) M unfolding in1(2,3) bal(2) by (simp add: abs_le_iff algebra_simps) blast
  have pos: "0 \<le> sint (amount adj0)" "0 \<le> sint (amount adj1)" "0 \<le> r1" unfolding adj0(2) adj1(2) using bal(3-5) r(3) out(3,4) by simp_all
  let ?i0 = "multiply_decimal (of_int64 (amount adj0)) (of_int64 (amount adj1))"
    and ?i1 = "multiply_decimal (of_int64 (amount (mk_reserve0 mk))) (of_int64 (amount (mk_reserve1 mk))) * 1000 * 1000"
  have "uint ?i1 = r0 * r1 div 100000000 * 1000000" using scaled_product r pos(3) by simp
  then have le: "?i1 \<le> ?i0 \<longleftrightarrow> r0 * r1 div 10 ^ 8 * 10 ^ 6 \<le> (1000 * x0 - 3 * (x0 - r0)) * (1000 * x1 + 3 * (r1 + out - x1)) div 10 ^ 8"
    using decimal_product [OF pos(1,2)] unfolding adj0(2) adj1(2) by (simp add: word_le_def)
  have "uniswap_swap ch fmt m a self amount0_out amount1_out to (Some mk, w) =
      bindr (check (?i1 \<le> ?i0) (''contract_err_code:1000000 '' @ fmt adj0 adj1 ?i0 ?i1)) (\<lambda>_. Inr (g, w2))"
    using assms(1-3) sym(1) r out in0(1,2) in1(1) adj0(1) adj1(1) calls bal(3)
    by (simp add: uniswap_swap_def asset_greater_int_def asset_less_def same_symbol_def has_market_def regid_neq_iff bindr_check Let_def)
  then show ?thesis unfolding le by (auto simp: bindr_check)
qed

theorem swap_credits_fee_witness:
  "\<exists>mk' w'. run_swap 10000000000 111071000000 90000000001 = Inr (Some mk', w')
    \<and> sint (amount (mk_reserve0 mk')) * sint (amount (mk_reserve1 mk'))
      < sint (amount (mk_reserve0 pool)) * sint (amount (mk_reserve1 pool)) - 3 * 10 ^ 18"
proof -
  let ?b0 = "tok 0x41 111071000000" and ?b1 = "tok 0x42 90000000001" and ?out0 = "tok 0x41 0" and ?out1 = "tok 0x42 10000000000"
  let ?w = "answers [(2, ?b0), (3, ?b1)]"
  have "case call_transfer answering_chain (\<lambda>_. 0) 0 (mk_token1 pool) (Regid 9) (Regid 5) ?out1 ?w of
      Inr w1 \<Rightarrow> (case call_balances answering_chain (\<lambda>_. 0) 0 (Regid 9) pool w1 of
          Inr (b0, b1, w2) \<Rightarrow> b0 = ?b0 \<and> b1 = ?b1
            \<and> \<not> isl (uniswap_update answering_chain (Some pool) ?b0 ?b1 w2)
        | Inl e \<Rightarrow> False)
    | Inl e \<Rightarrow> False" by code_simp
  then obtain w1 w2 where calls: "call_transfer answering_chain (\<lambda>_. 0) 0 (mk_token1 pool) (Regid 9) (Regid 5) ?out1 ?w = Inr w1"
      "call_balances answering_chain (\<lambda>_. 0) 0 (Regid 9) pool w1 = Inr (?b0, ?b1, w2)" "\<not> isl (uniswap_update answering_chain (Some pool) ?b0 ?b1 w2)"
    by (auto split: sum.splits)
  obtain g where upd: "uniswap_update answering_chain (Some pool) ?b0 ?b1 w2 = Inr g" using calls(3) by (cases "uniswap_update answering_chain (Some pool) ?b0 ?b1 w2") simp_all
  obtain mk' where g: "g = Some mk'" "mk_reserve0 mk' = ?b0" "mk_reserve1 mk' = ?b1" using upd by (rule uniswap_update_Inr)
  have r: "sint (amount (mk_reserve0 pool)) = 100000000000" "sint (amount (mk_reserve1 pool)) = 100000000000" "sint (amount ?out0) = 0"
    "sint (amount ?out1) = 10000000000" "sint (amount ?b0) = 111071000000" "sint (amount ?b1) = 90000000001"
    by code_simp+
  have p: "\<not> mk_closed pool" "mk_token0 pool \<noteq> Regid 5" "mk_token1 pool \<noteq> Regid 5" "asset_symbol ?out0 = asset_symbol (mk_reserve0 pool)"
    "asset_symbol ?out1 = asset_symbol (mk_reserve1 pool)" "asset_symbol ?b0 = asset_symbol (mk_reserve0 pool)"
    "asset_symbol ?b1 = asset_symbol (mk_reserve1 pool)"
    by (simp_all add: pool_def market_make_def market_default_def tok_def)
  have "run_swap 10000000000 111071000000 90000000001 = Inr (g, w2)"
    using swap_credits_fee [OF p r(1,2) _ _ r(3,4) _ _ calls(1,2) upd r(5,6), of "\<lambda>_ _ _ _. []"] unfolding run_swap_def
    by (simp add: max_amount_def)
  then show ?thesis using g r by auto
qed

section \<open>The stored market\<close>

definition market_enc :: "market_t \<Rightarrow> byte list" where
  "market_enc mk = prim_enc (regid_value (mk_id mk)) @ prim_enc (regid_value (mk_token0 mk)) @ prim_enc (regid_value (mk_token1 mk)) @
     prim_enc (regid_value (mk_liquidity_token mk)) @ asset_enc (mk_total_supply mk) @ asset_enc (mk_reserve0 mk) @ asset_enc (mk_reserve1 mk) @
     prim_enc (utc_seconds (mk_timestamp_last mk)) @ prim_enc (of_bool (mk_closed mk) :: u8) @ prim_enc (mk_price0 mk) @ prim_enc (mk_price1 mk)"

lemma codec_cons:
  "codec enc1 ok1 ser1 deser1 dflt1 \<Longrightarrow> codec enc2 ok2 ser2 deser2 dflt2 \<Longrightarrow>
   codec (pair_enc enc1 enc2) (pair_ok ok1 ok2) (ser_tuple ser1 ser2) (deser_tuple deser1 deser2) (dflt1, dflt2)"
  by (intro codec2.codec_tuple codec2.intro)

interpretation market_objects: indexed_codec market_table market_enc prim_enc
proof -
  note market_tuple = codec_cons [OF regid_codec.codec_axioms codec_cons [OF regid_codec.codec_axioms
    codec_cons [OF regid_codec.codec_axioms codec_cons [OF regid_codec.codec_axioms codec_cons [OF asset_codec.codec_axioms
    codec_cons [OF asset_codec.codec_axioms codec_cons [OF asset_codec.codec_axioms codec_cons [OF time_point_sec_codec.codec_axioms
    codec_cons [OF bool_codec.codec_axioms codec_cons [OF prim128.codec_axioms codec_cons [OF prim128.codec_axioms tuple_nil.codec_axioms]]]]]]]]]]]
  note market = codec_class [OF market_tuple, of market_of_fields market_fields market_default]
  have "codec market_enc (\<lambda>_. True) ser_market deser_market market_default"
    using market unfolding ser_market_def deser_market_def
    by (simp add: market_of_fields_def market_fields_def market_default_def market_enc_def [abs_def] pair_enc_def pair_ok_def comp_def regid_default_def)
  then have obj: "codec market_enc (\<lambda>_. True) (it_ser market_table) (it_deser market_table) (it_default market_table)"
    by (simp add: market_table_def)
  have prim: "codec prim_enc (\<lambda>_. True) (it_ser_primary market_table) (it_deser_primary market_table) (it_default_primary market_table)"
    using prim64.codec_axioms by (simp add: market_table_def)
  have names: "name_value (it_name market_table) \<noteq> secondary_key_prefix" by code_simp
  have "it_indices market_table = []" by (simp add: market_table_def)
  then show "indexed_codec market_table market_enc prim_enc"
    by (intro indexed_codec.intro obj prim indexed_codec_axioms.intro names) (simp_all add: market_enc_def asset_enc_def)
qed

text \<open>
  C20. The market persists. What an action leaves in the global variable is stored after it and loaded
  before the next action of the same contract; the markets of other contracts are unchanged, and
  a contract without market loads none.
\<close>
theorem market_kept:
  assumes "db_laws (chain_db ch)" "holds_objects (chain_db ch) market_table market_enc prim_enc rows w" "keyed market_table rows"
    "unat a + 1024 < 2 ^ 32" "uniswap_post_dispatch ch m a g w = Inr w'"
  shows "uniswap_pre_dispatch ch m a self g' w' =
    Inr (True, case g of Some mk \<Rightarrow> if mk_id mk = self then g
                                 else case_option g' Some (rows (regid_value self))
                       | None \<Rightarrow> case_option g' Some (rows (regid_value self)))"
proof -
  let ?rows = "case g of Some mk \<Rightarrow> rows(regid_value (mk_id mk) := Some mk) | None \<Rightarrow> rows"
  have key: "it_primary market_table mk = regid_value (mk_id mk)" for mk by (simp add: market_table_def)
  have "keyed market_table (rows(regid_value (mk_id mk) := Some mk))" for mk
    using assms(3) by (simp add: keyed_def market_table_def)
  then have "holds_objects (chain_db ch) market_table market_enc prim_enc ?rows w'"
    using assms(2,5) market_objects.set_object_ok [OF assms(1-3) _ assms(4), unfolded key]
    by (auto simp: uniswap_post_dispatch_def split: option.splits)
  from market_objects.get_object_ok [OF this assms(4), of m "market_make (regid_value self)"] show ?thesis
    by (auto simp: uniswap_pre_dispatch_def key market_make_def regid.expand split: option.splits if_splits)
qed

theorem market_kept_witness:
  "\<exists>w'. uniswap_post_dispatch (map_chain 5) (\<lambda>_. 0) 0 (Some pool) (\<lambda>_. []) = Inr w'
    \<and> uniswap_pre_dispatch (map_chain 5) (\<lambda>_. 0) 0 (Regid 9) None w' = Inr (True, Some pool)"
proof -
  have db: "chain_db (map_chain 5) = map_database" by (simp add: map_chain_def)
  have start: "holds_objects map_database market_table market_enc prim_enc (\<lambda>_. None) (\<lambda>_. [])" "keyed market_table (\<lambda>_. None)"
    by (simp_all add: holds_objects_def map_database_def found_def keyed_def)
  have "case uniswap_post_dispatch (map_chain 5) (\<lambda>_. 0) 0 (Some pool) (\<lambda>_. []) of Inr w' \<Rightarrow> True | Inl e \<Rightarrow> False" by code_simp
  then obtain w' where w': "uniswap_post_dispatch (map_chain 5) (\<lambda>_. 0) 0 (Some pool) (\<lambda>_. []) = Inr w'" by (auto split: sum.splits)
  have "mk_id pool = Regid 9" by (simp add: pool_def market_make_def)
  with market_kept [of "map_chain 5", unfolded db, OF map_database_laws start _ w', of "Regid 9" None] w' show ?thesis by simp
qed

end
