(* ===== verification/Ampl.thy ===== *)
theory Ampl
  imports Uniswap_Pool
begin

text \<open>
  The token with elastic supply, \<^verbatim>\<open>examples/V4/ampl\<close>. Balances are kept in gons, of which there is a
  fixed number; the maintainer changes how many gons make one unit. As in the exchange, the global
  variable \<^verbatim>\<open>g_ampl\<close> is the option \<open>g\<close> beside the world. Members that the source leaves without
  initial value are 0 here; they are assigned before they are read. The oracle is the constant that
  the source returns. The 128-bit signed products and quotients fit and are integers.
\<close>

section \<open>The tables\<close>

record ampl_global =
  gl_id :: regid
  gl_total_supply :: asset
  gl_gons_per_fragment :: u64
  gl_last_rebase :: u64
  gl_min_interval :: u64
  gl_window_offset :: u64
  gl_window_length :: u64
  gl_epoch :: u64
  gl_base_cpi :: u64
  gl_rebase_lag :: u64
  gl_cpi_oracle :: regid
  gl_market_oracle :: regid

definition ampl_global_make :: "u64 \<Rightarrow> ampl_global" where
  "ampl_global_make r = \<lparr>gl_id = Regid r, gl_total_supply = asset_default, gl_gons_per_fragment = 0, gl_last_rebase = 0,
     gl_min_interval = 0, gl_window_offset = 0, gl_window_length = 0, gl_epoch = 0, gl_base_cpi = 0, gl_rebase_lag = 0,
     gl_cpi_oracle = regid_default, gl_market_oracle = regid_default\<rparr>"

type_synonym ampl_fields_t =
  "regid \<times> asset \<times> u64 \<times> u64 \<times> u64 \<times> u64 \<times> u64 \<times> u64 \<times> u64 \<times> u64 \<times> regid \<times> regid \<times> unit"

definition ampl_fields :: "ampl_global \<Rightarrow> ampl_fields_t" where
  "ampl_fields x = (gl_id x, gl_total_supply x, gl_gons_per_fragment x, gl_last_rebase x, gl_min_interval x, gl_window_offset x,
     gl_window_length x, gl_epoch x, gl_base_cpi x, gl_rebase_lag x, gl_cpi_oracle x, gl_market_oracle x, ())"

definition ampl_of_fields :: "ampl_fields_t \<Rightarrow> ampl_global" where
  "ampl_of_fields = (\<lambda>(i, ts, gn, la, mi, wo, wl, ep, bc, rl, co, mo, _). \<lparr>gl_id = i, gl_total_supply = ts, gl_gons_per_fragment = gn,
     gl_last_rebase = la, gl_min_interval = mi, gl_window_offset = wo, gl_window_length = wl, gl_epoch = ep, gl_base_cpi = bc,
     gl_rebase_lag = rl, gl_cpi_oracle = co, gl_market_oracle = mo\<rparr>)"

definition ser_ampl_global :: "ampl_global \<Rightarrow> sink \<Rightarrow> sink res" where
  "ser_ampl_global = ser_class ampl_fields
     (ser_tuple ser_regid (ser_tuple ser_asset (ser_tuple ser_primitive (ser_tuple ser_primitive (ser_tuple ser_primitive
     (ser_tuple ser_primitive (ser_tuple ser_primitive (ser_tuple ser_primitive (ser_tuple ser_primitive (ser_tuple ser_primitive
     (ser_tuple ser_regid (ser_tuple ser_regid ser_tuple_nil))))))))))))"

definition deser_ampl_global :: "ampl_global \<Rightarrow> datastream \<Rightarrow> (ampl_global \<times> datastream) res" where
  "deser_ampl_global = deser_class ampl_fields ampl_of_fields
     (deser_tuple deser_regid (deser_tuple deser_asset (deser_tuple deser_primitive (deser_tuple deser_primitive (deser_tuple deser_primitive
     (deser_tuple deser_primitive (deser_tuple deser_primitive (deser_tuple deser_primitive (deser_tuple deser_primitive
     (deser_tuple deser_primitive (deser_tuple deser_regid (deser_tuple deser_regid deser_tuple_nil))))))))))))"

definition ampl_global_table :: "(ampl_global, u64) index_table" where
  "ampl_global_table = \<lparr>it_name = name_literal ''global'', it_indices = [], it_ser = ser_ampl_global, it_deser = deser_ampl_global,
     it_default = ampl_global_make 0, it_primary = \<lambda>x. regid_value (gl_id x),
     it_ser_primary = ser_primitive, it_deser_primary = deser_primitive, it_default_primary = 0\<rparr>"

record ampl_account =
  aa_id :: regid
  aa_balance :: u64

definition ampl_account_make :: "u64 \<Rightarrow> ampl_account" where
  "ampl_account_make r = \<lparr>aa_id = Regid r, aa_balance = 0\<rparr>"

definition ser_ampl_account :: "ampl_account \<Rightarrow> sink \<Rightarrow> sink res" where
  "ser_ampl_account = ser_class (\<lambda>x. (aa_id x, aa_balance x, ())) (ser_tuple ser_regid (ser_tuple ser_primitive ser_tuple_nil))"

definition deser_ampl_account :: "ampl_account \<Rightarrow> datastream \<Rightarrow> (ampl_account \<times> datastream) res" where
  "deser_ampl_account = deser_class (\<lambda>x. (aa_id x, aa_balance x, ())) (\<lambda>(i, b, _). \<lparr>aa_id = i, aa_balance = b\<rparr>)
     (deser_tuple deser_regid (deser_tuple deser_primitive deser_tuple_nil))"

definition ampl_account_table :: "(ampl_account, u64) index_table" where
  "ampl_account_table = \<lparr>it_name = name_literal ''accounts'', it_indices = [], it_ser = ser_ampl_account, it_deser = deser_ampl_account,
     it_default = ampl_account_make 0, it_primary = \<lambda>x. regid_value (aa_id x),
     it_ser_primary = ser_primitive, it_deser_primary = deser_primitive, it_default_primary = 0\<rparr>"

section \<open>Arithmetic\<close>

definition initial_fragments_supply :: u64 where
  "initial_fragments_supply = 50 * 1000000 * 100000000"

definition total_gons :: u64 where
  "total_gons = 9223372036854775807 - 9223372036854775807 mod initial_fragments_supply"

definition div_u128 :: "u128 \<Rightarrow> u128 \<Rightarrow> u128 res" where
  "div_u128 x y = (if y = 0 then Inl (Undefined ''division by zero'') else Inr (x div y))"

definition mul_u128 :: "u128 \<Rightarrow> u128 \<Rightarrow> u128" where
  "mul_u128 x y = x * y"

definition div_i128 :: "int \<Rightarrow> int \<Rightarrow> int res" where
  "div_i128 x y = (if y = 0 then Inl (Undefined ''division by zero'') else Inr (x sdiv y))"

definition mul_i128 :: "int \<Rightarrow> int \<Rightarrow> int" where
  "mul_i128 x y = x * y"

text \<open>
  A failed check with the exception \<^verbatim>\<open>contract_failed\<close>, whose code is 1000000; the arguments of the
  message are strings already.
\<close>

definition contract_failed :: "string \<Rightarrow> string list \<Rightarrow> unit res" where
  "contract_failed s args = Inl (Assert (''contract_err_code:1000000 '' @ format_string s args))"

section \<open>Supply\<close>

definition get_oracle_data :: "regid \<Rightarrow> u64" where
  "get_oracle_data oracle = 100000000"

definition gons_of_supply :: "asset \<Rightarrow> u64 res" where
  "gons_of_supply s = mapr ucast (div_u128 (ucast total_gons) (of_int64 (amount s)))"

definition ampl_rebase_supply :: "ampl_global \<Rightarrow> u64 \<Rightarrow> ampl_global res" where
  "ampl_rebase_supply x supply_delta =
     bindr (signed64 (sint (amount (gl_total_supply x)) + sint supply_delta)) (\<lambda>v.
     let total = (gl_total_supply x)\<lparr>amount := v\<rparr> in
     bindr (gons_of_supply total) (\<lambda>gons. Inr (x\<lparr>gl_total_supply := total, gl_gons_per_fragment := gons\<rparr>)))"

text \<open>The difference is taken of unsigned numbers.\<close>

definition compute_supply_delta :: "ampl_global \<Rightarrow> u64 \<Rightarrow> u64 \<Rightarrow> u64 res" where
  "compute_supply_delta x exchange_rate cpi_rate =
     mapr word_of_int (div_i128 (mul_i128 (sint (amount (gl_total_supply x))) (uint (exchange_rate - cpi_rate))) (sint cpi_rate))"

section \<open>Actions\<close>

definition ampl_initialized :: "ampl_global option \<Rightarrow> ampl_global res" where
  "ampl_initialized g = bindr (check (g \<noteq> None) ''ampl was not initialized'') (\<lambda>_. Inr (the g))"

definition ampl_init ::
  "'w chain \<Rightarrow> mem \<Rightarrow> u32 \<Rightarrow> regid \<Rightarrow> regid \<Rightarrow> symbol_code \<Rightarrow> u64 \<Rightarrow> regid \<Rightarrow> regid \<Rightarrow>
   ampl_global option \<times> 'w \<Rightarrow> (ampl_global option \<times> 'w) res" where
  "ampl_init ch m a self owner code base_cpi cpi_oracle market_oracle = (\<lambda>(g, w).
     bindr (require_auth ch (get_maintainer ch self w) w) (\<lambda>_.
     bindr (check (g = None) ''ampl already initialize'') (\<lambda>_.
     bindr (symbol_make code 8) (\<lambda>symb.
     bindr (asset_make initial_fragments_supply symb) (\<lambda>total.
     bindr (gons_of_supply total) (\<lambda>gons.
     let storage = (ampl_global_make (regid_value self))\<lparr>gl_total_supply := total, gl_gons_per_fragment := gons,
           gl_min_interval := 24 * 60 * 60, gl_window_offset := 2 * 60 * 60, gl_window_length := 15 * 60, gl_last_rebase := 0,
           gl_epoch := 0, gl_base_cpi := base_cpi, gl_rebase_lag := 30, gl_cpi_oracle := cpi_oracle, gl_market_oracle := market_oracle\<rparr> in
     bindr (get_object (chain_db ch) m a ampl_account_table (ampl_account_make (regid_value owner)) w) (\<lambda>(has_found, ow).
     bindr (if \<not> has_found then Inr () else contract_failed ''% already exist'' [regid_to_string owner]) (\<lambda>_.
     bindr (set_object (chain_db ch) m a ampl_account_table (ow\<lparr>aa_balance := total_gons\<rparr>) w) (\<lambda>w.
       Inr (Some storage, w))))))))))"

definition ampl_rebase :: "'w chain \<Rightarrow> regid \<Rightarrow> ampl_global option \<times> 'w \<Rightarrow> (ampl_global option \<times> 'w) res" where
  "ampl_rebase ch self = (\<lambda>(g, w).
     bindr (ampl_initialized g) (\<lambda>x.
     bindr (require_auth ch (get_maintainer ch self w) w) (\<lambda>_.
     let now = current_block_time ch w in
     bindr (check (gl_last_rebase x + gl_min_interval x < now) ''to quick to rebase'') (\<lambda>_.
     if gl_min_interval x = 0 then Inl (Undefined ''division by zero'')
     else let x = x\<lparr>gl_last_rebase := now - now mod gl_min_interval x + gl_window_offset x\<rparr>;
              cpi = get_oracle_data (gl_cpi_oracle x);
              cpi_rate = ucast (mul_u128 (ucast cpi) (ucast (gl_base_cpi x)));
              exchange_rate = get_oracle_data (gl_market_oracle x) in
     bindr (compute_supply_delta x exchange_rate cpi_rate) (\<lambda>delta.
     if gl_rebase_lag x = 0 then Inl (Undefined ''division by zero'')
     else let supply_delta = delta div gl_rebase_lag x in
     bindr (ampl_rebase_supply (x\<lparr>gl_epoch := gl_epoch x + 1\<rparr>) supply_delta) (\<lambda>x. Inr (Some x, w)))))))"

definition gon_value :: "ampl_global \<Rightarrow> asset \<Rightarrow> u64" where
  "gon_value x value = ucast (mul_u128 (of_int64 (amount value)) (ucast (gl_gons_per_fragment x)))"

definition ampl_sub_balance :: "'w chain \<Rightarrow> mem \<Rightarrow> u32 \<Rightarrow> ampl_global \<Rightarrow> regid \<Rightarrow> asset \<Rightarrow> 'w \<Rightarrow> 'w res" where
  "ampl_sub_balance ch m a x owner value w =
     bindr (get_object (chain_db ch) m a ampl_account_table (ampl_account_make (regid_value owner)) w) (\<lambda>(has_found, ow).
     bindr (if has_found then Inr () else contract_failed ''no account object % found'' [regid_to_string owner]) (\<lambda>_.
     bindr (if aa_balance ow \<ge> gon_value x value then Inr ()
       else contract_failed ''overdrawn balance from.balance:% and gon_value:%'' [show_nat (unat (aa_balance ow)), show_nat (unat (gon_value x value))]) (\<lambda>_.
       set_object (chain_db ch) m a ampl_account_table (ow\<lparr>aa_balance := aa_balance ow - gon_value x value\<rparr>) w)))"

definition ampl_add_balance :: "'w chain \<Rightarrow> mem \<Rightarrow> u32 \<Rightarrow> ampl_global \<Rightarrow> regid \<Rightarrow> asset \<Rightarrow> regid \<Rightarrow> 'w \<Rightarrow> 'w res" where
  "ampl_add_balance ch m a x owner value payer w =
     bindr (get_object (chain_db ch) m a ampl_account_table (ampl_account_make (regid_value owner)) w) (\<lambda>(_, ow).
       set_object (chain_db ch) m a ampl_account_table (ow\<lparr>aa_balance := aa_balance ow + gon_value x value\<rparr>) w)"

definition ampl_transfer ::
  "'w chain \<Rightarrow> mem \<Rightarrow> u32 \<Rightarrow> regid \<Rightarrow> regid \<Rightarrow> asset \<Rightarrow> string \<Rightarrow> ampl_global option \<times> 'w \<Rightarrow> (ampl_global option \<times> 'w) res" where
  "ampl_transfer ch m a from to qty memo = (\<lambda>(g, w).
     bindr (ampl_initialized g) (\<lambda>x.
     bindr (check (regid_neq from to) ''cannot transfer to self'') (\<lambda>_.
     bindr (require_auth ch from w) (\<lambda>_.
     bindr (check (is_account ch to w) ''to account does not exist'') (\<lambda>_.
     bindr (notify_recipient ch from w) (\<lambda>w.
     bindr (notify_recipient ch to w) (\<lambda>w.
     bindr (check (asset_is_valid qty) ''invalid quantity'') (\<lambda>_.
     bindr (check (sint (amount qty) > 0) ''must transfer positive quantity'') (\<lambda>_.
     bindr (check (symbol_eq (asset_symbol qty) (asset_symbol (gl_total_supply x))) ''symbol precision mismatch'') (\<lambda>_.
     bindr (check (length memo \<le> 256) ''memo has more than 256 bytes'') (\<lambda>_.
     let payer = (if has_auth ch to w then to else from) in
     bindr (ampl_sub_balance ch m a x from qty w) (\<lambda>w.
     bindr (ampl_add_balance ch m a x to qty payer w) (\<lambda>w. Inr (g, w))))))))))))))"

definition ampl_total_supply :: "'w chain \<Rightarrow> mem \<Rightarrow> u32 \<Rightarrow> ampl_global option \<times> 'w \<Rightarrow> (ampl_global option \<times> 'w) res" where
  "ampl_total_supply ch m a = (\<lambda>(g, w).
     bindr (ampl_initialized g) (\<lambda>x.
     bindr (pack m a ser_asset (gl_total_supply x)) (\<lambda>bytes.
     bindr (set_return ch bytes w) (\<lambda>w. Inr (g, w)))))"

definition ampl_balance_of :: "'w chain \<Rightarrow> mem \<Rightarrow> u32 \<Rightarrow> regid \<Rightarrow> ampl_global option \<times> 'w \<Rightarrow> (ampl_global option \<times> 'w) res" where
  "ampl_balance_of ch m a owner = (\<lambda>(g, w).
     bindr (ampl_initialized g) (\<lambda>x.
     bindr (get_object (chain_db ch) m a ampl_account_table (ampl_account_make (regid_value owner)) w) (\<lambda>(_, ow).
     bindr (div_u128 (ucast (aa_balance ow)) (ucast (gl_gons_per_fragment x))) (\<lambda>q.
     let balance = ucast q :: u64 in
     bindr (pack m a ser_primitive balance) (\<lambda>bytes.
     bindr (set_return ch bytes w) (\<lambda>w. Inr (g, w)))))))"

text \<open>The two setters look at no authorisation.\<close>

definition ampl_set_oracle :: "regid \<Rightarrow> regid \<Rightarrow> ampl_global option \<times> 'w \<Rightarrow> (ampl_global option \<times> 'w) res" where
  "ampl_set_oracle cpi market = (\<lambda>(g, w).
     bindr (ampl_initialized g) (\<lambda>x. Inr (Some (x\<lparr>gl_cpi_oracle := cpi, gl_market_oracle := market\<rparr>), w)))"

definition ampl_set_lag :: "u64 \<Rightarrow> ampl_global option \<times> 'w \<Rightarrow> (ampl_global option \<times> 'w) res" where
  "ampl_set_lag rebase_lag = (\<lambda>(g, w).
     bindr (ampl_initialized g) (\<lambda>x. Inr (Some (x\<lparr>gl_rebase_lag := rebase_lag\<rparr>), w)))"

definition ampl_pre_dispatch :: "'w chain \<Rightarrow> mem \<Rightarrow> u32 \<Rightarrow> regid \<Rightarrow> ampl_global option \<Rightarrow> 'w \<Rightarrow> (bool \<times> ampl_global option) res" where
  "ampl_pre_dispatch ch m a self g w =
     bindr (get_object (chain_db ch) m a ampl_global_table (ampl_global_make (regid_value self)) w) (\<lambda>(has_found, storage).
       Inr (True, if has_found then Some storage else g))"

definition ampl_post_dispatch :: "'w chain \<Rightarrow> mem \<Rightarrow> u32 \<Rightarrow> ampl_global option \<Rightarrow> 'w \<Rightarrow> 'w res" where
  "ampl_post_dispatch ch m a g w =
     (case g of Some x \<Rightarrow> set_object (chain_db ch) m a ampl_global_table x w | None \<Rightarrow> Inr w)"

end
