(* ===== verification/Ampl_Ledger.thy ===== *)
theory Ampl_Ledger
  imports Ampl
begin

text \<open>
  What the token of the theory \<open>Ampl\<close> keeps: its two tables refine maps, and by rule induction over the
  calls the gons of all accounts add up to their fixed number. Two theorems show where its
  fixed-width arithmetic departs from what it means to compute.
\<close>

section \<open>The tables as maps\<close>

definition ampl_global_enc :: "ampl_global \<Rightarrow> byte list" where
  "ampl_global_enc x = prim_enc (regid_value (gl_id x)) @ asset_enc (gl_total_supply x) @ prim_enc (gl_gons_per_fragment x) @
     prim_enc (gl_last_rebase x) @ prim_enc (gl_min_interval x) @ prim_enc (gl_window_offset x) @ prim_enc (gl_window_length x) @
     prim_enc (gl_epoch x) @ prim_enc (gl_base_cpi x) @ prim_enc (gl_rebase_lag x) @
     prim_enc (regid_value (gl_cpi_oracle x)) @ prim_enc (regid_value (gl_market_oracle x))"

definition ampl_account_enc :: "ampl_account \<Rightarrow> byte list" where
  "ampl_account_enc x = prim_enc (regid_value (aa_id x)) @ prim_enc (aa_balance x)"

interpretation ampl_globals: indexed_codec ampl_global_table ampl_global_enc prim_enc
proof -
  note r = regid_codec.codec_axioms and p = prim64.codec_axioms
  note fields = codec_cons [OF r codec_cons [OF asset_codec.codec_axioms codec_cons [OF p codec_cons [OF p codec_cons [OF p
    codec_cons [OF p codec_cons [OF p codec_cons [OF p codec_cons [OF p codec_cons [OF p
    codec_cons [OF r codec_cons [OF r tuple_nil.codec_axioms]]]]]]]]]]]]
  note global = codec_class [OF fields, of ampl_of_fields ampl_fields "ampl_global_make 0"]
  have "codec ampl_global_enc (\<lambda>_. True) ser_ampl_global deser_ampl_global (ampl_global_make 0)"
    using global unfolding ser_ampl_global_def deser_ampl_global_def
    by (simp add: ampl_of_fields_def ampl_fields_def ampl_global_make_def ampl_global_enc_def [abs_def] pair_enc_def pair_ok_def
        comp_def regid_default_def)
  then have obj: "codec ampl_global_enc (\<lambda>_. True) (it_ser ampl_global_table) (it_deser ampl_global_table) (it_default ampl_global_table)"
    by (simp add: ampl_global_table_def)
  have prim: "codec prim_enc (\<lambda>_. True) (it_ser_primary ampl_global_table) (it_deser_primary ampl_global_table)
      (it_default_primary ampl_global_table)"
    using p by (simp add: ampl_global_table_def)
  have names: "name_value (it_name ampl_global_table) \<noteq> secondary_key_prefix" by code_simp
  have "it_indices ampl_global_table = []" by (simp add: ampl_global_table_def)
  then show "indexed_codec ampl_global_table ampl_global_enc prim_enc"
    by (intro indexed_codec.intro obj prim indexed_codec_axioms.intro names) (simp_all add: ampl_global_enc_def asset_enc_def)
qed

interpretation ampl_accounts: indexed_codec ampl_account_table ampl_account_enc prim_enc
proof -
  note fields = codec_cons [OF regid_codec.codec_axioms codec_cons [OF prim64.codec_axioms tuple_nil.codec_axioms]]
  note account = codec_class [OF fields, of "\<lambda>(i, b, _). \<lparr>aa_id = i, aa_balance = b\<rparr>" "\<lambda>x. (aa_id x, aa_balance x, ())" "ampl_account_make 0"]
  have "codec ampl_account_enc (\<lambda>_. True) ser_ampl_account deser_ampl_account (ampl_account_make 0)"
    using account unfolding ser_ampl_account_def deser_ampl_account_def
    by (simp add: ampl_account_make_def ampl_account_enc_def [abs_def] pair_enc_def pair_ok_def comp_def)
  then have obj: "codec ampl_account_enc (\<lambda>_. True) (it_ser ampl_account_table) (it_deser ampl_account_table) (it_default ampl_account_table)"
    by (simp add: ampl_account_table_def)
  have prim: "codec prim_enc (\<lambda>_. True) (it_ser_primary ampl_account_table) (it_deser_primary ampl_account_table)
      (it_default_primary ampl_account_table)"
    using prim64.codec_axioms by (simp add: ampl_account_table_def)
  have names: "name_value (it_name ampl_account_table) \<noteq> secondary_key_prefix" by code_simp
  have "it_indices ampl_account_table = []" by (simp add: ampl_account_table_def)
  then show "indexed_codec ampl_account_table ampl_account_enc prim_enc"
    by (intro indexed_codec.intro obj prim indexed_codec_axioms.intro names) (simp_all add: ampl_account_enc_def)
qed

context indexed_codec
begin

text \<open>Storing an object of a table without indices writes its primary key only.\<close>

lemma set_object_plain:
  assumes "db_laws h" "it_indices it = []" "unat a + 1024 < 2 ^ 32" "set_object h m a it r w = Inr w'"
  shows "db_get h k w' = (if k = pkey it encp (it_primary it r) then enc r else db_get h k w)"
proof -
  from assms(4) have "db_store h (regid_value payer_reserved) (pkey it encp (it_primary it r)) (enc r) w = Inr w'"
    unfolding set_object_def assms(2) set_indices.simps primary_key_eq [OF assms(3)] pack_object [OF assms(3)]
    by (auto simp: bindr_eq_Inr)
  with assms(1) show ?thesis unfolding db_laws_def by blast
qed

lemma set_object_eq:
  assumes "it_indices it = []" "holds_objects h it enc encp rows w" "unat a + 1024 < 2 ^ 32"
  shows "set_object h m a it r w = db_store h (regid_value payer_reserved) (pkey it encp (it_primary it r)) (enc r) w"
  unfolding set_object_def assms(1) set_indices.simps primary_key_eq [OF assms(3)] pack_object [OF assms(3)]
    get_by_primary_ok [OF assms(2,3)]
  by (simp split: option.splits)

end

lemma pkey_apart: "name_value (it_name s) \<noteq> name_value (it_name t) \<Longrightarrow> pkey s e p \<noteq> pkey t e' q"
  by (auto simp: pkey_def length_prim_enc prim_enc_inject)

lemma holds_objects_plain:
  assumes "it_indices it = []"
  shows "holds_objects h it enc encp rows w \<longleftrightarrow> (\<forall>p. db_get h (pkey it encp p) w = (case rows p of None \<Rightarrow> [] | Some r \<Rightarrow> enc r))"
  by (simp add: holds_objects_def assms)

section \<open>Conservation\<close>

definition ampl_rel :: "'w chain \<Rightarrow> (u64 \<Rightarrow> ampl_global option) \<Rightarrow> (u64 \<Rightarrow> ampl_account option) \<Rightarrow> 'w \<Rightarrow> bool" where
  "ampl_rel ch gs ac w \<longleftrightarrow>
     holds_objects (chain_db ch) ampl_global_table ampl_global_enc prim_enc gs w \<and> keyed ampl_global_table gs \<and>
     holds_objects (chain_db ch) ampl_account_table ampl_account_enc prim_enc ac w \<and> keyed ampl_account_table ac"

definition gons :: "(u64 \<Rightarrow> ampl_account option) \<Rightarrow> u64 \<Rightarrow> nat" where
  "gons ac v = (case ac v of None \<Rightarrow> 0 | Some r \<Rightarrow> unat (aa_balance r))"

text \<open>The sum of the gons, in an initialised contract all of them.\<close>

definition ampl_ledger :: "regid \<Rightarrow> ampl_global option \<Rightarrow> (u64 \<Rightarrow> ampl_global option) \<Rightarrow> (u64 \<Rightarrow> ampl_account option) \<Rightarrow> bool" where
  "ampl_ledger self g gs ac \<longleftrightarrow> (\<Sum>v\<in>UNIV. gons ac v) = (if g = None then 0 else unat total_gons) \<and>
     (g = None \<longrightarrow> gs (regid_value self) = None) \<and> (\<forall>x. g = Some x \<longrightarrow> gl_id x = self)"

lemma ampl_tables: "it_indices ampl_global_table = []" "it_indices ampl_account_table = []"
  "it_primary ampl_global_table x = regid_value (gl_id x)" "it_primary ampl_account_table y = regid_value (aa_id y)"
  by (simp_all add: ampl_global_table_def ampl_account_table_def)

lemma ampl_table_names: "name_value (it_name ampl_global_table) \<noteq> name_value (it_name ampl_account_table)"
  by code_simp

lemma ampl_keyed:
  "keyed ampl_global_table gs \<Longrightarrow> keyed ampl_global_table (gs(regid_value (gl_id x) := Some x))"
  "keyed ampl_account_table ac \<Longrightarrow> keyed ampl_account_table (ac(regid_value (aa_id y) := Some y))"
  by (simp_all add: keyed_def ampl_tables)

lemma ampl_rel_frame:
  assumes "ampl_rel ch gs ac w" "\<And>k. db_get (chain_db ch) k w' = db_get (chain_db ch) k w"
  shows "ampl_rel ch gs ac w'"
  using assms unfolding ampl_rel_def holds_objects_plain [OF ampl_tables(1)] holds_objects_plain [OF ampl_tables(2)] by simp

lemma ampl_set_account:
  assumes "db_laws (chain_db ch)" "ampl_rel ch gs ac w" "unat a + 1024 < 2 ^ 32"
    "set_object (chain_db ch) m a ampl_account_table y w = Inr w'"
  shows "ampl_rel ch gs (ac(regid_value (aa_id y) := Some y)) w'"
proof -
  note get = ampl_accounts.set_object_plain [OF assms(1) ampl_tables(2) assms(3,4)]
  have "pkey ampl_global_table prim_enc p \<noteq> pkey ampl_account_table prim_enc q" for p q :: u64
    by (rule pkey_apart [OF ampl_table_names])
  with assms(2) ampl_keyed(2) [of ac y] show ?thesis
    unfolding ampl_rel_def holds_objects_plain [OF ampl_tables(1)] holds_objects_plain [OF ampl_tables(2)]
    by (auto simp: get ampl_tables ampl_accounts.pkey_inject)
qed

lemma ampl_set_global:
  assumes "db_laws (chain_db ch)" "ampl_rel ch gs ac w" "unat a + 1024 < 2 ^ 32"
    "set_object (chain_db ch) m a ampl_global_table x w = Inr w'"
  shows "ampl_rel ch (gs(regid_value (gl_id x) := Some x)) ac w'"
proof -
  note get = ampl_globals.set_object_plain [OF assms(1) ampl_tables(1) assms(3,4)]
  have "pkey ampl_account_table prim_enc p \<noteq> pkey ampl_global_table prim_enc q" for p q :: u64
    by (rule pkey_apart [OF ampl_table_names [symmetric]])
  with assms(2) ampl_keyed(1) [of gs x] show ?thesis
    unfolding ampl_rel_def holds_objects_plain [OF ampl_tables(1)] holds_objects_plain [OF ampl_tables(2)]
    by (auto simp: get ampl_tables ampl_globals.pkey_inject)
qed

lemma ampl_get_account:
  assumes "ampl_rel ch gs ac w" "unat a + 1024 < 2 ^ 32"
  obtains y where "get_object (chain_db ch) m a ampl_account_table (ampl_account_make v) w = Inr (ac v \<noteq> None, y)"
    "aa_id y = Regid v" "unat (aa_balance y) = gons ac v"
proof -
  have k: "ac v = Some y \<Longrightarrow> regid_value (aa_id y) = v" for y
    using assms(1) by (auto simp: ampl_rel_def keyed_def ampl_tables)
  from assms(1) have "holds_objects (chain_db ch) ampl_account_table ampl_account_enc prim_enc ac w" by (simp add: ampl_rel_def)
  from ampl_accounts.get_object_ok [OF this assms(2), of m "ampl_account_make v"]
  show thesis using that [of "case ac v of None \<Rightarrow> ampl_account_make v | Some y \<Rightarrow> y"] k
    by (auto simp: ampl_tables ampl_account_make_def gons_def regid.expand split: option.splits)
qed

lemma gons_upd: "gons (ac(v := Some y)) = (gons ac)(v := unat (aa_balance y))"
  by (auto simp: gons_def fun_eq_iff)

lemma gons_sum_upd: "(\<Sum>u\<in>UNIV. (f(v := n)) u) + f v = (\<Sum>u\<in>UNIV. f u) + n" for f :: "u64 \<Rightarrow> nat"
proof -
  have "sum (f(v := n)) (UNIV - {v}) = sum f (UNIV - {v})" by (rule sum.cong) auto
  then show ?thesis using sum.remove [of UNIV v f] sum.remove [of UNIV v "f(v := n)"] by (simp del: fun_upd_apply add: fun_upd_same)
qed

lemma total_gons_eq: "total_gons = 9220000000000000000"
  by code_simp

lemma total_gons_small: "unat total_gons < 2 ^ 63"
  by (simp add: total_gons_eq)

lemma gons_le_sum: "gons ac v \<le> (\<Sum>u\<in>UNIV. gons ac u)"
  by (rule member_le_sum) simp_all

lemma ampl_sub_gons:
  assumes "chain_laws ch" "ampl_rel ch gs ac w" "unat a + 1024 < 2 ^ 32" "ampl_sub_balance ch m a x owner q w = Inr w'"
  obtains ac' where "ampl_rel ch gs ac' w'" "gons ac' = (gons ac)(regid_value owner := gons ac (regid_value owner) - unat (gon_value x q))"
    "unat (gon_value x q) \<le> gons ac (regid_value owner)"
proof -
  obtain y where y: "get_object (chain_db ch) m a ampl_account_table (ampl_account_make (regid_value owner)) w = Inr (ac (regid_value owner) \<noteq> None, y)"
      "aa_id y = owner" "unat (aa_balance y) = gons ac (regid_value owner)"
    using ampl_get_account [OF assms(2,3), of m "regid_value owner"] by auto
  let ?y = "y\<lparr>aa_balance := aa_balance y - gon_value x q\<rparr>"
  have le: "gon_value x q \<le> aa_balance y" and set: "set_object (chain_db ch) m a ampl_account_table ?y w = Inr w'"
    using assms(4) unfolding ampl_sub_balance_def contract_failed_def
    by (simp_all only: y(1) bindr_simps prod.case bindr_eq_Inr if_eq_Inr sum.distinct) blast+
  have "db_laws (chain_db ch)" using assms(1) by (simp add: chain_laws_def)
  note ampl_set_account [OF this assms(2,3) set]
  moreover have "unat (aa_balance y - gon_value x q) = gons ac (regid_value owner) - unat (gon_value x q)"
    using le y(3) by (simp add: unat_sub)
  then have "gons (ac(regid_value (aa_id ?y) := Some ?y)) = (gons ac)(regid_value owner := gons ac (regid_value owner) - unat (gon_value x q))"
    unfolding gons_upd using y(2) by simp
  ultimately show thesis using le y(3) by (intro that) (simp_all add: word_le_nat_alt)
qed

lemma ampl_add_gons:
  assumes "chain_laws ch" "ampl_rel ch gs ac w" "unat a + 1024 < 2 ^ 32" "ampl_add_balance ch m a x owner q payer w = Inr w'"
    "gons ac (regid_value owner) + unat (gon_value x q) < 2 ^ 64"
  obtains ac' where "ampl_rel ch gs ac' w'" "gons ac' = (gons ac)(regid_value owner := gons ac (regid_value owner) + unat (gon_value x q))"
proof -
  obtain y where y: "get_object (chain_db ch) m a ampl_account_table (ampl_account_make (regid_value owner)) w = Inr (ac (regid_value owner) \<noteq> None, y)"
      "aa_id y = owner" "unat (aa_balance y) = gons ac (regid_value owner)"
    using ampl_get_account [OF assms(2,3), of m "regid_value owner"] by auto
  let ?y = "y\<lparr>aa_balance := aa_balance y + gon_value x q\<rparr>"
  have set: "set_object (chain_db ch) m a ampl_account_table ?y w = Inr w'"
    using assms(4) unfolding ampl_add_balance_def by (simp only: y(1) bindr_simps prod.case)
  have "unat (aa_balance y + gon_value x q) = gons ac (regid_value owner) + unat (gon_value x q)"
    using assms(5) unfolding y(3) [symmetric] by (intro unat_add_lem [THEN iffD1]) simp
  then have "gons (ac(regid_value (aa_id ?y) := Some ?y)) = (gons ac)(regid_value owner := gons ac (regid_value owner) + unat (gon_value x q))"
    unfolding gons_upd using y(2) by simp
  moreover have "db_laws (chain_db ch)" using assms(1) by (simp add: chain_laws_def)
  note ampl_set_account [OF this assms(2,3) set]
  ultimately show thesis by (intro that)
qed

inductive ampl_act :: "'w chain \<Rightarrow> regid \<Rightarrow> ampl_global option \<times> 'w \<Rightarrow> ampl_global option \<times> 'w \<Rightarrow> bool" for ch self where
  init: "unat a + 1024 < 2 ^ 32 \<Longrightarrow> ampl_init ch m a self owner code base_cpi cpi market s = Inr s' \<Longrightarrow> ampl_act ch self s s'"
| rebase: "ampl_rebase ch self s = Inr s' \<Longrightarrow> ampl_act ch self s s'"
| transfer: "unat a + 1024 < 2 ^ 32 \<Longrightarrow> ampl_transfer ch m a from to qty memo s = Inr s' \<Longrightarrow> ampl_act ch self s s'"
| total_supply: "ampl_total_supply ch m a s = Inr s' \<Longrightarrow> ampl_act ch self s s'"
| balance_of: "ampl_balance_of ch m a owner s = Inr s' \<Longrightarrow> ampl_act ch self s s'"
| set_oracle: "ampl_set_oracle cpi market s = Inr s' \<Longrightarrow> ampl_act ch self s s'"
| set_lag: "ampl_set_lag rebase_lag s = Inr s' \<Longrightarrow> ampl_act ch self s s'"

text \<open>A call loads the global variable, runs an action and stores the variable; what other contracts do leaves the database of this one alone.\<close>

inductive ampl_step :: "'w chain \<Rightarrow> regid \<Rightarrow> 'w \<Rightarrow> 'w \<Rightarrow> bool" for ch self where
  call: "unat a + 1024 < 2 ^ 32 \<Longrightarrow> ampl_pre_dispatch ch m a self None w = Inr (True, g) \<Longrightarrow> ampl_act ch self (g, w) (g', w') \<Longrightarrow>
    ampl_post_dispatch ch m a g' w' = Inr w'' \<Longrightarrow> ampl_step ch self w w''"
| environment: "(\<And>k. db_get (chain_db ch) k w' = db_get (chain_db ch) k w) \<Longrightarrow> ampl_step ch self w w'"

inductive ampl_reachable :: "'w chain \<Rightarrow> regid \<Rightarrow> 'w \<Rightarrow> bool" for ch self where
  start: "ampl_rel ch (\<lambda>_. None) (\<lambda>_. None) w \<Longrightarrow> ampl_reachable ch self w"
| step: "ampl_reachable ch self w \<Longrightarrow> ampl_step ch self w w' \<Longrightarrow> ampl_reachable ch self w'"

lemmas ampl_elim = ampl_initialized_def bindr_eq_Inr check_eq_Inr prod.case split_paired_Ex option.sel sum.inject prod.inject Let_def
  simp_thms ex_simps option.distinct if_eq_Inr sum.distinct

lemma ampl_transfer_Inr:
  assumes "ampl_transfer ch m a from to q memo (g, w) = Inr (g', w')"
  obtains x w1 w2 w3 payer where "g = Some x" "g' = g" "from \<noteq> to" "notify_recipient ch from w = Inr w1" "notify_recipient ch to w1 = Inr w2"
    "ampl_sub_balance ch m a x from q w2 = Inr w3" "ampl_add_balance ch m a x to q payer w3 = Inr w'"
    "require_auth ch from w = Inr ()" "0 < sint (amount q)"
  using assms unfolding ampl_transfer_def regid_neq_iff by (simp only: ampl_elim) fastforce

lemma ampl_transfer_gons:
  assumes "ampl_transfer ch m a from to q memo (g, w) = Inr (g', w')" "chain_laws ch" "ampl_rel ch gs ac w" "ampl_ledger self g gs ac"
    "unat a + 1024 < 2 ^ 32"
  obtains x ac' where "g = Some x" "g' = Some x" "ampl_rel ch gs ac' w'" "from \<noteq> to"
    "gons ac' = (gons ac)(regid_value from := gons ac (regid_value from) - unat (gon_value x q),
       regid_value to := gons ac (regid_value to) + unat (gon_value x q))"
    "unat (gon_value x q) \<le> gons ac (regid_value from)" "gons ac (regid_value to) + unat (gon_value x q) \<le> unat total_gons"
proof -
  obtain x w1 w2 w3 payer where t: "g = Some x" "g' = g" "from \<noteq> to" "notify_recipient ch from w = Inr w1"
    "notify_recipient ch to w1 = Inr w2"
    "ampl_sub_balance ch m a x from q w2 = Inr w3" "ampl_add_balance ch m a x to q payer w3 = Inr w'"
    by (rule ampl_transfer_Inr [OF assms(1)])
  have "db_get (chain_db ch) k w2 = db_get (chain_db ch) k w" for k
    using t(4,5) assms(2) unfolding chain_laws_def notify_recipient_def by metis
  then have rel: "ampl_rel ch gs ac w2" by (rule ampl_rel_frame [OF assms(3)])
  let ?f = "regid_value from" and ?t = "regid_value to" and ?v = "unat (gon_value x q)"
  obtain ac1 where ac1: "ampl_rel ch gs ac1 w3" "gons ac1 = (gons ac)(?f := gons ac ?f - ?v)" "?v \<le> gons ac ?f"
    by (rule ampl_sub_gons [OF assms(2) rel assms(5) t(6)])
  have "(\<Sum>v\<in>UNIV. gons ac v) = unat total_gons" using assms(4) t(1) by (simp add: ampl_ledger_def)
  then have "(\<Sum>v\<in>UNIV. gons ac1 v) + ?v = unat total_gons"
    using gons_sum_upd [of "gons ac" ?f "gons ac ?f - ?v"] ac1(3) unfolding ac1(2) by simp
  then have le: "gons ac1 ?t + ?v \<le> unat total_gons" using gons_le_sum [of ac1 ?t] by simp
  then have "gons ac1 ?t + ?v < 2 ^ 64" using total_gons_small by simp
  then obtain ac2 where ac2: "ampl_rel ch gs ac2 w'" "gons ac2 = (gons ac1)(?t := gons ac1 ?t + ?v)"
    by (rule ampl_add_gons [OF assms(2) ac1(1) assms(5) t(7)])
  have "?t \<noteq> ?f" using t(3) by (auto simp: regid.expand)
  then have "gons ac1 ?t = gons ac ?t" using ac1(2) by simp
  then show thesis using that [OF _ _ ac2(1) t(3)] t(1,2) ac1(2,3) ac2(2) le by simp
qed

lemma ampl_transfer_ledger:
  assumes "ampl_transfer ch m a from to q memo (g, w) = Inr (g', w')" "chain_laws ch" "ampl_rel ch gs ac w" "ampl_ledger self g gs ac"
    "unat a + 1024 < 2 ^ 32"
  shows "\<exists>ac'. ampl_rel ch gs ac' w' \<and> ampl_ledger self g' gs ac'"
proof -
  let ?f = "regid_value from" and ?t = "regid_value to"
  obtain x ac' where t: "g = Some x" "g' = Some x" "ampl_rel ch gs ac' w'" "from \<noteq> to"
      "gons ac' = (gons ac)(?f := gons ac ?f - unat (gon_value x q), ?t := gons ac ?t + unat (gon_value x q))"
      "unat (gon_value x q) \<le> gons ac ?f"
    by (rule ampl_transfer_gons [OF assms])
  let ?v = "unat (gon_value x q)" and ?h = "(gons ac)(?f := gons ac ?f - unat (gon_value x q))"
  have "?t \<noteq> ?f" using t(4) by (auto simp: regid.expand)
  then have "(\<Sum>v\<in>UNIV. gons ac' v) = (\<Sum>v\<in>UNIV. gons ac v)"
    using gons_sum_upd [of ?h ?t "gons ac ?t + ?v"] gons_sum_upd [of "gons ac" ?f "gons ac ?f - ?v"] t(6) unfolding t(5) by simp
  then show ?thesis using t(1-3) assms(4) by (auto simp: ampl_ledger_def)
qed

lemma ampl_init_ledger:
  assumes "ampl_init ch m a self owner code base_cpi cpi market (g, w) = Inr (g', w')" "chain_laws ch" "ampl_rel ch gs ac w"
    "ampl_ledger self g gs ac" "unat a + 1024 < 2 ^ 32"
  shows "\<exists>ac'. ampl_rel ch gs ac' w' \<and> ampl_ledger self g' gs ac'"
proof -
  obtain y where y: "get_object (chain_db ch) m a ampl_account_table (ampl_account_make (regid_value owner)) w = Inr (ac (regid_value owner) \<noteq> None, y)"
      "aa_id y = owner" "unat (aa_balance y) = gons ac (regid_value owner)"
    using ampl_get_account [OF assms(3,5), of m "regid_value owner"] by auto
  let ?y = "y\<lparr>aa_balance := total_gons\<rparr>"
  obtain x where x: "g = None" "g' = Some x" "gl_id x = self" and no: "ac (regid_value owner) = None"
    and set: "set_object (chain_db ch) m a ampl_account_table ?y w = Inr w'"
    using assms(1) unfolding ampl_init_def contract_failed_def y(1) by (simp only: ampl_elim) (auto simp: ampl_global_make_def y(1))
  have "db_laws (chain_db ch)" using assms(2) by (simp add: chain_laws_def)
  note rel = ampl_set_account [OF this assms(3,5) set]
  have "(\<Sum>v\<in>UNIV. gons ac v) = 0" using assms(4) x(1) by (simp add: ampl_ledger_def)
  moreover have "gons ac (regid_value owner) = 0" using no by (simp add: gons_def)
  ultimately have "(\<Sum>v\<in>UNIV. gons (ac(regid_value (aa_id ?y) := Some ?y)) v) = unat total_gons"
    unfolding gons_upd using gons_sum_upd [of "gons ac" "regid_value owner" "unat total_gons"] y(2) by simp
  then show ?thesis using rel x by (auto simp: ampl_ledger_def)
qed

lemma ampl_other_actions:
  assumes "ampl_rebase ch self (g, w) = Inr (g', w') \<or> ampl_total_supply ch m a (g, w) = Inr (g', w') \<or> ampl_balance_of ch m a owner (g, w) = Inr (g', w')
      \<or> ampl_set_oracle cpi market (g, w) = Inr (g', w') \<or> ampl_set_lag lag (g, w) = Inr (g', w')"
  shows "\<exists>x x'. g = Some x \<and> g' = Some x' \<and> gl_id x' = gl_id x \<and> (w' = w \<or> (\<exists>bytes. set_return ch bytes w = Inr w'))"
  using assms
proof (elim disjE)
  assume "ampl_rebase ch self (g, w) = Inr (g', w')"
  then show ?thesis unfolding ampl_rebase_def ampl_rebase_supply_def by (simp only: ampl_elim) auto
next
  assume "ampl_total_supply ch m a (g, w) = Inr (g', w')"
  then show ?thesis unfolding ampl_total_supply_def by (simp only: ampl_elim) auto
next
  assume "ampl_balance_of ch m a owner (g, w) = Inr (g', w')"
  then show ?thesis unfolding ampl_balance_of_def by (simp only: ampl_elim) auto
qed (auto simp: ampl_set_oracle_def ampl_set_lag_def ampl_initialized_def res_simps)

lemma ampl_other_ledger:
  assumes "\<exists>x x'. g = Some x \<and> g' = Some x' \<and> gl_id x' = gl_id x \<and> (w' = w \<or> (\<exists>bytes. set_return ch bytes w = Inr w'))" "chain_laws ch"
    "ampl_rel ch gs ac w" "ampl_ledger self g gs ac"
  shows "\<exists>ac'. ampl_rel ch gs ac' w' \<and> ampl_ledger self g' gs ac'"
proof -
  have "db_get (chain_db ch) k w' = db_get (chain_db ch) k w" for k
    using assms(1,2) unfolding chain_laws_def set_return_def by blast
  from ampl_rel_frame [OF assms(3) this] assms(1,4) show ?thesis by (auto simp: ampl_ledger_def)
qed

lemma ampl_act_ledger:
  assumes "ampl_act ch self (g, w) (g', w')" "chain_laws ch" "ampl_rel ch gs ac w" "ampl_ledger self g gs ac"
  shows "\<exists>ac'. ampl_rel ch gs ac' w' \<and> ampl_ledger self g' gs ac'"
  using assms(1)
proof cases
  case init
  then show ?thesis using ampl_init_ledger [OF _ assms(2-4)] by blast
next
  case transfer
  then show ?thesis using ampl_transfer_ledger [OF _ assms(2-4)] by blast
qed (rule ampl_other_ledger [OF ampl_other_actions assms(2-4)]; blast)+

definition ampl_inv :: "'w chain \<Rightarrow> regid \<Rightarrow> 'w \<Rightarrow> bool" where
  "ampl_inv ch self w \<longleftrightarrow> (\<exists>gs ac. ampl_rel ch gs ac w \<and> ampl_ledger self (gs (regid_value self)) gs ac)"

lemma ampl_pre_dispatch_eq:
  assumes "ampl_rel ch gs ac w" "unat a + 1024 < 2 ^ 32"
  shows "ampl_pre_dispatch ch m a self None w = Inr (True, gs (regid_value self))"
proof -
  from assms(1) have "holds_objects (chain_db ch) ampl_global_table ampl_global_enc prim_enc gs w" by (simp add: ampl_rel_def)
  from ampl_globals.get_object_ok [OF this assms(2), of m "ampl_global_make (regid_value self)"] show ?thesis
    by (auto simp: ampl_pre_dispatch_def ampl_tables ampl_global_make_def split: option.splits)
qed

lemma ampl_inv_step:
  assumes "ampl_step ch self w w'" "chain_laws ch" "ampl_inv ch self w"
  shows "ampl_inv ch self w'"
proof -
  obtain gs ac where inv: "ampl_rel ch gs ac w" "ampl_ledger self (gs (regid_value self)) gs ac" using assms(3) by (auto simp: ampl_inv_def)
  from assms(1) show ?thesis
  proof cases
    case (call a m g g' w1)
    then have "g = gs (regid_value self)" using ampl_pre_dispatch_eq [OF inv(1) call(1), of m self] by simp
    then obtain ac' where ac': "ampl_rel ch gs ac' w1" "ampl_ledger self g' gs ac'"
      using ampl_act_ledger [OF call(3) assms(2) inv(1)] inv(2) by blast
    show ?thesis
    proof (cases g')
      case None
      then show ?thesis using ac' call(4) by (auto simp: ampl_inv_def ampl_post_dispatch_def ampl_ledger_def)
    next
      case (Some x)
      have "db_laws (chain_db ch)" using assms(2) by (simp add: chain_laws_def)
      moreover have "set_object (chain_db ch) m a ampl_global_table x w1 = Inr w'" using call(4) Some by (simp add: ampl_post_dispatch_def)
      ultimately have "ampl_rel ch (gs(regid_value (gl_id x) := Some x)) ac' w'" by (rule ampl_set_global [OF _ ac'(1) call(1)])
      moreover have "gl_id x = self" using ac'(2) Some by (simp add: ampl_ledger_def)
      ultimately show ?thesis using ac'(2) Some unfolding ampl_inv_def
        by (intro exI [of _ "gs(regid_value self := Some x)"] exI [of _ ac']) (auto simp: ampl_ledger_def)
    qed
  next
    case environment
    then show ?thesis using ampl_rel_frame [OF inv(1)] inv(2) by (auto simp: ampl_inv_def)
  qed
qed

lemma ampl_inv_reachable:
  assumes "ampl_reachable ch self w" "chain_laws ch"
  shows "ampl_inv ch self w"
  using assms
proof induction
  case (start w)
  then show ?case unfolding ampl_inv_def by (intro exI conjI) (auto simp: ampl_ledger_def gons_def)
qed (blast intro: ampl_inv_step)

lemma ampl_read:
  assumes "ampl_rel ch gs ac w" "unat a + 1024 < 2 ^ 32"
  shows "mapr (aa_balance \<circ> snd) (get_object (chain_db ch) m a ampl_account_table (ampl_account_make v) w) = Inr (of_nat (gons ac v))"
proof (rule ampl_get_account [OF assms, of m v])
  fix y
  assume "get_object (chain_db ch) m a ampl_account_table (ampl_account_make v) w = Inr (ac v \<noteq> None, y)" "unat (aa_balance y) = gons ac v"
  moreover then have "of_nat (gons ac v) = aa_balance y" by (metis of_nat_unat ucast_id)
  ultimately show ?thesis by simp
qed

lemma unat_gons [simp]: "unat (of_nat (gons ac v) :: u64) = gons ac v"
  by (simp add: gons_def split: option.splits)

text \<open>The product of the two 128-bit values, cut to 64 bits.\<close>

lemma gon_value_eq:
  assumes "0 < sint (amount q)"
  shows "int (unat (gon_value x q)) = sint (amount q) * int (unat (gl_gons_per_fragment x)) mod 2 ^ 64"
proof -
  have "uint (of_int64 (amount q) :: u128) = sint (amount q)" using assms of_int64_uint [of "amount q"] by simp
  moreover have "uint (ucast (gl_gons_per_fragment x) :: u128) = uint (gl_gons_per_fragment x)" by (simp add: uint_up_ucast is_up)
  ultimately have "uint (gon_value x q) = sint (amount q) * uint (gl_gons_per_fragment x) mod 2 ^ 128 mod 2 ^ 64"
    by (simp add: gon_value_def mul_u128_def uint_word_ariths unsigned_ucast_eq take_bit_eq_mod)
  also have "\<dots> = sint (amount q) * uint (gl_gons_per_fragment x) mod 2 ^ 64"
    by (rule mod_mod_cancel) (simp add: le_imp_power_dvd)
  finally show ?thesis by simp
qed

text \<open>
  C17. Conservation of gons. In every state that calls of the elastic token reach, with each call
  loading the global variable, running one action and storing it, the balances of all accounts
  add up to the fixed number of gons, or to nothing before the initialisation. Changes of the
  supply leave the sum alone, and no addition to a balance wraps around.
\<close>
theorem ampl_conservation:
  assumes "chain_laws ch" "ampl_reachable ch self w" "unat a + 1024 < 2 ^ 32"
  shows "\<exists>g bal. ampl_pre_dispatch ch m a self None w = Inr (True, g)
    \<and> (\<forall>v. mapr (aa_balance \<circ> snd) (get_object (chain_db ch) m a ampl_account_table (ampl_account_make v) w) = Inr (bal v))
    \<and> (\<Sum>v\<in>UNIV. unat (bal v)) = (if g = None then 0 else unat total_gons)"
proof -
  obtain gs ac where inv: "ampl_rel ch gs ac w" "ampl_ledger self (gs (regid_value self)) gs ac"
    using ampl_inv_reachable [OF assms(2,1)] by (auto simp: ampl_inv_def)
  show ?thesis
    using ampl_read [OF inv(1) assms(3)] ampl_pre_dispatch_eq [OF inv(1) assms(3), of m self] inv(2) unfolding ampl_ledger_def
    by (intro exI [of _ "gs (regid_value self)"] exI [of _ "\<lambda>v. of_nat (gons ac v)"]) simp
qed

section \<open>A run\<close>

definition run_ampl :: "u64 \<Rightarrow> (ampl_global option \<times> (byte list \<Rightarrow> byte list)) res" where
  "run_ampl base_cpi = ampl_init (map_chain 5) (\<lambda>_. 0) 0 (Regid 9) (Regid 7) (Symbol_code 0x43) base_cpi (Regid 1) (Regid 2) (None, \<lambda>_. [])"

lemma ampl_first_call:
  obtains x w w' where "run_ampl 1 = Inr (Some x, w)" "ampl_post_dispatch (map_chain 5) (\<lambda>_. 0) 0 (Some x) w = Inr w'"
    "ampl_pre_dispatch (map_chain 5) (\<lambda>_. 0) 0 (Regid 9) None w' = Inr (True, Some x)" "ampl_reachable (map_chain 5) (Regid 9) w'"
proof -
  have db: "chain_db (map_chain 5) = map_database" by (simp add: map_chain_def)
  have room: "unat (0 :: u32) + 1024 < 2 ^ 32" by simp
  have start: "ampl_rel (map_chain 5) (\<lambda>_. None) (\<lambda>_. None) (\<lambda>_. [])"
    by (simp add: ampl_rel_def holds_objects_plain ampl_tables keyed_def found_def db map_database_def)
  have ledger: "ampl_ledger (Regid 9) None (\<lambda>_. None) (\<lambda>_. None)" by (simp add: ampl_ledger_def gons_def)
  have "mapr (map_option gl_base_cpi \<circ> fst) (run_ampl 1) = Inr (Some 1)" by code_simp
  then obtain x w where x: "run_ampl 1 = Inr (Some x, w)" by (rule result_market)
  obtain ac where ac: "ampl_rel (map_chain 5) (\<lambda>_. None) ac w" "ampl_ledger (Regid 9) (Some x) (\<lambda>_. None) ac"
    using ampl_init_ledger [OF x [unfolded run_ampl_def] map_chain_laws start ledger room] by blast
  have "holds_objects map_database ampl_global_table ampl_global_enc prim_enc (\<lambda>_. None) w" using ac(1) by (simp add: ampl_rel_def db)
  note set = ampl_globals.set_object_eq [OF ampl_tables(1) this room]
  obtain w' where "set_object map_database (\<lambda>_. 0) 0 ampl_global_table x w = Inr w'"
    using set [of "\<lambda>_. 0" x] by (auto simp: map_database_def)
  then have w: "ampl_post_dispatch (map_chain 5) (\<lambda>_. 0) 0 (Some x) w = Inr w'"
    "set_object (chain_db (map_chain 5)) (\<lambda>_. 0) 0 ampl_global_table x w = Inr w'"
    by (simp_all add: ampl_post_dispatch_def db)
  have "gl_id x = Regid 9" using ac(2) by (simp add: ampl_ledger_def)
  then have load: "ampl_pre_dispatch (map_chain 5) (\<lambda>_. 0) 0 (Regid 9) None w' = Inr (True, Some x)"
    using ampl_pre_dispatch_eq [OF ampl_set_global [OF _ ac(1) room w(2)] room] by (simp add: db map_database_laws)
  have "ampl_step (map_chain 5) (Regid 9) (\<lambda>_. []) w'"
    by (rule ampl_step.call [OF room ampl_pre_dispatch_eq [OF start room] ampl_act.init [OF room x [unfolded run_ampl_def]] w(1)])
  then have "ampl_reachable (map_chain 5) (Regid 9) w'" by (rule ampl_reachable.step [OF ampl_reachable.start [OF start]])
  from that [OF x w(1) load this] show thesis .
qed

theorem ampl_conservation_witness:
  "\<exists>g w w' bal. run_ampl 1 = Inr (g, w) \<and> ampl_post_dispatch (map_chain 5) (\<lambda>_. 0) 0 g w = Inr w'
    \<and> (\<forall>v. mapr (aa_balance \<circ> snd) (get_object map_database (\<lambda>_. 0) 0 ampl_account_table (ampl_account_make v) w') = Inr (bal v))
    \<and> (\<Sum>v\<in>UNIV. unat (bal v)) = 9220000000000000000"
proof -
  have db: "chain_db (map_chain 5) = map_database" by (simp add: map_chain_def)
  have room: "unat (0 :: u32) + 1024 < 2 ^ 32" by simp
  obtain x w w' where w: "run_ampl 1 = Inr (Some x, w)" "ampl_post_dispatch (map_chain 5) (\<lambda>_. 0) 0 (Some x) w = Inr w'"
    "ampl_pre_dispatch (map_chain 5) (\<lambda>_. 0) 0 (Regid 9) None w' = Inr (True, Some x)" "ampl_reachable (map_chain 5) (Regid 9) w'"
    by (rule ampl_first_call)
  from ampl_conservation [OF map_chain_laws w(4) room, of "\<lambda>_. 0"] w(1-3) show ?thesis unfolding db
    by (auto simp: total_gons_eq)
qed

text \<open>
  C30. The supply is never lowered. The difference of the exchange rate and its target is computed in
  unsigned 64 bits and divided by the lag in unsigned 64 bits, so with a lag of at least two a
  successful adjustment never lowers the supply, also when the exchange rate is below the target
  and the supply is meant to shrink.
\<close>
theorem ampl_rebase_never_lowers:
  assumes "ampl_rebase ch self (Some x, w) = Inr (g, w')" "2 \<le> gl_rebase_lag x"
  shows "\<exists>x'. g = Some x' \<and> w' = w \<and> sint (amount (gl_total_supply x)) \<le> sint (amount (gl_total_supply x'))"
proof -
  obtain y d x' where y: "gl_total_supply y = gl_total_supply x" "g = Some x'" "w' = w" "ampl_rebase_supply y (d div gl_rebase_lag x) = Inr x'"
    using assms(1) unfolding ampl_rebase_def by (simp only: ampl_elim) (elim exE conjE, simp, rule that [rotated 3], assumption, simp_all)
  have "unat (d div gl_rebase_lag x) \<le> unat d div 2"
    using assms(2) by (simp add: unat_div word_le_nat_alt div_le_mono2)
  then have "2 * unat (d div gl_rebase_lag x) \<le> unat d" by simp
  then have "unat (d div gl_rebase_lag x) < 9223372036854775808" using unat_u64_less [of d] by linarith
  then have "0 \<le> sint (d div gl_rebase_lag x)" by (simp add: sint_eq_unat)
  with y show ?thesis unfolding ampl_rebase_supply_def Let_def bindr_eq_Inr by (auto dest: signed64_Inr)
qed

theorem ampl_rebase_never_lowers_witness:
  "\<exists>x w x' w'. run_ampl 2 = Inr (Some x, w) \<and> get_oracle_data (gl_market_oracle x) < get_oracle_data (gl_cpi_oracle x) * gl_base_cpi x
    \<and> ampl_rebase ((map_chain 5)\<lparr>host_current_time := \<lambda>_. 100000\<rparr>) (Regid 9) (Some x, w) = Inr (Some x', w')
    \<and> sint (amount (gl_total_supply x)) \<le> sint (amount (gl_total_supply x')) \<and> sint (amount (gl_total_supply x')) = 619808135790318387"
proof -
  let ?ch = "(map_chain 5)\<lparr>host_current_time := \<lambda>_. 100000\<rparr>"
  have "mapr (map_option (\<lambda>x. (gl_base_cpi x, gl_rebase_lag x)) \<circ> fst) (run_ampl 2) = Inr (Some (2, 30))" by code_simp
  then obtain x w where x: "run_ampl 2 = Inr (Some x, w)" "gl_base_cpi x = 2" "gl_rebase_lag x = 30"
    by (rule result_market) simp
  have "mapr (map_option (\<lambda>x. sint (amount (gl_total_supply x))) \<circ> fst) (bindr (run_ampl 2) (ampl_rebase ?ch (Regid 9)))
      = Inr (Some 619808135790318387)" by code_simp
  then obtain x' w' where x': "ampl_rebase ?ch (Regid 9) (Some x, w) = Inr (Some x', w')" "sint (amount (gl_total_supply x')) = 619808135790318387"
    unfolding x(1) bindr_simps by (rule result_market)
  have "(2 :: u64) \<le> gl_rebase_lag x" using x(3) by simp
  from ampl_rebase_never_lowers [OF x'(1) this] x x' show ?thesis by (auto simp: get_oracle_data_def)
qed

text \<open>
  C31. A transfer moves the product of its quantity and the gons per unit, cut to 64 bits. In
  every state that calls of the elastic token reach, a successful transfer is authorised by the sender, and that
  number of gons leaves the sender, who has at least as many, and reaches the receiver without
  wrapping around; all other balances and the global variable stay. What exceeds 64 bits is lost: a
  quantity larger than the whole supply can move less than one unit.
\<close>
theorem ampl_transfer_moves:
  assumes "chain_laws ch" "ampl_reachable ch self w" "unat a + 1024 < 2 ^ 32"
    "ampl_pre_dispatch ch m a self None w = Inr (True, g)" "ampl_transfer ch m a from to q memo (g, w) = Inr (g', w')"
  shows "\<exists>x bal k. g = Some x \<and> g' = Some x \<and> from \<noteq> to \<and> require_auth ch from w = Inr () \<and> 0 < sint (amount q)
    \<and> int k = sint (amount q) * int (unat (gl_gons_per_fragment x)) mod 2 ^ 64
    \<and> k \<le> unat (bal (regid_value from)) \<and> unat (bal (regid_value to)) + k < 2 ^ 64
    \<and> (\<forall>v. mapr (aa_balance \<circ> snd) (get_object (chain_db ch) m a ampl_account_table (ampl_account_make v) w) = Inr (bal v))
    \<and> (\<forall>v. mapr (aa_balance \<circ> snd) (get_object (chain_db ch) m a ampl_account_table (ampl_account_make v) w') =
         Inr (if v = regid_value from then bal v - of_nat k else if v = regid_value to then bal v + of_nat k else bal v))"
proof -
  obtain gs ac where inv: "ampl_rel ch gs ac w" "ampl_ledger self (gs (regid_value self)) gs ac"
    using ampl_inv_reachable [OF assms(2,1)] by (auto simp: ampl_inv_def)
  have g: "gs (regid_value self) = g" using ampl_pre_dispatch_eq [OF inv(1) assms(3), of m self] assms(4) by simp
  let ?f = "regid_value from" and ?t = "regid_value to"
  obtain x ac' where t: "g = Some x" "g' = Some x" "ampl_rel ch gs ac' w'" "from \<noteq> to"
      "gons ac' = (gons ac)(?f := gons ac ?f - unat (gon_value x q), ?t := gons ac ?t + unat (gon_value x q))"
      "unat (gon_value x q) \<le> gons ac ?f" "gons ac ?t + unat (gon_value x q) \<le> unat total_gons"
    by (rule ampl_transfer_gons [OF assms(5,1) inv [unfolded g] assms(3)])
  have auth: "require_auth ch from w = Inr ()" "0 < sint (amount q)" by (rule ampl_transfer_Inr [OF assms(5)]; simp)+
  have "?f \<noteq> ?t" using t(4) by (auto simp: regid.expand)
  then have "of_nat (gons ac' v) = (if v = ?f then of_nat (gons ac v) - of_nat (unat (gon_value x q))
      else if v = ?t then of_nat (gons ac v) + of_nat (unat (gon_value x q)) else of_nat (gons ac v) :: u64)" for v
    using t(6) by (simp add: t(5) of_nat_diff)
  then show ?thesis
    using t(1,2,4,6,7) auth gon_value_eq [OF auth(2)] ampl_read [OF inv(1) assms(3)] ampl_read [OF t(3) assms(3)] total_gons_small
    by (intro exI [of _ x] exI [of _ "\<lambda>v. of_nat (gons ac v)"] exI [of _ "unat (gon_value x q)"]) simp
qed

theorem ampl_transfer_moves_witness:
  "\<exists>x w w' w'' bal. run_ampl 1 = Inr (Some x, w) \<and> ampl_post_dispatch (map_chain 5) (\<lambda>_. 0) 0 (Some x) w = Inr w'
    \<and> ampl_transfer (map_chain 5) (\<lambda>_. 0) 0 (Regid 7) (Regid 8) (tok 0x43 10003657306783922) ''memo'' (Some x, w') = Inr (Some x, w'')
    \<and> sint (amount (gl_total_supply x)) = 5000000000000000
    \<and> mapr (aa_balance \<circ> snd) (get_object map_database (\<lambda>_. 0) 0 ampl_account_table (ampl_account_make 8) w') = Inr bal
    \<and> mapr (aa_balance \<circ> snd) (get_object map_database (\<lambda>_. 0) 0 ampl_account_table (ampl_account_make 8) w'') = Inr (bal + 552)"
proof -
  have db: "chain_db (map_chain 5) = map_database" by (simp add: map_chain_def)
  have room: "unat (0 :: u32) + 1024 < 2 ^ 32" by simp
  obtain x w w' where w: "run_ampl 1 = Inr (Some x, w)" "ampl_post_dispatch (map_chain 5) (\<lambda>_. 0) 0 (Some x) w = Inr w'"
    "ampl_pre_dispatch (map_chain 5) (\<lambda>_. 0) 0 (Regid 9) None w' = Inr (True, Some x)" "ampl_reachable (map_chain 5) (Regid 9) w'"
    by (rule ampl_first_call)
  let ?run = "bindr (run_ampl 1) (\<lambda>(g, w). bindr (ampl_post_dispatch (map_chain 5) (\<lambda>_. 0) 0 g w) (\<lambda>w'.
     ampl_transfer (map_chain 5) (\<lambda>_. 0) 0 (Regid 7) (Regid 8) (tok 0x43 10003657306783922) ''memo'' (g, w')))"
  have "mapr (map_option (\<lambda>x. (sint (amount (gl_total_supply x)), gl_gons_per_fragment x)) \<circ> fst) ?run = Inr (Some (5000000000000000, 1844))" by code_simp
  then obtain x' w'' where run: "?run = Inr (Some x', w'')" "sint (amount (gl_total_supply x')) = 5000000000000000" "gl_gons_per_fragment x' = 1844"
    by (rule result_market) simp
  have t: "ampl_transfer (map_chain 5) (\<lambda>_. 0) 0 (Regid 7) (Regid 8) (tok 0x43 10003657306783922) ''memo'' (Some x, w') = Inr (Some x', w'')"
    using run(1) w(1,2) by simp
  have a: "sint (amount (tok 0x43 10003657306783922)) = 10003657306783922" by code_simp
  from ampl_transfer_moves [OF map_chain_laws w(4) room w(3) t] obtain bal k where p: "x' = x"
    "int k = sint (amount (tok 0x43 10003657306783922)) * int (unat (gl_gons_per_fragment x)) mod 2 ^ 64"
    "mapr (aa_balance \<circ> snd) (get_object map_database (\<lambda>_. 0) 0 ampl_account_table (ampl_account_make 8) w') = Inr (bal (8 :: u64))"
    "mapr (aa_balance \<circ> snd) (get_object map_database (\<lambda>_. 0) 0 ampl_account_table (ampl_account_make 8) w'') = Inr (bal 8 + of_nat k)"
    unfolding db by auto
  have "int k = 552" using p(1,2) run(3) a by simp
  then have "k = 552" by simp
  then show ?thesis using w(1,2) t p run(2) by auto
qed

end
