(* ===== verification/Spec2Isabelle.thy ===== *)
theory Spec2Isabelle
  imports Serialization Uint128 Fixed_Bytes Hash256 Token_Dispatch Malloc_Calls Simple_Malloc Db Time Extensions Crypto Rope Linker_Dispatch System Ampl_Ledger
begin

text \<open>
  Verification of the contract library of the WaykiChain WASM contract development kit,
  \<^verbatim>\<open>src/libraries/wasmlib\<close>, of four of its client contracts, the token contract
  \<^verbatim>\<open>src/examples/V4/token\<close>, the exchange \<^verbatim>\<open>src/examples/V4/uniswap\<close>, the token with elastic
  supply \<^verbatim>\<open>src/examples/V4/ampl\<close> and the index contract \<^verbatim>\<open>src/examples/V3/index\<close>, and of the entry point that the project's linker generates for
  contracts, \<^verbatim>\<open>createDispatchFunction\<close> of \<^verbatim>\<open>src/wasm_llvm/tools/lld/wasm/Writer.cpp\<close>.

  \<^bold>\<open>The program.\<close> A contract is a WebAssembly module that the chain calls at its entry
  point \<^verbatim>\<open>apply\<close>. The dispatcher reads the data of the action, unpacks the arguments of
  the handler and calls it; the handler keeps its state as rows of tables in the chain's
  key-value database, each row packed by the same serialization, and aborts by a failed
  \<^verbatim>\<open>check\<close>, which discards all its effects. The library provides the value types such
  contracts compute with: names, symbols, assets, account identities, digests, 128-bit
  integers, fixed byte arrays, variable-length integers, times and ropes, and the
  allocators that give them memory. Contracts call each other through inline transactions;
  the exchange calls its two tokens that way.

  \<^bold>\<open>Conventions.\<close> A computation that can abort has a result type: \<open>Inl (Assert msg)\<close> is a
  failed check, \<open>Inl (Undefined why)\<close> an operation that C++ leaves undefined (signed
  overflow, an oversized shift, a call that never returns), \<open>Inr\<close> a value. Integers are
  words of their width; signed ones are read by \<open>sint\<close>. Memory is a function from 32-bit
  addresses to bytes, as in the 32-bit WebAssembly target: pointers and \<^verbatim>\<open>size_t\<close> are
  32-bit words. Storage that the code allocates (a vector's buffer, a temporary string)
  is at an address that the operation takes as an argument, usually named \<open>a\<close>, with the
  memory \<open>m\<close> around it; theorems hold for every such address that leaves room for the
  object below \<open>2^32\<close>. Deserialisers take the old value of their destination. Host
  functions, which are not part of the repository, are fields of the records \<open>database\<close>,
  \<open>chain\<close>, \<open>platform\<close> (the allocator's) and of the record of hash functions; \<open>db_laws\<close>,
  \<open>chain_laws\<close>, \<open>chain_accepts\<close> and \<open>platform_laws\<close> state what is relied on, and instances such
  as \<open>map_database\<close> and \<open>map_chain\<close> satisfy them.

  \<^bold>\<open>Theories.\<close>

  \<^item> \<open>Prelude\<close>: results and their monad, word types, shared lemmas on words, lists and
    little-endian numbers, the collections of simplification rules.
  \<^item> \<open>Wasm_Check\<close> (\<^verbatim>\<open>core/check.hpp\<close>) and \<open>Memory\<close> (\<^verbatim>\<open>memory.cpp\<close>): checks; the four
    memory functions, with \<open>memmove\<close> and \<open>memcmp\<close> proved against their specification.
  \<^item> \<open>Datastream\<close>, \<open>Codec\<close>, \<open>Varint\<close>, \<open>Containers\<close>, \<open>Composites\<close>, \<open>Serialization\<close>
    (\<^verbatim>\<open>core/datastream.hpp\<close>, \<^verbatim>\<open>core/varint.hpp\<close>): the two stream classes, every stream
    operator, \<open>pack\<close> and \<open>unpack\<close>. The locale \<open>codec\<close> is the contract of a pair of stream
    operators: the wire format is written exactly, read back exactly, and no input makes
    the reader leave its buffer. It is interpreted for every type, and lifted through the
    containers, so round trips, prefix-freeness and bounds are proved once.
  \<^item> \<open>Name\<close>, \<open>Strings\<close>, \<open>Symbol\<close>, \<open>Asset\<close>, \<open>Uint128\<close>, \<open>Fixed_Bytes\<close>, \<open>Regid\<close>, \<open>Hash256\<close>
    (the files of the same names under \<^verbatim>\<open>core\<close>, and the name conversions of
    \<^verbatim>\<open>tools/include/wasm/utils.hpp\<close>): all conversions, comparisons and arithmetic.
    Shown are round trips between strings and values, exact characterisations of what is
    accepted, exactness and range invariants of asset arithmetic, the refinement of
    128-bit words by the class of two halves, termination and correctness of its
    division, and the deviations from the evident intent that the code has.
  \<^item> \<open>Table\<close> (\<^verbatim>\<open>contracts/table.hpp\<close>): the table class over the host database. The locale
    \<open>row_codec\<close>, an extension of \<open>codec\<close>, shows that tables refine maps.
  \<^item> \<open>Inline_Transaction\<close> (\<^verbatim>\<open>contracts/inline_transaction.hpp\<close>, \<^verbatim>\<open>return.hpp\<close>,
    \<^verbatim>\<open>make_log.hpp\<close>, part of \<^verbatim>\<open>wasmlib.cpp\<close>) and \<open>Dispatcher\<close> (\<^verbatim>\<open>contracts/contract.hpp\<close>,
    \<^verbatim>\<open>dispatcher.hpp\<close>): authorisation, notification, transactions, the entry point.
  \<^item> \<open>Token\<close> and \<open>Token_Dispatch\<close> (\<^verbatim>\<open>examples/V4/token\<close>): the seven actions and \<^verbatim>\<open>apply\<close>.
    The actions are steps of a transition relation; by rule induction the sum of all
    balances equals the supply in every reachable state. From it follow the effect of
    transfers, issue and retirement, and that an authorised, covered transfer never
    aborts. The last theorem composes serialization, dispatcher and actions.
  \<^item> \<open>Db\<close> (\<^verbatim>\<open>contracts/db.hpp\<close>, \<^verbatim>\<open>examples/V3/index\<close>): objects with secondary indices. The
    locale \<open>indexed_codec\<close> shows that they refine maps while secondary keys are unique; it is
    interpreted for the accounts of the index contract, the market of the exchange and both
    tables of the elastic token.
  \<^item> \<open>System\<close> (\<^verbatim>\<open>wasmlib.cpp\<close>, \<^verbatim>\<open>rpc/rpc.hpp\<close>): queries of the chain, emission of results.
  \<^item> \<open>Uniswap\<close> and \<open>Uniswap_Pool\<close> (\<^verbatim>\<open>examples/V4/uniswap\<close>): the eight actions and the dispatch
    hooks of the exchange. Shown are the correctness of its square root, that the market
    survives between actions, that minting does not dilute and burning pays at most the
    share, when a swap keeps the product of the reserves, and when one is
    accepted whose fee is credited.
  \<^item> \<open>Ampl\<close> and \<open>Ampl_Ledger\<close> (\<^verbatim>\<open>examples/V4/ampl\<close>): the seven actions and the dispatch hooks of the
    elastic token. Calls are steps of a transition relation; in every reachable state the
    balances add up to the fixed number of gons, and a transfer moves the cut product of
    its amount and the gons per unit. Changes of the supply never lower it, because its
    differences are unsigned.
  \<^item> \<open>Allocator\<close>, \<open>Malloc\<close>, \<open>Malloc_Chunks\<close>, \<open>Malloc_Heap\<close>, \<open>Malloc_Manager\<close>, \<open>Malloc_Calls\<close>
    (\<^verbatim>\<open>malloc.cpp\<close>) and \<open>Simple_Malloc\<close> (\<^verbatim>\<open>simple_malloc.cpp\<close>): the allocators on the linear
    memory. The locale \<open>allocator\<close> is the contract of \<^verbatim>\<open>malloc\<close> and \<^verbatim>\<open>free\<close>; its client lemma is
    that every sequence of calls and writes refines a store of separate blocks. Both
    allocators are interpretations.
  \<^item> \<open>Time\<close>, \<open>Extensions\<close>, \<open>Crypto\<close>, \<open>Rope\<close> (\<^verbatim>\<open>core/time.hpp\<close>, \<^verbatim>\<open>binary_extension.hpp\<close> and
    \<^verbatim>\<open>ignore.hpp\<close>, \<^verbatim>\<open>crypto.cpp\<close>, \<^verbatim>\<open>rope.hpp\<close>): times with their arithmetic, compatibility of
    extended structures, the hash wrappers, and ropes, whose shared nodes in a store refine
    strings for every program that builds them.
  \<^item> \<open>Linker_Dispatch\<close> (\<^verbatim>\<open>Writer.cpp\<close>, \<^verbatim>\<open>LEB128.h\<close>): the generated entry point as instructions
    and as bytes, with a validator, an interpreter and a decoder for them. The code is
    proved equal to a dispatch by first match, except for contracts with \<^verbatim>\<open>pre_dispatch\<close>, for
    which it is not terminated.

  \<^bold>\<open>Bounds and fuel.\<close> Loops of the source are structural recursion or functions with a
  termination proof, with these exceptions: \<open>symbol_to_string\<close> has fuel, and the theorem is
  that no fuel suffices when the precision is not zero; loops of the 128-bit division run
  under \<open>while_option\<close>, and those of the allocator and the rope are \<open>partial_function\<close>s, and
  all are proved to return where they are used. Round trips of containers hold up to the
  sizes the wire format can express (fewer than \<open>2^32\<close> elements, buffers below \<open>2^31\<close>
  bytes); \<open>row_codec\<close> and \<open>indexed_codec\<close> bound a row by 1024 bytes, more than any table here
  needs, so that the room for temporaries is one hypothesis \<open>unat a + 1024 < 2^32\<close>. The
  allocator's contract covers requests up to 2147483644 bytes, its largest chunk, and
  platforms whose memory stays within 32767 pages; ropes and generated function bodies
  are below 4 GiB. The bounds on the exchange hold for amounts of any size.

  \<^bold>\<open>Not modelled.\<close> Printing and formatting for output (host functions); floating point
  values; the serialization macros, whose expansions are the stream operators modelled for
  each class; \<^verbatim>\<open>privileged.hpp\<close> and \<^verbatim>\<open>producer_schedule.hpp\<close>, which declare host functions
  and plain structures; the ABI tools, which work on clang's syntax tree and JSON documents
  of third-party libraries; the compiler drivers; the remaining example contracts, among
  them the earlier V3 versions of token and exchange; and the vendored Boost, libc++, musl,
  wabt, jsoncons and LLVM.
\<close>

end
